(* ===== verification/Prelude.thy ===== *)
theory Prelude
  imports Main "HOL-Library.Word"
begin

text \<open>
  Shared vocabulary of the development: the C integer types as machine words, the
  \<^verbatim>\<open>named_theorems\<close> collections that the component theories extend, and the generic
  facts about words (loop counters, alignment, bytes) that their proofs use.
\<close>

unbundle bit_operations_syntax

subsection \<open>C integer types\<close>

type_synonym u8 = "8 word"
type_synonym u16 = "16 word"
type_synonym u32 = "32 word"
type_synonym u64 = "64 word"

text \<open>
  The collections: \<open>mem_frame\<close> holds rewrite rules that move a load past an unrelated
  store, \<open>align_simps\<close> the facts on aligned addresses.
\<close>

named_theorems mem_frame \<open>loads and bytes that a store does not change\<close>
named_theorems align_simps \<open>alignment of addresses\<close>

subsection \<open>Counting loops on unsigned words\<close>

text \<open>
  A C loop \<^verbatim>\<open>for (uint64_t i = a; i < n; i++)\<close> never wraps: inside the loop \<open>i < n\<close>, so
  \<open>i + 1\<close> is the successor. The distance \<open>unat (n - i)\<close> is the measure used by
  every such loop below.
\<close>

lemma unat_lt2p: "unat (x :: 'a::len word) < 2 ^ LENGTH('a)"
  by simp

lemma unat_neg: "d \<noteq> 0 \<Longrightarrow> unat (- d :: u64) = 2 ^ 64 - unat d"
  using unat_sub_if' [of 0 d] by (simp add: unat_eq_0)

lemma unat_add_le: "unat (x + y :: 'a::len word) \<le> unat x + unat y"
  by (simp add: unat_word_ariths)

lemma unat_add_exact:
  "unat x + unat y < 2 ^ LENGTH('a) \<Longrightarrow> unat (x + y :: 'a::len word) = unat x + unat y"
  by (simp add: unat_word_ariths)

lemma unat_Suc_less:
  fixes i n :: "'a::len word"
  assumes "i < n"
  shows "unat (i + 1) = Suc (unat i)"
proof -
  have "unat i < unat n" using assms by (simp add: word_less_nat_alt)
  then have "Suc (unat i) < 2 ^ LENGTH('a)" using unat_lt2p [of n] by linarith
  then show ?thesis by (simp add: unat_word_ariths)
qed

lemma word_loop_decr [termination_simp]:
  fixes i n :: "'a::len word"
  assumes "i < n"
  shows "unat (n - (i + 1)) < unat (n - i)"
proof -
  have i: "unat i < unat n" using assms by (simp add: word_less_nat_alt)
  have le: "i + 1 \<le> n" using i unat_Suc_less [OF assms] by (simp add: word_le_nat_alt)
  have "unat (n - (i + 1)) = unat n - Suc (unat i)"
    using le unat_Suc_less [OF assms] by (simp add: unat_sub)
  moreover have "unat (n - i) = unat n - unat i"
    using assms by (simp add: unat_sub order_less_imp_le)
  ultimately show ?thesis using i by simp
qed

lemma word_Suc_le:
  fixes i n :: "'a::len word"
  shows "i < n \<Longrightarrow> i + 1 \<le> n"
  using unat_Suc_less [of i n] by (simp add: word_less_nat_alt word_le_nat_alt)

lemma word_le_step:
  fixes i n y :: "'a::len word"
  assumes "i < n"
  shows "i \<le> y \<longleftrightarrow> y = i \<or> i + 1 \<le> y" and "i + 1 \<le> y \<Longrightarrow> i < y"
  using unat_Suc_less [OF assms] by (auto simp: word_le_nat_alt word_less_nat_alt word_unat_eq_iff)

lemma word_less_pred:
  fixes i y :: "'a::len word"
  assumes "0 < i"
  shows "y < i \<longleftrightarrow> y = i - 1 \<or> y < i - 1" and "i - 1 < i"
proof -
  have u: "unat (i - 1) = unat i - 1" and "0 < unat i"
    using assms by (auto simp: unat_minus_one word_gt_0 unat_gt_0)
  then show "y < i \<longleftrightarrow> y = i - 1 \<or> y < i - 1" and "i - 1 < i"
    by (auto simp: word_less_nat_alt word_unat_eq_iff)
qed

lemma word_atLeastLessThan_step:
  fixes i n :: "'a::len word"
  assumes "i < n"
  shows "{i..<n} = insert i {i + 1..<n}" and "i \<notin> {i + 1..<n}"
  using unat_Suc_less [OF assms] assms
  by (auto simp: word_less_nat_alt word_le_nat_alt word_unat_eq_iff)

lemma word_atLeastLessThan_empty [simp]:
  fixes i n :: "'a::len word"
  shows "\<not> i < n \<Longrightarrow> {i..<n} = {}"
  by simp

lemma card_word_interval:
  fixes a b :: "'a::len word"
  assumes "a \<le> b"
  shows "card {a..<b} = unat b - unat a"
proof -
  have "unat ` {a..<b} = {unat a..<unat b}"
  proof
    show "unat ` {a..<b} \<subseteq> {unat a..<unat b}"
      by (auto simp: word_less_nat_alt word_le_nat_alt)
    show "{unat a..<unat b} \<subseteq> unat ` {a..<b}"
    proof
      fix k assume k: "k \<in> {unat a..<unat b}"
      have "k < 2 ^ LENGTH('a)" using k unat_lt2p [of b] by (meson atLeastLessThan_iff less_trans)
      then have "unat (of_nat k :: 'a word) = k" by (simp add: unat_of_nat)
      with k show "k \<in> unat ` {a..<b}"
        by (auto simp: image_iff word_less_nat_alt word_le_nat_alt intro!: bexI [of _ "of_nat k"])
    qed
  qed
  moreover have "inj_on unat {a..<b}" by (auto simp: inj_on_def word_unat_eq_iff)
  ultimately show ?thesis by (metis card_image card_atLeastLessThan)
qed

subsection \<open>Aligned addresses\<close>

text \<open>\<open>aligned k a\<close>: the address \<open>a\<close> is a multiple of \<open>2 ^ k\<close>.\<close>

definition aligned :: "nat \<Rightarrow> u64 \<Rightarrow> bool" where
  "aligned k a \<longleftrightarrow> unat a mod 2 ^ k = 0"

lemma aligned_dvd: "aligned k a \<longleftrightarrow> 2 ^ k dvd unat a"
  by (simp add: aligned_def dvd_eq_mod_eq_0)

lemma aligned_take_bit: "aligned k a \<longleftrightarrow> take_bit k a = 0"
  by (simp only: aligned_def take_bit_eq_mod [symmetric] unat_eq_0 [symmetric] unsigned_take_bit_eq [symmetric])

lemma aligned_bit: "aligned k a \<Longrightarrow> i < k \<Longrightarrow> \<not> bit a i"
  by (metis aligned_take_bit bit_0_eq bit_take_bit_iff bot_apply bot_bool_def)

lemma alignedI: "(\<And>i. i < k \<Longrightarrow> \<not> bit a i) \<Longrightarrow> aligned k a"
  by (auto simp: aligned_take_bit bit_eq_iff bit_take_bit_iff)

lemma aligned_0 [simp]: "aligned k 0"
  by (simp add: aligned_def)

lemma aligned_mono: "aligned k a \<Longrightarrow> j \<le> k \<Longrightarrow> aligned j a"
  using aligned_bit by (auto intro: alignedI)

lemma aligned_large: "64 < k \<Longrightarrow> aligned k a \<Longrightarrow> a = 0"
  by (intro bit_word_eqI) (simp add: aligned_bit)

lemma aligned_add [intro]:
  assumes "aligned k a" and "aligned k b"
  shows "aligned k (a + b)"
proof (cases "64 < k")
  case True
  then have "a = 0" and "b = 0" using assms by (auto dest: aligned_large)
  then show ?thesis by simp
next
  case False
  then have "(2 :: nat) ^ k dvd 2 ^ 64" by (intro le_imp_power_dvd) simp
  moreover have "2 ^ k dvd (unat a + unat b)" using assms by (simp add: aligned_dvd)
  ultimately show ?thesis by (simp add: aligned_dvd unat_word_ariths dvd_mod)
qed

lemma aligned_sub [intro]:
  assumes "aligned k a" and "aligned k b"
  shows "aligned k (a - b)"
proof (cases "64 < k")
  case True
  then have "a = 0" and "b = 0" using assms by (auto dest: aligned_large)
  then show ?thesis by simp
next
  case False
  then have "(2 :: nat) ^ k dvd 2 ^ 64" by (intro le_imp_power_dvd) simp
  then show ?thesis
    using assms by (simp add: aligned_dvd unat_sub_if' dvd_diff_nat)
qed

lemma aligned_add_iff: "aligned k b \<Longrightarrow> aligned k (a + b) \<longleftrightarrow> aligned k a"
  by (metis add_diff_cancel_right' aligned_add aligned_sub)

text \<open>
  Adding a small offset to an aligned address is a disjunction of bits, so the address above
  the alignment does not change.
\<close>

lemma bit_less_exp:
  assumes "unat (d :: u64) < 2 ^ k" and "bit d n"
  shows "n < k"
proof -
  have "bit (unat d) n" using assms(2) by (simp add: bit_unsigned_iff)
  then have "unat d div 2 ^ n \<noteq> 0" by (auto simp: bit_iff_odd elim: oddE)
  then have "2 ^ n \<le> unat d" by (simp add: div_eq_0_iff not_less)
  then have "(2 :: nat) ^ n < 2 ^ k" using assms(1) by (rule le_less_trans)
  then show ?thesis by (rule power_less_imp_less_exp [rotated]) simp
qed

lemma aligned_plus_or:
  assumes "aligned k a" and "unat d < 2 ^ k"
  shows "a + d = a OR d"
proof -
  have "a AND d = 0"
    using aligned_bit [OF assms(1)] bit_less_exp [OF assms(2)]
    by (auto simp: bit_eq_iff bit_and_iff)
  then show ?thesis by (rule disjunctive_add_eq_or)
qed

lemma drop_bit_aligned_plus:
  assumes "aligned k a" and "unat d < 2 ^ k" and "k \<le> n"
  shows "drop_bit n (a + d) = drop_bit n a"
  unfolding aligned_plus_or [OF assms(1,2)]
  using bit_less_exp [OF assms(2)] assms(3)
  by (intro bit_word_eqI) (force simp: bit_simps)

lemma aligned_drop_bit_eq:
  assumes "aligned k a" and "aligned k b" and "drop_bit k a = drop_bit k b"
  shows "a = b"
proof (rule bit_eqI)
  fix n
  show "bit a n \<longleftrightarrow> bit b n"
  proof (cases "n < k")
    case True
    then show ?thesis using assms(1,2) by (simp add: aligned_bit)
  next
    case False
    then have "bit (drop_bit k a) (n - k) \<longleftrightarrow> bit (drop_bit k b) (n - k)" using assms(3) by simp
    then show ?thesis using False by (simp add: bit_drop_bit_eq)
  qed
qed

end
