(* ===== verification/Machine.thy ===== *)
theory Machine
  imports Prelude
begin

text \<open>
  The machine the kernel runs on, as far as its C code sees it: byte-addressed memory, the
  port-I/O instructions of \<^verbatim>\<open>arch/x86_64/io.h\<close> and the control registers that the paging
  and interrupt code touches. Memory is indexed by the kernel's virtual addresses; physical
  memory is reached at \<open>phys + hhdm\<close>, as in the source. Every component's static variables
  extend the record \<open>machine\<close>, so an operation of a lower layer applies unchanged to
  the state of a higher one.
\<close>

subsection \<open>Byte memory, little-endian loads and stores\<close>

type_synonym memory = "u64 \<Rightarrow> u8"

primrec load_le :: "nat \<Rightarrow> memory \<Rightarrow> u64 \<Rightarrow> 'a::len word" where
  "load_le 0 m a = 0"
| "load_le (Suc n) m a = ucast (m a) OR push_bit 8 (load_le n m (a + 1))"

definition store_le :: "nat \<Rightarrow> memory \<Rightarrow> u64 \<Rightarrow> 'a::len word \<Rightarrow> memory" where
  "store_le n m a v = (\<lambda>x. if unat (x - a) < n then ucast (drop_bit (8 * unat (x - a)) v) else m x)"

definition load32 :: "memory \<Rightarrow> u64 \<Rightarrow> u32" where "load32 m a = load_le 4 m a"
definition load64 :: "memory \<Rightarrow> u64 \<Rightarrow> u64" where "load64 m a = load_le 8 m a"
definition store32 :: "memory \<Rightarrow> u64 \<Rightarrow> u32 \<Rightarrow> memory" where "store32 m a v = store_le 4 m a v"
definition store64 :: "memory \<Rightarrow> u64 \<Rightarrow> u64 \<Rightarrow> memory" where "store64 m a v = store_le 8 m a v"

lemma bit_load_le:
  fixes m :: memory
  shows "bit (load_le n m a :: 'a::len word) k \<longleftrightarrow>
     k < LENGTH('a) \<and> k < 8 * n \<and> bit (m (a + of_nat (k div 8))) (k mod 8)"
proof (induction n arbitrary: a k)
  case 0
  then show ?case by simp
next
  case (Suc n)
  show ?case
  proof (cases "k < 8")
    case True
    then show ?thesis by (auto simp: bit_simps)
  next
    case False
    then obtain j where j: "k = 8 + j" by (metis le_add_diff_inverse not_less)
    have "bit (m a) k = False" using False by (auto dest: bit_imp_le_length)
    moreover have "bit (load_le n m (a + 1) :: 'a word) j \<longleftrightarrow>
        j < LENGTH('a) \<and> j < 8 * n \<and> bit (m (a + 1 + of_nat (j div 8))) (j mod 8)"
      by (rule Suc.IH)
    moreover have "(8 + j) div 8 = Suc (j div 8)" by simp
    ultimately show ?thesis
      by (auto simp: j bit_simps add.assoc)
  qed
qed

lemma load_le_cong:
  assumes "\<And>i. i < n \<Longrightarrow> m (a + of_nat i) = m' (a + of_nat i)"
  shows "load_le n m a = (load_le n m' a :: 'b::len word)"
  using assms
proof (induction n arbitrary: a)
  case 0
  then show ?case by simp
next
  case (Suc n)
  have "load_le n m (a + 1) = (load_le n m' (a + 1) :: 'b word)"
  proof (rule Suc.IH)
    fix i assume "i < n"
    then show "m (a + 1 + of_nat i) = m' (a + 1 + of_nat i)"
      using Suc.prems [of "Suc i"] by (simp add: add.assoc)
  qed
  moreover have "m a = m' a" using Suc.prems [of 0] by simp
  ultimately show ?case by simp
qed

lemma store_le_other: "n \<le> unat (x - a) \<Longrightarrow> store_le n m a v x = m x"
  by (simp add: store_le_def)

lemma load_store_same:
  fixes v :: "'a::len word"
  assumes "8 * n = LENGTH('a)" and "n \<le> 8"
  shows "load_le n (store_le n m a v) a = v"
proof (rule bit_word_eqI)
  fix k assume k: "k < LENGTH('a)"
  then have "k div 8 < n" using assms(1) by auto
  moreover have "unat (of_nat (k div 8) :: u64) = k div 8"
    using assms(2) \<open>k div 8 < n\<close> by (simp add: unat_of_nat)
  ultimately show "bit (load_le n (store_le n m a v) a :: 'a word) k \<longleftrightarrow> bit v k"
    using k assms(1) by (simp add: bit_load_le store_le_def bit_simps)
qed

text \<open>
  A load does not see a store whose bytes are elsewhere; addresses wrap around, so the two
  ranges are apart when both differences are large enough.
\<close>

lemma load_store_apart:
  assumes "unat (b - a) \<ge> n" and "unat (a - b) \<ge> k" and "n \<le> 8" and "k \<le> 8"
  shows "load_le k (store_le n m a v) b = load_le k m b"
proof (rule load_le_cong, rule store_le_other)
  fix i assume "i < k"
  have ab: "unat (a - b) = 2 ^ 64 - unat (b - a)"
  proof -
    have "b - a \<noteq> 0" using \<open>i < k\<close> assms(2) by (auto simp: unat_eq_0)
    then have "unat (- (b - a)) = 2 ^ 64 - unat (b - a)" by (rule unat_neg)
    then show ?thesis by simp
  qed
  have "unat (of_nat i :: u64) = i" using \<open>i < k\<close> assms(4) by (simp add: unat_of_nat)
  then have "unat ((b - a) + of_nat i) = unat (b - a) + i"
    using ab \<open>i < k\<close> assms(2) by (subst unat_add_exact) auto
  moreover have "(b - a) + of_nat i = b + of_nat i - a" by simp
  ultimately have "unat (b + of_nat i - a) = unat (b - a) + i" by simp
  then show "n \<le> unat (b + of_nat i - a)" using assms(1) by simp
qed

lemma load64_store64_same [simp]: "load64 (store64 m a v) a = v"
  by (simp add: load64_def store64_def load_store_same)

lemma load32_store32_same [simp]: "load32 (store32 m a v) a = v"
  by (simp add: load32_def store32_def load_store_same)

subsection \<open>Pages\<close>

text \<open>
  Most of the kernel's data structures stay inside one 4 KiB page (a free-list node, a page
  table, a slab). \<open>page a\<close> is the number of the page of \<open>a\<close>: a store changes no byte of
  another page, and loads of another page do not see it.
\<close>

definition page :: "u64 \<Rightarrow> u64" where
  "page a = drop_bit 12 a"

lemma page_offset: "aligned 12 a \<Longrightarrow> unat d < 4096 \<Longrightarrow> page (a + d) = page a"
  by (simp add: page_def drop_bit_aligned_plus)

lemma page_offset8: "aligned 3 a \<Longrightarrow> unat d < 8 \<Longrightarrow> page (a + d) = page a"
  unfolding page_def by (rule drop_bit_aligned_plus) auto

lemma page_eq_iff: "aligned 12 a \<Longrightarrow> aligned 12 b \<Longrightarrow> page a = page b \<longleftrightarrow> a = b"
  by (auto simp: page_def dest: aligned_drop_bit_eq)

lemma store64_page:
  assumes "aligned 3 a" and "page x \<noteq> page a"
  shows "store64 m a v x = m x"
proof -
  have "\<not> unat (x - a) < 8"
    using page_offset8 [OF assms(1), of "x - a"] assms(2) by auto
  then show ?thesis by (simp add: store64_def store_le_def)
qed

lemma store32_page:
  assumes "aligned 3 a" and "page x \<noteq> page a" and "unat d \<le> 4"
  shows "store32 m (a + d) v x = m x"
proof -
  have "\<not> unat (x - (a + d)) < 4"
  proof
    assume lt: "unat (x - (a + d)) < 4"
    then have "unat ((x - (a + d)) + d) < 8"
      using assms(3) unat_add_le [of "x - (a + d)" d] by linarith
    moreover have "a + ((x - (a + d)) + d) = x" by simp
    ultimately show False using page_offset8 [OF assms(1)] assms(2) by metis
  qed
  then show ?thesis by (simp add: store32_def store_le_def)
qed

lemma load64_page_cong:
  assumes "aligned 3 a" and "\<And>x. page x = page a \<Longrightarrow> m x = m' x"
  shows "load64 m a = load64 m' a"
  unfolding load64_def
proof (rule load_le_cong)
  fix i :: nat assume "i < 8"
  then have "page (a + of_nat i) = page a"
    by (intro page_offset8 [OF assms(1)]) (simp add: unat_of_nat)
  then show "m (a + of_nat i) = m' (a + of_nat i)" by (rule assms(2))
qed

lemma load32_page_cong:
  assumes "aligned 3 a" and "unat d \<le> 4" and "\<And>x. page x = page a \<Longrightarrow> m x = m' x"
  shows "load32 m (a + d) = load32 m' (a + d)"
  unfolding load32_def
proof (rule load_le_cong)
  fix i :: nat assume "i < 4"
  then have "unat (d + of_nat i) < 8"
    using assms(2) by (simp add: unat_of_nat unat_plus_if')
  then have "page (a + (d + of_nat i)) = page a" by (rule page_offset8 [OF assms(1)])
  then show "m (a + d + of_nat i) = m' (a + d + of_nat i)"
    using assms(3) by (simp add: add.assoc)
qed

lemma aligned_apart:
  assumes "aligned 3 a" and "aligned 3 b" and "a \<noteq> b"
  shows "8 \<le> unat (b - a)"
proof -
  have "8 dvd unat (b - a)" using aligned_sub [OF assms(2,1)] by (simp add: aligned_dvd)
  moreover have "unat (b - a) \<noteq> 0" using assms(3) by (simp add: unat_eq_0)
  ultimately show ?thesis by (simp add: dvd_imp_le)
qed

lemma load64_store64_other [mem_frame]:
  assumes "aligned 3 a" and "aligned 3 b" and "a \<noteq> b"
  shows "load64 (store64 m a v) b = load64 m b"
  unfolding load64_def store64_def
  using aligned_apart [OF assms] aligned_apart [OF assms(2,1)] assms(3)
  by (intro load_store_apart) auto

subsection \<open>The direct map\<close>

text \<open>
  The direct map at offset \<open>h\<close> reaches the first \<open>N\<close> frames without wrapping around.
\<close>

definition direct_map :: "u64 \<Rightarrow> nat \<Rightarrow> bool" where
  "direct_map h N \<longleftrightarrow> aligned 12 h \<and> unat h + N * 4096 \<le> 2 ^ 64"

text \<open>The frame a direct-map address belongs to.\<close>

definition dm_frame :: "u64 \<Rightarrow> u64 \<Rightarrow> nat" where
  "dm_frame h x = unat (x - h) div 4096"

lemma page_eq_near:
  assumes "page a = page b" and "aligned 12 b"
  shows "unat (a - b) < 4096"
proof -
  let ?d = "take_bit 12 a"
  have d: "unat ?d < 4096" by (simp add: take_bit_eq_mod unat_mod)
  have a: "a = push_bit 12 (drop_bit 12 a) + ?d" by (simp add: bits_ident)
  have al: "aligned 12 (push_bit 12 (drop_bit 12 a))" by (rule alignedI) (simp add: bit_simps)
  then have "page (push_bit 12 (drop_bit 12 a)) = page a" using a d by (metis page_offset)
  then have "push_bit 12 (drop_bit 12 a) = b" using al assms by (simp add: page_eq_iff)
  then have "a - b = ?d" using a by (metis add_diff_cancel_left')
  then show ?thesis using d by simp
qed

lemma dm_frame_page:
  assumes "aligned 12 p" and "aligned 12 h" and "page x = page (p + h)"
  shows "dm_frame h x = unat p div 4096"
proof -
  have d: "unat (x - (p + h)) < 4096"
    using assms by (intro page_eq_near) auto
  then have "page (p + (x - (p + h))) = page p" using assms(1) by (intro page_offset) auto
  then have "page (x - h) = page p" by simp
  then show ?thesis
    by (simp add: dm_frame_def page_def drop_bit_eq_div word_unat_eq_iff unat_div)
qed


subsection \<open>Port I/O and the CPU's control state\<close>

text \<open>
  A device answers a port read as a function of everything that was written to and read from
  the ports before: \<open>device\<close> is the hardware, a parameter of the model. The history
  itself is \<open>io_trace\<close>.
\<close>

datatype io_event = Outb u16 u8 | Inb u16 u8

record machine =
  mem :: memory
  io_trace :: "io_event list"
  device :: "io_event list \<Rightarrow> u16 \<Rightarrow> u8"
  cr2 :: u64
  cr3 :: u64
  rsp :: u64
  tlb_flushes :: "u64 list"

definition outb :: "u16 \<Rightarrow> u8 \<Rightarrow> 'a machine_scheme \<Rightarrow> 'a machine_scheme" where
  "outb port value s = s\<lparr>io_trace := io_trace s @ [Outb port value]\<rparr>"

definition inb :: "u16 \<Rightarrow> 'a machine_scheme \<Rightarrow> u8 \<times> 'a machine_scheme" where
  "inb port s = (let v = device s (io_trace s) port
     in (v, s\<lparr>io_trace := io_trace s @ [Inb port v]\<rparr>))"

definition io_wait :: "'a machine_scheme \<Rightarrow> 'a machine_scheme" where
  "io_wait s = outb 0x80 0 s"

text \<open>The bytes written to one port, in order.\<close>

fun port_writes :: "u16 \<Rightarrow> io_event list \<Rightarrow> u8 list" where
  "port_writes p [] = []"
| "port_writes p (Outb q v # es) = (if q = p then v # port_writes p es else port_writes p es)"
| "port_writes p (Inb q v # es) = port_writes p es"

lemma port_writes_append [simp]: "port_writes p (es @ fs) = port_writes p es @ port_writes p fs"
  by (induction p es rule: port_writes.induct) auto

text \<open>
  Why the kernel stops for good. An operation that can reach one of the source's halt loops
  (\<^verbatim>\<open>for (;;) hlt\<close>), or that dereferences a null pointer, returns \<open>Inl\<close> of the reason.
\<close>

datatype halt =
    NoBitmapRegion       \<comment> \<open>\<^verbatim>\<open>pmm_init\<close>: no usable region can hold the bitmap\<close>
  | VmmPanic string      \<comment> \<open>\<^verbatim>\<open>vmm_panic\<close>\<close>
  | NullDeref            \<comment> \<open>a store through a null pointer faults, and the fault handler halts\<close>
  | KernelHalt string    \<comment> \<open>\<^verbatim>\<open>hcf\<close> after an error line\<close>
  | CpuException u64     \<comment> \<open>\<^verbatim>\<open>isr_handler\<close> after its report, with the vector\<close>

end
