(* ===== verification/Cstring.thy ===== *)
theory Cstring
  imports Machine
begin

text \<open>
  The freestanding memory primitives of \<^verbatim>\<open>lib/string.c\<close>. Pointers are addresses, the byte
  loops run over a \<^verbatim>\<open>size_t\<close> counter, and each function returns the destination pointer (or
  the comparison) with the new memory. The lemmas give each its specification: which bytes
  change and to what, also where source and destination overlap.
\<close>

subsection \<open>Definitions\<close>

function memset_loop :: "u64 \<Rightarrow> u8 \<Rightarrow> u64 \<Rightarrow> u64 \<Rightarrow> memory \<Rightarrow> memory" where
  "memset_loop d v i count m =
     (if i < count then memset_loop d v (i + 1) count (m(d + i := v)) else m)"
  by pat_completeness auto
termination
  by (relation "measure (\<lambda>(d, v, i, count, m). unat (count - i))") (auto simp: word_loop_decr)

definition memset :: "u64 \<Rightarrow> u32 \<Rightarrow> u64 \<Rightarrow> memory \<Rightarrow> u64 \<times> memory" where
  "memset dest val count m = (dest, memset_loop dest (ucast val) 0 count m)"

function copy_up :: "u64 \<Rightarrow> u64 \<Rightarrow> u64 \<Rightarrow> u64 \<Rightarrow> memory \<Rightarrow> memory" where
  "copy_up d s i count m =
     (if i < count then copy_up d s (i + 1) count (m(d + i := m (s + i))) else m)"
  by pat_completeness auto
termination
  by (relation "measure (\<lambda>(d, s, i, count, m). unat (count - i))") (auto simp: word_loop_decr)

function copy_down :: "u64 \<Rightarrow> u64 \<Rightarrow> u64 \<Rightarrow> memory \<Rightarrow> memory" where
  "copy_down d s i m =
     (if i > 0 then copy_down d s (i - 1) (m(d + (i - 1) := m (s + (i - 1)))) else m)"
  by pat_completeness auto
termination
  by (relation "measure (\<lambda>(d, s, i, m). unat i)") (auto simp: unat_minus_one word_gt_0 unat_gt_0)

definition memcpy :: "u64 \<Rightarrow> u64 \<Rightarrow> u64 \<Rightarrow> memory \<Rightarrow> u64 \<times> memory" where
  "memcpy dest src count m = (dest, copy_up dest src 0 count m)"

definition memmove :: "u64 \<Rightarrow> u64 \<Rightarrow> u64 \<Rightarrow> memory \<Rightarrow> u64 \<times> memory" where
  "memmove dest src count m =
     (dest, if dest < src then copy_up dest src 0 count m
            else if dest > src then copy_down dest src count m
            else m)"

function memcmp_loop :: "u64 \<Rightarrow> u64 \<Rightarrow> u64 \<Rightarrow> u64 \<Rightarrow> memory \<Rightarrow> int" where
  "memcmp_loop a b i count m =
     (if i < count
      then if m (a + i) \<noteq> m (b + i) then uint (m (a + i)) - uint (m (b + i))
           else memcmp_loop a b (i + 1) count m
      else 0)"
  by pat_completeness auto
termination
  by (relation "measure (\<lambda>(a, b, i, count, m). unat (count - i))") (auto simp: word_loop_decr)

definition memcmp :: "u64 \<Rightarrow> u64 \<Rightarrow> u64 \<Rightarrow> memory \<Rightarrow> int" where
  "memcmp a b count m = memcmp_loop a b 0 count m"

declare memset_loop.simps [simp del] copy_up.simps [simp del] copy_down.simps [simp del]
  memcmp_loop.simps [simp del]

subsection \<open>Specification of the loops\<close>

lemma memset_loop_spec:
  "memset_loop d v i count m x = (if i \<le> x - d \<and> x - d < count then v else m x)"
proof (induction d v i count m rule: memset_loop.induct)
  case (1 d v i count m)
  show ?case
  proof (cases "i < count")
    case True
    have step: "i \<le> x - d \<longleftrightarrow> x = d + i \<or> i + 1 \<le> x - d"
      using word_le_step(1) [OF True, of "x - d"] by (auto simp: diff_eq_eq add.commute)
    have "x = d + i \<Longrightarrow> \<not> i + 1 \<le> x - d"
      using word_le_step(2) [OF True, of "x - d"] by auto
    then show ?thesis
      using True step "1.IH" [OF True] by (auto simp: memset_loop.simps [of d v i count m] fun_upd_def)
  next
    case False
    then show ?thesis by (auto simp: memset_loop.simps [of d v i count m])
  qed
qed

lemma memset_byte: "snd (memset d v count m) x = (if x - d < count then ucast v else m x)"
  by (simp add: memset_def memset_loop_spec)

text \<open>
  Copying upwards is right as long as no byte is read after it was overwritten: the
  destination of an earlier step is never the source of a later one.
\<close>

lemma copy_up_spec:
  assumes "\<And>i j. i < j \<Longrightarrow> j < count \<Longrightarrow> s + j \<noteq> d + i"
  shows "copy_up d s i count m x = (if i \<le> x - d \<and> x - d < count then m (s + (x - d)) else m x)"
  using assms
proof (induction d s i count m rule: copy_up.induct)
  case (1 d s i count m)
  show ?case
  proof (cases "i < count")
    case True
    let ?m = "m(d + i := m (s + i))"
    have step: "i \<le> x - d \<longleftrightarrow> x = d + i \<or> i + 1 \<le> x - d"
      and less: "i + 1 \<le> x - d \<Longrightarrow> i < x - d"
      using word_le_step [OF True, of "x - d"] by (auto simp: diff_eq_eq add.commute)
    have src: "?m (s + (x - d)) = m (s + (x - d))" if "i + 1 \<le> x - d" "x - d < count"
      using "1.prems" [OF less that(2)] that by simp
    have "x = d + i \<Longrightarrow> \<not> i + 1 \<le> x - d" using less by auto
    then show ?thesis
      using True step src "1.IH" [OF True "1.prems"]
      by (auto simp: copy_up.simps [of d s i count m] fun_upd_def)
  next
    case False
    then show ?thesis by (auto simp: copy_up.simps [of d s i count m])
  qed
qed

lemma copy_down_spec:
  assumes "\<And>j k. j < k \<Longrightarrow> k < i \<Longrightarrow> s + j \<noteq> d + k"
  shows "copy_down d s i m x = (if x - d < i then m (s + (x - d)) else m x)"
  using assms
proof (induction d s i m rule: copy_down.induct)
  case (1 d s i m)
  show ?case
  proof (cases "i > 0")
    case True
    let ?k = "i - 1"
    let ?m = "m(d + ?k := m (s + ?k))"
    have k: "?k < i" using True by (rule word_less_pred)
    have eq: "x - d = ?k \<longleftrightarrow> x = d + ?k" by (metis add.commute diff_eq_eq)
    have step: "x - d < i \<longleftrightarrow> x = d + ?k \<or> x - d < ?k"
      using word_less_pred(1) [OF True, of "x - d"] unfolding eq .
    have src: "?m (s + (x - d)) = m (s + (x - d))" if "x - d < ?k"
      using "1.prems" [OF that k] by simp
    have pre: "\<And>j k. j < k \<Longrightarrow> k < ?k \<Longrightarrow> s + j \<noteq> d + k"
      using "1.prems" k by (meson less_trans)
    show ?thesis
      unfolding copy_down.simps [of d s i m] step
      using True src eq "1.IH" [OF True pre] by (auto simp: fun_upd_def)
  next
    case False
    then have "i = 0" by (simp add: word_gt_0)
    then show ?thesis by (simp add: copy_down.simps [of d s 0 m])
  qed
qed

text \<open>
  The bytes of a range that does not wrap around the address space: \<open>no_wrap a n\<close>.
\<close>

definition no_wrap :: "u64 \<Rightarrow> u64 \<Rightarrow> bool" where
  "no_wrap a n \<longleftrightarrow> unat a + unat n \<le> 2 ^ 64"

lemma no_wrap_unat: "no_wrap a n \<Longrightarrow> i < n \<Longrightarrow> unat (a + i) = unat a + unat i"
  by (rule unat_add_exact) (simp add: no_wrap_def word_less_nat_alt)

lemma no_wrap_shift_neq:
  assumes "no_wrap d n" and "no_wrap s n" and "d < s" and "i < j" and "j < n"
  shows "s + j \<noteq> d + i"
proof
  assume eq: "s + j = d + i"
  have "unat s + unat j = unat d + unat i"
    using arg_cong [OF eq, of unat] no_wrap_unat [OF assms(2,5)]
      no_wrap_unat [OF assms(1) less_trans [OF assms(4,5)]] by simp
  then show False using assms(3,4) by (simp add: word_less_nat_alt)
qed

lemma memmove_byte:
  assumes "no_wrap d n" and "no_wrap s n"
  shows "snd (memmove d s n m) x = (if x - d < n then m (s + (x - d)) else m x)"
proof (rule linorder_cases [of d s])
  assume "d < s"
  then show ?thesis
    using copy_up_spec [of n s d 0 m x] no_wrap_shift_neq [OF assms] by (simp add: memmove_def)
next
  assume "d = s"
  then show ?thesis by (simp add: memmove_def)
next
  assume gt: "s < d"
  have "\<And>j k. j < k \<Longrightarrow> k < n \<Longrightarrow> s + j \<noteq> d + k"
    using no_wrap_shift_neq [OF assms(2,1) gt] by metis
  then have "copy_down d s n m x = (if x - d < n then m (s + (x - d)) else m x)"
    by (rule copy_down_spec)
  moreover have "\<not> d < s" using gt by simp
  ultimately show ?thesis using gt by (simp add: memmove_def)
qed

lemma memcpy_byte:
  assumes "\<And>i j. i < n \<Longrightarrow> j < n \<Longrightarrow> s + j \<noteq> d + i"
  shows "snd (memcpy d s n m) x = (if x - d < n then m (s + (x - d)) else m x)"
  using copy_up_spec [of n s d 0 m x] assms by (simp add: memcpy_def less_trans)

lemma memcmp_loop_zero:
  "memcmp_loop a b i n m = 0 \<longleftrightarrow> (\<forall>k. i \<le> k \<and> k < n \<longrightarrow> m (a + k) = m (b + k))"
proof (induction a b i n m rule: memcmp_loop.induct)
  case (1 a b i n m)
  show ?case
  proof (cases "i < n")
    case True
    have "uint (m (a + i)) = uint (m (b + i)) \<longleftrightarrow> m (a + i) = m (b + i)"
      by (simp add: word_uint_eq_iff)
    then show ?thesis
      using True "1.IH" [OF True] word_le_step(1) [OF True]
      by (auto simp: memcmp_loop.simps [of a b i n m])
  next
    case False
    then show ?thesis by (auto simp: memcmp_loop.simps [of a b i n m])
  qed
qed

lemma memcmp_loop_first:
  assumes "i \<le> k" and "k < n" and "m (a + k) \<noteq> m (b + k)"
    and "\<forall>j. i \<le> j \<and> j < k \<longrightarrow> m (a + j) = m (b + j)"
  shows "memcmp_loop a b i n m = uint (m (a + k)) - uint (m (b + k))"
  using assms
proof (induction a b i n m rule: memcmp_loop.induct)
  case (1 a b i n m)
  have i: "i < n" using "1.prems"(1,2) by simp
  show ?case
  proof (cases "i = k")
    case True
    then show ?thesis using i "1.prems"(3) by (simp add: memcmp_loop.simps [of a b k n m])
  next
    case False
    then have eq: "m (a + i) = m (b + i)" using "1.prems"(1,4) by simp
    have "i + 1 \<le> k" using False "1.prems"(1) by (intro word_Suc_le) simp
    then have "memcmp_loop a b (i + 1) n m = uint (m (a + k)) - uint (m (b + k))"
      using "1.IH" [OF i] eq "1.prems" word_le_step(2) [OF i] by (auto intro: order_less_imp_le)
    then show ?thesis using i eq by (simp add: memcmp_loop.simps [of a b i n m])
  qed
qed

text \<open>C39 (equivalence): for blocks that do not run over the end of the address space, \<open>memmove\<close> equals the copy through
  a buffer that reads every byte before it writes any, in whichever way the blocks overlap, changes no other byte
  and returns its destination; so does \<open>memcpy\<close> when the blocks are disjoint.\<close>

theorem memmove_correct:
  assumes "no_wrap d n" and "no_wrap s n"
  shows "memmove d s n m = (d, \<lambda>x. if x - d < n then m (s + (x - d)) else m x) \<and>
    ((\<forall>i < n. \<forall>j < n. s + j \<noteq> d + i) \<longrightarrow> memcpy d s n m = memmove d s n m)"
proof -
  have "fst (memmove d s n m) = d" "fst (memcpy d s n m) = d" by (simp_all add: memmove_def memcpy_def)
  moreover have "snd (memmove d s n m) = (\<lambda>x. if x - d < n then m (s + (x - d)) else m x)" using memmove_byte [OF assms] by (rule ext)
  moreover have "snd (memcpy d s n m) = (\<lambda>x. if x - d < n then m (s + (x - d)) else m x)" if "\<forall>i < n. \<forall>j < n. s + j \<noteq> d + i"
    by (rule ext, rule memcpy_byte) (use that in blast)
  ultimately show ?thesis by (simp add: prod_eq_iff)
qed

theorem memmove_correct_witness:
  "snd (memmove 0x1001 0x1000 2 ((\<lambda>_. 0)(0x1000 := 7, 0x1001 := 8))) 0x1002 = 8 \<and> snd (memmove 0x1000 0x1001 2 ((\<lambda>_. 0)(0x1001 := 7, 0x1002 := 8))) 0x1000 = 7"
  using memmove_correct [of "0x1001" 2 "0x1000" "(\<lambda>_. 0)(0x1000 := 7, 0x1001 := 8)"]
    memmove_correct [of "0x1000" 2 "0x1001" "(\<lambda>_. 0)(0x1001 := 7, 0x1002 := 8)"]
  by (simp add: no_wrap_def)

end
