(* ===== verification/Pmm.thy ===== *)
theory Pmm
  imports Cstring
begin

text \<open>
  The physical frame allocator of \<^verbatim>\<open>core/mm/pmm.c\<close>: one bit per 4 KiB frame (1 = used), kept
  in memory that the allocator carves out of the very regions it manages. The record
  \<open>pmm\<close> holds the file's static variables; the operations read and write the bitmap bytes
  through the machine's memory, at the width the source uses. The main results: an allocation
  hands out a frame that was free, and only when there is none returns 0; the counters agree
  with the bitmap after every operation; \<open>pmm_init\<close> frees exactly the usable frames
  outside its own bitmap.
\<close>

subsection \<open>Data: the bootloader's memory map and the allocator's state\<close>

text \<open>
  A memory-map entry as the Limine protocol documents it. The kernel only ever compares the
  type with \<^verbatim>\<open>LIMINE_MEMMAP_USABLE\<close>.
\<close>

datatype memmap_type = LIMINE_MEMMAP_USABLE | LIMINE_MEMMAP_OTHER u64

record memmap_entry =
  me_base :: u64
  me_length :: u64
  me_type :: memmap_type

record pmm = machine +
  bitmap :: u64
  bitmap_bytes :: u64
  total_frames :: u64
  usable_frames :: u64
  free_frames :: u64
  next_hint :: u64

definition PMM_FRAME_SIZE :: u64 where [simp]: "PMM_FRAME_SIZE = 4096"

subsection \<open>Bit helpers\<close>

definition bit_set :: "u64 \<Rightarrow> 'a pmm_scheme \<Rightarrow> 'a pmm_scheme" where
  "bit_set i s = (let a = bitmap s + i div 8
     in s\<lparr>mem := (mem s)(a := mem s a OR ucast (push_bit (unat (i mod 8)) (1 :: u32)))\<rparr>)"

definition bit_clear :: "u64 \<Rightarrow> 'a pmm_scheme \<Rightarrow> 'a pmm_scheme" where
  "bit_clear i s = (let a = bitmap s + i div 8
     in s\<lparr>mem := (mem s)(a := mem s a AND ucast (NOT (push_bit (unat (i mod 8)) (1 :: u32))))\<rparr>)"

definition bit_test :: "u64 \<Rightarrow> 'a pmm_scheme \<Rightarrow> bool" where
  "bit_test i s \<longleftrightarrow>
     (drop_bit (unat (i mod 8)) (ucast (mem s (bitmap s + i div 8)) :: u32)) AND 1 \<noteq> 0"

subsection \<open>Initialisation\<close>

text \<open>Pass 1: the highest address of any usable region.\<close>

fun highest_addr :: "memmap_entry list \<Rightarrow> u64 \<Rightarrow> u64" where
  "highest_addr [] highest = highest"
| "highest_addr (e # es) highest =
     (if me_type e \<noteq> LIMINE_MEMMAP_USABLE then highest_addr es highest
      else let top = me_base e + me_length e
           in highest_addr es (if top > highest then top else highest))"

text \<open>Pass 2: the base of the first usable region that can hold the bitmap, or 0.\<close>

fun bitmap_region :: "memmap_entry list \<Rightarrow> u64 \<Rightarrow> u64" where
  "bitmap_region [] bytes = 0"
| "bitmap_region (e # es) bytes =
     (if me_type e = LIMINE_MEMMAP_USABLE \<and> me_length e \<ge> bytes then me_base e
      else bitmap_region es bytes)"

text \<open>Pass 3: clear the bit of every usable frame and count it.\<close>

function clear_run :: "u64 \<Rightarrow> u64 \<Rightarrow> u64 \<Rightarrow> 'a pmm_scheme \<Rightarrow> 'a pmm_scheme" where
  "clear_run start f count s =
     (if f < count
      then let s' = bit_clear (start + f) s
           in clear_run start (f + 1) count (s'\<lparr>usable_frames := usable_frames s' + 1\<rparr>)
      else s)"
  by pat_completeness auto
termination
  by (relation "measure (\<lambda>(start, f, count, s). unat (count - f))") (auto simp: word_loop_decr)

fun clear_usable :: "memmap_entry list \<Rightarrow> 'a pmm_scheme \<Rightarrow> 'a pmm_scheme" where
  "clear_usable [] s = s"
| "clear_usable (e # es) s =
     (if me_type e \<noteq> LIMINE_MEMMAP_USABLE then clear_usable es s
      else clear_usable es
        (clear_run (me_base e div PMM_FRAME_SIZE) 0 (me_length e div PMM_FRAME_SIZE) s))"

text \<open>Pass 4: take the bitmap's own frames back.\<close>

function reserve_run :: "u64 \<Rightarrow> u64 \<Rightarrow> u64 \<Rightarrow> 'a pmm_scheme \<Rightarrow> 'a pmm_scheme" where
  "reserve_run first f count s =
     (if f < count
      then let s' = bit_set (first + f) s
           in reserve_run first (f + 1) count (s'\<lparr>free_frames := free_frames s' - 1\<rparr>)
      else s)"
  by pat_completeness auto
termination
  by (relation "measure (\<lambda>(first, f, count, s). unat (count - f))") (auto simp: word_loop_decr)

declare clear_run.simps [simp del] reserve_run.simps [simp del]

definition pmm_init :: "memmap_entry list \<Rightarrow> u64 \<Rightarrow> 'a pmm_scheme \<Rightarrow> halt + 'a pmm_scheme" where
  "pmm_init memmap hhdm_offset s =
     (let highest = highest_addr memmap 0;
          total = highest div PMM_FRAME_SIZE;
          bytes = (total + 7) div 8;
          s1 = s\<lparr>total_frames := total, bitmap_bytes := bytes\<rparr>;
          bitmap_phys = bitmap_region memmap bytes
      in if bitmap_phys = 0 then Inl NoBitmapRegion
         else
           let s2 = s1\<lparr>bitmap := bitmap_phys + hhdm_offset\<rparr>;
               s3 = s2\<lparr>mem := snd (memset (bitmap s2) 0xFF bytes (mem s2))\<rparr>;
               s4 = clear_usable memmap (s3\<lparr>usable_frames := 0\<rparr>);
               s5 = s4\<lparr>free_frames := usable_frames s4\<rparr>;
               bitmap_first = bitmap_phys div PMM_FRAME_SIZE;
               bitmap_count = (bytes + PMM_FRAME_SIZE - 1) div PMM_FRAME_SIZE;
               s6 = reserve_run bitmap_first 0 bitmap_count s5
           in Inr (s6\<lparr>next_hint := 0\<rparr>))"

subsection \<open>Allocate, free, claim, statistics\<close>

text \<open>The first-fit scan of one pass: the first clear bit of \<open>[i, end)\<close>.\<close>

function scan_free :: "u64 \<Rightarrow> u64 \<Rightarrow> 'a pmm_scheme \<Rightarrow> u64 option" where
  "scan_free i end s =
     (if i < end then if \<not> bit_test i s then Some i else scan_free (i + 1) end s else None)"
  by pat_completeness auto
termination
  by (relation "measure (\<lambda>(i, end, s). unat (end - i))") (auto simp: word_loop_decr)

declare scan_free.simps [simp del]

definition take_frame :: "u64 \<Rightarrow> 'a pmm_scheme \<Rightarrow> u64 \<times> 'a pmm_scheme" where
  "take_frame i s = (let s' = bit_set i s
     in (i * PMM_FRAME_SIZE, s'\<lparr>free_frames := free_frames s' - 1, next_hint := i + 1\<rparr>))"

definition pmm_alloc_frame :: "'a pmm_scheme \<Rightarrow> u64 \<times> 'a pmm_scheme" where
  "pmm_alloc_frame s =
     (if free_frames s = 0 then (0, s)
      else case scan_free (next_hint s) (total_frames s) s of
             Some i \<Rightarrow> take_frame i s
           | None \<Rightarrow> (case scan_free 0 (next_hint s) s of
                        Some i \<Rightarrow> take_frame i s
                      | None \<Rightarrow> (0, s)))"

definition pmm_free_frame :: "u64 \<Rightarrow> 'a pmm_scheme \<Rightarrow> 'a pmm_scheme" where
  "pmm_free_frame phys s =
     (let i = phys div PMM_FRAME_SIZE
      in if \<not> bit_test i s then s
         else let s1 = bit_clear i s;
                  s2 = s1\<lparr>free_frames := free_frames s1 + 1\<rparr>
              in if i < next_hint s2 then s2\<lparr>next_hint := i\<rparr> else s2)"

definition pmm_claim_frame :: "u64 \<Rightarrow> 'a pmm_scheme \<Rightarrow> bool \<times> 'a pmm_scheme" where
  "pmm_claim_frame phys s =
     (let i = phys div PMM_FRAME_SIZE
      in if i \<ge> total_frames s \<or> bit_test i s then (False, s)
         else let s' = bit_set i s in (True, s'\<lparr>free_frames := free_frames s' - 1\<rparr>))"

text \<open>The three figures \<^verbatim>\<open>(total, used, free)\<close> that \<open>pmm_get_stats\<close> writes.\<close>

definition pmm_get_stats :: "'a pmm_scheme \<Rightarrow> u64 \<times> u64 \<times> u64" where
  "pmm_get_stats s = (usable_frames s, usable_frames s - free_frames s, free_frames s)"

subsection \<open>The bitmap as a set of free frames\<close>

lemma bit_test_alt: "bit_test i s \<longleftrightarrow> bit (mem s (bitmap s + i div 8)) (unat (i mod 8))"
proof -
  have "unat (i mod 8) < 8" by (simp add: unat_mod)
  moreover have "(w :: u32) AND 1 \<noteq> 0 \<longleftrightarrow> bit w 0" for w
    by (simp add: and_one_eq bit_0 odd_iff_mod_2_eq_one)
  ultimately show ?thesis by (simp add: bit_test_def bit_simps)
qed

lemma bit_index_eq:
  fixes i j :: u64
  assumes "i div 8 = j div 8" and "unat (i mod 8) = unat (j mod 8)"
  shows "i = j"
proof -
  have "unat i div 8 = unat j div 8" "unat i mod 8 = unat j mod 8"
    using arg_cong [OF assms(1), of unat] assms(2) by (simp_all add: unat_div unat_mod)
  then have "unat i = unat j" by (metis div_mult_mod_eq)
  then show ?thesis by (simp add: word_unat_eq_iff)
qed

lemma bit_set_fields [simp]:
  "bitmap (bit_set i s) = bitmap s" "bitmap_bytes (bit_set i s) = bitmap_bytes s"
  "total_frames (bit_set i s) = total_frames s" "usable_frames (bit_set i s) = usable_frames s"
  "free_frames (bit_set i s) = free_frames s" "next_hint (bit_set i s) = next_hint s"
  by (simp_all add: bit_set_def Let_def)

lemma bit_clear_fields [simp]:
  "bitmap (bit_clear i s) = bitmap s" "bitmap_bytes (bit_clear i s) = bitmap_bytes s"
  "total_frames (bit_clear i s) = total_frames s" "usable_frames (bit_clear i s) = usable_frames s"
  "free_frames (bit_clear i s) = free_frames s" "next_hint (bit_clear i s) = next_hint s"
  by (simp_all add: bit_clear_def Let_def)

lemma bit_test_cong:
  "bitmap s' = bitmap s \<Longrightarrow> mem s' (bitmap s + i div 8) = mem s (bitmap s + i div 8) \<Longrightarrow>
   bit_test i s' = bit_test i s"
  by (simp add: bit_test_alt)

lemma bit_test_update [simp]:
  "bit_test i (s\<lparr>usable_frames := u\<rparr>) = bit_test i s"
  "bit_test i (s\<lparr>free_frames := u\<rparr>) = bit_test i s"
  "bit_test i (s\<lparr>next_hint := u\<rparr>) = bit_test i s"
  "bit_test i (s\<lparr>total_frames := u\<rparr>) = bit_test i s"
  by (simp_all add: bit_test_alt)

lemma bit_test_bit_set: "bit_test j (bit_set i s) \<longleftrightarrow> i = j \<or> bit_test j s"
proof (cases "i div 8 = j div 8")
  case True
  have u: "unat (i mod 8) < 8" "unat (j mod 8) < 8" by (simp_all add: unat_mod)
  have "unat (i mod 8) = unat (j mod 8) \<longleftrightarrow> i = j" using bit_index_eq [OF True] by auto
  then show ?thesis
    using True u by (auto simp: bit_test_alt bit_set_def Let_def bit_simps)
next
  case False
  then show ?thesis by (auto simp: bit_test_alt bit_set_def Let_def)
qed

lemma bit_test_bit_clear: "bit_test j (bit_clear i s) \<longleftrightarrow> i \<noteq> j \<and> bit_test j s"
proof (cases "i div 8 = j div 8")
  case True
  have u: "unat (i mod 8) < 8" "unat (j mod 8) < 8" by (simp_all add: unat_mod)
  have "unat (i mod 8) = unat (j mod 8) \<longleftrightarrow> i = j" using bit_index_eq [OF True] by auto
  then show ?thesis
    using True u by (auto simp: bit_test_alt bit_clear_def Let_def bit_simps)
next
  case False
  then show ?thesis by (auto simp: bit_test_alt bit_clear_def Let_def)
qed

text \<open>
  The abstract state: the set of free frame numbers. The bytes the allocator owns are those of
  its bitmap.
\<close>

definition free_set :: "'a pmm_scheme \<Rightarrow> u64 set" where
  "free_set s = {i. i < total_frames s \<and> \<not> bit_test i s}"

definition bitmap_range :: "'a pmm_scheme \<Rightarrow> u64 set" where
  "bitmap_range s = {x. x - bitmap s < bitmap_bytes s}"

text \<open>
  \<open>pmm_inv U s\<close>: the counters agree with the bitmap, where \<open>U\<close> is the set of usable frames
  the allocator manages. Frame 0 is never usable, so address 0 can be the out-of-memory value.
\<close>

definition pmm_inv :: "u64 set \<Rightarrow> 'a pmm_scheme \<Rightarrow> bool" where
  "pmm_inv U s \<longleftrightarrow>
     U \<subseteq> {0<..<total_frames s} \<and> free_set s \<subseteq> U \<and>
     unat (usable_frames s) = card U \<and> unat (free_frames s) = card (free_set s) \<and>
     next_hint s \<le> total_frames s \<and> unat (total_frames s) < 2 ^ 52 \<and>
     bitmap_bytes s = (total_frames s + 7) div 8"

lemma free_set_bit_set: "i < total_frames s \<Longrightarrow> free_set (bit_set i s) = free_set s - {i}"
  by (auto simp: free_set_def bit_test_bit_set)

lemma free_set_bit_clear: "i < total_frames s \<Longrightarrow> free_set (bit_clear i s) = insert i (free_set s)"
  by (auto simp: free_set_def bit_test_bit_clear)

lemma free_set_update [simp]:
  "free_set (s\<lparr>usable_frames := u\<rparr>) = free_set s" "free_set (s\<lparr>free_frames := u\<rparr>) = free_set s"
  "free_set (s\<lparr>next_hint := u\<rparr>) = free_set s"
  by (simp_all add: free_set_def)

lemma bitmap_byte_in_range:
  assumes "pmm_inv U s" and "i < total_frames s"
  shows "bitmap s + i div 8 \<in> bitmap_range s"
proof -
  have t: "unat (total_frames s) < 2 ^ 52" using assms(1) by (simp add: pmm_inv_def)
  have "unat (total_frames s + 7) = unat (total_frames s) + 7"
    using t by (subst unat_add_exact) auto
  then have "i div 8 < (total_frames s + 7) div 8"
    using assms(2) by (simp add: word_less_nat_alt unat_div)
  then show ?thesis using assms(1) by (simp add: bitmap_range_def pmm_inv_def)
qed

lemma bit_set_mem: "x \<noteq> bitmap s + i div 8 \<Longrightarrow> mem (bit_set i s) x = mem s x"
  by (simp add: bit_set_def Let_def)

lemma bit_clear_mem: "x \<noteq> bitmap s + i div 8 \<Longrightarrow> mem (bit_clear i s) x = mem s x"
  by (simp add: bit_clear_def Let_def)

text \<open>A change of memory outside the bitmap does not change what the allocator knows.\<close>

lemma pmm_frame:
  assumes "pmm_inv U s" and "\<And>x. x \<in> bitmap_range s \<Longrightarrow> m x = mem s x"
  shows "free_set (s\<lparr>mem := m\<rparr>) = free_set s" and "pmm_inv U (s\<lparr>mem := m\<rparr>)"
    and "bitmap_range (s\<lparr>mem := m\<rparr>) = bitmap_range s"
proof -
  have "bit_test i (s\<lparr>mem := m\<rparr>) = bit_test i s" if "i < total_frames s" for i
    using assms(2) [OF bitmap_byte_in_range [OF assms(1) that]] by (simp add: bit_test_alt)
  then show "free_set (s\<lparr>mem := m\<rparr>) = free_set s" by (auto simp: free_set_def)
  then show "pmm_inv U (s\<lparr>mem := m\<rparr>)" using assms(1) by (simp add: pmm_inv_def)
  show "bitmap_range (s\<lparr>mem := m\<rparr>) = bitmap_range s" by (simp add: bitmap_range_def)
qed

subsection \<open>The scan and the allocation\<close>

lemma scan_free_Some:
  "scan_free i n s = Some j \<Longrightarrow> i \<le> j \<and> j < n \<and> \<not> bit_test j s \<and> (\<forall>k. i \<le> k \<and> k < j \<longrightarrow> bit_test k s)"
proof (induction i n s rule: scan_free.induct)
  case (1 i n s)
  show ?case
  proof (cases "i < n")
    case True
    show ?thesis
    proof (cases "bit_test i s")
      case used: True
      have "scan_free (i + 1) n s = Some j"
        using "1.prems" True used by (simp add: scan_free.simps [of i n s])
      then show ?thesis
        using "1.IH" [OF True] used word_le_step [OF True]
        by (metis order_less_imp_le order_less_le_trans)
    next
      case False
      then have "j = i" using "1.prems" True by (simp add: scan_free.simps [of i n s])
      then show ?thesis using True False by auto
    qed
  next
    case False
    then show ?thesis using "1.prems" by (simp add: scan_free.simps [of i n s])
  qed
qed

lemma scan_free_None: "scan_free i n s = None \<Longrightarrow> i \<le> k \<Longrightarrow> k < n \<Longrightarrow> bit_test k s"
proof (induction i n s rule: scan_free.induct)
  case (1 i n s)
  have i: "i < n" using "1.prems"(2,3) by simp
  have used: "bit_test i s" using "1.prems"(1) i by (auto simp: scan_free.simps [of i n s] split: if_splits)
  then have "scan_free (i + 1) n s = None"
    using "1.prems"(1) i by (simp add: scan_free.simps [of i n s])
  then show ?case
    using "1.IH" [OF i] used "1.prems"(2,3) word_le_step(1) [OF i, of k] by auto
qed

lemma pmm_invD:
  assumes "pmm_inv U s"
  shows "U \<subseteq> {0<..<total_frames s}" "free_set s \<subseteq> U" "next_hint s \<le> total_frames s"
    "unat (usable_frames s) = card U" "unat (free_frames s) = card (free_set s)"
    "unat (total_frames s) < 2 ^ 52" "bitmap_bytes s = (total_frames s + 7) div 8"
  using assms by (auto simp: pmm_inv_def)

lemma pmm_inv_bounds:
  assumes "pmm_inv U s" and "f \<in> U"
  shows "f \<noteq> 0" and "f < total_frames s" and "unat f < 2 ^ 52"
  using pmm_invD(1,6) [OF assms(1)] assms(2) by (auto simp: word_less_nat_alt unat_gt_0)

lemma card_usable_bound:
  assumes "pmm_inv U s"
  shows "card U < 2 ^ 52"
proof -
  have "card U \<le> card {0<..<total_frames s}" using pmm_invD(1) [OF assms] by (intro card_mono) auto
  also have "\<dots> \<le> card {0..<total_frames s}" by (intro card_mono) auto
  also have "\<dots> = unat (total_frames s)" by (simp add: card_word_interval)
  finally show ?thesis using pmm_invD(6) [OF assms] by simp
qed

text \<open>
  Taking a free frame: the effect that \<open>pmm_alloc_frame\<close> and \<open>pmm_claim_frame\<close> share.
  \<open>h\<close> is the new hint.
\<close>

lemma take_bit_inv:
  assumes inv: "pmm_inv U s" and f: "f \<in> free_set s" and h: "h \<le> total_frames s"
    and s': "s' = (bit_set f s)\<lparr>free_frames := free_frames s - 1, next_hint := h\<rparr>"
  shows "pmm_inv U s'" and "free_set s' = free_set s - {f}"
proof -
  have lt: "f < total_frames s" using f by (simp add: free_set_def)
  show fs: "free_set s' = free_set s - {f}"
    using free_set_bit_set [OF lt] by (simp add: s')
  have "unat (free_frames s) \<noteq> 0"
    using f pmm_invD(5) [OF inv] by (auto simp: card_eq_0_iff)
  then have "unat (free_frames s - 1) = card (free_set s) - 1"
    using pmm_invD(5) [OF inv] by (subst unat_minus_one) auto
  also have "\<dots> = card (free_set s')" using f by (simp add: fs)
  finally have "unat (free_frames s') = card (free_set s')" by (simp add: s')
  then show "pmm_inv U s'"
    using pmm_invD [OF inv] fs h by (auto simp: pmm_inv_def s')
qed

lemma take_frame_spec:
  assumes "pmm_inv U s" and "f \<in> free_set s"
  shows "pmm_inv U (snd (take_frame f s))" and "free_set (snd (take_frame f s)) = free_set s - {f}"
    and "fst (take_frame f s) = f * 4096"
proof -
  have "f < total_frames s" using assms(2) by (simp add: free_set_def)
  then have "f + 1 \<le> total_frames s" by (rule word_Suc_le)
  note t = take_bit_inv [OF assms this, of "snd (take_frame f s)"]
  show "pmm_inv U (snd (take_frame f s))" and "free_set (snd (take_frame f s)) = free_set s - {f}"
    using t by (simp_all add: take_frame_def Let_def)
  show "fst (take_frame f s) = f * 4096" by (simp add: take_frame_def Let_def)
qed

lemma alloc_empty_frames:
  assumes "pmm_inv U s" and "free_set s = {}"
  shows "pmm_alloc_frame s = (0, s)"
proof -
  have "unat (free_frames s) = 0" using pmm_invD(5) [OF assms(1)] assms(2) by simp
  then show ?thesis by (simp add: pmm_alloc_frame_def unat_eq_0)
qed

text \<open>First fit: the scan starts at the hint and wraps.\<close>

lemma alloc_takes_free:
  assumes inv: "pmm_inv U s" and ne: "free_set s \<noteq> {}"
  obtains f where "f \<in> free_set s" and "pmm_alloc_frame s = take_frame f s"
    and "\<forall>g \<in> free_set s. (if f \<ge> next_hint s then next_hint s \<le> g \<longrightarrow> f \<le> g
                         else g < next_hint s \<and> f \<le> g)"
proof -
  have nz: "free_frames s \<noteq> 0"
    using ne pmm_invD(5) [OF inv] by (auto simp: card_eq_0_iff)
  show ?thesis
  proof (cases "scan_free (next_hint s) (total_frames s) s")
    case (Some f)
    note sc = scan_free_Some [OF Some]
    show ?thesis
    proof (rule that)
      show "f \<in> free_set s" using sc by (simp add: free_set_def)
      show "pmm_alloc_frame s = take_frame f s" using nz Some by (simp add: pmm_alloc_frame_def)
      show "\<forall>g \<in> free_set s. (if f \<ge> next_hint s then next_hint s \<le> g \<longrightarrow> f \<le> g
                         else g < next_hint s \<and> f \<le> g)"
        using sc by (auto simp: free_set_def not_less [symmetric])
    qed
  next
    case None
    then have lo: "g < next_hint s" if "g \<in> free_set s" for g
      using scan_free_None [OF None, of g] that by (auto simp: free_set_def not_less [symmetric])
    obtain f where f: "scan_free 0 (next_hint s) s = Some f"
      using ne lo scan_free_None [of 0 "next_hint s" s]
      by (metis (mono_tags, lifting) all_not_in_conv free_set_def mem_Collect_eq not_None_eq word_zero_le)
    note sc = scan_free_Some [OF f]
    show ?thesis
    proof (rule that)
      show "f \<in> free_set s" using sc pmm_invD(3) [OF inv] by (auto simp: free_set_def intro: order_less_le_trans)
      show "pmm_alloc_frame s = take_frame f s" using nz None f by (simp add: pmm_alloc_frame_def)
      show "\<forall>g \<in> free_set s. (if f \<ge> next_hint s then next_hint s \<le> g \<longrightarrow> f \<le> g
                         else g < next_hint s \<and> f \<le> g)"
        using sc lo by (auto simp: free_set_def not_less [symmetric])
    qed
  qed
qed

lemma frame_index: "unat f < 2 ^ 52 \<Longrightarrow> (f * 4096) div 4096 = (f :: u64)"
  by (simp add: word_unat_eq_iff unat_div unat_word_ariths)

lemma claim_free:
  assumes "pmm_inv U s" and "f \<in> free_set s"
  shows "fst (pmm_claim_frame (f * 4096) s)" and "pmm_inv U (snd (pmm_claim_frame (f * 4096) s))"
    and "free_set (snd (pmm_claim_frame (f * 4096) s)) = free_set s - {f}"
proof -
  have "f \<in> U" using assms pmm_invD(2) by blast
  then have i: "(f * 4096) div 4096 = f" using pmm_inv_bounds(3) [OF assms(1)] by (intro frame_index)
  have u: "\<not> total_frames s \<le> f" "\<not> bit_test f s" using assms(2) by (auto simp: free_set_def)
  note t = take_bit_inv [OF assms pmm_invD(3) [OF assms(1)], of "snd (pmm_claim_frame (f * 4096) s)"]
  have "(bit_set f s)\<lparr>free_frames := x, next_hint := next_hint s\<rparr> = (bit_set f s)\<lparr>free_frames := x\<rparr>" for x
    by (simp add: bit_set_def Let_def)
  then show "fst (pmm_claim_frame (f * 4096) s)" and "pmm_inv U (snd (pmm_claim_frame (f * 4096) s))"
    and "free_set (snd (pmm_claim_frame (f * 4096) s)) = free_set s - {f}"
    using i u t by (simp_all add: pmm_claim_frame_def Let_def)
qed

lemma claim_used:
  assumes "unat f < 2 ^ 52" and "f \<notin> free_set s"
  shows "pmm_claim_frame (f * 4096) s = (False, s)"
  using assms frame_index [OF assms(1)]
  by (auto simp: pmm_claim_frame_def free_set_def Let_def)

lemma free_used:
  assumes inv: "pmm_inv U s" and U: "f \<in> U" and used: "f \<notin> free_set s"
  shows "pmm_inv U (pmm_free_frame (f * 4096) s)"
    and "free_set (pmm_free_frame (f * 4096) s) = insert f (free_set s)"
proof -
  have i: "(f * 4096) div 4096 = f" using pmm_inv_bounds(3) [OF inv U] by (rule frame_index)
  have lt: "f < total_frames s" using pmm_inv_bounds(2) [OF inv U] .
  have t: "bit_test f s" using used lt by (simp add: free_set_def)
  let ?s = "pmm_free_frame (f * 4096) s"
  let ?h = "if f < next_hint s then f else next_hint s"
  have s': "?s = (bit_clear f s)\<lparr>free_frames := free_frames s + 1, next_hint := ?h\<rparr>"
    using i t by (simp add: pmm_free_frame_def Let_def bit_clear_def)
  show fs: "free_set ?s = insert f (free_set s)"
    using free_set_bit_clear [OF lt] by (simp add: s')
  have "card (free_set s) \<le> card U" using pmm_invD(2) [OF inv] by (intro card_mono) auto
  then have "unat (free_frames s + 1) = card (free_set s) + 1"
    using card_usable_bound [OF inv] pmm_invD(5) [OF inv] by (subst unat_add_exact) auto
  then have "unat (free_frames ?s) = card (free_set ?s)" using used fs by (simp add: s')
  then show "pmm_inv U ?s"
    using pmm_invD [OF inv] fs U lt by (auto simp: pmm_inv_def s' intro: order_less_imp_le)
qed

lemma free_free:
  assumes "pmm_inv U s" and "f \<in> free_set s"
  shows "pmm_free_frame (f * 4096) s = s"
proof -
  have "f \<in> U" using assms pmm_invD(2) by blast
  then have "(f * 4096) div 4096 = f" using pmm_inv_bounds(3) [OF assms(1)] by (intro frame_index)
  then show ?thesis using assms(2) by (simp add: pmm_free_frame_def free_set_def Let_def)
qed

text \<open>Memory outside the bitmap is never written, and the bitmap does not move.\<close>

lemma take_frame_mem:
  assumes "pmm_inv U s" and "f \<in> free_set s" and "x \<notin> bitmap_range s"
  shows "mem (snd (take_frame f s)) x = mem s x"
proof -
  have "f < total_frames s" using assms(2) by (simp add: free_set_def)
  then have "x \<noteq> bitmap s + f div 8" using bitmap_byte_in_range [OF assms(1)] assms(3) by blast
  then show ?thesis by (simp add: take_frame_def Let_def bit_set_mem)
qed

lemma alloc_mem:
  assumes "pmm_inv U s" and "x \<notin> bitmap_range s"
  shows "mem (snd (pmm_alloc_frame s)) x = mem s x"
proof (cases "free_set s = {}")
  case True
  then show ?thesis by (simp add: alloc_empty_frames [OF assms(1)])
next
  case False
  then show ?thesis
    using alloc_takes_free [OF assms(1) False] take_frame_mem [OF assms(1) _ assms(2)] by metis
qed

lemma claim_mem:
  assumes "pmm_inv U s" and "x \<notin> bitmap_range s"
  shows "mem (snd (pmm_claim_frame p s)) x = mem s x"
proof (cases "total_frames s \<le> p div 4096 \<or> bit_test (p div 4096) s")
  case True
  then show ?thesis by (auto simp: pmm_claim_frame_def Let_def)
next
  case False
  then have "x \<noteq> bitmap s + (p div 4096) div 8"
    using bitmap_byte_in_range [OF assms(1), of "p div 4096"] assms(2) by (auto simp: not_le)
  then show ?thesis by (auto simp: pmm_claim_frame_def Let_def bit_set_mem)
qed

lemma alloc_fields:
  "bitmap (snd (pmm_alloc_frame s)) = bitmap s"
  "bitmap_bytes (snd (pmm_alloc_frame s)) = bitmap_bytes s"
  "total_frames (snd (pmm_alloc_frame s)) = total_frames s"
  "usable_frames (snd (pmm_alloc_frame s)) = usable_frames s"
  by (auto simp: pmm_alloc_frame_def take_frame_def Let_def split: option.splits)

lemma claim_fields:
  "bitmap (snd (pmm_claim_frame p s)) = bitmap s"
  "bitmap_bytes (snd (pmm_claim_frame p s)) = bitmap_bytes s"
  "total_frames (snd (pmm_claim_frame p s)) = total_frames s"
  "usable_frames (snd (pmm_claim_frame p s)) = usable_frames s"
  by (auto simp: pmm_claim_frame_def Let_def)

lemma alloc_bitmap_range [simp]: "bitmap_range (snd (pmm_alloc_frame s)) = bitmap_range s"
  by (simp add: bitmap_range_def alloc_fields)

lemma claim_bitmap_range [simp]: "bitmap_range (snd (pmm_claim_frame p s)) = bitmap_range s"
  by (simp add: bitmap_range_def claim_fields)

subsection \<open>The interface the upper layers rely on\<close>

text \<open>
  What paging and the buddy allocator use of the frame allocator: an allocation gives a free
  frame or 0, a claim takes one given frame, a release returns it, and none of them writes
  outside the allocator's own bytes.
\<close>

locale frame_allocator =
  fixes alloc :: "'s \<Rightarrow> u64 \<times> 's"
    and claim :: "u64 \<Rightarrow> 's \<Rightarrow> bool \<times> 's"
    and release :: "u64 \<Rightarrow> 's \<Rightarrow> 's"
    and frames :: "'s \<Rightarrow> u64 set"
    and invar :: "u64 set \<Rightarrow> 's \<Rightarrow> bool"
    and memory_of :: "'s \<Rightarrow> memory"
    and own_bytes :: "'s \<Rightarrow> u64 set"
  assumes frames_usable: "invar U s \<Longrightarrow> frames s \<subseteq> U"
    and usable_bound: "invar U s \<Longrightarrow> f \<in> U \<Longrightarrow> f \<noteq> 0 \<and> unat f < 2 ^ 52"
    and alloc_none: "invar U s \<Longrightarrow> frames s = {} \<Longrightarrow> alloc s = (0, s)"
    and alloc_frame: "invar U s \<Longrightarrow> frames s \<noteq> {} \<Longrightarrow>
      \<exists>f \<in> frames s. fst (alloc s) = f * 4096 \<and> frames (snd (alloc s)) = frames s - {f}"
    and invar_alloc: "invar U s \<Longrightarrow> invar U (snd (alloc s))"
    and claim_frame: "invar U s \<Longrightarrow> f \<in> frames s \<Longrightarrow>
      fst (claim (f * 4096) s) \<and> frames (snd (claim (f * 4096) s)) = frames s - {f} \<and>
      invar U (snd (claim (f * 4096) s))"
    and claim_refused: "invar U s \<Longrightarrow> unat f < 2 ^ 52 \<Longrightarrow> f \<notin> frames s \<Longrightarrow>
      claim (f * 4096) s = (False, s)"
    and release_frame: "invar U s \<Longrightarrow> f \<in> U \<Longrightarrow> f \<notin> frames s \<Longrightarrow>
      frames (release (f * 4096) s) = insert f (frames s) \<and> invar U (release (f * 4096) s)"
    and release_twice: "invar U s \<Longrightarrow> f \<in> frames s \<Longrightarrow> release (f * 4096) s = s"
    and alloc_own_bytes: "invar U s \<Longrightarrow> x \<notin> own_bytes s \<Longrightarrow> memory_of (snd (alloc s)) x = memory_of s x"
    and own_bytes_alloc: "own_bytes (snd (alloc s)) = own_bytes s"
    and claim_own_bytes: "invar U s \<Longrightarrow> x \<notin> own_bytes s \<Longrightarrow>
      memory_of (snd (claim p s)) x = memory_of s x"
    and own_bytes_claim: "own_bytes (snd (claim p s)) = own_bytes s"
begin

lemma frame_nonzero: "invar U s \<Longrightarrow> f \<in> U \<Longrightarrow> f * 4096 \<noteq> 0"
  using usable_bound [of U s f] frame_index [of f] by (metis div_0)

lemma alloc_result:
  assumes "invar U s" and "fst (alloc s) \<noteq> 0"
  obtains f where "f \<in> frames s" and "fst (alloc s) = f * 4096"
    and "frames (snd (alloc s)) = frames s - {f}"
  using assms alloc_none [of U s] alloc_frame [of U s] by (metis fst_conv)

lemma alloc_zero_iff: "invar U s \<Longrightarrow> fst (alloc s) = 0 \<longleftrightarrow> frames s = {}"
  by (metis alloc_frame alloc_none frame_nonzero frames_usable fst_conv subsetD)

lemma frame_injective:
  "invar U s \<Longrightarrow> f \<in> U \<Longrightarrow> g \<in> U \<Longrightarrow> f * 4096 = g * 4096 \<Longrightarrow> f = g"
  by (metis frame_index usable_bound)

lemma alloc_release:
  assumes "invar U s" and "fst (alloc s) \<noteq> 0"
  shows "frames (release (fst (alloc s)) (snd (alloc s))) = frames s"
proof -
  obtain f where f: "f \<in> frames s" "fst (alloc s) = f * 4096" "frames (snd (alloc s)) = frames s - {f}"
    using alloc_result [OF assms] by blast
  have "f \<in> U" using f(1) frames_usable [OF assms(1)] by blast
  then show ?thesis
    using release_frame [OF invar_alloc [OF assms(1)], of f] f by auto
qed

end

text \<open>A sequence of \<open>n\<close> allocations.\<close>

primrec alloc_many :: "('s \<Rightarrow> u64 \<times> 's) \<Rightarrow> nat \<Rightarrow> 's \<Rightarrow> u64 list \<times> 's" where
  "alloc_many alloc 0 s = ([], s)"
| "alloc_many alloc (Suc n) s =
     (let (p, s1) = alloc s; (ps, s2) = alloc_many alloc n s1 in (p # ps, s2))"

context frame_allocator
begin

lemma alloc_many_distinct:
  assumes "invar U s" and "n \<le> card (frames s)" and "finite (frames s)"
  shows "\<exists>fs. fst (alloc_many alloc n s) = map (\<lambda>f. f * 4096) fs \<and> distinct fs \<and>
    set fs \<subseteq> frames s \<and> length fs = n"
  using assms
proof (induction n arbitrary: s)
  case 0
  then show ?case by simp
next
  case (Suc n)
  then have "frames s \<noteq> {}" by auto
  then obtain f where f: "f \<in> frames s" "fst (alloc s) = f * 4096" "frames (snd (alloc s)) = frames s - {f}"
    using alloc_frame [OF Suc.prems(1)] by blast
  obtain fs where fs: "fst (alloc_many alloc n (snd (alloc s))) = map (\<lambda>f. f * 4096) fs" "distinct fs"
    "set fs \<subseteq> frames (snd (alloc s))" "length fs = n"
    using Suc.IH [OF invar_alloc [OF Suc.prems(1)]] Suc.prems(2,3) f by fastforce
  have "fst (alloc_many alloc (Suc n) s) = map (\<lambda>f. f * 4096) (f # fs)"
    using f(2) fs(1) by (auto simp: case_prod_beta Let_def)
  then show ?case using f fs by (intro exI [of _ "f # fs"]) auto
qed

end

interpretation pmm: frame_allocator pmm_alloc_frame pmm_claim_frame pmm_free_frame free_set pmm_inv mem bitmap_range
proof
  fix U and s :: "'a pmm_scheme"
  assume inv: "pmm_inv U s" and "free_set s \<noteq> {}"
  then obtain f where "f \<in> free_set s" "pmm_alloc_frame s = take_frame f s"
    by (blast elim: alloc_takes_free)
  then show "\<exists>f \<in> free_set s. fst (pmm_alloc_frame s) = f * 4096 \<and>
      free_set (snd (pmm_alloc_frame s)) = free_set s - {f}"
    using take_frame_spec [OF inv] by auto
next
  fix U and s :: "'a pmm_scheme"
  assume inv: "pmm_inv U s"
  show "pmm_inv U (snd (pmm_alloc_frame s))"
  proof (cases "free_set s = {}")
    case True
    then show ?thesis using inv by (simp add: alloc_empty_frames)
  next
    case False
    then obtain f where "f \<in> free_set s" "pmm_alloc_frame s = take_frame f s"
      using alloc_takes_free [OF inv] by blast
    then show ?thesis using take_frame_spec(1) [OF inv] by simp
  qed
qed (auto simp: pmm_invD alloc_empty_frames claim_free claim_used free_used free_free alloc_mem
      claim_mem dest: pmm_inv_bounds)

subsection \<open>Initialisation\<close>

text \<open>
  What the Limine protocol documents of the memory map it hands over: usable regions are
  4 KiB-aligned in base and length, lie above the first page, do not overlap and fit the address
  space.
\<close>

definition usable :: "memmap_entry \<Rightarrow> bool" where
  "usable e \<longleftrightarrow> me_type e = LIMINE_MEMMAP_USABLE"

definition entry_ok :: "memmap_entry \<Rightarrow> bool" where
  "entry_ok e \<longleftrightarrow> aligned 12 (me_base e) \<and> aligned 12 (me_length e) \<and>
     0x1000 \<le> me_base e \<and> unat (me_base e) + unat (me_length e) < 2 ^ 64"

definition entries_apart :: "memmap_entry \<Rightarrow> memmap_entry \<Rightarrow> bool" where
  "entries_apart e e' \<longleftrightarrow>
     unat (me_base e) + unat (me_length e) \<le> unat (me_base e') \<or>
     unat (me_base e') + unat (me_length e') \<le> unat (me_base e)"

primrec limine_memmap :: "memmap_entry list \<Rightarrow> bool" where
  "limine_memmap [] \<longleftrightarrow> True"
| "limine_memmap (e # es) \<longleftrightarrow> limine_memmap es \<and>
     (usable e \<longrightarrow> entry_ok e \<and> list_all (\<lambda>e'. usable e' \<longrightarrow> entries_apart e e') es)"

definition entry_frames :: "memmap_entry \<Rightarrow> u64 set" where
  "entry_frames e = {f. f - me_base e div 4096 < me_length e div 4096}"

definition usable_set :: "memmap_entry list \<Rightarrow> u64 set" where
  "usable_set mm = (\<Union>e \<in> set (filter usable mm). entry_frames e)"

definition bitmap_frames :: "u64 \<Rightarrow> u64 \<Rightarrow> u64 set" where
  "bitmap_frames phys bytes = {f. f - phys div 4096 < (bytes + 4096 - 1) div 4096}"

lemma clear_run_test:
  "bit_test j (clear_run start f count s) \<longleftrightarrow>
     bit_test j s \<and> \<not> (f \<le> j - start \<and> j - start < count)"
proof (induction start f count s rule: clear_run.induct)
  case (1 start f count s)
  show ?case
  proof (cases "f < count")
    case True
    have eq: "j - start = f \<longleftrightarrow> start + f = j" by auto
    show ?thesis
      using True "1.IH" [OF True refl] word_le_step [OF True, of "j - start"] eq
      by (auto simp: clear_run.simps [of start f count s] Let_def bit_test_bit_clear)
  next
    case False
    then show ?thesis by (auto simp: clear_run.simps [of start f count s])
  qed
qed

lemma clear_run_fields:
  "bitmap (clear_run start f count s) = bitmap s \<and>
   bitmap_bytes (clear_run start f count s) = bitmap_bytes s \<and>
   total_frames (clear_run start f count s) = total_frames s \<and>
   (f \<le> count \<longrightarrow> usable_frames (clear_run start f count s) = usable_frames s + (count - f))"
proof (induction start f count s rule: clear_run.induct)
  case (1 start f count s)
  show ?case
  proof (cases "f < count")
    case True
    then show ?thesis
      using "1.IH" [OF True refl] word_Suc_le [OF True]
      by (simp add: clear_run.simps [of start f count s] Let_def)
  next
    case False
    then have "clear_run start f count s = s" by (simp add: clear_run.simps [of start f count s])
    then show ?thesis using False by auto
  qed
qed

lemma reserve_run_test:
  "bit_test j (reserve_run first f count s) \<longleftrightarrow>
     bit_test j s \<or> (f \<le> j - first \<and> j - first < count)"
proof (induction first f count s rule: reserve_run.induct)
  case (1 first f count s)
  show ?case
  proof (cases "f < count")
    case True
    have eq: "j - first = f \<longleftrightarrow> first + f = j" by auto
    show ?thesis
      using True "1.IH" [OF True refl] word_le_step [OF True, of "j - first"] eq
      by (auto simp: reserve_run.simps [of first f count s] Let_def bit_test_bit_set)
  next
    case False
    then show ?thesis by (auto simp: reserve_run.simps [of first f count s])
  qed
qed

lemma reserve_run_fields:
  "bitmap (reserve_run first f count s) = bitmap s \<and>
   bitmap_bytes (reserve_run first f count s) = bitmap_bytes s \<and>
   total_frames (reserve_run first f count s) = total_frames s \<and>
   usable_frames (reserve_run first f count s) = usable_frames s \<and>
   (f \<le> count \<longrightarrow> free_frames (reserve_run first f count s) = free_frames s - (count - f))"
proof (induction first f count s rule: reserve_run.induct)
  case (1 first f count s)
  show ?case
  proof (cases "f < count")
    case True
    then show ?thesis
      using "1.IH" [OF True refl] word_Suc_le [OF True]
      by (simp add: reserve_run.simps [of first f count s] Let_def)
  next
    case False
    then have "reserve_run first f count s = s" by (simp add: reserve_run.simps [of first f count s])
    then show ?thesis using False by auto
  qed
qed

lemma clear_usable_test:
  "bit_test j (clear_usable mm s) \<longleftrightarrow> bit_test j s \<and> j \<notin> usable_set mm"
  by (induction mm s rule: clear_usable.induct)
    (auto simp: usable_set_def usable_def entry_frames_def clear_run_test)

lemma clear_usable_fields:
  "bitmap (clear_usable mm s) = bitmap s \<and> bitmap_bytes (clear_usable mm s) = bitmap_bytes s \<and>
   total_frames (clear_usable mm s) = total_frames s \<and>
   usable_frames (clear_usable mm s) =
     usable_frames s + (\<Sum>e\<leftarrow>filter usable mm. me_length e div 4096)"
  by (induction mm s rule: clear_usable.induct) (auto simp: usable_def clear_run_fields add.assoc)

text \<open>The frames of one region, as an interval of frame numbers.\<close>

lemma entry_frames_bound:
  assumes "entry_ok e" and "f \<in> entry_frames e"
  shows "unat (me_base e) \<le> unat f * 4096" and "unat f * 4096 + 4096 \<le> unat (me_base e) + unat (me_length e)"
    and "0 < f"
proof -
  let ?b = "unat (me_base e)" and ?l = "unat (me_length e)"
  have dv: "4096 dvd ?b" "4096 dvd ?l" and lim: "?b + ?l < 2 ^ 64" and lo: "4096 \<le> ?b"
    using assms(1) by (auto simp: entry_ok_def aligned_dvd word_le_nat_alt)
  let ?k = "f - me_base e div 4096"
  have k: "unat ?k < ?l div 4096"
    using assms(2) by (simp add: entry_frames_def word_less_nat_alt unat_div)
  then have "?b div 4096 + unat ?k < 2 ^ 64" using lim dv by (auto elim!: dvdE)
  then have "unat (me_base e div 4096 + ?k) = ?b div 4096 + unat ?k"
    by (subst unat_add_exact) (auto simp: unat_div)
  then have uf: "unat f = ?b div 4096 + unat ?k" by simp
  show "?b \<le> unat f * 4096" and "unat f * 4096 + 4096 \<le> ?b + ?l"
    using uf k dv by (auto elim!: dvdE)
  show "0 < f" using uf lo dv by (auto simp: word_less_nat_alt elim!: dvdE)
qed

lemma card_offset_set: "card {f :: u64. f - a < n} = unat n"
proof -
  have "{f. f - a < n} = (\<lambda>k. k + a) ` {0..<n}"
    by (auto simp: image_iff intro!: bexI [of _ "_ - a"])
  then have "card {f. f - a < n} = card {0..<n}" by (simp add: card_image)
  then show ?thesis by (simp add: card_word_interval)
qed

lemma entry_frames_disjoint:
  assumes "entry_ok e" and "entry_ok e'" and "entries_apart e e'"
  shows "entry_frames e \<inter> entry_frames e' = {}"
proof (rule ccontr)
  assume "entry_frames e \<inter> entry_frames e' \<noteq> {}"
  then obtain f where "f \<in> entry_frames e" "f \<in> entry_frames e'" by blast
  then show False
    using entry_frames_bound [OF assms(1)] entry_frames_bound [OF assms(2)] assms(3)
    by (fastforce simp: entries_apart_def)
qed

lemma limine_memmap_entry: "limine_memmap mm \<Longrightarrow> e \<in> set mm \<Longrightarrow> usable e \<Longrightarrow> entry_ok e"
  by (induction mm) auto

lemma card_usable_set:
  "limine_memmap mm \<Longrightarrow> card (usable_set mm) = (\<Sum>e\<leftarrow>filter usable mm. unat (me_length e div 4096))"
proof (induction mm)
  case Nil
  then show ?case by (simp add: usable_set_def)
next
  case (Cons e mm)
  show ?case
  proof (cases "usable e")
    case True
    have split: "usable_set (e # mm) = entry_frames e \<union> usable_set mm"
      using True by (auto simp: usable_set_def)
    have "entry_frames e \<inter> entry_frames e' = {}" if "e' \<in> set mm" "usable e'" for e'
      using Cons.prems True that limine_memmap_entry [of mm e']
      by (intro entry_frames_disjoint) (auto simp: list_all_iff)
    then have "entry_frames e \<inter> usable_set mm = {}" by (auto simp: usable_set_def)
    then have "card (usable_set (e # mm)) = card (entry_frames e) + card (usable_set mm)"
      unfolding split by (intro card_Un_disjoint) auto
    then show ?thesis using Cons True by (simp add: entry_frames_def card_offset_set)
  next
    case False
    then have "usable_set (e # mm) = usable_set mm" by (auto simp: usable_set_def)
    then show ?thesis using Cons False by simp
  qed
qed

lemma unat_sum_list:
  "(\<Sum>x\<leftarrow>xs. unat (f x)) < 2 ^ 64 \<Longrightarrow> unat (\<Sum>x\<leftarrow>xs. f x :: u64) = (\<Sum>x\<leftarrow>xs. unat (f x))"
  by (induction xs) (auto simp: unat_add_exact)

lemma highest_addr_start: "h \<le> highest_addr mm h"
  by (induction mm h rule: highest_addr.induct)
    (auto simp: Let_def intro: order_trans order_less_imp_le)

lemma highest_addr_ge:
  "e \<in> set mm \<Longrightarrow> usable e \<Longrightarrow> me_base e + me_length e \<le> highest_addr mm h"
proof (induction mm h rule: highest_addr.induct)
  case (1 h)
  then show ?case by simp
next
  case (2 e' es h)
  let ?top = "me_base e' + me_length e'"
  show ?case
  proof (cases "e = e'")
    case True
    have "?top \<le> highest_addr es (if ?top > h then ?top else h)"
      using highest_addr_start [of "if ?top > h then ?top else h" es]
      by (auto split: if_splits intro: order_trans)
    then show ?thesis using True "2.prems"(2) by (simp add: usable_def Let_def)
  next
    case False
    then show ?thesis using 2 by (auto simp: usable_def Let_def)
  qed
qed

lemma highest_addr_exact:
  "highest_addr mm h = h \<or> (\<exists>e \<in> set mm. usable e \<and> highest_addr mm h = me_base e + me_length e)"
proof (induction mm h rule: highest_addr.induct)
  case (1 h)
  then show ?case by simp
next
  case (2 e es h)
  then show ?case by (auto simp: usable_def Let_def split: if_splits)
qed

lemma bitmap_region_spec:
  "bitmap_region mm bytes \<noteq> 0 \<Longrightarrow>
   \<exists>e \<in> set mm. usable e \<and> bytes \<le> me_length e \<and> bitmap_region mm bytes = me_base e"
  by (induction mm bytes rule: bitmap_region.induct) (auto simp: usable_def split: if_splits)

lemma bitmap_region_zero:
  "limine_memmap mm \<Longrightarrow> bitmap_region mm bytes = 0 \<longleftrightarrow> (\<forall>e \<in> set mm. usable e \<longrightarrow> me_length e < bytes)"
proof (induction mm)
  case Nil
  then show ?case by simp
next
  case (Cons e mm)
  have "usable e \<Longrightarrow> me_base e \<noteq> 0" using Cons.prems by (auto simp: entry_ok_def)
  then show ?case using Cons by (auto simp: usable_def not_le)
qed

lemma bit_all_ones: "bit (255 :: int) k \<longleftrightarrow> k < 8"
proof -
  have "(255 :: int) = mask 8" by (simp add: mask_eq_exp_minus_1)
  then show ?thesis by (simp only: bit_mask_iff) auto
qed

text \<open>The sizes \<open>pmm_init\<close> computes: frames the bitmap spans and bytes it takes.\<close>

definition init_total :: "memmap_entry list \<Rightarrow> u64" where
  "init_total mm = highest_addr mm 0 div 4096"

definition init_bytes :: "memmap_entry list \<Rightarrow> u64" where
  "init_bytes mm = (init_total mm + 7) div 8"

lemma init_total_bound: "unat (init_total mm) < 2 ^ 52"
  using unat_lt2p [of "highest_addr mm 0"] by (simp add: init_total_def unat_div less_mult_imp_div_less)

lemma init_bytes_unat: "unat (init_bytes mm) = (unat (init_total mm) + 7) div 8"
  using init_total_bound [of mm] unat_add_exact [of "init_total mm" 7]
  by (simp add: init_bytes_def unat_div)

lemma usable_set_bound:
  assumes "limine_memmap mm"
  shows "usable_set mm \<subseteq> {0<..<init_total mm}"
proof
  fix f assume "f \<in> usable_set mm"
  then obtain e where e: "e \<in> set mm" "usable e" "f \<in> entry_frames e" by (auto simp: usable_set_def)
  have ok: "entry_ok e" using limine_memmap_entry [OF assms e(1,2)] .
  then have "unat (me_base e + me_length e) = unat (me_base e) + unat (me_length e)"
    by (intro unat_add_exact) (simp add: entry_ok_def)
  moreover have "unat (me_base e + me_length e) \<le> unat (highest_addr mm 0)"
    using highest_addr_ge [OF e(1,2)] by (simp add: word_le_nat_alt)
  ultimately have "unat f * 4096 + 4096 \<le> unat (highest_addr mm 0)"
    using entry_frames_bound(2) [OF ok e(3)] by simp
  then have "unat f < unat (init_total mm)" by (simp add: init_total_def unat_div)
  then show "f \<in> {0<..<init_total mm}"
    using entry_frames_bound(3) [OF ok e(3)] by (simp add: word_less_nat_alt)
qed

lemma bitmap_frames_usable:
  assumes "limine_memmap mm" and "bitmap_region mm (init_bytes mm) \<noteq> 0"
  shows "bitmap_frames (bitmap_region mm (init_bytes mm)) (init_bytes mm) \<subseteq> usable_set mm"
proof -
  let ?b = "init_bytes mm"
  obtain e where e: "e \<in> set mm" "usable e" "?b \<le> me_length e" "bitmap_region mm ?b = me_base e"
    using bitmap_region_spec [OF assms(2)] by blast
  have "4096 dvd unat (me_length e)"
    using limine_memmap_entry [OF assms(1) e(1,2)] by (simp add: entry_ok_def aligned_dvd)
  moreover have "unat ?b \<le> unat (me_length e)" using e(3) by (simp add: word_le_nat_alt)
  moreover have "unat (?b + 4096 - 1) = unat ?b + 4095"
    using init_bytes_unat [of mm] init_total_bound [of mm] unat_add_exact [of 4095 ?b] by simp
  ultimately have "(?b + 4096 - 1) div 4096 \<le> me_length e div 4096"
    by (auto simp: word_le_nat_alt unat_div elim!: dvdE)
  then have "bitmap_frames (bitmap_region mm ?b) ?b \<subseteq> entry_frames e"
    by (auto simp: bitmap_frames_def entry_frames_def e(4) intro: order_less_le_trans)
  then show ?thesis using e(1,2) by (auto simp: usable_set_def)
qed

lemma pmm_init_spec:
  assumes mm: "limine_memmap mm" and init: "pmm_init mm hhdm s = Inr s'"
  shows "pmm_inv (usable_set mm) s'"
    and "free_set s' = usable_set mm - bitmap_frames (bitmap s' - hhdm) (bitmap_bytes s')"
    and "bitmap s' = bitmap_region mm (init_bytes mm) + hhdm" and "bitmap_bytes s' = init_bytes mm"
    and "total_frames s' = init_total mm"
proof -
  let ?T = "init_total mm" and ?B = "init_bytes mm"
  let ?P = "bitmap_region mm ?B" and ?C = "(?B + 4096 - 1) div 4096"
  have P: "?P \<noteq> 0" using init by (auto simp: pmm_init_def Let_def init_bytes_def init_total_def)
  define s3 where "s3 = s\<lparr>total_frames := ?T, bitmap_bytes := ?B, bitmap := ?P + hhdm,
     mem := snd (memset (?P + hhdm) 0xFF ?B (mem s)), usable_frames := 0\<rparr>"
  define s4 where "s4 = clear_usable mm s3"
  define s5 where "s5 = s4\<lparr>free_frames := usable_frames s4\<rparr>"
  have s': "s' = (reserve_run (?P div 4096) 0 ?C s5)\<lparr>next_hint := 0\<rparr>"
    using init P by (simp add: pmm_init_def Let_def init_bytes_def init_total_def s3_def s4_def s5_def)
  note f4 = clear_usable_fields [of mm s3, folded s4_def]
  note f6 = reserve_run_fields [of "?P div 4096" 0 ?C s5]
  have fields: "bitmap s' = ?P + hhdm" "bitmap_bytes s' = ?B" "total_frames s' = ?T"
    "usable_frames s' = (\<Sum>e\<leftarrow>filter usable mm. me_length e div 4096)"
    "free_frames s' = usable_frames s' - ?C"
    using f4 f6 by (auto simp: s' s5_def s3_def)
  have painted: "bit_test i s3" if "i < ?T" for i
  proof -
    have "i div 8 < ?B"
      using that init_bytes_unat [of mm] by (simp add: word_less_nat_alt unat_div)
    moreover have "unat (i mod 8) < 8" by (simp add: unat_mod)
    ultimately show ?thesis by (simp add: bit_test_alt s3_def memset_byte bit_all_ones)
  qed
  let ?F = "bitmap_frames ?P ?B"
  have test: "bit_test i s' \<longleftrightarrow> i \<notin> usable_set mm \<or> i \<in> ?F" if "i < ?T" for i
    using painted [OF that] reserve_run_test [of i "?P div 4096" 0 ?C s5]
    by (simp add: s' s5_def s4_def clear_usable_test bitmap_frames_def)
  show free: "free_set s' = usable_set mm - bitmap_frames (bitmap s' - hhdm) (bitmap_bytes s')"
    using usable_set_bound [OF mm] test by (auto simp: free_set_def fields)
  have sub: "?F \<subseteq> usable_set mm" using bitmap_frames_usable [OF mm P] .
  have "card (usable_set mm) \<le> card {0..<?T}"
    using usable_set_bound [OF mm] by (intro card_mono) auto
  then have cU: "card (usable_set mm) < 2 ^ 52"
    using init_total_bound [of mm] by (simp add: card_word_interval)
  have use: "unat (usable_frames s') = card (usable_set mm)"
    using cU by (simp add: fields card_usable_set [OF mm] unat_sum_list)
  have cF: "card ?F = unat ?C" by (simp add: bitmap_frames_def card_offset_set)
  have "unat ?C \<le> unat (usable_frames s')" using card_mono [OF _ sub] by (simp add: use cF)
  then have "unat (free_frames s') = card (usable_set mm) - card ?F"
    by (simp add: fields(5) unat_sub word_le_nat_alt use cF)
  also have "\<dots> = card (free_set s')" using sub by (simp add: free fields card_Diff_subset)
  finally have fr: "unat (free_frames s') = card (free_set s')" .
  have "free_set s' \<subseteq> usable_set mm" unfolding free by blast
  moreover have "next_hint s' = 0" by (simp add: s')
  ultimately show "pmm_inv (usable_set mm) s'"
    unfolding pmm_inv_def fields
    using use fr usable_set_bound [OF mm] init_total_bound [of mm]
    by (simp add: fields init_bytes_def)
  show "bitmap s' = ?P + hhdm" "bitmap_bytes s' = ?B" "total_frames s' = ?T" by (fact fields)+
qed

text \<open>After \<open>pmm_init\<close> the bitmap sits in usable frames that are not free.\<close>

lemma pmm_init_bitmap_frame:
  assumes mm: "limine_memmap mm" and init: "pmm_init mm hhdm s = Inr s'" and x: "x \<in> bitmap_range s'"
  shows "dm_frame hhdm x \<in> unat ` bitmap_frames (bitmap s' - hhdm) (bitmap_bytes s')"
proof -
  let ?P = "bitmap_region mm (init_bytes mm)" and ?B = "init_bytes mm"
  note i = pmm_init_spec [OF mm init]
  have "?P \<noteq> 0" using init by (auto simp: pmm_init_def Let_def init_bytes_def init_total_def)
  then obtain e where e: "e \<in> set mm" "usable e" "?B \<le> me_length e" "?P = me_base e"
    using bitmap_region_spec by blast
  have ok: "entry_ok e" using limine_memmap_entry [OF mm e(1,2)] .
  define d where "d = x - bitmap s'"
  have d: "unat d < unat ?B" using x by (simp add: d_def bitmap_range_def i(4) word_less_nat_alt)
  have lim: "unat ?P + unat d < 2 ^ 64" using ok e(3,4) d by (simp add: entry_ok_def word_le_nat_alt)
  then have "unat (?P + d) = unat ?P + unat d" by (intro unat_add_exact) simp
  moreover have "x - hhdm = ?P + d" by (simp add: d_def i(3))
  moreover have "4096 dvd unat ?P" using ok e(4) by (simp add: entry_ok_def aligned_dvd)
  ultimately have fr: "dm_frame hhdm x = unat ?P div 4096 + unat d div 4096"
    by (simp add: dm_frame_def div_plus_div_distrib_dvd_left)
  let ?f = "?P div 4096 + d div 4096"
  have "unat ?f = unat ?P div 4096 + unat d div 4096" using lim by (subst unat_add_exact) (auto simp: unat_div)
  moreover have "unat (?B + 4096 - 1) = unat ?B + 4095"
    using init_bytes_unat [of mm] init_total_bound [of mm] unat_add_exact [of 4095 ?B] by simp
  then have "?f - ?P div 4096 < (?B + 4096 - 1) div 4096" using d by (simp add: word_less_nat_alt unat_div)
  then have "?f \<in> bitmap_frames ?P ?B" by (simp add: bitmap_frames_def)
  ultimately show ?thesis unfolding i(3,4) using fr by (intro image_eqI [of _ _ ?f]) simp_all
qed

lemma pmm_init_bitmap_off:
  assumes mm: "limine_memmap mm" and init: "pmm_init mm hhdm s = Inr s'" and x: "x \<in> bitmap_range s'"
  shows "dm_frame hhdm x \<notin> unat ` free_set s'"
proof
  assume "dm_frame hhdm x \<in> unat ` free_set s'"
  then obtain f where f: "f \<in> free_set s'" "dm_frame hhdm x = unat f" by blast
  moreover obtain g where "g \<in> bitmap_frames (bitmap s' - hhdm) (bitmap_bytes s')" "dm_frame hhdm x = unat g"
    using pmm_init_bitmap_frame [OF assms] by blast
  ultimately have "f \<in> bitmap_frames (bitmap s' - hhdm) (bitmap_bytes s')" by (simp add: word_unat_eq_iff [symmetric])
  then show False using f(1) pmm_init_spec(2) [OF mm init] by simp
qed

subsection \<open>A concrete machine for the witnesses\<close>

text \<open>
  A PC-like map: one usable region of seven frames above the first page, a reserved hole, and a
  second usable region of four frames.
\<close>

definition demo_map :: "memmap_entry list" where
  "demo_map =
     [\<lparr>me_base = 0x1000, me_length = 0x7000, me_type = LIMINE_MEMMAP_USABLE\<rparr>,
      \<lparr>me_base = 0x8000, me_length = 0x2000, me_type = LIMINE_MEMMAP_OTHER 1\<rparr>,
      \<lparr>me_base = 0xA000, me_length = 0x4000, me_type = LIMINE_MEMMAP_USABLE\<rparr>]"

definition demo_hhdm :: u64 where
  "demo_hhdm = 0xffff800000000000"

definition cold_pmm :: pmm where
  "cold_pmm = \<lparr>mem = (\<lambda>_. 0), io_trace = [], device = (\<lambda>_ _. 0x20), cr2 = 0, cr3 = 0, rsp = 0,
     tlb_flushes = [], bitmap = 0, bitmap_bytes = 0, total_frames = 0, usable_frames = 0,
     free_frames = 0, next_hint = 0\<rparr>"

definition demo_pmm :: pmm where
  "demo_pmm = (case pmm_init demo_map demo_hhdm cold_pmm of Inr s \<Rightarrow> s | Inl _ \<Rightarrow> cold_pmm)"

lemma demo_map_ok: "limine_memmap demo_map"
  by (simp add: demo_map_def usable_def entry_ok_def entries_apart_def aligned_def)

lemma demo_sizes: "init_total demo_map = 14" "init_bytes demo_map = 2"
  "bitmap_region demo_map 2 = 0x1000"
  by (simp_all add: demo_map_def init_bytes_def init_total_def Let_def)

lemma demo_pmm_init: "pmm_init demo_map demo_hhdm cold_pmm = Inr demo_pmm"
  using demo_sizes
  by (simp add: demo_pmm_def pmm_init_def init_bytes_def init_total_def Let_def)

lemma word_offset_less:
  fixes a n f :: u64
  assumes "unat a + unat n < 2 ^ 64"
  shows "f - a < n \<longleftrightarrow> a \<le> f \<and> f < a + n"
proof -
  have an: "unat (a + n) = unat a + unat n" using assms by (intro unat_add_exact) simp
  show ?thesis
  proof (cases "a \<le> f")
    case True
    then have "unat (f - a) = unat f - unat a" by (simp add: unat_sub)
    with True show ?thesis
      unfolding word_less_nat_alt word_le_nat_alt an by linarith
  next
    case False
    then have u: "unat f < unat a" by (simp add: word_le_nat_alt)
    then have "unat (f - a) = 2 ^ 64 + unat f - unat a" by (simp add: unat_sub_if')
    with u assms show ?thesis
      unfolding word_less_nat_alt word_le_nat_alt an by linarith
  qed
qed

lemma demo_usable: "usable_set demo_map = {1..<8} \<union> {10..<14}"
proof -
  have eq: "{f :: u64. f - 1 < 7} = {1..<8}" "{f :: u64. f - 10 < 4} = {10..<14}"
    using word_offset_less [of 1 7] word_offset_less [of 10 4] by (simp_all add: set_eq_iff)
  have "usable_set demo_map = {f. f - 1 < 7} \<union> {f. f - 10 < 4}"
    by (simp add: usable_set_def demo_map_def usable_def entry_frames_def)
  then show ?thesis unfolding eq .
qed

lemma demo_free: "free_set demo_pmm = {2..<8} \<union> {10..<14}" and demo_inv: "pmm_inv (usable_set demo_map) demo_pmm"
proof -
  note i = pmm_init_spec [OF demo_map_ok demo_pmm_init]
  show "pmm_inv (usable_set demo_map) demo_pmm" by (rule i(1))
  have "bitmap_frames 0x1000 2 = {f. f - 1 < 1}" by (simp add: bitmap_frames_def)
  also have "\<dots> = {1}" by auto
  finally have "free_set demo_pmm = {1..<8} \<union> {10..<14} - {1}"
    using i(2-4) by (simp add: demo_sizes demo_usable)
  moreover have "{1..<8} = insert 1 {2..<8 :: u64}"
    using word_atLeastLessThan_step [of 1 "8 :: u64"] by simp
  moreover have "1 \<notin> {2..<8 :: u64}" "1 \<notin> {10..<14 :: u64}" by (simp_all add: word_le_nat_alt)
  ultimately show "free_set demo_pmm = {2..<8} \<union> {10..<14}" by simp
qed

subsection \<open>The properties of the frame allocator\<close>

text \<open>C10 (invariant): on a memory map as the bootloader documents it, \<open>pmm_init\<close> leaves the
  counters and the bitmap in agreement, the frames marked free are exactly the usable ones less
  those that hold the bitmap itself, and the bitmap's frames were usable.\<close>

theorem pmm_init_correct:
  assumes "limine_memmap mm" and "pmm_init mm hhdm s = Inr s'"
  shows "pmm_inv (usable_set mm) s' \<and>
    free_set s' = usable_set mm - bitmap_frames (bitmap s' - hhdm) (bitmap_bytes s') \<and>
    bitmap_frames (bitmap s' - hhdm) (bitmap_bytes s') \<subseteq> usable_set mm"
proof -
  have "bitmap_region mm (init_bytes mm) \<noteq> 0"
    using assms(2) by (auto simp: pmm_init_def Let_def init_bytes_def init_total_def)
  then have "bitmap_frames (bitmap s' - hhdm) (bitmap_bytes s') \<subseteq> usable_set mm"
    using bitmap_frames_usable [OF assms(1)] pmm_init_spec(3,4) [OF assms] by simp
  then show ?thesis using pmm_init_spec [OF assms] by blast
qed

theorem pmm_init_correct_witness:
  "pmm_inv (usable_set demo_map) demo_pmm \<and> free_set demo_pmm = {2..<8} \<union> {10..<14} \<and>
   bitmap_frames (bitmap demo_pmm - demo_hhdm) (bitmap_bytes demo_pmm) \<subseteq> usable_set demo_map"
  using pmm_init_correct [OF demo_map_ok demo_pmm_init] demo_free by simp

text \<open>C27 (error): \<open>pmm_init\<close> stops the machine exactly when no usable region is large enough
  for the bitmap.\<close>

theorem pmm_init_halts_iff:
  assumes "limine_memmap mm"
  shows "pmm_init mm hhdm s = Inl NoBitmapRegion \<longleftrightarrow>
    (\<forall>e \<in> set mm. usable e \<longrightarrow> me_length e < init_bytes mm)"
proof -
  have "pmm_init mm hhdm s = Inl NoBitmapRegion \<longleftrightarrow> bitmap_region mm (init_bytes mm) = 0"
    by (simp add: pmm_init_def Let_def init_bytes_def init_total_def)
  then show ?thesis by (simp only: bitmap_region_zero [OF assms])
qed

theorem pmm_init_halts_iff_witness:
  "pmm_init demo_map demo_hhdm cold_pmm \<noteq> Inl NoBitmapRegion"
  using pmm_init_halts_iff [OF demo_map_ok, of demo_hhdm cold_pmm]
  by (simp add: demo_sizes) (simp add: demo_map_def usable_def)

text \<open>C17 (functional): an allocation returns 0 and changes nothing when no frame is free.
  Otherwise it returns the address of a free frame, the first one from the hint on (wrapping
  around), takes exactly that frame, keeps the invariant and writes no byte outside the bitmap.\<close>

theorem pmm_alloc_frame_correct:
  assumes "pmm_inv U s"
  shows "if free_set s = {} then pmm_alloc_frame s = (0, s)
    else \<exists>f \<in> free_set s. fst (pmm_alloc_frame s) = f * 4096 \<and> f * 4096 \<noteq> 0 \<and>
      (\<forall>g \<in> free_set s. if next_hint s \<le> f then next_hint s \<le> g \<longrightarrow> f \<le> g
                       else g < next_hint s \<and> f \<le> g) \<and>
      free_set (snd (pmm_alloc_frame s)) = free_set s - {f} \<and>
      pmm_inv U (snd (pmm_alloc_frame s)) \<and>
      (\<forall>x. x \<notin> bitmap_range s \<longrightarrow> mem (snd (pmm_alloc_frame s)) x = mem s x)"
proof (cases "free_set s = {}")
  case True
  then show ?thesis using alloc_empty_frames [OF assms] by simp
next
  case False
  then obtain f where f: "f \<in> free_set s" "pmm_alloc_frame s = take_frame f s"
    "\<forall>g \<in> free_set s. (if f \<ge> next_hint s then next_hint s \<le> g \<longrightarrow> f \<le> g else g < next_hint s \<and> f \<le> g)"
    using alloc_takes_free [OF assms False] by blast
  have "f * 4096 \<noteq> 0" using pmm.frame_nonzero [OF assms] f(1) pmm_invD(2) [OF assms] by blast
  then show ?thesis
    using False f take_frame_spec [OF assms f(1)] alloc_mem [OF assms]
    by (simp only: if_False) (intro bexI [of _ f], auto)
qed

theorem pmm_alloc_frame_correct_witness:
  "pmm_inv (usable_set demo_map) demo_pmm \<and>
   (\<exists>f \<in> free_set demo_pmm. fst (pmm_alloc_frame demo_pmm) = f * 4096 \<and>
      free_set (snd (pmm_alloc_frame demo_pmm)) = free_set demo_pmm - {f})"
proof -
  have "2 \<in> free_set demo_pmm" by (simp add: demo_free word_less_nat_alt)
  then have ne: "free_set demo_pmm \<noteq> {}" by blast
  show ?thesis
    using pmm_alloc_frame_correct [OF demo_inv, unfolded if_not_P [OF ne]] demo_inv by blast
qed

text \<open>C16 (safety): no frame is handed out twice. As long as enough frames are free, \<open>n\<close>
  allocations in a row give \<open>n\<close> different non-null frame addresses, all of them free before.\<close>

theorem pmm_alloc_many_distinct:
  assumes "pmm_inv U s" and "n \<le> card (free_set s)"
  shows "let ps = fst (alloc_many pmm_alloc_frame n s)
    in length ps = n \<and> distinct ps \<and> set ps \<subseteq> (\<lambda>f. f * 4096) ` free_set s \<and> 0 \<notin> set ps"
proof -
  obtain fs where fs: "fst (alloc_many pmm_alloc_frame n s) = map (\<lambda>f. f * 4096) fs" "distinct fs"
    "set fs \<subseteq> free_set s" "length fs = n"
    using pmm.alloc_many_distinct [OF assms] by auto
  have sub: "set fs \<subseteq> U" using fs(3) pmm_invD(2) [OF assms(1)] by blast
  have "inj_on (\<lambda>f. f * 4096) (set fs)"
    using pmm.frame_injective [OF assms(1)] sub by (auto intro!: inj_onI)
  then have "distinct (map (\<lambda>f. f * 4096) fs)" using fs(2) by (simp add: distinct_map)
  moreover have "0 \<notin> set (map (\<lambda>f. f * 4096) fs)"
    using sub pmm.frame_nonzero [OF assms(1)] by force
  ultimately show ?thesis using fs by auto
qed

theorem pmm_alloc_many_distinct_witness:
  "length (fst (alloc_many pmm_alloc_frame 3 demo_pmm)) = 3 \<and>
   distinct (fst (alloc_many pmm_alloc_frame 3 demo_pmm))"
proof -
  have "{2, 3, 4} \<subseteq> free_set demo_pmm" by (simp add: demo_free word_less_nat_alt word_le_nat_alt)
  then have "3 \<le> card (free_set demo_pmm)" using card_mono [of "free_set demo_pmm" "{2, 3, 4}"] by simp
  then show ?thesis using pmm_alloc_many_distinct [OF demo_inv, of 3] by (simp add: Let_def)
qed

text \<open>C28 (round trip): freeing an allocated frame makes exactly that frame free again and keeps
  the invariant, so an allocation followed by its free restores the set of free frames; freeing a
  frame that is free changes nothing (a double free is ignored).\<close>

theorem pmm_free_frame_correct:
  assumes "pmm_inv U s" and "f \<in> U"
  shows "pmm_inv U (pmm_free_frame (f * 4096) s) \<and>
    free_set (pmm_free_frame (f * 4096) s) = insert f (free_set s) \<and>
    (f \<in> free_set s \<longrightarrow> pmm_free_frame (f * 4096) s = s) \<and>
    (fst (pmm_alloc_frame s) \<noteq> 0 \<longrightarrow>
      free_set (pmm_free_frame (fst (pmm_alloc_frame s)) (snd (pmm_alloc_frame s))) = free_set s)"
  using free_used [OF assms] free_free [OF assms(1), of f] assms(1) pmm.alloc_release [OF assms(1)]
  by (cases "f \<in> free_set s") (simp_all add: insert_absorb)

theorem pmm_free_frame_correct_witness:
  "free_set (pmm_free_frame 0x1000 demo_pmm) = insert 1 (free_set demo_pmm)"
  using pmm_free_frame_correct [OF demo_inv, of 1] by (simp add: demo_usable word_less_nat_alt)

text \<open>Claiming a frame succeeds exactly when the frame is free; it then takes that
  frame and no other, and a refused claim changes nothing.\<close>

theorem pmm_claim_frame_correct:
  assumes "pmm_inv U s" and "unat f < 2 ^ 52"
  shows "(fst (pmm_claim_frame (f * 4096) s) \<longleftrightarrow> f \<in> free_set s) \<and>
    free_set (snd (pmm_claim_frame (f * 4096) s)) = free_set s - {f} \<and>
    pmm_inv U (snd (pmm_claim_frame (f * 4096) s)) \<and>
    (f \<notin> free_set s \<longrightarrow> snd (pmm_claim_frame (f * 4096) s) = s)"
  using claim_free [OF assms(1), of f] claim_used [OF assms(2), of s] assms(1)
  by (cases "f \<in> free_set s") simp_all

theorem pmm_claim_frame_correct_witness:
  "fst (pmm_claim_frame 0x3000 demo_pmm) \<and> \<not> fst (pmm_claim_frame 0x1000 demo_pmm)"
  using pmm_claim_frame_correct [OF demo_inv, of 3] pmm_claim_frame_correct [OF demo_inv, of 1]
  by (simp add: demo_free word_less_nat_alt word_le_nat_alt)

text \<open>The statistics are the sizes of the sets they name: all usable frames, the
  usable frames in use and the free ones.\<close>

theorem pmm_get_stats_correct:
  assumes "pmm_inv U s"
  shows "case pmm_get_stats s of (all, used, avail) \<Rightarrow>
    unat all = card U \<and> unat used = card (U - free_set s) \<and> unat avail = card (free_set s) \<and>
    unat used + unat avail = unat all"
proof -
  note inv = pmm_invD [OF assms]
  have le: "card (free_set s) \<le> card U" using inv(2) by (intro card_mono) auto
  have "unat (usable_frames s - free_frames s) = card U - card (free_set s)"
    using le inv(4,5) by (simp add: unat_sub word_le_nat_alt)
  moreover have "card (U - free_set s) = card U - card (free_set s)"
    using inv(2) by (intro card_Diff_subset) auto
  ultimately show ?thesis using le inv(4,5) by (simp add: pmm_get_stats_def)
qed

theorem pmm_get_stats_correct_witness:
  "case pmm_get_stats demo_pmm of (all, used, avail) \<Rightarrow> unat used + unat avail = unat all"
  using pmm_get_stats_correct [OF demo_inv] by (auto simp: case_prod_beta)

end
