(* ===== verification/Serial.thy ===== *)
theory Serial
  imports Machine
begin

text \<open>
  The polled COM1 driver of \<^verbatim>\<open>lib/serial.c\<close> and the number formatters that print through it
  (\<^verbatim>\<open>put_dec\<close> of \<^verbatim>\<open>kernel.c\<close> and \<^verbatim>\<open>drivers/timer.c\<close>, \<^verbatim>\<open>put_hex\<close> of \<^verbatim>\<open>kernel.c\<close>,
  \<^verbatim>\<open>put_hex64\<close> of \<^verbatim>\<open>arch/x86_64/isr.c\<close>). A transmission spins on the line status register, so it
  returns only if the UART gets ready: that the transmitter drains is the hypothesis \<open>uart_live\<close> on
  the device. Under it every byte is sent exactly once, in order, and only when the register said so.
\<close>

subsection \<open>The driver\<close>

definition COM1 :: u16 where "COM1 = 0x3F8"
definition LSR :: u16 where "LSR = COM1 + 5"

definition serial_init :: "'a machine_scheme \<Rightarrow> 'a machine_scheme" where
  "serial_init s =
     (let s = outb (COM1 + 1) 0x00 s;
          s = outb (COM1 + 3) 0x80 s;
          s = outb (COM1 + 0) 0x01 s;
          s = outb (COM1 + 1) 0x00 s;
          s = outb (COM1 + 3) 0x03 s;
          s = outb (COM1 + 2) 0xC7 s;
          s = outb (COM1 + 4) 0x0B s
      in s)"

text \<open>The busy-wait of \<open>serial_putc\<close>; \<open>None\<close> when the UART never gets ready.\<close>

partial_function (option) serial_spin :: "'a machine_scheme \<Rightarrow> 'a machine_scheme option" where
  "serial_spin s =
     (let r = inb LSR s
      in if fst r AND 0x20 = 0 then serial_spin (snd r) else Some (snd r))"

definition serial_putc :: "char \<Rightarrow> 'a machine_scheme \<Rightarrow> 'a machine_scheme option" where
  "serial_putc c s = map_option (outb COM1 (of_char c)) (serial_spin s)"

text \<open>A C string is the list of its characters before the terminating NUL.\<close>

fun serial_write :: "string \<Rightarrow> 'a machine_scheme \<Rightarrow> 'a machine_scheme option" where
  "serial_write [] s = Some s"
| "serial_write (c # cs) s =
     Option.bind (if c = CHR 0x0A then serial_putc (CHR 0x0D) s else Some s)
       (\<lambda>s1. Option.bind (serial_putc c s1) (serial_write cs))"

text \<open>Single characters one after the other, as the formatters send them.\<close>

fun putc_all :: "string \<Rightarrow> 'a machine_scheme \<Rightarrow> 'a machine_scheme option" where
  "putc_all [] s = Some s"
| "putc_all (c # cs) s = Option.bind (serial_putc c s) (putc_all cs)"

subsection \<open>Number formatting\<close>

text \<open>
  The first loop of \<open>put_dec\<close> fills the buffer with the digits, least significant first; the second
  loop sends the buffer backwards.
\<close>

definition digit_char :: "u64 \<Rightarrow> char" where
  "digit_char d = char_of (unat (0x30 + d))"

function dec_digits :: "u64 \<Rightarrow> string" where
  "dec_digits v = (if v > 0 then digit_char (v mod 10) # dec_digits (v div 10) else [])"
  by pat_completeness auto
termination
proof (relation "measure unat")
  fix v :: u64 assume "v > 0"
  then have "unat v > 0" by (simp add: word_gt_0 unat_gt_0)
  then show "(v div 10, v) \<in> measure unat" by (simp add: unat_div)
qed simp

declare dec_digits.simps [simp del]

definition put_dec :: "u64 \<Rightarrow> 'a machine_scheme \<Rightarrow> 'a machine_scheme option" where
  "put_dec v s = (if v = 0 then serial_putc (CHR 0x30) s else putc_all (rev (dec_digits v)) s)"

definition hex_char :: "u64 \<Rightarrow> char" where
  "hex_char nib = (if nib < 10 then char_of (unat (0x30 + nib)) else char_of (unat (0x61 + (nib - 10))))"

function hex_digits :: "u64 \<Rightarrow> string" where
  "hex_digits v = (let v' = drop_bit 4 v
     in hex_char (v AND 0xF) # (if v' > 0 then hex_digits v' else []))"
  by pat_completeness auto
termination
proof (relation "measure unat")
  fix v x :: u64 assume x: "x = drop_bit 4 v" "x > 0"
  have "unat x > 0" using x(2) by (simp only: word_gt_0 unat_gt_0)
  moreover have "unat x = unat v div 16" by (simp add: x(1) drop_bit_eq_div unat_div)
  ultimately show "(x, v) \<in> measure unat" by simp
qed simp

declare hex_digits.simps [simp del]

definition put_hex :: "u64 \<Rightarrow> 'a machine_scheme \<Rightarrow> 'a machine_scheme option" where
  "put_hex v s = Option.bind (serial_write ''0x'' s) (putc_all (rev (hex_digits v)))"

text \<open>The fixed-width variant of the crash screen: sixteen digits, from \<open>buf[15]\<close> down to \<open>buf[0]\<close>.\<close>

primrec hex64_digits :: "nat \<Rightarrow> u64 \<Rightarrow> string \<Rightarrow> string" where
  "hex64_digits 0 v buf = buf"
| "hex64_digits (Suc i) v buf =
     hex64_digits i (drop_bit 4 v) (''0123456789abcdef'' ! unat (v AND 0xF) # buf)"

definition put_hex64 :: "u64 \<Rightarrow> 'a machine_scheme \<Rightarrow> 'a machine_scheme option" where
  "put_hex64 v s = putc_all (CHR 0x30 # CHR ''x'' # hex64_digits 16 v []) s"


subsection \<open>What is transmitted\<close>

text \<open>
  The trace after \<open>k\<close> polls of the status register, and the hypothesis on the device: from any
  history, polling long enough finds the transmitter empty.
\<close>

primrec lsr_polls :: "(io_event list \<Rightarrow> u16 \<Rightarrow> u8) \<Rightarrow> nat \<Rightarrow> io_event list \<Rightarrow> io_event list" where
  "lsr_polls dev 0 tr = tr"
| "lsr_polls dev (Suc k) tr = lsr_polls dev k (tr @ [Inb LSR (dev tr LSR)])"

definition uart_live :: "(io_event list \<Rightarrow> u16 \<Rightarrow> u8) \<Rightarrow> bool" where
  "uart_live dev \<longleftrightarrow> (\<forall>tr. \<exists>k. dev (lsr_polls dev k tr) LSR AND 0x20 \<noteq> 0)"

text \<open>
  One transmitted byte on the bus: polls that find the transmitter busy, one that finds it
  empty, then the write.
\<close>

definition busy_poll :: "io_event \<Rightarrow> bool" where
  "busy_poll e \<longleftrightarrow> (\<exists>v. e = Inb LSR v \<and> v AND 0x20 = 0)"

definition burst :: "char \<Rightarrow> io_event list \<Rightarrow> bool" where
  "burst c es \<longleftrightarrow> (\<exists>ps v. es = ps @ [Inb LSR v, Outb COM1 (of_char c)] \<and>
     list_all busy_poll ps \<and> v AND 0x20 \<noteq> 0)"

text \<open>\<open>sends cs s s'\<close>: exactly the characters \<open>cs\<close> went out, and nothing but the bus history changed.\<close>

definition sends :: "string \<Rightarrow> 'a machine_scheme \<Rightarrow> 'a machine_scheme \<Rightarrow> bool" where
  "sends cs s s' \<longleftrightarrow> (\<exists>bs. s' = s\<lparr>io_trace := io_trace s @ concat bs\<rparr> \<and> list_all2 burst cs bs)"

lemma sends_Nil [simp]: "sends [] s s' \<longleftrightarrow> s' = s"
  by (auto simp: sends_def)

text \<open>Two bus histories that differ by transmitted characters only.\<close>

definition serial_only :: "io_event list \<Rightarrow> io_event list \<Rightarrow> bool" where
  "serial_only tr tr' \<longleftrightarrow> (\<exists>cs bs. tr' = tr @ concat bs \<and> list_all2 burst cs bs)"

lemma serial_only_refl [simp]: "serial_only tr tr"
  unfolding serial_only_def by (intro exI [of _ "[]"]) simp

lemma serial_only_trans:
  assumes "serial_only a b" and "serial_only b c"
  shows "serial_only a c"
proof -
  obtain cs bs ds bs' where "b = a @ concat bs" "list_all2 burst cs bs" "c = b @ concat bs'" "list_all2 burst ds bs'"
    using assms by (auto simp: serial_only_def)
  then have "c = a @ concat (bs @ bs')" "list_all2 burst (cs @ ds) (bs @ bs')" by (simp_all add: list_all2_appendI)
  then show ?thesis unfolding serial_only_def by blast
qed

lemma sends_serial_only: "sends cs s s' \<Longrightarrow> serial_only (io_trace s) (io_trace s')"
  unfolding sends_def serial_only_def by (elim exE conjE) (simp, blast)

lemma sends_append:
  assumes "sends cs s t" and "sends ds t u"
  shows "sends (cs @ ds) s u"
proof -
  obtain bs bs' where b: "t = s\<lparr>io_trace := io_trace s @ concat bs\<rparr>" "list_all2 burst cs bs"
    "u = t\<lparr>io_trace := io_trace t @ concat bs'\<rparr>" "list_all2 burst ds bs'"
    using assms by (auto simp: sends_def)
  then have "u = s\<lparr>io_trace := io_trace s @ concat (bs @ bs')\<rparr>" by simp
  moreover have "list_all2 burst (cs @ ds) (bs @ bs')" using b by (simp add: list_all2_appendI)
  ultimately show ?thesis unfolding sends_def by blast
qed

lemma sends_device [simp]: "sends cs s t \<Longrightarrow> device t = device s"
  by (auto simp: sends_def)

lemma sends_fields:
  assumes "sends cs s t"
  shows "mem t = mem s" and "cr3 t = cr3 s" and "t = s\<lparr>io_trace := io_trace t\<rparr>"
  using assms by (auto simp: sends_def)

lemma serial_spin_live:
  "device s (lsr_polls (device s) k (io_trace s)) LSR AND 0x20 \<noteq> 0 \<Longrightarrow>
   \<exists>ps v. serial_spin s = Some (s\<lparr>io_trace := io_trace s @ ps @ [Inb LSR v]\<rparr>) \<and>
     list_all busy_poll ps \<and> v AND 0x20 \<noteq> 0"
proof (induction k arbitrary: s)
  case 0
  then show ?case
    by (intro exI [of _ "[]"] exI [of _ "device s (io_trace s) LSR"])
      (simp add: serial_spin.simps [of s] inb_def Let_def)
next
  case (Suc k)
  let ?v = "device s (io_trace s) LSR"
  show ?case
  proof (cases "?v AND 0x20 = 0")
    case False
    then show ?thesis
      by (intro exI [of _ "[]"] exI [of _ ?v]) (simp add: serial_spin.simps [of s] inb_def Let_def)
  next
    case True
    let ?s = "s\<lparr>io_trace := io_trace s @ [Inb LSR ?v]\<rparr>"
    obtain ps v where p: "serial_spin ?s = Some (?s\<lparr>io_trace := io_trace ?s @ ps @ [Inb LSR v]\<rparr>)"
      "list_all busy_poll ps" "v AND 0x20 \<noteq> 0"
      using Suc.IH [of ?s] Suc.prems by auto
    have "serial_spin s = serial_spin ?s" using True by (simp add: serial_spin.simps [of s] inb_def Let_def)
    moreover have "busy_poll (Inb LSR ?v)" using True by (simp add: busy_poll_def)
    ultimately show ?thesis
      using p by (intro exI [of _ "Inb LSR ?v # ps"] exI [of _ v]) simp
  qed
qed

lemma serial_putc_sends:
  assumes "uart_live (device s)"
  shows "\<exists>s'. serial_putc c s = Some s' \<and> sends [c] s s'"
proof -
  obtain k where "device s (lsr_polls (device s) k (io_trace s)) LSR AND 0x20 \<noteq> 0"
    using assms unfolding uart_live_def by blast
  then obtain ps v where p: "serial_spin s = Some (s\<lparr>io_trace := io_trace s @ ps @ [Inb LSR v]\<rparr>)"
    "list_all busy_poll ps" "v AND 0x20 \<noteq> 0" using serial_spin_live by blast
  let ?b = "ps @ [Inb LSR v, Outb COM1 (of_char c)]"
  have "serial_putc c s = Some (s\<lparr>io_trace := io_trace s @ ?b\<rparr>)"
    by (simp add: serial_putc_def p(1) outb_def)
  moreover have "burst c ?b" using p(2,3) unfolding burst_def by blast
  ultimately show ?thesis unfolding sends_def by (intro exI conjI) (auto intro!: exI [of _ "[?b]"])
qed

lemma putc_all_sends:
  "uart_live (device s) \<Longrightarrow> \<exists>s'. putc_all cs s = Some s' \<and> sends cs s s'"
proof (induction cs arbitrary: s)
  case Nil
  then show ?case by simp
next
  case (Cons c cs)
  obtain s1 where s1: "serial_putc c s = Some s1" "sends [c] s s1" using serial_putc_sends [OF Cons.prems] by blast
  then have "uart_live (device s1)" using Cons.prems by simp
  then obtain s' where "putc_all cs s1 = Some s'" "sends cs s1 s'" using Cons.IH by blast
  then show ?case using s1 sends_append [OF s1(2)] by auto
qed

text \<open>The line discipline of \<open>serial_write\<close>: a carriage return before every line feed.\<close>

fun crlf :: "string \<Rightarrow> string" where
  "crlf [] = []"
| "crlf (c # cs) = (if c = CHR 0x0A then [CHR 0x0D, CHR 0x0A] else [c]) @ crlf cs"

lemma serial_write_sends:
  "uart_live (device s) \<Longrightarrow> \<exists>s'. serial_write cs s = Some s' \<and> sends (crlf cs) s s'"
proof (induction cs arbitrary: s)
  case Nil
  then show ?case by simp
next
  case (Cons c cs)
  obtain s1 where s1: "(if c = CHR 0x0A then serial_putc (CHR 0x0D) s else Some s) = Some s1"
    "sends (if c = CHR 0x0A then [CHR 0x0D] else []) s s1"
    using serial_putc_sends [OF Cons.prems, of "CHR 0x0D"] by (cases "c = CHR 0x0A") auto
  then have live1: "uart_live (device s1)" using Cons.prems by simp
  obtain s2 where s2: "serial_putc c s1 = Some s2" "sends [c] s1 s2" using serial_putc_sends [OF live1] by blast
  then have "uart_live (device s2)" using live1 by simp
  then obtain s' where s': "serial_write cs s2 = Some s'" "sends (crlf cs) s2 s'" using Cons.IH by blast
  have "serial_write (c # cs) s = Some s'" using s1(1) s2(1) s'(1) by (simp only: serial_write.simps bind.bind_lunit)
  moreover have "sends (crlf (c # cs)) s s'"
    using sends_append [OF sends_append [OF s1(2) s2(2)] s'(2)] by (auto split: if_splits)
  ultimately show ?case by blast
qed


subsection \<open>What the formatters print\<close>

text \<open>Reading digit strings back, most significant digit first.\<close>

definition hex_value :: "char \<Rightarrow> nat" where
  "hex_value c = (let n = of_char c in if n < 58 then n - 48 else n - 87)"

definition number_of :: "nat \<Rightarrow> string \<Rightarrow> nat" where
  "number_of b cs = foldl (\<lambda>n c. b * n + hex_value c) 0 cs"

lemma number_of_snoc: "number_of b (cs @ [c]) = b * number_of b cs + hex_value c"
  by (simp add: number_of_def)

lemma digit_char_value: "unat d < 10 \<Longrightarrow> hex_value (digit_char d) = unat d"
  by (simp add: digit_char_def hex_value_def Let_def unat_word_ariths)

lemma hex_char_value:
  assumes "unat d < 16"
  shows "hex_value (hex_char d) = unat d"
proof (cases "unat d < 10")
  case True
  then show ?thesis
    by (simp add: hex_char_def hex_value_def Let_def unat_word_ariths word_less_nat_alt)
next
  case False
  then have "unat (0x61 + (d - 10)) = 87 + unat d"
    using assms by (simp add: unat_word_ariths unat_sub_if')
  then show ?thesis
    using False assms by (simp add: hex_char_def hex_value_def Let_def word_less_nat_alt)
qed

lemma dec_digits_number: "number_of 10 (rev (dec_digits v)) = unat v"
proof (induction v rule: dec_digits.induct)
  case (1 v)
  show ?case
  proof (cases "v > 0")
    case False
    then have "v = 0" by (simp add: word_gt_0)
    then show ?thesis by (simp add: dec_digits.simps [of 0] number_of_def)
  next
    case True
    have "unat (v mod 10) < 10" by (simp add: unat_mod)
    then show ?thesis
      using 1 True by (simp add: dec_digits.simps [of v] number_of_snoc digit_char_value unat_div unat_mod)
  qed
qed

lemma dec_digits_length: "unat v < 10 ^ n \<Longrightarrow> length (dec_digits v) \<le> n"
proof (induction n arbitrary: v)
  case 0
  then have "v = 0" by (simp add: unat_eq_0)
  then show ?case by (simp add: dec_digits.simps [of 0])
next
  case (Suc n)
  have "unat (v div 10) < 10 ^ n" using Suc.prems by (simp add: unat_div less_mult_imp_div_less)
  then show ?case using Suc.IH by (simp add: dec_digits.simps [of v])
qed

lemma dec_digits_leading:
  "v > 0 \<Longrightarrow> dec_digits v \<noteq> [] \<and> last (dec_digits v) \<noteq> CHR 0x30"
proof (induction v rule: dec_digits.induct)
  case (1 v)
  show ?case
  proof (cases "v div 10 > 0")
    case True
    then show ?thesis using 1 by (simp add: dec_digits.simps [of v])
  next
    case False
    then have z: "v div 10 = 0" by (simp add: word_gt_0)
    then have "dec_digits (v div 10) = []" by (simp add: dec_digits.simps [of 0])
    then have "dec_digits v = [digit_char (v mod 10)]" using "1.prems" by (simp add: dec_digits.simps [of v])
    moreover have "unat v div 10 = 0" using arg_cong [OF z, of unat] by (simp add: unat_div)
    then have "unat (v mod 10) = unat v" "unat v < 10" by (simp_all add: unat_mod div_eq_0_iff)
    moreover have "0 < unat v" using "1.prems" by (simp add: word_gt_0 unat_gt_0)
    ultimately have "hex_value (last (dec_digits v)) \<noteq> 0" "dec_digits v \<noteq> []"
      by (simp_all add: digit_char_value)
    then show ?thesis by (auto simp: hex_value_def)
  qed
qed

lemma nibble_mod: "unat (v AND 0xF :: u64) = unat v mod 16"
proof -
  have "v AND 0xF = take_bit 4 v" by (simp add: take_bit_eq_mask mask_eq_exp_minus_1)
  then show ?thesis by (simp add: take_bit_eq_mod unat_mod)
qed

lemma hex_digits_number: "number_of 16 (rev (hex_digits v)) = unat v"
proof (induction v rule: hex_digits.induct)
  case (1 v)
  have d: "unat (drop_bit 4 v) = unat v div 16" by (simp add: drop_bit_eq_div unat_div)
  have h: "hex_value (hex_char (v AND 0xF)) = unat v mod 16"
    by (simp add: hex_char_value nibble_mod)
  show ?case
  proof (cases "drop_bit 4 v > 0")
    case True
    then show ?thesis
      using 1 h d by (simp add: hex_digits.simps [of v] Let_def number_of_snoc del: drop_bit_eq_div)
  next
    case False
    then have "unat v div 16 = 0" using d by (metis unat_0 word_gt_0)
    then show ?thesis
      using False h by (simp add: hex_digits.simps [of v] Let_def number_of_def div_eq_0_iff)
  qed
qed

lemma hex_digits_length: "unat v < 16 ^ Suc n \<Longrightarrow> length (hex_digits v) \<le> Suc n"
proof (induction n arbitrary: v)
  case 0
  then have "drop_bit 4 v = 0" by (simp add: drop_bit_eq_div word_unat_eq_iff unat_div)
  then show ?case by (simp add: hex_digits.simps [of v])
next
  case (Suc n)
  have "unat (drop_bit 4 v) < 16 ^ Suc n"
    using Suc.prems by (simp add: drop_bit_eq_div unat_div less_mult_imp_div_less)
  from Suc.IH [OF this] show ?case by (auto simp: hex_digits.simps [of v] Let_def)
qed


lemma hex64_digits_append: "hex64_digits i v buf = hex64_digits i v [] @ buf"
proof (induction i arbitrary: v buf)
  case 0
  then show ?case by simp
next
  case (Suc i)
  let ?d = "''0123456789abcdef'' ! unat (v AND 0xF)"
  show ?case using Suc [of "drop_bit 4 v" "?d # buf"] Suc [of "drop_bit 4 v" "[?d]"] by simp
qed

lemma hex64_digit: "k < 16 \<Longrightarrow> hex_value (''0123456789abcdef'' ! k) = k"
proof -
  assume k: "k < 16"
  have "map hex_value ''0123456789abcdef'' = [0..<16]" by code_simp
  then have "map hex_value ''0123456789abcdef'' ! k = [0..<16] ! k" by (rule arg_cong)
  moreover have "map hex_value ''0123456789abcdef'' ! k = hex_value (''0123456789abcdef'' ! k)"
    by (rule nth_map) (use k in simp)
  ultimately show ?thesis using k by (simp del: upt_Suc list.map)
qed

lemma hex64_digits_number:
  "length (hex64_digits i v []) = i" "number_of 16 (hex64_digits i v []) = unat v mod 16 ^ i"
proof -
  show "length (hex64_digits i v []) = i"
  proof (induction i arbitrary: v)
    case (Suc i)
    then show ?case using hex64_digits_append [of i "drop_bit 4 v" "[''0123456789abcdef'' ! unat (v AND 0xF)]"] by simp
  qed simp
  show "number_of 16 (hex64_digits i v []) = unat v mod 16 ^ i"
  proof (induction i arbitrary: v)
    case 0
    then show ?case by (simp add: number_of_def)
  next
    case (Suc i)
    have "hex_value (''0123456789abcdef'' ! unat (v AND 0xF)) = unat v mod 16"
      unfolding nibble_mod by (rule hex64_digit) simp
    moreover have "unat (drop_bit 4 v) = unat v div 16" by (simp add: drop_bit_eq_div unat_div)
    moreover have "hex64_digits (Suc i) v [] = hex64_digits i (drop_bit 4 v) [] @ [''0123456789abcdef'' ! unat (v AND 0xF)]"
      using hex64_digits_append [of i "drop_bit 4 v" "[''0123456789abcdef'' ! unat (v AND 0xF)]"] by simp
    ultimately show ?case
      using Suc.IH [of "drop_bit 4 v"] by (simp only: number_of_snoc) (simp add: mod_mult2_eq)
  qed
qed

subsection \<open>The properties of the serial output\<close>

text \<open>C37 (liveness): if the UART's transmitter drains, \<open>serial_write\<close> returns, having put exactly the
  string's characters on the wire, in order, with a carriage return before each line feed; every
  byte is written immediately after a poll that found the transmitter empty, and nothing else of
  the machine changes.\<close>

theorem serial_write_correct:
  assumes "uart_live (device s)"
  shows "\<exists>s' bs. serial_write cs s = Some s' \<and> s' = s\<lparr>io_trace := io_trace s @ concat bs\<rparr> \<and>
    list_all2 burst (crlf cs) bs"
  using serial_write_sends [OF assms, of cs] by (auto simp: sends_def)

text \<open>A UART that is ready at every second poll.\<close>

definition demo_uart :: "io_event list \<Rightarrow> u16 \<Rightarrow> u8" where
  "demo_uart tr p = (if even (length tr) then 0 else 0x20)"

definition demo_machine :: machine where
  "demo_machine = \<lparr>mem = (\<lambda>_. 0), io_trace = [], device = demo_uart, cr2 = 0, cr3 = 0, rsp = 0, tlb_flushes = []\<rparr>"

lemma demo_uart_live: "uart_live demo_uart"
  unfolding uart_live_def
proof
  fix tr
  show "\<exists>k. demo_uart (lsr_polls demo_uart k tr) LSR AND 0x20 \<noteq> 0"
  proof (cases "even (length tr)")
    case True
    then show ?thesis by (intro exI [of _ 1]) (simp add: demo_uart_def)
  next
    case False
    then show ?thesis by (intro exI [of _ 0]) (simp add: demo_uart_def)
  qed
qed

lemma demo_machine_live: "uart_live (device demo_machine)"
  using demo_uart_live by (simp add: demo_machine_def)

theorem serial_write_correct_witness:
  "\<exists>s' bs. serial_write ''hi'' demo_machine = Some s' \<and>
     s' = demo_machine\<lparr>io_trace := io_trace demo_machine @ concat bs\<rparr> \<and> list_all2 burst ''hi'' bs"
  using serial_write_correct [OF demo_machine_live, of "''hi''"] by simp

text \<open>C38 (round trip): \<open>put_dec\<close> prints the number it is given: the characters it sends are the
  decimal digits, without a leading zero, and there are never more than the twenty its buffer holds.\<close>

theorem put_dec_correct:
  assumes "uart_live (device s)"
  shows "\<exists>s' cs. put_dec v s = Some s' \<and> sends cs s s' \<and> number_of 10 cs = unat v \<and>
    cs \<noteq> [] \<and> length cs \<le> 20 \<and> (hd cs = CHR 0x30 \<longrightarrow> cs = ''0'')"
proof (cases "v = 0")
  case True
  then show ?thesis
    using serial_putc_sends [OF assms, of "CHR 0x30"]
    by (auto simp: put_dec_def number_of_def hex_value_def intro!: exI [of _ "''0''"])
next
  case False
  let ?cs = "rev (dec_digits v)"
  have "unat v < 10 ^ 20" using unat_lt2p [of v] by simp
  then have "length ?cs \<le> 20" using dec_digits_length [of v 20] by simp
  moreover have "?cs \<noteq> []" "hd ?cs \<noteq> CHR 0x30"
    using dec_digits_leading [of v] False by (auto simp: word_gt_0 hd_rev)
  moreover have "put_dec v s = putc_all ?cs s" using False by (simp add: put_dec_def)
  then obtain s' where "put_dec v s = Some s'" "sends ?cs s s'" using putc_all_sends [OF assms, of ?cs] by auto
  ultimately show ?thesis using dec_digits_number [of v] by blast
qed

theorem put_dec_correct_witness:
  "\<exists>s' cs. put_dec 1024 demo_machine = Some s' \<and> sends cs demo_machine s' \<and> number_of 10 cs = 1024"
  using put_dec_correct [OF demo_machine_live, of 1024] by auto

text \<open>Both hexadecimal formatters print their argument; \<open>put_hex\<close> fits its buffer of
  sixteen characters, \<open>put_hex64\<close> always prints exactly sixteen digits.\<close>

theorem put_hex_correct:
  assumes "uart_live (device s)"
  shows "\<exists>s' t' cs ds. put_hex v s = Some s' \<and> sends (''0x'' @ cs) s s' \<and> number_of 16 cs = unat v \<and>
    length cs \<le> 16 \<and>
    put_hex64 v s = Some t' \<and> sends (''0x'' @ ds) s t' \<and> number_of 16 ds = unat v \<and> length ds = 16"
proof -
  let ?cs = "rev (hex_digits v)" and ?ds = "hex64_digits 16 v []"
  obtain s1 where s1: "serial_write ''0x'' s = Some s1" "sends ''0x'' s s1"
    using serial_write_sends [OF assms, of "''0x''"] by auto
  then have "uart_live (device s1)" using assms by simp
  then obtain s' where s': "putc_all ?cs s1 = Some s'" "sends ?cs s1 s'" using putc_all_sends by blast
  have "unat v < 16 ^ Suc 15" using unat_lt2p [of v] by simp
  then have len: "length ?cs \<le> 16" using hex_digits_length [of v 15] by simp
  have "put_hex v s = Some s'" using s1(1) s'(1) by (simp add: put_hex_def)
  moreover have "sends (''0x'' @ ?cs) s s'" using sends_append [OF s1(2) s'(2)] .
  moreover have "unat v mod 16 ^ 16 = unat v" using unat_lt2p [of v] by simp
  then have "number_of 16 ?ds = unat v" "length ?ds = 16" using hex64_digits_number [where i = 16 and v = v] by simp_all
  moreover obtain t' where "put_hex64 v s = Some t'" "sends (''0x'' @ ?ds) s t'"
    using putc_all_sends [OF assms, of "CHR 0x30 # CHR ''x'' # ?ds"] by (auto simp: put_hex64_def)
  ultimately show ?thesis using hex_digits_number [of v] len by blast
qed

theorem put_hex_correct_witness:
  "\<exists>s' cs. put_hex 0xBEEF demo_machine = Some s' \<and> sends (''0x'' @ cs) demo_machine s' \<and> number_of 16 cs = 0xBEEF"
  using put_hex_correct [OF demo_machine_live, of "0xBEEF"] by auto

end
