(* ===== verification/Paging.thy ===== *)
theory Paging
  imports Pmm Serial
begin

text \<open>
  The four-level page-table walk of \<^verbatim>\<open>arch/x86_64/paging.c\<close>, on page tables that live in the
  machine's memory and are reached through the direct map. The abstraction is the tree of tables
  (\<open>tbl\<close>): \<open>pt_inv\<close> says that different paths lead to different frames, none of them free, so a
  store into one table is a store into exactly one node. From it: mapping a page makes it translate
  to the given frame and leaves every other translation alone, also when it fails for want of
  frames; unmapping removes exactly one page.
\<close>

subsection \<open>State and entry format\<close>

record paging = pmm +
  paging_hhdm :: u64     \<comment> \<open>\<^verbatim>\<open>hhdm_offset\<close> of \<^verbatim>\<open>paging.c\<close>\<close>
  kernel_pml4 :: u64     \<comment> \<open>\<^verbatim>\<open>vmm.c\<close>\<close>

definition PTE_PRESENT :: u64 where "PTE_PRESENT = 0x1"
definition PTE_WRITE :: u64 where "PTE_WRITE = 0x2"
definition PTE_USER :: u64 where "PTE_USER = 0x4"
definition PTE_ADDR_MASK :: u64 where "PTE_ADDR_MASK = 0x000ffffffffff000"

definition VM_WRITE :: u64 where "VM_WRITE = 0x1"
definition VM_USER :: u64 where "VM_USER = 0x2"

definition pml4_index :: "u64 \<Rightarrow> u64" where "pml4_index v = drop_bit 39 v AND 0x1ff"
definition pdpt_index :: "u64 \<Rightarrow> u64" where "pdpt_index v = drop_bit 30 v AND 0x1ff"
definition pd_index :: "u64 \<Rightarrow> u64" where "pd_index v = drop_bit 21 v AND 0x1ff"
definition pt_index :: "u64 \<Rightarrow> u64" where "pt_index v = drop_bit 12 v AND 0x1ff"

subsection \<open>Operations\<close>

definition paging_set_hhdm :: "u64 \<Rightarrow> 'a paging_scheme \<Rightarrow> 'a paging_scheme" where
  "paging_set_hhdm offset s = s\<lparr>paging_hhdm := offset\<rparr>"

definition table_at :: "u64 \<Rightarrow> 'a paging_scheme \<Rightarrow> u64" where
  "table_at table_phys s = table_phys + paging_hhdm s"

text \<open>\<open>table[index]\<close> for a pointer to 64-bit entries.\<close>

definition entry_at :: "u64 \<Rightarrow> u64 \<Rightarrow> u64" where
  "entry_at table index = table + 8 * index"

text \<open>The result 0 is the null pointer.\<close>

definition next_level ::
  "u64 \<Rightarrow> u64 \<Rightarrow> bool \<Rightarrow> u64 \<Rightarrow> 'a paging_scheme \<Rightarrow> u64 \<times> 'a paging_scheme" where
  "next_level table index create leaf_user_bit s =
     (let entry = load64 (mem s) (entry_at table index)
      in if entry AND PTE_PRESENT \<noteq> 0 then (table_at (entry AND PTE_ADDR_MASK) s, s)
         else if \<not> create then (0, s)
         else
           let (frame, s1) = pmm_alloc_frame s
           in if frame = 0 then (0, s1)
              else
                let s2 = s1\<lparr>mem := snd (memset (table_at frame s1) 0 PMM_FRAME_SIZE (mem s1))\<rparr>;
                    s3 = s2\<lparr>mem := store64 (mem s2) (entry_at table index)
                           ((frame AND PTE_ADDR_MASK) OR PTE_PRESENT OR PTE_WRITE OR leaf_user_bit)\<rparr>
                in (table_at frame s3, s3))"

definition paging_invlpg :: "u64 \<Rightarrow> 'a machine_scheme \<Rightarrow> 'a machine_scheme" where
  "paging_invlpg virt s = s\<lparr>tlb_flushes := tlb_flushes s @ [virt]\<rparr>"

definition leaf_pte :: "u64 \<Rightarrow> u64 \<Rightarrow> u64" where
  "leaf_pte phys flags =
     (let pte = (phys AND PTE_ADDR_MASK) OR PTE_PRESENT;
          pte = (if flags AND VM_WRITE \<noteq> 0 then pte OR PTE_WRITE else pte)
      in if flags AND VM_USER \<noteq> 0 then pte OR PTE_USER else pte)"

definition paging_map ::
  "u64 \<Rightarrow> u64 \<Rightarrow> u64 \<Rightarrow> u64 \<Rightarrow> 'a paging_scheme \<Rightarrow> bool \<times> 'a paging_scheme" where
  "paging_map pml4_phys virt phys flags s =
     (let leaf_user = (if flags AND VM_USER \<noteq> 0 then PTE_USER else 0);
          pml4 = table_at pml4_phys s;
          (pdpt, s) = next_level pml4 (pml4_index virt) True leaf_user s
      in if pdpt = 0 then (False, s) else
         let (pd, s) = next_level pdpt (pdpt_index virt) True leaf_user s
         in if pd = 0 then (False, s) else
            let (pt, s) = next_level pd (pd_index virt) True leaf_user s
            in if pt = 0 then (False, s) else
               let s = s\<lparr>mem := store64 (mem s) (entry_at pt (pt_index virt)) (leaf_pte phys flags)\<rparr>
               in (True, paging_invlpg virt s))"

definition paging_unmap :: "u64 \<Rightarrow> u64 \<Rightarrow> 'a paging_scheme \<Rightarrow> bool \<times> 'a paging_scheme" where
  "paging_unmap pml4_phys virt s =
     (let pml4 = table_at pml4_phys s;
          (pdpt, s) = next_level pml4 (pml4_index virt) False 0 s
      in if pdpt = 0 then (False, s) else
         let (pd, s) = next_level pdpt (pdpt_index virt) False 0 s
         in if pd = 0 then (False, s) else
            let (pt, s) = next_level pd (pd_index virt) False 0 s
            in if pt = 0 then (False, s) else
               let i = pt_index virt
               in if load64 (mem s) (entry_at pt i) AND PTE_PRESENT = 0 then (False, s)
                  else
                    let s = s\<lparr>mem := store64 (mem s) (entry_at pt i) 0\<rparr>
                    in (True, paging_invlpg virt s))"

text \<open>\<open>None\<close> for the result \<^verbatim>\<open>false\<close>, otherwise the value written to \<^verbatim>\<open>*out_phys\<close>.\<close>

definition paging_translate :: "u64 \<Rightarrow> u64 \<Rightarrow> 'a paging_scheme \<Rightarrow> u64 option" where
  "paging_translate pml4_phys virt s =
     (let pml4 = table_at pml4_phys s;
          (pdpt, s) = next_level pml4 (pml4_index virt) False 0 s
      in if pdpt = 0 then None else
         let (pd, s) = next_level pdpt (pdpt_index virt) False 0 s
         in if pd = 0 then None else
            let (pt, s) = next_level pd (pd_index virt) False 0 s
            in if pt = 0 then None else
               let entry = load64 (mem s) (entry_at pt (pt_index virt))
               in if entry AND PTE_PRESENT = 0 then None
                  else Some ((entry AND PTE_ADDR_MASK) OR (virt AND 0xfff)))"

definition paging_load_cr3 :: "u64 \<Rightarrow> 'a machine_scheme \<Rightarrow> 'a machine_scheme" where
  "paging_load_cr3 pml4_phys s = s\<lparr>cr3 := pml4_phys\<rparr>"

definition paging_read_cr2 :: "'a machine_scheme \<Rightarrow> u64" where
  "paging_read_cr2 s = cr2 s"

text \<open>\<open>code\<close> is the linked address of \<open>paging_load_cr3\<close>.\<close>

definition paging_can_switch_to :: "u64 \<Rightarrow> u64 \<Rightarrow> 'a paging_scheme \<Rightarrow> bool" where
  "paging_can_switch_to code pml4_phys s \<longleftrightarrow>
     paging_translate pml4_phys (rsp s) s \<noteq> None \<and> paging_translate pml4_phys code s \<noteq> None"

subsection \<open>The tree of tables\<close>

text \<open>
  The four indices by level, and the physical address of the table that the walk for \<open>v\<close>
  reaches after \<open>n\<close> levels, if every entry on the way is present.
\<close>

definition idx :: "nat \<Rightarrow> u64 \<Rightarrow> u64" where
  "idx n v = drop_bit (39 - 9 * n) v AND 0x1ff"

lemma idx_levels:
  "idx 0 v = pml4_index v" "idx 1 v = pdpt_index v" "idx (Suc 0) v = pdpt_index v" "idx 2 v = pd_index v" "idx 3 v = pt_index v"
  by (simp_all add: idx_def pml4_index_def pdpt_index_def pd_index_def pt_index_def)

definition slot :: "u64 \<Rightarrow> u64 \<Rightarrow> nat \<Rightarrow> u64 \<Rightarrow> u64" where
  "slot h t n v = entry_at (t + h) (idx n v)"

primrec tbl :: "memory \<Rightarrow> u64 \<Rightarrow> u64 \<Rightarrow> nat \<Rightarrow> u64 \<Rightarrow> u64 option" where
  "tbl m h root 0 v = Some root"
| "tbl m h root (Suc n) v =
     (case tbl m h root n v of
        None \<Rightarrow> None
      | Some t \<Rightarrow> let e = load64 m (slot h t n v)
                 in if e AND PTE_PRESENT \<noteq> 0 then Some (e AND PTE_ADDR_MASK) else None)"

definition translation :: "memory \<Rightarrow> u64 \<Rightarrow> u64 \<Rightarrow> u64 \<Rightarrow> u64 option" where
  "translation m h root v =
     (case tbl m h root 4 v of None \<Rightarrow> None | Some a \<Rightarrow> Some (a OR (v AND 0xfff)))"

text \<open>The two addresses share the first \<open>n\<close> indices.\<close>

definition same_path :: "nat \<Rightarrow> u64 \<Rightarrow> u64 \<Rightarrow> bool" where
  "same_path n v w \<longleftrightarrow> (\<forall>i < n. idx i v = idx i w)"


lemma same_path_refl [simp]: "same_path n v v"
  and same_path_sym: "same_path n v w \<Longrightarrow> same_path n w v"
  and same_path_trans: "same_path n u v \<Longrightarrow> same_path n v w \<Longrightarrow> same_path n u w"
  and same_path_Suc: "same_path (Suc n) v w \<longleftrightarrow> same_path n v w \<and> idx n v = idx n w"
  by (auto simp: same_path_def less_Suc_eq)

lemma same_path_mono: "same_path n v w \<Longrightarrow> j \<le> n \<Longrightarrow> same_path j v w"
  by (auto simp: same_path_def)

lemma tbl_same_path: "same_path n v w \<Longrightarrow> tbl m h root n v = tbl m h root n w"
  by (induction n) (auto simp: same_path_Suc slot_def split: option.split)

lemma tbl_None: "tbl m h root n v = None \<Longrightarrow> n \<le> j \<Longrightarrow> tbl m h root j v = None"
  by (induction j) (auto simp: le_Suc_eq)

lemma idx_bound: "unat (idx n v) < 512"
proof -
  have "idx n v = take_bit 9 (drop_bit (39 - 9 * n) v)"
    by (simp add: idx_def take_bit_eq_mask mask_eq_exp_minus_1)
  then show ?thesis by (simp add: take_bit_eq_mod unat_mod)
qed

lemma entry_offset: "unat (8 * idx n v) = 8 * unat (idx n v)"
  using idx_bound [of n v] by (simp add: unat_word_ariths)

lemma slot_page:
  assumes "aligned 12 t" and "aligned 12 h"
  shows "page (slot h t n v) = page (t + h)" and "aligned 3 (slot h t n v)"
proof -
  have th: "aligned 12 (t + h)" using assms by blast
  show "page (slot h t n v) = page (t + h)"
    unfolding slot_def entry_at_def using idx_bound [of n v] by (intro page_offset [OF th]) (simp add: entry_offset)
  have "aligned 3 (8 * idx n v)" by (simp add: aligned_dvd entry_offset)
  moreover have "aligned 3 (t + h)" using th by (rule aligned_mono) simp
  ultimately show "aligned 3 (slot h t n v)" unfolding slot_def entry_at_def by blast
qed

lemma slot_inj:
  assumes "aligned 12 t" and "aligned 12 t'" and "aligned 12 h" and "slot h t n v = slot h t' n' v'"
  shows "t = t'" and "idx n v = idx n' v'"
proof -
  have "page (t + h) = page (t' + h)" using assms slot_page(1) by metis
  moreover have "aligned 12 (t + h)" "aligned 12 (t' + h)" using assms(1-3) by blast+
  ultimately show t: "t = t'" by (simp add: page_eq_iff)
  have "8 * idx n v = 8 * idx n' v'" using assms(4) by (simp add: slot_def entry_at_def t)
  then have "8 * unat (idx n v) = 8 * unat (idx n' v')" by (metis entry_offset)
  then show "idx n v = idx n' v'" by (simp add: word_unat_eq_iff)
qed

text \<open>
  \<open>tree\<close>: every table the walks reach is one of \<open>T\<close>, and a frame is the table of only one
  level and one path.
\<close>

definition tree :: "memory \<Rightarrow> u64 \<Rightarrow> u64 \<Rightarrow> u64 set \<Rightarrow> bool" where
  "tree m h root T \<longleftrightarrow> aligned 12 h \<and> (\<forall>t \<in> T. aligned 12 t) \<and>
     (\<forall>n \<le> 3. \<forall>v t. tbl m h root n v = Some t \<longrightarrow> t \<in> T) \<and>
     (\<forall>n \<le> 3. \<forall>j \<le> 3. \<forall>v w t. tbl m h root n v = Some t \<longrightarrow> tbl m h root j w = Some t \<longrightarrow>
        n = j \<and> same_path n v w)"

lemma treeD:
  assumes "tree m h root T"
  shows "aligned 12 h" and "t \<in> T \<Longrightarrow> aligned 12 t"
    and "n \<le> 3 \<Longrightarrow> tbl m h root n v = Some t \<Longrightarrow> t \<in> T"
    and "n \<le> 3 \<Longrightarrow> j \<le> 3 \<Longrightarrow> tbl m h root n v = Some t \<Longrightarrow> tbl m h root j w = Some t \<Longrightarrow>
      n = j \<and> same_path n v w"
  using assms unfolding tree_def by blast+

text \<open>The walk only reads the pages of its tables.\<close>

lemma tbl_cong:
  assumes tree: "tree m h root T" and eq: "\<And>t x. t \<in> T \<Longrightarrow> page x = page (t + h) \<Longrightarrow> m' x = m x"
    and j: "j \<le> 4"
  shows "tbl m' h root j w = tbl m h root j w"
  using j
proof (induction j)
  case (Suc j)
  show ?case
  proof (cases "tbl m h root j w")
    case None
    then show ?thesis using Suc by simp
  next
    case (Some t)
    then have T: "t \<in> T" using treeD(3) [OF tree, of j] Suc.prems by simp
    note sp = slot_page [OF treeD(2) [OF tree T] treeD(1) [OF tree], of j w]
    have "load64 m' (slot h t j w) = load64 m (slot h t j w)"
      using eq [OF T] sp by (intro load64_page_cong) auto
    then show ?thesis using Suc Some by simp
  qed
qed simp

lemma tree_cong:
  assumes "tree m h root T" and "\<And>t x. t \<in> T \<Longrightarrow> page x = page (t + h) \<Longrightarrow> m' x = m x"
  shows "tree m' h root T"
  using assms(1) tbl_cong [OF assms] unfolding tree_def by simp

text \<open>A store into the entry that the walk for \<open>v\<close> uses at level \<open>n\<close> changes the walks through it only.\<close>

lemma tbl_store_other:
  assumes tree: "tree m h root T" and t: "tbl m h root n v = Some t" "n \<le> 3"
    and j: "j \<le> 4" and other: "\<not> (n < j \<and> same_path (Suc n) v w)"
  shows "tbl (store64 m (slot h t n v) e) h root j w = tbl m h root j w"
  using j other
proof (induction j)
  case (Suc j)
  have T: "t \<in> T" using treeD(3) [OF tree t(2,1)] .
  have ih: "tbl (store64 m (slot h t n v) e) h root j w = tbl m h root j w" using Suc by auto
  show ?case
  proof (cases "tbl m h root j w")
    case None
    then show ?thesis using ih by simp
  next
    case (Some t')
    have T': "t' \<in> T" using treeD(3) [OF tree _ Some] Suc.prems by simp
    have "slot h t n v \<noteq> slot h t' j w"
    proof
      assume eq: "slot h t n v = slot h t' j w"
      note inj = slot_inj [OF treeD(2) [OF tree T] treeD(2) [OF tree T'] treeD(1) [OF tree] eq]
      then have "tbl m h root j w = Some t" using Some by simp
      moreover have "j \<le> 3" using Suc.prems(1) by simp
      ultimately have "n = j \<and> same_path n v w" using treeD(4) [OF tree t(2) _ t(1)] by blast
      then show False using inj(2) Suc.prems(2) by (auto simp: same_path_Suc)
    qed
    then have "load64 (store64 m (slot h t n v) e) (slot h t' j w) = load64 m (slot h t' j w)"
      using slot_page(2) [OF treeD(2) [OF tree T] treeD(1) [OF tree]] slot_page(2) [OF treeD(2) [OF tree T'] treeD(1) [OF tree]]
      by (intro load64_store64_other) auto
    then show ?thesis using ih Some by simp
  qed
qed simp

lemma tbl_store_here:
  assumes tree: "tree m h root T" and t: "tbl m h root n v = Some t" "n \<le> 3" and w: "same_path (Suc n) v w"
  shows "tbl (store64 m (slot h t n v) e) h root (Suc n) w =
    (if e AND PTE_PRESENT \<noteq> 0 then Some (e AND PTE_ADDR_MASK) else None)"
proof -
  have "tbl (store64 m (slot h t n v) e) h root n w = Some t"
    using tbl_store_other [OF tree t, of n w e] tbl_same_path [of n v w] w t by (simp add: same_path_Suc)
  moreover have "slot h t n w = slot h t n v" using w by (simp add: slot_def same_path_Suc)
  ultimately show ?thesis by simp
qed

lemma tree_store_leaf:
  assumes "tree m h root T" and "tbl m h root 3 v = Some t"
  shows "tree (store64 m (slot h t 3 v) e) h root T"
  using assms(1) tbl_store_other [OF assms] unfolding tree_def by simp


text \<open>A fresh, zeroed table installed in an absent entry adds one node to the tree and no translation.\<close>

lemma tbl_new_table:
  assumes tree: "tree m h root T" and t: "tbl m h root n v = Some t" "n \<le> 2"
    and absent: "load64 m (slot h t n v) AND PTE_PRESENT = 0"
    and f: "aligned 12 f" "f \<notin> T" and zero: "\<And>x. page x = page (f + h) \<Longrightarrow> m x = 0"
    and e: "e AND PTE_PRESENT \<noteq> 0" "e AND PTE_ADDR_MASK = f" and j: "j \<le> 4"
  shows "tbl (store64 m (slot h t n v) e) h root j w =
    (if n < j \<and> same_path (Suc n) v w then if j = Suc n then Some f else None else tbl m h root j w)"
    and "n < j \<Longrightarrow> same_path (Suc n) v w \<Longrightarrow> tbl m h root j w = None"
proof -
  let ?m = "store64 m (slot h t n v) e"
  have n3: "n \<le> 3" using t(2) by simp
  have T: "t \<in> T" using treeD(3) [OF tree n3 t(1)] .
  note h = treeD(1) [OF tree]
  have th: "aligned 12 (t + h)" and fh: "aligned 12 (f + h)" using treeD(2) [OF tree T] h f(1) by blast+
  have gone: "tbl ?m h root (Suc (Suc n)) w = None" if w: "same_path (Suc n) v w"
  proof -
    have "tbl ?m h root (Suc n) w = Some f" using tbl_store_here [OF tree t(1) n3 w, of e] e by simp
    moreover have "t + h \<noteq> f + h" using T f(2) by auto
    then have pg: "page (slot h t n v) \<noteq> page (f + h)"
      unfolding slot_page(1) [OF treeD(2) [OF tree T] h] using page_eq_iff [OF th fh] by simp
    have "load64 ?m (slot h f (Suc n) w) = load64 (\<lambda>_. 0) (slot h f (Suc n) w)"
    proof (rule load64_page_cong)
      show "aligned 3 (slot h f (Suc n) w)" by (rule slot_page(2) [OF f(1) h])
      fix x assume "page x = page (slot h f (Suc n) w)"
      then have x: "page x = page (f + h)" using slot_page(1) [OF f(1) h] by simp
      then have "page x \<noteq> page (slot h t n v)" using pg by simp
      from store64_page [OF slot_page(2) [OF treeD(2) [OF tree T] h] this] show "?m x = 0" using zero [OF x] by simp
    qed
    moreover have "load64 (\<lambda>_. 0) a = 0" for a
      by (rule bit_eqI) (simp add: load64_def bit_load_le)
    ultimately show ?thesis by simp
  qed
  show "tbl ?m h root j w =
    (if n < j \<and> same_path (Suc n) v w then if j = Suc n then Some f else None else tbl m h root j w)"
  proof (cases "n < j \<and> same_path (Suc n) v w")
    case False
    then show ?thesis unfolding if_not_P [OF False] by (rule tbl_store_other [OF tree t(1) n3 j])
  next
    case True
    show ?thesis
    proof (cases "j = Suc n")
      case True
      then show ?thesis
        using tbl_store_here [OF tree t(1) n3, of w e] \<open>n < j \<and> same_path (Suc n) v w\<close> e by simp
    next
      case False
      then have "Suc (Suc n) \<le> j" using True by simp
      then show ?thesis using tbl_None [OF gone] True False by simp
    qed
  qed
  assume w: "n < j" "same_path (Suc n) v w"
  have "tbl m h root n w = Some t" "slot h t n w = slot h t n v"
    using w(2) t(1) tbl_same_path [of n v w] by (auto simp: same_path_Suc slot_def)
  then have "tbl m h root (Suc n) w = None" using absent by simp
  from tbl_None [OF this, of j] show "tbl m h root j w = None" using w(1) by simp
qed

lemma tree_new_table:
  assumes tree: "tree m h root T" and t: "tbl m h root n v = Some t" "n \<le> 2"
    and absent: "load64 m (slot h t n v) AND PTE_PRESENT = 0"
    and f: "aligned 12 f" "f \<notin> T" and zero: "\<And>x. page x = page (f + h) \<Longrightarrow> m x = 0"
    and e: "e AND PTE_PRESENT \<noteq> 0" "e AND PTE_ADDR_MASK = f"
  shows "tree (store64 m (slot h t n v) e) h root (insert f T)"
    and "tbl (store64 m (slot h t n v) e) h root (Suc n) v = Some f"
    and "tbl (store64 m (slot h t n v) e) h root 4 w = tbl m h root 4 w"
proof -
  let ?m = "store64 m (slot h t n v) e"
  note new = tbl_new_table [OF assms]
  show "tbl ?m h root (Suc n) v = Some f" using new(1) [of "Suc n" v] t(2) by simp
  show "tbl ?m h root 4 w = tbl m h root 4 w"
    using new(1) [of 4 w] new(2) [of 4 w] t(2) by auto
  have isf: "j = Suc n \<and> same_path (Suc n) v w" if "tbl ?m h root j w = Some f" "j \<le> 3" for j w
    using that new(1) [of j w] f(2) treeD(3) [OF tree that(2), of w f] by (auto split: if_splits)
  have old: "tbl m h root j w = Some x" if "tbl ?m h root j w = Some x" "x \<noteq> f" "j \<le> 3" for j w x
    using that new(1) [of j w] by (auto split: if_splits)
  show "tree ?m h root (insert f T)"
    unfolding tree_def
  proof (intro conjI allI impI ballI)
    show "aligned 12 h" by (rule treeD(1) [OF tree])
    fix x assume "x \<in> insert f T"
    then show "aligned 12 x" using f(1) treeD(2) [OF tree] by auto
  next
    fix j w x assume "j \<le> 3" "tbl ?m h root j w = Some x"
    then show "x \<in> insert f T" using old treeD(3) [OF tree] by blast
  next
    fix i j u w x assume x: "i \<le> 3" "j \<le> 3" "tbl ?m h root i u = Some x" "tbl ?m h root j w = Some x"
    have "i = j \<and> same_path i u w"
    proof (cases "x = f")
      case True
      then show ?thesis using isf x by (metis same_path_sym same_path_trans)
    next
      case False
      then show ?thesis using old x treeD(4) [OF tree] by blast
    qed
    then show "i = j" "same_path i u w" by blast+
  qed
qed


subsection \<open>The invariant\<close>

definition frame_of :: "u64 \<Rightarrow> nat" where
  "frame_of t = unat t div 4096"

text \<open>
  The tables of the space \<open>root\<close> are the frames \<open>T\<close>, allocated from the frame allocator; the
  direct map reaches every frame, frame addresses fit an entry, and the bitmap lies in none of
  the free frames or tables.
\<close>

definition pt_inv :: "u64 set \<Rightarrow> u64 set \<Rightarrow> u64 \<Rightarrow> 'a paging_scheme \<Rightarrow> bool" where
  "pt_inv U T root s \<longleftrightarrow> pmm_inv U s \<and> unat (total_frames s) \<le> 2 ^ 40 \<and>
     direct_map (paging_hhdm s) (unat (total_frames s)) \<and>
     tree (mem s) (paging_hhdm s) root T \<and> frame_of ` T \<subseteq> unat ` (U - free_set s) \<and>
     (\<forall>x \<in> bitmap_range s. dm_frame (paging_hhdm s) x \<notin> unat ` free_set s \<union> frame_of ` T)"

lemma pt_invD:
  assumes "pt_inv U T root s"
  shows "pmm_inv U s" and "unat (total_frames s) \<le> 2 ^ 40"
    and "direct_map (paging_hhdm s) (unat (total_frames s))"
    and "tree (mem s) (paging_hhdm s) root T" and "frame_of ` T \<subseteq> unat ` (U - free_set s)"
    and "x \<in> bitmap_range s \<Longrightarrow> dm_frame (paging_hhdm s) x \<notin> unat ` free_set s"
    and "x \<in> bitmap_range s \<Longrightarrow> dm_frame (paging_hhdm s) x \<notin> frame_of ` T"
    and "aligned 12 (paging_hhdm s)"
  using assms by (auto simp: pt_inv_def direct_map_def)

text \<open>A step: new tables come from the free frames, and memory changes only in tables and bitmap.\<close>

definition pt_step :: "u64 set \<Rightarrow> 'a paging_scheme \<Rightarrow> u64 set \<Rightarrow> 'a paging_scheme \<Rightarrow> bool" where
  "pt_step T s T' s' \<longleftrightarrow> T \<subseteq> T' \<and> free_set s' \<subseteq> free_set s \<and>
     frame_of ` T' = frame_of ` T \<union> unat ` (free_set s - free_set s') \<and>
     bitmap_range s' = bitmap_range s \<and>
     (\<exists>m k n l. s' = s\<lparr>mem := m, free_frames := k, next_hint := n, tlb_flushes := l\<rparr>) \<and>
     (\<forall>x. x \<notin> bitmap_range s \<longrightarrow> dm_frame (paging_hhdm s) x \<notin> frame_of ` T' \<longrightarrow> mem s' x = mem s x)"

lemma pt_step_id: "\<exists>m k n l. s = s\<lparr>mem := m, free_frames := k, next_hint := n, tlb_flushes := l\<rparr>"
  for s :: "'a paging_scheme"
  by (intro exI [of _ "mem s"] exI [of _ "free_frames s"] exI [of _ "next_hint s"] exI [of _ "tlb_flushes s"]) simp

lemma pt_step_refl [simp]: "pt_step T s T s"
  unfolding pt_step_def using pt_step_id [of s] by simp

lemma pt_step_fields:
  assumes "pt_step T s T' s'"
  shows "paging_hhdm s' = paging_hhdm s" and "kernel_pml4 s' = kernel_pml4 s" and "rsp s' = rsp s"
    and "total_frames s' = total_frames s" and "cr3 s' = cr3 s" and "device s' = device s" and "io_trace s' = io_trace s"
  using assms by (auto simp: pt_step_def)

lemma pt_step_trans:
  assumes "pt_step T s T' t" and "pt_step T' t T'' u"
  shows "pt_step T s T'' u"
proof -
  have "\<exists>m k n l. t = s\<lparr>mem := m, free_frames := k, next_hint := n, tlb_flushes := l\<rparr>"
    using assms(1) unfolding pt_step_def by (elim conjE)
  then obtain m k n l where t: "t = s\<lparr>mem := m, free_frames := k, next_hint := n, tlb_flushes := l\<rparr>"
    by (elim exE)
  have "\<exists>m k n l. u = t\<lparr>mem := m, free_frames := k, next_hint := n, tlb_flushes := l\<rparr>"
    using assms(2) unfolding pt_step_def by (elim conjE)
  then obtain m' k' n' l' where "u = t\<lparr>mem := m', free_frames := k', next_hint := n', tlb_flushes := l'\<rparr>"
    by (elim exE)
  then have "u = s\<lparr>mem := m', free_frames := k', next_hint := n', tlb_flushes := l'\<rparr>" by (simp add: t)
  then have 1: "\<exists>m k n l. u = s\<lparr>mem := m, free_frames := k, next_hint := n, tlb_flushes := l\<rparr>" by blast
  have sub: "free_set u \<subseteq> free_set t" "free_set t \<subseteq> free_set s" "T \<subseteq> T'" "T' \<subseteq> T''"
    "frame_of ` T' = frame_of ` T \<union> unat ` (free_set s - free_set t)"
    "frame_of ` T'' = frame_of ` T' \<union> unat ` (free_set t - free_set u)"
    using assms by (auto simp: pt_step_def)
  have "free_set s - free_set u = (free_set s - free_set t) \<union> (free_set t - free_set u)" using sub by auto
  then have 2: "frame_of ` T'' = frame_of ` T \<union> unat ` (free_set s - free_set u)" using sub by auto
  have 3: "mem u x = mem s x"
    if x: "x \<notin> bitmap_range s" "dm_frame (paging_hhdm s) x \<notin> frame_of ` T''" for x
  proof -
    have "dm_frame (paging_hhdm s) x \<notin> frame_of ` T'" using x(2) sub(6) by blast
    then show ?thesis using x assms pt_step_fields(1) [OF assms(1)] by (simp add: pt_step_def)
  qed
  have 4: "bitmap_range u = bitmap_range s" using assms by (simp add: pt_step_def)
  have 5: "T \<subseteq> T''" and 6: "free_set u \<subseteq> free_set s" using sub by blast+
  show ?thesis unfolding pt_step_def by (intro conjI allI impI 1 2 3 4 5 6)
qed

lemma table_frame:
  assumes "pt_inv U T root s" and "t \<in> T"
  shows "frame_of t < unat (total_frames s)" and "t \<noteq> 0" and "aligned 12 t" and "t + paging_hhdm s \<noteq> 0"
proof -
  note i = pt_invD [OF assms(1)]
  obtain f where f: "f \<in> U" "frame_of t = unat f" using i(5) assms(2) by auto
  have fb: "f \<noteq> 0" "f < total_frames s" using pmm_inv_bounds [OF i(1) f(1)] by auto
  then show lt: "frame_of t < unat (total_frames s)" using f(2) by (simp add: word_less_nat_alt)
  show nz: "t \<noteq> 0" using f(2) fb(1) by (auto simp: frame_of_def unat_eq_0)
  show "aligned 12 t" using treeD(2) [OF i(4) assms(2)] .
  have "unat t < unat (total_frames s) * 4096"
    using lt by (simp add: frame_of_def div_less_iff_less_mult)
  then have "unat (t + paging_hhdm s) = unat t + unat (paging_hhdm s)"
    using i(3) by (intro unat_add_exact) (simp add: direct_map_def)
  moreover have "0 < unat t" using nz by (simp add: unat_gt_0)
  ultimately show "t + paging_hhdm s \<noteq> 0" by (metis add_is_0 less_irrefl unat_0)
qed

lemma frame_inj: "aligned 12 t \<Longrightarrow> aligned 12 t' \<Longrightarrow> frame_of t = frame_of t' \<Longrightarrow> t = t'"
  by (auto simp: frame_of_def aligned_dvd word_unat_eq_iff elim!: dvdE)


subsection \<open>One level of the walk\<close>

lemma addr_mask_bits: "bit PTE_ADDR_MASK i \<longleftrightarrow> 12 \<le> i \<and> i < 52"
proof -
  have eq: "PTE_ADDR_MASK = push_bit 12 (mask 40)" by (simp add: PTE_ADDR_MASK_def mask_eq_exp_minus_1)
  show ?thesis unfolding eq by (auto simp: bit_simps)
qed

lemma frame_addr:
  assumes "unat (f :: u64) < 2 ^ 40"
  shows "unat (f * 4096) = unat f * 4096" and "aligned 12 (f * 4096)" and "frame_of (f * 4096) = unat f"
    and "(f * 4096) AND PTE_ADDR_MASK = f * 4096"
proof -
  show u: "unat (f * 4096) = unat f * 4096" using assms by (simp add: unat_word_ariths)
  then show al: "aligned 12 (f * 4096)" and "frame_of (f * 4096) = unat f"
    by (simp_all add: aligned_dvd frame_of_def)
  have "unat (f * 4096) < 2 ^ 52" using assms by (simp add: u)
  then have "12 \<le> i \<and> i < 52" if "bit (f * 4096) i" for i
    using that aligned_bit [OF al, of i] bit_less_exp [of "f * 4096" 52 i] by (metis not_le)
  then show "(f * 4096) AND PTE_ADDR_MASK = f * 4096"
    by (intro bit_eqI) (auto simp: bit_and_iff addr_mask_bits)
qed

lemma table_entry:
  assumes "u = 0 \<or> u = PTE_USER" and "f AND PTE_ADDR_MASK = f"
  defines "e \<equiv> (f AND PTE_ADDR_MASK) OR PTE_PRESENT OR PTE_WRITE OR u"
  shows "e AND PTE_PRESENT \<noteq> 0" and "e AND PTE_ADDR_MASK = f"
proof -
  have "f AND PTE_PRESENT = (f AND PTE_ADDR_MASK) AND PTE_PRESENT" by (simp only: assms(2))
  also have "\<dots> = f AND (PTE_ADDR_MASK AND PTE_PRESENT)" by (simp only: and.assoc)
  also have "PTE_ADDR_MASK AND PTE_PRESENT = 0" by (simp add: PTE_ADDR_MASK_def PTE_PRESENT_def)
  finally have f0: "f AND PTE_PRESENT = 0" by simp
  have "e = f OR PTE_PRESENT OR PTE_WRITE OR u" by (simp add: e_def assms(2))
  then show "e AND PTE_PRESENT \<noteq> 0" and "e AND PTE_ADDR_MASK = f"
    using assms(1,2) f0
    by (auto simp: bit.conj_disj_distrib2 PTE_PRESENT_def PTE_WRITE_def PTE_USER_def PTE_ADDR_MASK_def)
qed

lemma alloc_shape: "\<exists>m k n. snd (pmm_alloc_frame s) = s\<lparr>mem := m, free_frames := k, next_hint := n\<rparr>"
proof -
  have "\<exists>m k n. s = s\<lparr>mem := m, free_frames := k, next_hint := n\<rparr>"
    by (intro exI [of _ "mem s"] exI [of _ "free_frames s"] exI [of _ "next_hint s"]) simp
  then show ?thesis
    by (auto simp: pmm_alloc_frame_def take_frame_def bit_set_def Let_def split: option.splits)
qed

lemma table_page_off:
  assumes inv: "pt_inv U T root s" and "t \<in> T" and "page x = page (t + paging_hhdm s)"
  shows "dm_frame (paging_hhdm s) x = frame_of t" and "x \<notin> bitmap_range s"
proof -
  show d: "dm_frame (paging_hhdm s) x = frame_of t"
    using dm_frame_page [OF table_frame(3) [OF inv assms(2)] pt_invD(8) [OF inv] assms(3)] by (simp add: frame_of_def)
  show "x \<notin> bitmap_range s" using pt_invD(7) [OF inv, of x] d assms(2) by auto
qed

lemma free_page_off:
  assumes inv: "pt_inv U T root s" and f: "f \<in> free_set s" and "page x = page (f * 4096 + paging_hhdm s)"
  shows "dm_frame (paging_hhdm s) x = unat f" and "x \<notin> bitmap_range s"
proof -
  note i = pt_invD [OF inv]
  have "f < total_frames s" using f by (simp add: free_set_def)
  then have "unat f < 2 ^ 40" using i(2) by (simp add: word_less_nat_alt)
  note fa = frame_addr [OF this]
  show d: "dm_frame (paging_hhdm s) x = unat f"
    using dm_frame_page [OF fa(2) i(8) assms(3)] fa(3) by (simp add: frame_of_def)
  show "x \<notin> bitmap_range s" using i(6) [of x] d f by auto
qed

lemma page_near_iff: "aligned 12 a \<Longrightarrow> page x = page a \<longleftrightarrow> x - a < 4096"
  using page_eq_near [of x a] page_offset [of a "x - a"] by (auto simp: word_less_nat_alt)


text \<open>
  The tables a walk still lacks below level \<open>n\<close>; and growth: a mapping of \<open>v\<close> removes no table and adds
  tables of the path of \<open>v\<close> only.
\<close>

definition missing :: "nat \<Rightarrow> memory \<Rightarrow> u64 \<Rightarrow> u64 \<Rightarrow> u64 \<Rightarrow> nat" where
  "missing n m h root v = card {j. n < j \<and> j \<le> 3 \<and> tbl m h root j v = None}"

definition grows :: "memory \<Rightarrow> memory \<Rightarrow> u64 \<Rightarrow> u64 \<Rightarrow> u64 \<Rightarrow> bool" where
  "grows m m' h root v \<longleftrightarrow> (\<forall>j \<le> 3. \<forall>w. (tbl m h root j w \<noteq> None \<longrightarrow> tbl m' h root j w \<noteq> None) \<and>
     (tbl m' h root j w \<noteq> None \<longrightarrow> tbl m h root j w \<noteq> None \<or> same_path j v w))"

lemma grows_refl [simp]: "grows m m h root v"
  by (simp add: grows_def)

lemma grows_trans: "grows m m' h root v \<Longrightarrow> grows m' m'' h root v \<Longrightarrow> grows m m'' h root v"
  unfolding grows_def by meson

lemma missing_range:
  assumes "\<And>j. n < j \<Longrightarrow> j \<le> 3 \<Longrightarrow> tbl m h root j v = None"
  shows "missing n m h root v = 3 - n"
proof -
  have "{j. n < j \<and> j \<le> 3 \<and> tbl m h root j v = None} = {n<..3}" using assms by auto
  then show ?thesis by (simp add: missing_def)
qed

lemma missing_le: "missing n m h root v \<le> 3 - n"
proof -
  have "missing n m h root v \<le> card {n<..3}" unfolding missing_def by (intro card_mono) auto
  then show ?thesis by simp
qed

lemma missing_Suc: "missing (Suc n) m h root v \<le> missing n m h root v"
proof -
  have "finite {j. n < j \<and> j \<le> 3 \<and> tbl m h root j v = None}" by (rule finite_subset [of _ "{..3}"]) auto
  then show ?thesis unfolding missing_def by (rule card_mono) auto
qed

text \<open>The frame that a new table is made of.\<close>

lemma fresh_frame:
  assumes inv: "pt_inv U T root s" and free: "free_set s \<noteq> {}"
  obtains f m k n where "f \<in> free_set s" and "pmm_alloc_frame s = (f * 4096, s\<lparr>mem := m, free_frames := k, next_hint := n\<rparr>)"
    and "pmm_inv U (s\<lparr>mem := m, free_frames := k, next_hint := n\<rparr>)"
    and "free_set (s\<lparr>mem := m, free_frames := k, next_hint := n\<rparr>) = free_set s - {f}"
    and "\<forall>x. x \<notin> bitmap_range s \<longrightarrow> m x = mem s x" and "unat f < 2 ^ 40" and "f * 4096 \<noteq> 0" and "f * 4096 \<notin> T"
proof -
  note i = pt_invD [OF inv]
  obtain f where f: "f \<in> free_set s" "fst (pmm_alloc_frame s) = f * 4096"
    "free_set (snd (pmm_alloc_frame s)) = free_set s - {f}" using pmm.alloc_frame [OF i(1) free] by blast
  obtain m k n where s1: "snd (pmm_alloc_frame s) = s\<lparr>mem := m, free_frames := k, next_hint := n\<rparr>"
    using alloc_shape [of s] by blast
  have "f < total_frames s" using f(1) by (simp add: free_set_def)
  then have small: "unat f < 2 ^ 40" using i(2) by (simp add: word_less_nat_alt)
  note fa = frame_addr [OF this]
  have F0: "f * 4096 \<noteq> 0" using pmm.frame_nonzero [OF i(1)] f(1) pmm_invD(2) [OF i(1)] by blast
  have FT: "f * 4096 \<notin> T"
  proof
    assume "f * 4096 \<in> T"
    then have "unat f \<in> unat ` (U - free_set s)" using i(5) fa(3) by force
    then show False using f(1) by (auto simp: word_unat_eq_iff [symmetric])
  qed
  have mem: "\<forall>x. x \<notin> bitmap_range s \<longrightarrow> m x = mem s x" using alloc_mem [OF i(1)] by (simp add: s1)
  have alloc: "pmm_alloc_frame s = (f * 4096, s\<lparr>mem := m, free_frames := k, next_hint := n\<rparr>)"
    using f(2) s1 by (simp add: prod_eq_iff)
  from that [OF f(1) alloc _ _ mem small F0 FT] pmm.invar_alloc [OF i(1)] f(3) show thesis by (simp add: s1)
qed

text \<open>Linking a zeroed table adds the one walk that was missing.\<close>

lemma grows_new_table:
  assumes tree: "tree m h root T" and t: "tbl m h root n v = Some t" "n \<le> 2"
    and absent: "load64 m (slot h t n v) AND PTE_PRESENT = 0"
    and f: "aligned 12 f" "f \<notin> T" and zero: "\<And>x. page x = page (f + h) \<Longrightarrow> m x = 0"
    and e: "e AND PTE_PRESENT \<noteq> 0" "e AND PTE_ADDR_MASK = f"
  shows "grows m (store64 m (slot h t n v) e) h root v" and "missing n m h root v = 3 - n"
proof -
  note shape = tbl_new_table [OF tree t absent f zero e]
  show "missing n m h root v = 3 - n" by (rule missing_range) (simp add: shape(2))
  show "grows m (store64 m (slot h t n v) e) h root v"
    unfolding grows_def
  proof (intro allI impI)
    fix j w assume "j \<le> (3 :: nat)"
    then have "j \<le> 4" by simp
    from shape [OF _ this, of w]
    show "(tbl m h root j w \<noteq> None \<longrightarrow> tbl (store64 m (slot h t n v) e) h root j w \<noteq> None) \<and>
        (tbl (store64 m (slot h t n v) e) h root j w \<noteq> None \<longrightarrow> tbl m h root j w \<noteq> None \<or> same_path j v w)"
      by (cases "n < j \<and> same_path (Suc n) v w") (auto simp del: tbl.simps split: if_splits)
  qed
qed

lemma missing_cong: "(\<And>j. j \<le> 3 \<Longrightarrow> tbl m h root j v = tbl m' h root j v) \<Longrightarrow> missing n m h root v = missing n m' h root v"
  unfolding missing_def by (intro arg_cong [where f = card]) auto

lemma grows_cong:
  "(\<And>j w. j \<le> 3 \<Longrightarrow> tbl m h root j w = tbl m' h root j w) \<Longrightarrow> grows m' m'' h root v \<Longrightarrow> grows m m'' h root v"
  unfolding grows_def by (simp del: tbl.simps)

text \<open>A table that was made of a free frame keeps the invariant and is one step of the space.\<close>

lemma linked_table:
  assumes inv: "pt_inv U T root s" and f: "f \<in> free_set s" "unat f < 2 ^ 40"
    and s1: "s1 = s\<lparr>mem := m1, free_frames := k, next_hint := n\<rparr>" and inv1: "pmm_inv U s1" "free_set s1 = free_set s - {f}"
    and m1: "\<forall>x. x \<notin> bitmap_range s \<longrightarrow> m1 x = mem s x"
    and off: "\<And>x. dm_frame (paging_hhdm s) x \<notin> frame_of ` T \<union> {unat f} \<Longrightarrow> m3 x = m1 x"
    and tree: "tree m3 (paging_hhdm s) root (insert (f * 4096) T)"
  shows "pt_inv U (insert (f * 4096) T) root (s1\<lparr>mem := m3\<rparr>)" and "pt_step T s (insert (f * 4096) T) (s1\<lparr>mem := m3\<rparr>)"
    and "card (free_set s) = Suc (card (free_set (s1\<lparr>mem := m3\<rparr>)))"
proof -
  let ?h = "paging_hhdm s" and ?F = "f * 4096" and ?s3 = "s1\<lparr>mem := m3\<rparr>"
  note i = pt_invD [OF inv] and fa = frame_addr [OF f(2)]
  have range1: "bitmap_range s1 = bitmap_range s" by (simp add: s1 bitmap_range_def)
  have bm: "m3 x = mem s1 x" if "x \<in> bitmap_range s1" for x
    using off [of x] i(6,7) [of x] that range1 f(1) by (auto simp: s1)
  have p3: "pmm_inv U ?s3" "free_set ?s3 = free_set s - {f}" "bitmap_range ?s3 = bitmap_range s"
    using pmm_frame [OF inv1(1) bm] inv1(2) range1 by simp_all
  have h3: "paging_hhdm ?s3 = ?h" "total_frames ?s3 = total_frames s" by (simp_all add: s1)
  have "f \<in> U" using f(1) pmm_invD(2) [OF i(1)] by blast
  then have "frame_of ` insert ?F T \<subseteq> unat ` (U - free_set ?s3)" using i(5) p3(2) fa(3) by auto
  moreover have "dm_frame ?h x \<notin> unat ` free_set ?s3 \<union> frame_of ` insert ?F T" if "x \<in> bitmap_range s" for x
    using i(6,7) [OF that] p3(2) f(1) fa(3) by auto
  ultimately show "pt_inv U (insert ?F T) root ?s3" using p3 i(2,3) tree by (simp add: pt_inv_def h3)
  have "mem ?s3 x = mem s x" if "x \<notin> bitmap_range s" "dm_frame ?h x \<notin> frame_of ` insert ?F T" for x
    using off [of x] m1 that fa(3) by auto
  moreover have "free_set s - free_set ?s3 = {f}" using p3(2) f(1) by auto
  moreover have "\<exists>m k n l. ?s3 = s\<lparr>mem := m, free_frames := k, next_hint := n, tlb_flushes := l\<rparr>"
    by (intro exI [of _ m3] exI [of _ k] exI [of _ n] exI [of _ "tlb_flushes s"]) (simp add: s1)
  ultimately show "pt_step T s (insert ?F T) ?s3"
    unfolding pt_step_def using p3(2,3) fa(3) by (intro conjI) auto
  show "card (free_set s) = Suc (card (free_set ?s3))" unfolding p3(2) by (rule card.remove [OF finite f(1)])
qed

lemma next_level_create:
  assumes inv: "pt_inv U T root s" and n: "n \<le> 2"
    and t: "tbl (mem s) (paging_hhdm s) root n v = Some t"
    and absent: "load64 (mem s) (slot (paging_hhdm s) t n v) AND PTE_PRESENT = 0"
    and u: "u = 0 \<or> u = PTE_USER" and free: "free_set s \<noteq> {}"
  obtains t' s' T' where "next_level (t + paging_hhdm s) (idx n v) True u s = (t' + paging_hhdm s, s')"
    and "pt_inv U T' root s'" and "pt_step T s T' s'" and "t' \<in> T'"
    and "\<And>w. tbl (mem s') (paging_hhdm s) root 4 w = tbl (mem s) (paging_hhdm s) root 4 w"
    and "tbl (mem s') (paging_hhdm s) root (Suc n) v = Some t'" and "grows (mem s) (mem s') (paging_hhdm s) root v"
    and "card (free_set s) = Suc (card (free_set s'))" and "missing n (mem s) (paging_hhdm s) root v = 3 - n"
proof -
  let ?h = "paging_hhdm s"
  note i = pt_invD [OF inv]
  obtain f m1 k1 n1 where f: "f \<in> free_set s" and alloc: "pmm_alloc_frame s = (f * 4096, s\<lparr>mem := m1, free_frames := k1, next_hint := n1\<rparr>)"
    and inv1: "pmm_inv U (s\<lparr>mem := m1, free_frames := k1, next_hint := n1\<rparr>)"
      "free_set (s\<lparr>mem := m1, free_frames := k1, next_hint := n1\<rparr>) = free_set s - {f}"
    and m1: "\<forall>x. x \<notin> bitmap_range s \<longrightarrow> m1 x = mem s x" and small: "unat f < 2 ^ 40" and F0: "f * 4096 \<noteq> 0" and FT: "f * 4096 \<notin> T"
    by (rule fresh_frame [OF inv free])
  define s1 where "s1 = s\<lparr>mem := m1, free_frames := k1, next_hint := n1\<rparr>"
  note fa = frame_addr [OF small]
  let ?F = "f * 4096"
  have Fh: "aligned 12 (?F + ?h)" using fa(2) i(8) by blast
  define m2 where "m2 = snd (memset (?F + ?h) 0 4096 m1)"
  have m2: "m2 x = (if page x = page (?F + ?h) then 0 else m1 x)" for x
    by (simp add: m2_def memset_byte page_near_iff [OF Fh])
  have same2: "m2 x = mem s x" if "t0 \<in> T" "page x = page (t0 + ?h)" for t0 x
  proof -
    have "t0 + ?h \<noteq> ?F + ?h" using that(1) FT by auto
    moreover have "aligned 12 (t0 + ?h)" using table_frame(3) [OF inv that(1)] i(8) by blast
    ultimately have "page x \<noteq> page (?F + ?h)" using that(2) page_eq_iff [OF _ Fh] by simp
    then show ?thesis using m1 table_page_off(2) [OF inv that] by (simp add: m2)
  qed
  have tree2: "tree m2 ?h root T" by (rule tree_cong [OF i(4) same2])
  have tbl2: "tbl m2 ?h root j w = tbl (mem s) ?h root j w" if "j \<le> 4" for j w
    by (rule tbl_cong [OF i(4) same2 that])
  have T: "t \<in> T" using treeD(3) [OF i(4) _ t] n by simp
  note sp = slot_page [OF table_frame(3) [OF inv T] i(8), of n v]
  have load2: "load64 m2 (slot ?h t n v) = load64 (mem s) (slot ?h t n v)"
    using same2 [OF T] sp by (intro load64_page_cong) auto
  let ?e = "(?F AND PTE_ADDR_MASK) OR PTE_PRESENT OR PTE_WRITE OR u"
  define m3 where "m3 = store64 m2 (slot ?h t n v) ?e"
  have t2: "tbl m2 ?h root n v = Some t" using tbl2 [of n v] n t by simp
  have ab2: "load64 m2 (slot ?h t n v) AND PTE_PRESENT = 0" using absent load2 by simp
  have zero: "m2 x = 0" if "page x = page (?F + ?h)" for x using that by (simp add: m2)
  note link = tree2 t2 n ab2 fa(2) FT zero table_entry [OF u fa(4)]
  note new = tree_new_table [OF link, folded m3_def] and more = grows_new_table [OF link, folded m3_def]
  have nl: "next_level (t + ?h) (idx n v) True u s = (?F + ?h, s1\<lparr>mem := m3\<rparr>)"
    using absent F0 alloc by (simp add: next_level_def Let_def slot_def [symmetric] m3_def m2_def s1_def table_at_def)
  have off3: "m3 x = m1 x" if "dm_frame ?h x \<notin> frame_of ` T \<union> {unat f}" for x
  proof -
    have "page x \<noteq> page (t + ?h)" using table_page_off(1) [OF inv T] T that by blast
    then have "m3 x = m2 x" unfolding m3_def using sp by (intro store64_page) auto
    moreover have "page x \<noteq> page (?F + ?h)" using free_page_off(1) [OF inv f] that by blast
    ultimately show ?thesis by (simp add: m2)
  qed
  note lk = linked_table [OF inv f small s1_def inv1 [folded s1_def] m1 off3 new(1)]
  have "missing n (mem s) ?h root v = 3 - n" using missing_cong [of m2 ?h root v "mem s" n] tbl2 more(2) by simp
  moreover have "grows (mem s) m3 ?h root v" by (rule grows_cong [OF _ more(1)]) (simp add: tbl2 del: tbl.simps)
  ultimately show thesis
    by (intro that [OF nl lk(1,2)]) (use new(2,3) tbl2 lk(3) in auto)
qed

lemma table_pointer:
  assumes "pt_inv U T root s" and "n \<le> 3" and "tbl (mem s) (paging_hhdm s) root n v = Some t"
  shows "t + paging_hhdm s \<noteq> 0" and "t \<in> T"
proof -
  show "t \<in> T" using treeD(3) [OF pt_invD(4) [OF assms(1)] assms(2,3)] .
  then show "t + paging_hhdm s \<noteq> 0" by (rule table_frame(4) [OF assms(1)])
qed

lemma next_level_walk:
  assumes inv: "pt_inv U T root s" and n: "n \<le> 2"
    and t: "tbl (mem s) (paging_hhdm s) root n v = Some t" and u: "u = 0 \<or> u = PTE_USER"
  obtains p s' T' where "next_level (t + paging_hhdm s) (idx n v) True u s = (p, s')"
    and "pt_inv U T' root s'" and "pt_step T s T' s'"
    and "\<And>w. tbl (mem s') (paging_hhdm s) root 4 w = tbl (mem s) (paging_hhdm s) root 4 w"
    and "p = 0 \<Longrightarrow> s' = s \<and> free_set s = {} \<and> 0 < missing n (mem s) (paging_hhdm s) root v" and "grows (mem s) (mem s') (paging_hhdm s) root v"
    and "p \<noteq> 0 \<Longrightarrow> card (free_set s) + missing (Suc n) (mem s') (paging_hhdm s) root v \<le> card (free_set s') + missing n (mem s) (paging_hhdm s) root v"
    and "p \<noteq> 0 \<Longrightarrow> \<exists>t'. tbl (mem s') (paging_hhdm s) root (Suc n) v = Some t' \<and> p = t' + paging_hhdm s"
proof (cases "load64 (mem s) (slot (paging_hhdm s) t n v) AND PTE_PRESENT = 0")
  case False
  let ?t = "load64 (mem s) (slot (paging_hhdm s) t n v) AND PTE_ADDR_MASK"
  have t': "tbl (mem s) (paging_hhdm s) root (Suc n) v = Some ?t" using False t by simp
  have nl: "next_level (t + paging_hhdm s) (idx n v) True u s = (?t + paging_hhdm s, s)"
    using False by (simp add: next_level_def slot_def [symmetric] table_at_def)
  have nz: "?t + paging_hhdm s \<noteq> 0" by (rule table_pointer(1) [OF inv _ t']) (use n in simp)
  show thesis by (rule that [OF nl inv pt_step_refl refl]) (simp_all add: t' nz missing_Suc del: tbl.simps)
next
  case True
  show thesis
  proof (cases "free_set s = {}")
    case free: True
    then have nl: "next_level (t + paging_hhdm s) (idx n v) True u s = (0, s)"
      using True pmm.alloc_none [OF pt_invD(1) [OF inv] free] by (simp add: next_level_def slot_def [symmetric])
    have "tbl (mem s) (paging_hhdm s) root (Suc n) v = None" using True t by simp
    then have "missing n (mem s) (paging_hhdm s) root v = 3 - n" using tbl_None [of _ _ _ "Suc n"] by (intro missing_range) simp
    then show thesis using n by (intro that [OF nl inv pt_step_refl refl]) (simp_all add: free)
  next
    case False
    obtain T' s' t' where c: "next_level (t + paging_hhdm s) (idx n v) True u s = (t' + paging_hhdm s, s')"
      "pt_inv U T' root s'" "pt_step T s T' s'" "t' \<in> T'"
      "\<And>w. tbl (mem s') (paging_hhdm s) root 4 w = tbl (mem s) (paging_hhdm s) root 4 w"
      "tbl (mem s') (paging_hhdm s) root (Suc n) v = Some t'" "grows (mem s) (mem s') (paging_hhdm s) root v"
      "card (free_set s) = Suc (card (free_set s'))" "missing n (mem s) (paging_hhdm s) root v = 3 - n"
      by (rule next_level_create [OF inv n t True u False]) (rule that; assumption | simp)
    have "t' + paging_hhdm s \<noteq> 0" using table_frame(4) [OF c(2,4)] pt_step_fields(1) [OF c(3)] by simp
    moreover have "missing (Suc n) (mem s') (paging_hhdm s) root v \<le> 3 - Suc n" by (rule missing_le)
    ultimately show thesis using n by (intro that [OF c(1-3,5)] exI [of _ t'] conjI) (simp_all add: c(6-9) del: tbl.simps)
  qed
qed

lemma next_level_read:
  assumes "tbl (mem s) (paging_hhdm s) root n v = Some t"
  shows "next_level (t + paging_hhdm s) (idx n v) False u s =
    (case tbl (mem s) (paging_hhdm s) root (Suc n) v of None \<Rightarrow> (0, s) | Some t' \<Rightarrow> (t' + paging_hhdm s, s))"
  using assms by (simp add: next_level_def slot_def [symmetric] table_at_def Let_def)

text \<open>The read-only walk of \<open>paging_unmap\<close> and \<open>paging_translate\<close>.\<close>

lemma root_table: "table_at root s = root + paging_hhdm s"
  by (simp add: table_at_def)

lemma level_step:
  assumes inv: "pt_inv U T root s" and n: "n \<le> 2" and t: "tbl (mem s) (paging_hhdm s) root n v = Some t"
  shows "(case next_level (t + paging_hhdm s) (idx n v) False 0 s of (p, s') \<Rightarrow> if p = 0 then k0 s' else k p s') =
    (case tbl (mem s) (paging_hhdm s) root (Suc n) v of None \<Rightarrow> k0 s | Some t' \<Rightarrow> k (t' + paging_hhdm s) s)"
proof (cases "tbl (mem s) (paging_hhdm s) root (Suc n) v")
  case None
  then show ?thesis unfolding next_level_read [OF t] by simp
next
  case (Some t')
  have "Suc n \<le> 3" using n by simp
  from table_pointer(1) [OF inv this Some] show ?thesis unfolding next_level_read [OF t] Some by simp
qed

lemma three_levels:
  assumes inv: "pt_inv U T root s"
  shows "(case next_level (table_at root s) (pml4_index v) False 0 s of (pdpt, s) \<Rightarrow>
            if pdpt = 0 then k0 s else
            case next_level pdpt (pdpt_index v) False 0 s of (pd, s) \<Rightarrow>
            if pd = 0 then k0 s else
            case next_level pd (pd_index v) False 0 s of (pt, s) \<Rightarrow>
            if pt = 0 then k0 s else k pt s) =
    (case tbl (mem s) (paging_hhdm s) root 3 v of None \<Rightarrow> k0 s | Some t \<Rightarrow> k (t + paging_hhdm s) s)"
proof -
  let ?tbl = "\<lambda>n. tbl (mem s) (paging_hhdm s) root n v"
  have step: "(case next_level (t + paging_hhdm s) (idx n v) False 0 s of (p, s') \<Rightarrow> if p = 0 then k0 s' else K p s') =
      (case ?tbl (Suc n) of None \<Rightarrow> k0 s | Some t' \<Rightarrow> K (t' + paging_hhdm s) s)"
    if "n \<le> 2" "?tbl n = Some t" for n t K
    by (rule level_step [OF inv that])
  have num: "Suc 0 = 1" "Suc 1 = 2" "Suc 2 = 3" by simp_all
  have s0: "(case next_level (table_at root s) (pml4_index v) False 0 s of (p, s') \<Rightarrow> if p = 0 then k0 s' else K p s') =
      (case ?tbl 1 of None \<Rightarrow> k0 s | Some t' \<Rightarrow> K (t' + paging_hhdm s) s)" for K
    using step [of 0 root K] unfolding root_table idx_levels num by simp
  have s1: "(case next_level (t + paging_hhdm s) (pdpt_index v) False 0 s of (p, s') \<Rightarrow> if p = 0 then k0 s' else K p s') =
      (case ?tbl 2 of None \<Rightarrow> k0 s | Some t' \<Rightarrow> K (t' + paging_hhdm s) s)" if "?tbl 1 = Some t" for t K
    using step [OF _ that, of K] unfolding idx_levels num by simp
  have s2: "(case next_level (t + paging_hhdm s) (pd_index v) False 0 s of (p, s') \<Rightarrow> if p = 0 then k0 s' else K p s') =
      (case ?tbl 3 of None \<Rightarrow> k0 s | Some t' \<Rightarrow> K (t' + paging_hhdm s) s)" if "?tbl 2 = Some t" for t K
    using step [OF _ that, of K] unfolding idx_levels num by simp
  show ?thesis
  proof (cases "?tbl 1")
    case None
    then show ?thesis unfolding s0 using tbl_None [OF None, of 3] by simp
  next
    case 1: (Some t1)
    show ?thesis
    proof (cases "?tbl 2")
      case None
      then show ?thesis unfolding s0 1 option.case s1 [OF 1] using tbl_None [OF None, of 3] by simp
    next
      case 2: (Some t2)
      show ?thesis unfolding s0 1 option.case s1 [OF 1] 2 s2 [OF 2] ..
    qed
  qed
qed


subsection \<open>Translate, unmap, map\<close>

lemma translation_alt:
  "translation m h root v =
     (case tbl m h root 3 v of
        None \<Rightarrow> None
      | Some t \<Rightarrow> let e = load64 m (slot h t 3 v)
          in if e AND PTE_PRESENT = 0 then None else Some ((e AND PTE_ADDR_MASK) OR (v AND 0xfff)))"
proof -
  have "(4::nat) = Suc 3" by simp
  then show ?thesis by (simp only: translation_def tbl.simps Let_def) (simp split: option.split)
qed

lemma translate_translation:
  assumes "pt_inv U T root s"
  shows "paging_translate root v s = translation (mem s) (paging_hhdm s) root v"
  unfolding paging_translate_def Let_def three_levels [OF assms] translation_alt
  unfolding slot_def idx_levels ..

lemma mem_pt_inv_leaf:
  fixes e :: u64
  assumes inv: "pt_inv U T root s" and t: "tbl (mem s) (paging_hhdm s) root 3 v = Some t"
  defines "s' \<equiv> paging_invlpg v (s\<lparr>mem := store64 (mem s) (slot (paging_hhdm s) t 3 v) e\<rparr>)"
  shows "pt_inv U T root s'" and "pt_step T s T s'" and "free_set s' = free_set s"
    and "translation (mem s') (paging_hhdm s) root w =
      (if same_path 4 v w
       then if e AND PTE_PRESENT = 0 then None else Some ((e AND PTE_ADDR_MASK) OR (w AND 0xfff))
       else translation (mem s) (paging_hhdm s) root w)"
proof -
  let ?h = "paging_hhdm s" and ?m = "store64 (mem s) (slot (paging_hhdm s) t 3 v) e"
  note i = pt_invD [OF inv]
  have T: "t \<in> T" using table_pointer(2) [OF inv _ t] by simp
  note sp = slot_page [OF table_frame(3) [OF inv T] i(8), of 3 v]
  have off: "?m x = mem s x" if "page x \<noteq> page (t + ?h)" for x
    using that sp by (intro store64_page) auto
  have bm: "?m x = mem s x" if "x \<in> bitmap_range s" for x
    using off [of x] table_page_off(2) [OF inv T, of x] that by blast
  note p = pmm_frame [OF i(1) bm]
  have s': "mem s' = ?m" "paging_hhdm s' = ?h" "total_frames s' = total_frames s"
    by (simp_all add: s'_def paging_invlpg_def)
  have fs: "free_set s' = free_set (s\<lparr>mem := ?m\<rparr>)" "bitmap_range s' = bitmap_range (s\<lparr>mem := ?m\<rparr>)"
    "pmm_inv U s' = pmm_inv U (s\<lparr>mem := ?m\<rparr>)"
    by (simp_all add: s'_def paging_invlpg_def free_set_def bitmap_range_def pmm_inv_def bit_test_alt)
  show fr: "free_set s' = free_set s" using p(1) fs(1) by simp
  have "pmm_inv U s'" "bitmap_range s' = bitmap_range s" using p fs by simp_all
  then show "pt_inv U T root s'"
    using inv tree_store_leaf [OF i(4) t, of e] by (simp add: pt_inv_def s' fr)
  have "mem s' x = mem s x" if "dm_frame ?h x \<notin> frame_of ` T" for x
    using off [of x] table_page_off(1) [OF inv T, of x] T that by (auto simp: s')
  moreover have "\<exists>m k n l. s' = s\<lparr>mem := m, free_frames := k, next_hint := n, tlb_flushes := l\<rparr>"
    by (intro exI [of _ ?m] exI [of _ "free_frames s"] exI [of _ "next_hint s"] exI [of _ "tlb_flushes s @ [v]"])
      (simp add: s'_def paging_invlpg_def)
  ultimately show "pt_step T s T s'"
    unfolding pt_step_def using \<open>bitmap_range s' = bitmap_range s\<close> fr by (intro conjI) auto
  have n4: "(4::nat) = Suc 3" by simp
  show "translation (mem s') ?h root w =
      (if same_path 4 v w
       then if e AND PTE_PRESENT = 0 then None else Some ((e AND PTE_ADDR_MASK) OR (w AND 0xfff))
       else translation (mem s) ?h root w)"
  proof (cases "same_path 4 v w")
    case True
    then have "same_path (Suc 3) v w" unfolding n4 .
    then have "tbl ?m ?h root 4 w = (if e AND PTE_PRESENT \<noteq> 0 then Some (e AND PTE_ADDR_MASK) else None)"
      unfolding n4 by (rule tbl_store_here [OF i(4) t order_refl])
    then show ?thesis using True by (simp add: translation_def s')
  next
    case False
    then have "tbl ?m ?h root 4 w = tbl (mem s) ?h root 4 w"
      using tbl_store_other [OF i(4) t, of 4 w e] by simp
    then show ?thesis using False by (simp add: translation_def s')
  qed
qed


lemma slot_entry: "entry_at (t + h) (pt_index v) = slot h t 3 v"
  by (simp add: slot_def idx_levels)

lemma paging_unmap_spec:
  assumes inv: "pt_inv U T root s"
  shows "translation (mem s) (paging_hhdm s) root v = None \<Longrightarrow> paging_unmap root v s = (False, s)"
    and "translation (mem s) (paging_hhdm s) root v \<noteq> None \<Longrightarrow>
      \<exists>t. tbl (mem s) (paging_hhdm s) root 3 v = Some t \<and>
        paging_unmap root v s = (True, paging_invlpg v (s\<lparr>mem := store64 (mem s) (slot (paging_hhdm s) t 3 v) 0\<rparr>))"
  unfolding paging_unmap_def Let_def three_levels [OF inv] translation_alt slot_entry
  by (auto split: option.splits if_splits)

lemma leaf_pte_bits:
  "leaf_pte phys flags AND PTE_PRESENT \<noteq> 0" "leaf_pte phys flags AND PTE_ADDR_MASK = phys AND PTE_ADDR_MASK"
  "leaf_pte phys flags AND PTE_WRITE \<noteq> 0 \<longleftrightarrow> flags AND VM_WRITE \<noteq> 0"
  "leaf_pte phys flags AND PTE_USER \<noteq> 0 \<longleftrightarrow> flags AND VM_USER \<noteq> 0"
proof -
  have masks: "PTE_ADDR_MASK AND PTE_PRESENT = 0" "PTE_ADDR_MASK AND PTE_WRITE = 0" "PTE_ADDR_MASK AND PTE_USER = 0"
    by (simp_all add: PTE_ADDR_MASK_def PTE_PRESENT_def PTE_WRITE_def PTE_USER_def)
  have z: "(phys AND PTE_ADDR_MASK) AND PTE_PRESENT = 0" "(phys AND PTE_ADDR_MASK) AND PTE_WRITE = 0"
    "(phys AND PTE_ADDR_MASK) AND PTE_USER = 0"
    by (simp_all add: and.assoc masks)
  have w: "PTE_PRESENT AND PTE_ADDR_MASK = 0" "PTE_WRITE AND PTE_ADDR_MASK = 0" "PTE_USER AND PTE_ADDR_MASK = 0"
    "PTE_PRESENT AND PTE_WRITE = 0" "PTE_PRESENT AND PTE_USER = 0" "PTE_WRITE AND PTE_PRESENT = 0" "PTE_USER AND PTE_PRESENT = 0"
    "PTE_WRITE AND PTE_USER = 0" "PTE_USER AND PTE_WRITE = 0" "PTE_PRESENT \<noteq> 0" "PTE_WRITE \<noteq> 0" "PTE_USER \<noteq> 0"
    by (simp_all add: PTE_ADDR_MASK_def PTE_PRESENT_def PTE_WRITE_def PTE_USER_def)
  show "leaf_pte phys flags AND PTE_PRESENT \<noteq> 0" "leaf_pte phys flags AND PTE_ADDR_MASK = phys AND PTE_ADDR_MASK"
    "leaf_pte phys flags AND PTE_WRITE \<noteq> 0 \<longleftrightarrow> flags AND VM_WRITE \<noteq> 0"
    "leaf_pte phys flags AND PTE_USER \<noteq> 0 \<longleftrightarrow> flags AND VM_USER \<noteq> 0"
    by (simp_all add: leaf_pte_def Let_def bit.conj_disj_distrib2 z w)
qed

text \<open>
  What a mapping achieves, as a property of its result: on success exactly the page of \<open>v\<close> is
  redirected, on failure no frame is left, there were fewer than the walk lacks tables below level \<open>n\<close>, and no translation
  changed. At most the lacking tables are allocated.
\<close>

definition map_post ::
  "nat \<Rightarrow> u64 set \<Rightarrow> u64 \<Rightarrow> u64 \<Rightarrow> u64 \<Rightarrow> u64 \<Rightarrow> u64 set \<Rightarrow> 'a paging_scheme \<Rightarrow> bool \<times> 'a paging_scheme \<Rightarrow> bool" where
  "map_post n U root v phys flags T s r \<longleftrightarrow>
     (\<exists>T'. pt_inv U T' root (snd r) \<and> pt_step T s T' (snd r)) \<and>
     (\<forall>w. translation (mem (snd r)) (paging_hhdm s) root w =
        (if fst r \<and> same_path 4 v w then Some ((phys AND PTE_ADDR_MASK) OR (w AND 0xfff))
         else translation (mem s) (paging_hhdm s) root w)) \<and>
     (fst r \<longrightarrow> (\<exists>t. tbl (mem (snd r)) (paging_hhdm s) root 3 v = Some t \<and>
        load64 (mem (snd r)) (slot (paging_hhdm s) t 3 v) = leaf_pte phys flags)) \<and>
     grows (mem s) (mem (snd r)) (paging_hhdm s) root v \<and>
     card (free_set s) \<le> card (free_set (snd r)) + missing n (mem s) (paging_hhdm s) root v \<and>
     (\<not> fst r \<longrightarrow> free_set (snd r) = {} \<and> card (free_set s) < missing n (mem s) (paging_hhdm s) root v)"

lemma map_post_trans:
  assumes "pt_step T s T' s'" and "map_post (Suc n) U root v phys flags T' s' r"
    and "card (free_set s) + missing (Suc n) (mem s') (paging_hhdm s) root v \<le> card (free_set s') + missing n (mem s) (paging_hhdm s) root v"
    and "\<And>w. tbl (mem s') (paging_hhdm s) root 4 w = tbl (mem s) (paging_hhdm s) root 4 w"
    and "grows (mem s) (mem s') (paging_hhdm s) root v"
  shows "map_post n U root v phys flags T s r"
proof -
  have "\<exists>T''. pt_inv U T'' root (snd r) \<and> pt_step T s T'' (snd r)"
    using assms(2) pt_step_trans [OF assms(1)] unfolding map_post_def by blast
  moreover have "grows (mem s) (mem (snd r)) (paging_hhdm s) root v"
    using assms(2) pt_step_fields(1) [OF assms(1)] by (intro grows_trans [OF assms(5)]) (simp add: map_post_def)
  ultimately show ?thesis
    using assms(2-4) pt_step_fields(1) [OF assms(1)] unfolding map_post_def translation_def by auto
qed

lemma map_level:
  assumes inv: "pt_inv U T root s" and n: "n \<le> 2"
    and t: "tbl (mem s) (paging_hhdm s) root n v = Some t" and u: "u = 0 \<or> u = PTE_USER"
    and cont: "\<And>T' s' t'. pt_inv U T' root s' \<Longrightarrow> tbl (mem s') (paging_hhdm s') root (Suc n) v = Some t' \<Longrightarrow>
      map_post (Suc n) U root v phys flags T' s' (k (t' + paging_hhdm s') s')"
  shows "map_post n U root v phys flags T s
    (case next_level (t + paging_hhdm s) (idx n v) True u s of (p, s') \<Rightarrow> if p = 0 then (False, s') else k p s')"
proof -
  let ?h = "paging_hhdm s"
  obtain T' s' p where w: "next_level (t + ?h) (idx n v) True u s = (p, s')"
    "pt_inv U T' root s'" "pt_step T s T' s'"
    "\<And>w. tbl (mem s') ?h root 4 w = tbl (mem s) ?h root 4 w" "p = 0 \<Longrightarrow> s' = s \<and> free_set s = {} \<and> 0 < missing n (mem s) ?h root v"
    "grows (mem s) (mem s') ?h root v"
    "p \<noteq> 0 \<Longrightarrow> card (free_set s) + missing (Suc n) (mem s') ?h root v \<le> card (free_set s') + missing n (mem s) ?h root v"
    "p \<noteq> 0 \<Longrightarrow> \<exists>t'. tbl (mem s') ?h root (Suc n) v = Some t' \<and> p = t' + ?h"
    by (rule next_level_walk [OF inv n t u]) (rule that; assumption | simp)
  note h = pt_step_fields(1) [OF w(3)]
  show ?thesis
  proof (cases "p = 0")
    case True
    then have "map_post n U root v phys flags T s (False, s')"
      using w(5) inv pt_step_refl unfolding map_post_def by auto
    then show ?thesis using True by (simp add: w(1))
  next
    case False
    then obtain t' where t': "tbl (mem s') (paging_hhdm s') root (Suc n) v = Some t'" "p = t' + paging_hhdm s'"
      using w(8) h by auto
    show ?thesis using map_post_trans [OF w(3) cont [OF w(2) t'(1)] w(7) [OF False] w(4,6)] False t'(2) by (simp add: w(1))
  qed
qed

lemma map_leaf:
  assumes inv: "pt_inv U T root s" and t: "tbl (mem s) (paging_hhdm s) root 3 v = Some t"
  shows "map_post 3 U root v phys flags T s
    (True, paging_invlpg v (s\<lparr>mem := store64 (mem s) (entry_at (t + paging_hhdm s) (pt_index v)) (leaf_pte phys flags)\<rparr>))"
proof -
  note leaf = mem_pt_inv_leaf [OF inv t, of "leaf_pte phys flags"]
  have same: "tbl (store64 (mem s) (slot (paging_hhdm s) t 3 v) (leaf_pte phys flags)) (paging_hhdm s) root j w = tbl (mem s) (paging_hhdm s) root j w" if "j \<le> 3" for j w
    using tbl_store_other [OF pt_invD(4) [OF inv] t, of j w "leaf_pte phys flags"] that by simp
  then have "grows (mem s) (store64 (mem s) (slot (paging_hhdm s) t 3 v) (leaf_pte phys flags)) (paging_hhdm s) root v" by (simp add: grows_def)
  then show ?thesis
    using leaf leaf_pte_bits(1,2) [of phys flags] same [of 3 v] t
    unfolding map_post_def slot_entry by (auto simp: paging_invlpg_def)
qed

lemma paging_map_post:
  assumes inv: "pt_inv U T root s"
  shows "map_post 0 U root v phys flags T s (paging_map root v phys flags s)"
proof -
  define u where "u = (if flags AND VM_USER \<noteq> 0 then PTE_USER else 0)"
  have u: "u = 0 \<or> u = PTE_USER" by (simp add: u_def)
  have num: "Suc 0 = 1" "Suc 1 = 2" "Suc 2 = 3" by simp_all
  define k3 where "k3 pt s = (True, paging_invlpg v (s\<lparr>mem := store64 (mem s) (entry_at pt (pt_index v)) (leaf_pte phys flags)\<rparr>))"
    for pt and s :: "'a paging_scheme"
  define k2 where "k2 pd s = (case next_level pd (idx 2 v) True u s of (pt, s) \<Rightarrow> if pt = 0 then (False, s) else k3 pt s)"
    for pd and s :: "'a paging_scheme"
  define k1 where "k1 pdpt s = (case next_level pdpt (idx 1 v) True u s of (pd, s) \<Rightarrow> if pd = 0 then (False, s) else k2 pd s)"
    for pdpt and s :: "'a paging_scheme"
  have map: "paging_map root v phys flags s =
      (case next_level (root + paging_hhdm s) (idx 0 v) True u s of (p, s) \<Rightarrow> if p = 0 then (False, s) else k1 p s)"
    unfolding paging_map_def Let_def k1_def k2_def k3_def u_def root_table idx_levels ..
  have 4: "map_post (Suc 2) U root v phys flags T' s' (k3 (t + paging_hhdm s') s')"
    if "pt_inv U T' root s'" "tbl (mem s') (paging_hhdm s') root (Suc 2) v = Some t" for T' s' t
    unfolding k3_def num by (rule map_leaf [OF that(1)]) (use that(2) in \<open>simp only: num\<close>)
  have 3: "map_post (Suc 1) U root v phys flags T' s' (k2 (t + paging_hhdm s') s')"
    if "pt_inv U T' root s'" "tbl (mem s') (paging_hhdm s') root (Suc 1) v = Some t" for T' s' t
    unfolding k2_def num by (rule map_level [where k = k3, OF that(1) order_refl _ u 4]) (use that(2) in \<open>simp only: num\<close>)
  have 2: "map_post (Suc 0) U root v phys flags T' s' (k1 (t + paging_hhdm s') s')"
    if "pt_inv U T' root s'" "tbl (mem s') (paging_hhdm s') root (Suc 0) v = Some t" for T' s' t
    unfolding k1_def num by (rule map_level [where k = k2, OF that(1) _ _ u 3]) (use that(2) in \<open>simp_all only: num one_le_numeral\<close>)
  show ?thesis
    unfolding map by (rule map_level [where k = k1, OF inv _ _ u 2]) simp_all
qed

subsection \<open>A fresh address space\<close>

lemma load64_zero: "load64 (\<lambda>_. 0) a = 0"
  by (rule bit_eqI) (simp add: load64_def bit_load_le)

lemma tbl_empty:
  assumes "aligned 12 root" and "aligned 12 h" and zero: "\<And>x. page x = page (root + h) \<Longrightarrow> m x = 0"
  shows "tbl m h root (Suc n) v = None"
proof (induction n)
  case 0
  have "load64 m (slot h root 0 v) = load64 (\<lambda>_. 0) (slot h root 0 v)"
    using slot_page [OF assms(1,2), of 0 v] zero by (intro load64_page_cong) auto
  then show ?case by (simp add: load64_zero)
qed simp

lemma fresh_space:
  assumes inv: "pmm_inv U s" and lim: "unat (total_frames s) \<le> 2 ^ 40"
    and dm: "direct_map (paging_hhdm s) (unat (total_frames s))"
    and off: "\<forall>x \<in> bitmap_range s. dm_frame (paging_hhdm s) x \<notin> unat ` free_set s"
    and alloc: "pmm_alloc_frame s = (root, s1)" "root \<noteq> 0"
  defines "s2 \<equiv> s1\<lparr>mem := snd (memset (root + paging_hhdm s) 0 PMM_FRAME_SIZE (mem s1))\<rparr>"
  shows "pt_inv U {root} root s2" and "translation (mem s2) (paging_hhdm s) root w = None"
    and "pt_step {} s {root} s2" and "0 < n \<Longrightarrow> tbl (mem s2) (paging_hhdm s) root n w = None" and "card (free_set s) = Suc (card (free_set s2))"
proof -
  let ?h = "paging_hhdm s"
  obtain f where f: "f \<in> free_set s" "root = f * 4096" "free_set s1 = free_set s - {f}"
    using pmm.alloc_result [OF inv] alloc by (metis fst_conv snd_conv)
  obtain m1 k1 n1 where s1: "s1 = s\<lparr>mem := m1, free_frames := k1, next_hint := n1\<rparr>"
    using alloc_shape [of s] alloc by auto
  have inv1: "pmm_inv U s1" and range1: "bitmap_range s1 = bitmap_range s"
    using pmm.invar_alloc [OF inv] alloc_bitmap_range [of s] alloc by auto
  have m1: "m1 x = mem s x" if "x \<notin> bitmap_range s" for x using alloc_mem [OF inv that] alloc by (simp add: s1)
  have fU: "f \<in> U" using f(1) pmm_invD(2) [OF inv] by blast
  have "f < total_frames s" using f(1) by (simp add: free_set_def)
  then have "unat f < 2 ^ 40" using lim by (simp add: word_less_nat_alt)
  note fa = frame_addr [OF this, folded f(2)]
  have h: "aligned 12 ?h" using dm by (simp add: direct_map_def)
  have rh: "aligned 12 (root + ?h)" using fa(2) h by blast
  have m2: "mem s2 x = (if page x = page (root + ?h) then 0 else m1 x)" for x
    by (simp add: s2_def s1 memset_byte page_near_iff [OF rh])
  have dmf: "dm_frame ?h x = unat f" if "page x = page (root + ?h)" for x
    using dm_frame_page [OF fa(2) h that] fa(3) by (simp add: frame_of_def)
  have "mem s2 x = mem s1 x" if "x \<in> bitmap_range s1" for x
    using off that range1 dmf [of x] f(1) by (auto simp: m2 s1)
  note p = pmm_frame [OF inv1, of "mem s2", OF this]
  have s2: "s2 = s1\<lparr>mem := mem s2\<rparr>" by (simp add: s2_def)
  have p2: "pmm_inv U s2" "free_set s2 = free_set s - {f}" "bitmap_range s2 = bitmap_range s"
    "paging_hhdm s2 = ?h" "total_frames s2 = total_frames s"
    using p f(3) range1 s2 s1 by (metis, metis, metis, simp_all add: s2_def s1)
  note none = tbl_empty [OF fa(2) h, of "mem s2"]
  have z: "mem s2 x = 0" if "page x = page (root + ?h)" for x using that by (simp add: m2)
  have only: "n = 0 \<and> t = root" if "tbl (mem s2) ?h root n v = Some t" for n v t
    using that none [OF z, of "n - 1" v] by (cases n) auto
  show "0 < n \<Longrightarrow> tbl (mem s2) ?h root n w = None" using only [of n w] by (cases "tbl (mem s2) ?h root n w") auto
  show "card (free_set s) = Suc (card (free_set s2))" unfolding p2(2) by (rule card.remove [OF finite f(1)])
  have "tree (mem s2) ?h root {root}"
    unfolding tree_def
  proof (intro conjI allI impI ballI)
    fix n j :: nat and v w t
    assume t: "tbl (mem s2) ?h root n v = Some t"
    show "t \<in> {root}" using only [OF t] by simp
    assume "tbl (mem s2) ?h root j w = Some t"
    then show "n = j" "same_path n v w" using only [OF t] only by (auto simp: same_path_def)
  qed (use fa(2) h in auto)
  moreover have "dm_frame ?h x \<notin> unat ` free_set s2 \<union> frame_of ` {root}" if "x \<in> bitmap_range s" for x
    using off that f(1) p2(2) fa(3) by auto
  ultimately show "pt_inv U {root} root s2"
    using p2 lim dm fU fa(3) by (auto simp: pt_inv_def)
  show "translation (mem s2) ?h root w = None"
    using none [OF z, of 3 w] by (simp add: translation_def eval_nat_numeral del: tbl.simps)
  have "mem s2 x = mem s x" if "x \<notin> bitmap_range s" "dm_frame ?h x \<notin> frame_of ` {root}" for x
    using m1 [OF that(1)] dmf [of x] that(2) fa(3) by (auto simp: m2)
  moreover have "\<exists>m k n l. s2 = s\<lparr>mem := m, free_frames := k, next_hint := n, tlb_flushes := l\<rparr>"
    by (intro exI [of _ "mem s2"] exI [of _ k1] exI [of _ n1] exI [of _ "tlb_flushes s"]) (simp add: s2_def s1)
  moreover have "free_set s - free_set s2 = {f}" using p2(2) f(1) by auto
  ultimately show "pt_step {} s {root} s2"
    unfolding pt_step_def using p2(2,3) fa(3) by (intro conjI) auto
qed

text \<open>The four indices are the page number of a 48-bit address.\<close>

definition same_page :: "u64 \<Rightarrow> u64 \<Rightarrow> bool" where
  "same_page v w \<longleftrightarrow> take_bit 36 (drop_bit 12 v) = take_bit 36 (drop_bit 12 w)"

lemma idx_bit: "bit (idx n v) i \<longleftrightarrow> i < 9 \<and> bit v (39 - 9 * n + i)"
proof -
  have "idx n v = take_bit 9 (drop_bit (39 - 9 * n) v)"
    by (simp add: idx_def take_bit_eq_mask mask_eq_exp_minus_1)
  then show ?thesis by (simp add: bit_simps add.commute)
qed

lemma same_path_page: "same_path 4 v w \<longleftrightarrow> same_page v w"
proof
  assume eq: "same_path 4 v w"
  show "same_page v w"
    unfolding same_page_def
  proof (rule bit_eqI)
    fix i :: nat
    define n where "n = 3 - i div 9"
    show "bit (take_bit 36 (drop_bit 12 v)) i \<longleftrightarrow> bit (take_bit 36 (drop_bit 12 w)) i"
    proof (cases "i < 36")
      case True
      then have "i div 9 < 4" by auto
      then have "n < 4" "39 - 9 * n + i mod 9 = 12 + i" unfolding n_def by (simp, presburger)
      moreover have "idx n v = idx n w" using eq \<open>n < 4\<close> by (simp add: same_path_def)
      ultimately show ?thesis
        using True idx_bit [of n v "i mod 9"] idx_bit [of n w "i mod 9"] by (simp add: bit_simps add.commute)
    qed (simp add: bit_simps)
  qed
next
  assume eq: "same_page v w"
  have "bit v (12 + i) \<longleftrightarrow> bit w (12 + i)" if "i < 36" for i
    using arg_cong [OF eq [unfolded same_page_def], of "\<lambda>x. bit x i"] that by (simp add: bit_simps add.commute)
  note b = this
  show "same_path 4 v w"
    unfolding same_path_def
  proof (intro allI impI bit_eqI)
    fix n i :: nat assume n: "n < 4"
    show "bit (idx n v) i \<longleftrightarrow> bit (idx n w) i"
    proof (cases "i < 9")
      case True
      then have "27 - 9 * n + i < 36" "12 + (27 - 9 * n + i) = 39 - 9 * n + i" using n by auto
      then show ?thesis using b [of "27 - 9 * n + i"] by (simp add: idx_bit)
    qed (simp add: idx_bit)
  qed
qed


subsection \<open>The results of the operations as translations\<close>

lemma map_result:
  assumes inv: "pt_inv U T root s" and r: "paging_map root v phys flags s = (ok, s')"
  obtains T' where "pt_inv U T' root s'" and "pt_step T s T' s'"
    and "\<And>w. paging_translate root w s' =
      (if ok \<and> same_page v w then Some ((phys AND PTE_ADDR_MASK) OR (w AND 0xfff)) else paging_translate root w s)"
    and "\<not> ok \<Longrightarrow> free_set s' = {} \<and> card (free_set s) < 3"
    and "ok \<Longrightarrow> \<exists>t. tbl (mem s') (paging_hhdm s') root 3 v = Some t \<and>
      load64 (mem s') (slot (paging_hhdm s') t 3 v) = leaf_pte phys flags"
proof -
  note post = paging_map_post [OF inv, of v phys flags, unfolded r map_post_def fst_conv snd_conv]
  obtain T' where T': "pt_inv U T' root s'" "pt_step T s T' s'" using post by blast
  have "paging_translate root w s' =
      (if ok \<and> same_page v w then Some ((phys AND PTE_ADDR_MASK) OR (w AND 0xfff)) else paging_translate root w s)" for w
    using post unfolding translate_translation [OF T'(1)] translate_translation [OF inv] pt_step_fields(1) [OF T'(2)]
      same_path_page by blast
  moreover have "missing 0 (mem s) (paging_hhdm s) root v \<le> 3" using missing_le [of 0] by simp
  then have "free_set s' = {} \<and> card (free_set s) < 3" if "\<not> ok" using post that by linarith
  ultimately show thesis using that [OF T'] post unfolding pt_step_fields(1) [OF T'(2)] by blast
qed

text \<open>The frames a mapping costs.\<close>

lemma map_growth:
  assumes "pt_inv U T root s" and "paging_map root v phys flags s = (ok, s')"
  shows "grows (mem s) (mem s') (paging_hhdm s) root v" and "card (free_set s) \<le> card (free_set s') + missing 0 (mem s) (paging_hhdm s) root v"
    and "\<not> ok \<Longrightarrow> card (free_set s) < missing 0 (mem s) (paging_hhdm s) root v" and "ok \<Longrightarrow> tbl (mem s') (paging_hhdm s) root 3 v \<noteq> None"
  using paging_map_post [OF assms(1), of v phys flags] unfolding assms(2) map_post_def by auto

lemma translate_same_page: "pt_inv U T root s \<Longrightarrow> same_page v w \<Longrightarrow>
  paging_translate root v s = None \<longleftrightarrow> paging_translate root w s = None"
proof -
  assume inv: "pt_inv U T root s" and "same_page v w"
  then have "tbl (mem s) (paging_hhdm s) root 4 v = tbl (mem s) (paging_hhdm s) root 4 w"
    using same_path_page tbl_same_path by blast
  then show ?thesis unfolding translate_translation [OF inv] translation_def by (simp split: option.splits)
qed

lemma unmap_result:
  assumes inv: "pt_inv U T root s" and r: "paging_unmap root v s = (ok, s')"
  shows "ok \<longleftrightarrow> paging_translate root v s \<noteq> None" and "pt_inv U T root s'" and "free_set s' = free_set s"
    and "paging_translate root w s' = (if same_page v w then None else paging_translate root w s)"
    and "if ok then tlb_flushes s' = tlb_flushes s @ [v] else s' = s"
proof -
  have "(ok \<longleftrightarrow> paging_translate root v s \<noteq> None) \<and> pt_inv U T root s' \<and> free_set s' = free_set s \<and>
    (\<forall>w. paging_translate root w s' = (if same_page v w then None else paging_translate root w s)) \<and>
    (if ok then tlb_flushes s' = tlb_flushes s @ [v] else s' = s)"
  proof (cases "paging_translate root v s")
    case None
    then have "paging_unmap root v s = (False, s)"
      using paging_unmap_spec(1) [OF inv] translate_translation [OF inv] by metis
    then show ?thesis using r inv None translate_same_page [OF inv, of v] by auto
  next
    case (Some a)
    then obtain t where t: "tbl (mem s) (paging_hhdm s) root 3 v = Some t"
      "paging_unmap root v s = (True, paging_invlpg v (s\<lparr>mem := store64 (mem s) (slot (paging_hhdm s) t 3 v) 0\<rparr>))"
      using paging_unmap_spec(2) [OF inv] translate_translation [OF inv] by fastforce
    let ?s = "paging_invlpg v (s\<lparr>mem := store64 (mem s) (slot (paging_hhdm s) t 3 v) 0\<rparr>)"
    note leaf = mem_pt_inv_leaf [OF inv t(1), of 0]
    have h: "paging_hhdm ?s = paging_hhdm s" by (simp add: paging_invlpg_def)
    have "paging_translate root w ?s = (if same_page v w then None else paging_translate root w s)" for w
      unfolding translate_translation [OF leaf(1)] translate_translation [OF inv] h leaf(4) same_path_page by simp
    moreover have "s' = ?s" "ok" using r t(2) by simp_all
    moreover have "tlb_flushes ?s = tlb_flushes s @ [v]" by (simp add: paging_invlpg_def)
    ultimately show ?thesis using leaf(1,3) Some by simp
  qed
  then show "ok \<longleftrightarrow> paging_translate root v s \<noteq> None" and "pt_inv U T root s'" and "free_set s' = free_set s"
    and "paging_translate root w s' = (if same_page v w then None else paging_translate root w s)"
    and "if ok then tlb_flushes s' = tlb_flushes s @ [v] else s' = s" by blast+
qed

subsection \<open>An address space for the witnesses\<close>

definition cold_paging :: paging where
  "cold_paging = \<lparr>mem = (\<lambda>_. 0), io_trace = [], device = demo_uart, cr2 = 0, cr3 = 0,
     rsp = 0xffff800000005008, tlb_flushes = [], bitmap = 0, bitmap_bytes = 0, total_frames = 0,
     usable_frames = 0, free_frames = 0, next_hint = 0, paging_hhdm = demo_hhdm, kernel_pml4 = 0\<rparr>"

definition paging0 :: paging where
  "paging0 = (case pmm_init demo_map demo_hhdm cold_paging of Inr s \<Rightarrow> s | Inl _ \<Rightarrow> cold_paging)"

lemma paging0_init: "pmm_init demo_map demo_hhdm cold_paging = Inr paging0"
  using demo_sizes by (simp add: paging0_def pmm_init_def init_bytes_def init_total_def Let_def)

lemmas paging0_spec = pmm_init_spec [OF demo_map_ok paging0_init]

definition space0 :: paging where
  "space0 = paging_set_hhdm demo_hhdm (paging0\<lparr>device := demo_uart, rsp := 0xffff800000005008\<rparr>)"

lemma space0_fields:
  "pmm_inv U space0 = pmm_inv U paging0" "free_set space0 = free_set paging0"
  "bitmap_range space0 = bitmap_range paging0" "total_frames space0 = 14" "paging_hhdm space0 = demo_hhdm"
  by (simp_all add: space0_def paging_set_hhdm_def pmm_inv_def free_set_def bitmap_range_def bit_test_alt
      paging0_spec(5) demo_sizes)

lemma space0_free: "free_set space0 = {2..<8} \<union> {10..<14}"
  using paging0_spec(2-4) pmm_init_spec(2-4) [OF demo_map_ok demo_pmm_init] demo_free
  by (simp add: space0_fields)

lemma space0_ok:
  "pmm_inv (usable_set demo_map) space0" "unat (total_frames space0) \<le> 2 ^ 40"
  "direct_map (paging_hhdm space0) (unat (total_frames space0))"
  "\<forall>x \<in> bitmap_range space0. dm_frame (paging_hhdm space0) x \<notin> unat ` free_set space0"
proof -
  show "pmm_inv (usable_set demo_map) space0" using paging0_spec(1) by (simp add: space0_fields)
  show "unat (total_frames space0) \<le> 2 ^ 40"
    "direct_map (paging_hhdm space0) (unat (total_frames space0))"
    by (simp_all add: space0_fields direct_map_def demo_hhdm_def aligned_def)
  show "\<forall>x \<in> bitmap_range space0. dm_frame (paging_hhdm space0) x \<notin> unat ` free_set space0"
    using pmm_init_bitmap_off [OF demo_map_ok paging0_init] by (simp add: space0_fields)
qed

definition demo_root :: u64 where "demo_root = fst (pmm_alloc_frame space0)"

definition demo_space :: paging where
  "demo_space = (let s1 = snd (pmm_alloc_frame space0)
     in s1\<lparr>mem := snd (memset (demo_root + paging_hhdm space0) 0 PMM_FRAME_SIZE (mem s1))\<rparr>)"

lemma demo_space_inv: "pt_inv (usable_set demo_map) {demo_root} demo_root demo_space"
proof -
  have "2 \<in> free_set space0" by (simp add: space0_free word_less_nat_alt)
  then have "fst (pmm_alloc_frame space0) \<noteq> 0" using pmm.alloc_zero_iff [OF space0_ok(1)] by blast
  then show ?thesis
    using fresh_space(1) [OF space0_ok, of demo_root "snd (pmm_alloc_frame space0)"]
    by (simp add: demo_root_def demo_space_def Let_def)
qed

subsection \<open>The properties of the page tables\<close>

text \<open>C9 (functional): mapping a page. On success the page of \<open>v\<close> (a page of the 48-bit space)
  translates to the frame \<open>phys\<close>, offset kept, with exactly the requested write and user
  permissions in its entry, and every other page translates as before. It fails only when fewer
  than three frames were free; then the frame allocator is empty and no translation has changed. Either way the tables stay a tree of
  allocated frames, and memory changes only in them and in the frame bitmap.\<close>

theorem paging_map_correct:
  assumes "pt_inv U T root s"
  shows "case paging_map root v phys flags s of (ok, s') \<Rightarrow>
    (\<exists>T'. pt_inv U T' root s' \<and> pt_step T s T' s') \<and>
    (\<forall>w. paging_translate root w s' =
       (if ok \<and> same_page v w then Some ((phys AND PTE_ADDR_MASK) OR (w AND 0xfff))
        else paging_translate root w s)) \<and>
    (if ok then \<exists>t. tbl (mem s') (paging_hhdm s') root 3 v = Some t \<and>
       (let e = load64 (mem s') (slot (paging_hhdm s') t 3 v)
        in (e AND PTE_WRITE \<noteq> 0 \<longleftrightarrow> flags AND VM_WRITE \<noteq> 0) \<and> (e AND PTE_USER \<noteq> 0 \<longleftrightarrow> flags AND VM_USER \<noteq> 0))
     else free_set s' = {} \<and> card (free_set s) < 3)"
proof -
  obtain ok s' where r: "paging_map root v phys flags s = (ok, s')" by (metis prod.exhaust)
  from map_result [OF assms r] show ?thesis
    unfolding r prod.case Let_def
    by (rule, intro conjI) (use leaf_pte_bits(3,4) [of phys flags] in \<open>auto simp del: tbl.simps\<close>)
qed

theorem paging_map_correct_witness:
  "case paging_map demo_root 0xffff900000000000 0x5000 VM_WRITE demo_space of (ok, s') \<Rightarrow>
     \<forall>w. paging_translate demo_root w s' =
       (if ok \<and> same_page 0xffff900000000000 w then Some ((0x5000 AND PTE_ADDR_MASK) OR (w AND 0xfff))
        else paging_translate demo_root w demo_space)"
  using paging_map_correct [OF demo_space_inv, of "0xffff900000000000" "0x5000" VM_WRITE] by (simp add: case_prod_beta)

text \<open>C24 (functional): unmapping reports whether the page was mapped; a mapped page loses its
  translation and its TLB entry is flushed, all other pages keep theirs, and no table is freed. An
  unmapped page leaves the state as it was.\<close>

theorem paging_unmap_correct:
  assumes "pt_inv U T root s"
  shows "case paging_unmap root v s of (ok, s') \<Rightarrow>
    (ok \<longleftrightarrow> paging_translate root v s \<noteq> None) \<and> pt_inv U T root s' \<and> free_set s' = free_set s \<and>
    (\<forall>w. paging_translate root w s' = (if same_page v w then None else paging_translate root w s)) \<and>
    (if ok then tlb_flushes s' = tlb_flushes s @ [v] else s' = s)"
proof -
  obtain ok s' where r: "paging_unmap root v s = (ok, s')" by (metis prod.exhaust)
  show ?thesis unfolding r prod.case using unmap_result [OF assms r] by blast
qed

theorem paging_unmap_correct_witness:
  "case paging_unmap demo_root 0x1000 demo_space of (ok, s') \<Rightarrow>
     (ok \<longleftrightarrow> paging_translate demo_root 0x1000 demo_space \<noteq> None) \<and> free_set s' = free_set demo_space"
  using paging_unmap_correct [OF demo_space_inv, of "0x1000"] by (simp add: case_prod_beta)

text \<open>C25 (round trip): a page that was mapped to an aligned frame below the 52-bit limit translates
  every address in it to the frame plus the page offset, and unmapping it afterwards restores the
  translation function there was before, if the page was not mapped.\<close>

theorem paging_map_unmap_roundtrip:
  assumes "pt_inv U T root s" and "aligned 12 phys" and "unat phys < 2 ^ 52"
    and "paging_map root v phys flags s = (True, s1)" and "paging_translate root v s = None"
  shows "(\<forall>w. same_page v w \<longrightarrow> paging_translate root w s1 = Some (phys + (w AND 0xfff))) \<and>
    fst (paging_unmap root v s1) \<and>
    (\<forall>w. paging_translate root w (snd (paging_unmap root v s1)) = paging_translate root w s)"
proof -
  have mask: "phys AND PTE_ADDR_MASK = phys"
    using aligned_bit [OF assms(2)] bit_less_exp [OF assms(3)]
    by (intro bit_eqI) (auto simp: bit_and_iff addr_mask_bits not_less [symmetric])
  have low: "phys OR (w AND 0xfff) = phys + (w AND 0xfff)" for w
  proof -
    have "w AND 0xfff = take_bit 12 w" by (simp add: take_bit_eq_mask mask_eq_exp_minus_1)
    then have "unat (w AND 0xfff) < 2 ^ 12" by (simp add: take_bit_eq_mod unat_mod)
    then show ?thesis by (simp add: aligned_plus_or [OF assms(2)])
  qed
  obtain T' where inv1: "pt_inv U T' root s1"
    and tr: "\<And>w. paging_translate root w s1 =
      (if same_page v w then Some ((phys AND PTE_ADDR_MASK) OR (w AND 0xfff)) else paging_translate root w s)"
    using map_result [OF assms(1,4)] by (metis (full_types))
  have v: "same_page v v" by (simp add: same_page_def)
  obtain ok s2 where u: "paging_unmap root v s1 = (ok, s2)" by (metis prod.exhaust)
  have "ok" using unmap_result(1) [OF inv1 u] tr [of v] v by simp
  moreover have "paging_translate root w s2 = paging_translate root w s" for w
    using unmap_result(4) [OF inv1 u, of w] tr [of w] translate_same_page [OF assms(1), of v w] assms(5) by simp
  ultimately show ?thesis using tr by (simp add: u mask low)
qed

lemma demo_space_room: "3 \<le> card (free_set demo_space)"
proof -
  have two: "2 \<in> free_set space0" by (simp add: space0_free word_less_nat_alt)
  then have "fst (pmm_alloc_frame space0) \<noteq> 0" using pmm.alloc_zero_iff [OF space0_ok(1)] by blast
  then have "pt_step {} space0 {demo_root} demo_space"
    using fresh_space(3) [OF space0_ok, of demo_root "snd (pmm_alloc_frame space0)"]
    by (simp add: demo_root_def demo_space_def Let_def)
  then have st: "unat ` (free_set space0 - free_set demo_space) = {frame_of demo_root}" "free_set demo_space \<subseteq> free_set space0"
    by (auto simp: pt_step_def)
  have "inj unat" by (simp add: inj_def word_unat_eq_iff)
  then have "card (free_set space0 - free_set demo_space) = 1"
    using st(1) card_image [of unat "free_set space0 - free_set demo_space"] by (metis card.empty card_insert_disjoint
      empty_iff finite.emptyI One_nat_def inj_on_subset subset_UNIV)
  moreover have "{2, 3, 4, 5} \<subseteq> free_set space0" by (simp add: space0_free word_less_nat_alt word_le_nat_alt)
  then have "4 \<le> card (free_set space0)" using card_mono [of "free_set space0" "{2, 3, 4, 5}"] by simp
  ultimately show ?thesis using card_Diff_subset [of "free_set demo_space" "free_set space0"] st(2) by simp
qed

lemma demo_space_empty: "paging_translate demo_root w demo_space = None"
proof -
  have "2 \<in> free_set space0" by (simp add: space0_free word_less_nat_alt)
  then have "fst (pmm_alloc_frame space0) \<noteq> 0" using pmm.alloc_zero_iff [OF space0_ok(1)] by blast
  then have f: "translation (mem demo_space) (paging_hhdm space0) demo_root w = None"
      "pt_step {} space0 {demo_root} demo_space"
    using fresh_space(2,3) [OF space0_ok, of demo_root "snd (pmm_alloc_frame space0)"]
    by (simp_all add: demo_root_def demo_space_def Let_def)
  then show ?thesis using translate_translation [OF demo_space_inv] pt_step_fields(1) [OF f(2)] by simp
qed

theorem paging_map_unmap_roundtrip_witness:
  "\<exists>s1. paging_map demo_root 0x400000 0x5000 VM_WRITE demo_space = (True, s1) \<and>
     paging_translate demo_root 0x400123 s1 = Some 0x5123"
proof -
  obtain ok s1 where r: "paging_map demo_root 0x400000 0x5000 VM_WRITE demo_space = (ok, s1)" by (metis prod.exhaust)
  have ok using map_result [OF demo_space_inv r] demo_space_room by (metis leD)
  then have r1: "paging_map demo_root 0x400000 0x5000 VM_WRITE demo_space = (True, s1)" using r by simp
  have "same_page 0x400000 0x400123" by (simp add: same_page_def)
  then show ?thesis
    using paging_map_unmap_roundtrip [OF demo_space_inv _ _ r1 demo_space_empty] r1 by (simp add: aligned_def)
qed

end
