(* ===== verification/Buddy.thy ===== *)
theory Buddy
  imports Paging
begin

text \<open>
  The binary buddy allocator of \<^verbatim>\<open>core/mm/buddy.c\<close>. The free lists are intrusive: a free block's
  first 16 bytes, reached through the direct map, hold its \<open>next\<close> and \<open>prev\<close> pointers, so the
  model reads and writes them in the machine's memory. The proofs abstract the pointer lists to
  one list of block addresses per order (\<open>buddy_rel\<close>) and those to the set of free blocks: an allocation takes an aligned block of free frames out of that set, a
  free puts it back and merges as far as buddies are free, and neither touches memory of
  allocated blocks.
\<close>

subsection \<open>State\<close>

record buddy = paging +
  free_list :: "u64 list"     \<comment> \<open>one head pointer per order\<close>
  free_count :: "u64 list"
  buddy_hhdm :: u64

definition BUDDY_MAX_ORDER :: nat where [simp]: "BUDDY_MAX_ORDER = 10"
definition BUDDY_PMM_RESERVE_FRAMES :: u64 where "BUDDY_PMM_RESERVE_FRAMES = 1024"

text \<open>The fields of \<^verbatim>\<open>struct buddy_node\<close>: \<open>next\<close> at offset 0, \<open>prev\<close> at offset 8.\<close>

definition node_next :: "memory \<Rightarrow> u64 \<Rightarrow> u64" where "node_next m n = load64 m n"
definition node_prev :: "memory \<Rightarrow> u64 \<Rightarrow> u64" where "node_prev m n = load64 m (n + 8)"

definition set_next :: "u64 \<Rightarrow> u64 \<Rightarrow> 'a machine_scheme \<Rightarrow> 'a machine_scheme" where
  "set_next n v s = s\<lparr>mem := store64 (mem s) n v\<rparr>"
definition set_prev :: "u64 \<Rightarrow> u64 \<Rightarrow> 'a machine_scheme \<Rightarrow> 'a machine_scheme" where
  "set_prev n v s = s\<lparr>mem := store64 (mem s) (n + 8) v\<rparr>"

definition node_at :: "u64 \<Rightarrow> 'a buddy_scheme \<Rightarrow> u64" where "node_at phys s = phys + buddy_hhdm s"
definition phys_of :: "u64 \<Rightarrow> 'a buddy_scheme \<Rightarrow> u64" where "phys_of n s = n - buddy_hhdm s"
definition block_bytes :: "nat \<Rightarrow> u64" where "block_bytes ord = push_bit ord PMM_FRAME_SIZE"

subsection \<open>Free-list primitives\<close>

definition list_push :: "nat \<Rightarrow> u64 \<Rightarrow> 'a buddy_scheme \<Rightarrow> 'a buddy_scheme" where
  "list_push order phys s =
     (let n = node_at phys s;
          s1 = set_prev n 0 s;
          s2 = set_next n (free_list s1 ! order) s1;
          s3 = (if free_list s2 ! order \<noteq> 0 then set_prev (free_list s2 ! order) n s2 else s2)
      in s3\<lparr>free_list := (free_list s3)[order := n],
            free_count := (free_count s3)[order := free_count s3 ! order + 1]\<rparr>)"

definition list_remove :: "nat \<Rightarrow> u64 \<Rightarrow> 'a buddy_scheme \<Rightarrow> 'a buddy_scheme" where
  "list_remove order n s =
     (let s1 = (if node_prev (mem s) n \<noteq> 0
                then set_next (node_prev (mem s) n) (node_next (mem s) n) s
                else s\<lparr>free_list := (free_list s)[order := node_next (mem s) n]\<rparr>);
          s2 = (if node_next (mem s1) n \<noteq> 0
                then set_prev (node_next (mem s1) n) (node_prev (mem s1) n) s1 else s1)
      in s2\<lparr>free_count := (free_count s2)[order := free_count s2 ! order - 1]\<rparr>)"

text \<open>
  The walk of \<open>list_find\<close>: it follows \<open>next\<close> until null, so on a corrupted, cyclic
  list it would not return (\<open>None\<close>). The result 0 is the null pointer.
\<close>

partial_function (option) list_walk :: "u64 \<Rightarrow> u64 \<Rightarrow> 'a buddy_scheme \<Rightarrow> u64 option" where
  "list_walk n phys s =
     (if n = 0 then Some 0
      else if phys_of n s = phys then Some n
      else list_walk (node_next (mem s) n) phys s)"

definition list_find :: "nat \<Rightarrow> u64 \<Rightarrow> 'a buddy_scheme \<Rightarrow> u64 option" where
  "list_find order phys s = list_walk (free_list s ! order) phys s"

subsection \<open>Allocate and free\<close>

function find_order :: "nat \<Rightarrow> 'a buddy_scheme \<Rightarrow> nat" where
  "find_order ord s =
     (if ord \<le> BUDDY_MAX_ORDER \<and> free_list s ! ord = 0 then find_order (ord + 1) s else ord)"
  by pat_completeness auto
termination by (relation "measure (\<lambda>(ord, s). 11 - ord)") auto

function split_down :: "nat \<Rightarrow> nat \<Rightarrow> u64 \<Rightarrow> 'a buddy_scheme \<Rightarrow> 'a buddy_scheme" where
  "split_down ord order phys s =
     (if ord > order
      then let ord' = ord - 1; upper = phys + block_bytes ord'
           in split_down ord' order phys (list_push ord' upper s)
      else s)"
  by pat_completeness auto
termination by (relation "measure (\<lambda>(ord, order, phys, s). ord)") auto

definition buddy_alloc :: "nat \<Rightarrow> 'a buddy_scheme \<Rightarrow> u64 \<times> 'a buddy_scheme" where
  "buddy_alloc order s =
     (if order > BUDDY_MAX_ORDER then (0, s)
      else
        let ord = find_order order s
        in if ord > BUDDY_MAX_ORDER then (0, s)
           else
             let n = free_list s ! ord;
                 s1 = list_remove ord n s;
                 phys = phys_of n s1
             in (phys, split_down ord order phys s1))"

function merge_up :: "u64 \<Rightarrow> nat \<Rightarrow> 'a buddy_scheme \<Rightarrow> 'a buddy_scheme option" where
  "merge_up phys order s =
     (if order < BUDDY_MAX_ORDER
      then let bud = phys XOR block_bytes order
           in case list_find order bud s of
                None \<Rightarrow> None
              | Some bn \<Rightarrow>
                  if bn = 0 then Some (list_push order phys s)
                  else merge_up (if bud < phys then bud else phys) (order + 1)
                         (list_remove order bn s)
      else Some (list_push order phys s))"
  by pat_completeness auto
termination by (relation "measure (\<lambda>(phys, order, s). 10 - order)") auto

definition buddy_free :: "u64 \<Rightarrow> nat \<Rightarrow> 'a buddy_scheme \<Rightarrow> 'a buddy_scheme option" where
  "buddy_free phys order s =
     (if order > BUDDY_MAX_ORDER then Some s else merge_up phys order s)"

declare find_order.simps [simp del] split_down.simps [simp del] merge_up.simps [simp del]

subsection \<open>Initialisation and statistics\<close>

text \<open>The inner loop of \<open>seed_run\<close>: the largest aligned block at \<open>f\<close> that fits the run.\<close>

primrec seed_order :: "nat \<Rightarrow> u64 \<Rightarrow> u64 \<Rightarrow> nat" where
  "seed_order 0 f stop = 0"
| "seed_order (Suc k) f stop =
     (if f AND (push_bit (Suc k) 1 - 1) \<noteq> 0 \<or> f + push_bit (Suc k) 1 > stop
      then seed_order k f stop else Suc k)"

text \<open>
  The outer loop advances by whole blocks; the counter is a 64-bit word, so for a run that ends at
  the top of the address space it would wrap, which is why it is a partial function.
\<close>

partial_function (option) seed_run :: "u64 \<Rightarrow> u64 \<Rightarrow> 'a buddy_scheme \<Rightarrow> 'a buddy_scheme option" where
  "seed_run f stop s =
     (if f < stop
      then let order = seed_order BUDDY_MAX_ORDER f stop
           in seed_run (f + push_bit order 1) stop (list_push order (f * PMM_FRAME_SIZE) s)
      else Some s)"

text \<open>Extend a claimed run as far as the budget and the free frames go.\<close>

function claim_extend :: "u64 \<Rightarrow> u64 \<Rightarrow> u64 \<Rightarrow> u64 \<Rightarrow> 'a pmm_scheme \<Rightarrow> u64 \<times> u64 \<times> 'a pmm_scheme" where
  "claim_extend f stop claimed budget s =
     (if f < stop \<and> claimed < budget
      then let (ok, s') = pmm_claim_frame (f * PMM_FRAME_SIZE) s
           in if ok then claim_extend (f + 1) stop (claimed + 1) budget s' else (f, claimed, s')
      else (f, claimed, s))"
  by pat_completeness auto
termination
  by (relation "measure (\<lambda>(f, stop, claimed, budget, s). unat (stop - f))") (auto simp: word_loop_decr)

declare claim_extend.simps [simp del]

lemma claim_extend_range:
  "f \<le> stop \<Longrightarrow> f \<le> fst (claim_extend f stop claimed budget s) \<and>
     fst (claim_extend f stop claimed budget s) \<le> stop"
proof (induction f stop claimed budget s rule: claim_extend.induct)
  case (1 f stop claimed budget s)
  obtain ok s' where c: "pmm_claim_frame (f * 4096) s = (ok, s')" by fastforce
  show ?case
  proof (cases "f < stop \<and> claimed < budget \<and> ok")
    case True
    then have g: "f < stop \<and> claimed < budget" by simp
    have "f + 1 \<le> stop" and "f \<le> f + 1"
      using g word_le_step(2) [of f stop "f + 1"] by (auto simp: word_Suc_le order_less_imp_le)
    then show ?thesis
      using True c "1.IH" [OF g c [symmetric, folded PMM_FRAME_SIZE_def] refl]
      by (auto simp: claim_extend.simps [of f stop claimed budget s] intro: order_trans)
  next
    case False
    then show ?thesis using "1.prems" c by (auto simp: claim_extend.simps [of f stop claimed budget s])
  qed
qed

lemma claim_extend_progress:
  assumes "f < stop"
  shows "f < fst (claim_extend (f + 1) stop claimed budget s)"
    and "fst (claim_extend (f + 1) stop claimed budget s) \<le> stop"
  using claim_extend_range [of "f + 1" stop claimed budget s] word_le_step(2) [OF assms]
    word_Suc_le [OF assms] by auto

text \<open>One usable region: claim maximal runs of frames and chop each into blocks.\<close>

lemma word_gap_decr:
  fixes f g stop :: u64
  assumes "f < g" and "g \<le> stop"
  shows "unat (stop - g) < unat (stop - f)"
  using assms by (simp add: unat_sub word_le_nat_alt word_less_nat_alt)

function claim_region ::
  "u64 \<Rightarrow> u64 \<Rightarrow> u64 \<Rightarrow> u64 \<Rightarrow> 'a buddy_scheme \<Rightarrow> (u64 \<times> 'a buddy_scheme) option" where
  "claim_region f stop claimed budget s =
     (if f < stop \<and> claimed < budget
      then let (ok, s1) = pmm_claim_frame (f * PMM_FRAME_SIZE) s
           in if \<not> ok then claim_region (f + 1) stop claimed budget s1
              else let r = claim_extend (f + 1) stop (claimed + 1) budget s1
                   in case seed_run f (fst r) (snd (snd r)) of
                        None \<Rightarrow> None
                      | Some s3 \<Rightarrow> claim_region (fst r) stop (fst (snd r)) budget s3
      else Some (claimed, s))"
  by pat_completeness auto
termination
  by (relation "measure (\<lambda>(f, stop, claimed, budget, s). unat (stop - f))")
    (auto simp: word_loop_decr claim_extend_progress intro!: word_gap_decr)

declare claim_region.simps [simp del]

fun claim_regions ::
  "memmap_entry list \<Rightarrow> u64 \<Rightarrow> u64 \<Rightarrow> 'a buddy_scheme \<Rightarrow> 'a buddy_scheme option" where
  "claim_regions [] claimed budget s = Some s"
| "claim_regions (e # es) claimed budget s =
     (if \<not> claimed < budget then Some s
      else if me_type e \<noteq> LIMINE_MEMMAP_USABLE then claim_regions es claimed budget s
      else
        let first = me_base e div PMM_FRAME_SIZE;
            stop = first + me_length e div PMM_FRAME_SIZE
        in case claim_region first stop claimed budget s of
             None \<Rightarrow> None
           | Some (claimed', s') \<Rightarrow> claim_regions es claimed' budget s')"

definition buddy_init ::
  "memmap_entry list \<Rightarrow> u64 \<Rightarrow> u64 \<Rightarrow> 'a buddy_scheme \<Rightarrow> 'a buddy_scheme option" where
  "buddy_init memmap hhdm_offset reserve_frames s =
     (let s1 = s\<lparr>buddy_hhdm := hhdm_offset, free_list := replicate (BUDDY_MAX_ORDER + 1) 0,
                 free_count := replicate (BUDDY_MAX_ORDER + 1) 0\<rparr>;
          pmm_free = snd (snd (pmm_get_stats s1));
          budget = (if pmm_free > reserve_frames then pmm_free - reserve_frames else 0)
      in claim_regions memmap 0 budget s1)"

text \<open>The per-order counts and the total of free bytes.\<close>

definition buddy_get_stats :: "'a buddy_scheme \<Rightarrow> u64 list \<times> u64" where
  "buddy_get_stats s =
     (map (\<lambda>ord. free_count s ! ord) [0..<BUDDY_MAX_ORDER + 1],
      (\<Sum>ord\<leftarrow>[0..<BUDDY_MAX_ORDER + 1]. free_count s ! ord * block_bytes ord))"

subsection \<open>Doubly linked lists in memory\<close>

text \<open>Nodes sit at page boundaries, so the two fields of two nodes never overlap.\<close>

lemma node_field_apart: "aligned 12 a \<Longrightarrow> aligned 12 b \<Longrightarrow> a \<noteq> b + 8"
proof
  assume "aligned 12 a" "aligned 12 b" "a = b + 8"
  then have "aligned 12 ((b + 8) - b)" by blast
  then show False by (simp add: aligned_def)
qed

lemma node_aligned: "aligned 12 a \<Longrightarrow> aligned 3 a" "aligned 12 a \<Longrightarrow> aligned 3 (a + 8)"
proof -
  show a: "aligned 12 a \<Longrightarrow> aligned 3 a" by (auto elim: aligned_mono)
  have "aligned 3 8" by (simp add: aligned_def)
  then show "aligned 12 a \<Longrightarrow> aligned 3 (a + 8)" using a by blast
qed

lemma node_field_same [simp]:
  "node_next (store64 m a v) a = v" "node_prev (store64 m (a + 8) v) a = v"
  by (simp_all add: node_next_def node_prev_def)

lemma node_next_set [mem_frame]:
  assumes "aligned 12 a" and "aligned 12 b"
  shows "node_next (store64 m (a + 8) v) b = node_next m b"
    and "a \<noteq> b \<Longrightarrow> node_next (store64 m a v) b = node_next m b"
  using assms node_field_apart [of b a]
  by (auto simp: node_next_def load64_store64_other node_aligned)

lemma node_prev_set [mem_frame]:
  assumes "aligned 12 a" and "aligned 12 b"
  shows "node_prev (store64 m a v) b = node_prev m b"
    and "a \<noteq> b \<Longrightarrow> node_prev (store64 m (a + 8) v) b = node_prev m b"
  using assms node_field_apart [of a b]
  by (auto simp: node_prev_def load64_store64_other node_aligned)

text \<open>
  \<open>dll m p xs q\<close>: the nodes \<open>xs\<close> are linked in both directions; \<open>p\<close> is the \<open>prev\<close> of the
  first and \<open>q\<close> the \<open>next\<close> of the last.
\<close>

fun dll :: "memory \<Rightarrow> u64 \<Rightarrow> u64 list \<Rightarrow> u64 \<Rightarrow> bool" where
  "dll m p [] q \<longleftrightarrow> True"
| "dll m p (x # xs) q \<longleftrightarrow>
     node_prev m x = p \<and> node_next m x = hd (xs @ [q]) \<and> dll m x xs q"

lemma dll_append: "dll m p (xs @ ys) q \<longleftrightarrow> dll m p xs (hd (ys @ [q])) \<and> dll m (last (p # xs)) ys q"
proof (induction xs arbitrary: p)
  case Nil
  then show ?case by simp
next
  case (Cons x xs)
  have "hd ((xs @ ys) @ [q]) = hd (xs @ [hd (ys @ [q])])" by (cases xs) auto
  then show ?case using Cons by auto
qed

lemma dll_cong:
  "(\<And>x. x \<in> set xs \<Longrightarrow> node_prev m x = node_prev m' x \<and> node_next m x = node_next m' x) \<Longrightarrow>
   dll m p xs q = dll m' p xs q"
  by (induction xs arbitrary: p) auto

lemma dll_set_prev_first:
  assumes "dll m p (x # xs) q" and "x \<notin> set xs" and "\<forall>y \<in> set (x # xs). aligned 12 y"
  shows "dll (store64 m (x + 8) p') p' (x # xs) q"
proof -
  have "dll (store64 m (x + 8) p') x xs q = dll m x xs q"
    using assms(2,3) by (intro dll_cong) (metis list.set_intros node_next_set node_prev_set)
  then show ?thesis using assms by (simp add: node_next_set node_prev_set)
qed

lemma dll_set_next_last:
  assumes "dll m p (xs @ [x]) q" and "x \<notin> set xs" and "\<forall>y \<in> set (x # xs). aligned 12 y"
  shows "dll (store64 m x q') p (xs @ [x]) q'"
proof -
  have "dll (store64 m x q') p xs x = dll m p xs x"
    using assms(2,3) by (intro dll_cong) (metis list.set_intros node_next_set node_prev_set)
  then show ?thesis
    using assms by (simp add: dll_append node_next_set node_prev_set)
qed

text \<open>
  The abstraction: \<open>fl ord\<close> is the list of physical block addresses on the list of order
  \<open>ord\<close>. All nodes are page-aligned and different, and the counters are the lengths.
\<close>

definition all_nodes :: "(nat \<Rightarrow> u64 list) \<Rightarrow> u64 set" where
  "all_nodes fl = (\<Union>ord \<in> {..10}. set (fl ord))"

definition nodes_ok :: "u64 \<Rightarrow> (nat \<Rightarrow> u64 list) \<Rightarrow> bool" where
  "nodes_ok h fl \<longleftrightarrow> aligned 12 h \<and>
     (\<forall>ord \<le> 10. distinct (fl ord)) \<and>
     (\<forall>i \<le> 10. \<forall>j \<le> 10. i \<noteq> j \<longrightarrow> set (fl i) \<inter> set (fl j) = {}) \<and>
     (\<forall>p \<in> all_nodes fl. aligned 12 p \<and> p + h \<noteq> 0)"

definition buddy_rel :: "'a buddy_scheme \<Rightarrow> (nat \<Rightarrow> u64 list) \<Rightarrow> bool" where
  "buddy_rel s fl \<longleftrightarrow>
     nodes_ok (buddy_hhdm s) fl \<and> length (free_list s) = 11 \<and> length (free_count s) = 11 \<and>
     (\<forall>ord \<le> 10. let ns = map (\<lambda>p. p + buddy_hhdm s) (fl ord)
        in free_list s ! ord = hd (ns @ [0]) \<and> dll (mem s) 0 ns 0 \<and>
           free_count s ! ord = of_nat (length (fl ord)))"

lemma all_nodesI: "p \<in> set (fl ord) \<Longrightarrow> ord \<le> 10 \<Longrightarrow> p \<in> all_nodes fl"
  by (auto simp: all_nodes_def)

lemma nodes_ok_node:
  assumes "nodes_ok h fl" and "p \<in> all_nodes fl"
  shows "aligned 12 (p + h)" and "p + h \<noteq> 0"
  using assms by (auto simp: nodes_ok_def)

lemma buddy_relD:
  assumes "buddy_rel s fl"
  shows "nodes_ok (buddy_hhdm s) fl" "length (free_list s) = 11" "length (free_count s) = 11"
    "ord \<le> 10 \<Longrightarrow> free_list s ! ord = hd (map (\<lambda>p. p + buddy_hhdm s) (fl ord) @ [0])"
    "ord \<le> 10 \<Longrightarrow> dll (mem s) 0 (map (\<lambda>p. p + buddy_hhdm s) (fl ord)) 0"
    "ord \<le> 10 \<Longrightarrow> free_count s ! ord = of_nat (length (fl ord))"
  using assms by (auto simp: buddy_rel_def Let_def)

lemma head_null_iff:
  assumes "buddy_rel s fl" and "ord \<le> 10"
  shows "free_list s ! ord = 0 \<longleftrightarrow> fl ord = []"
proof (cases "fl ord")
  case Nil
  then show ?thesis using buddy_relD(4) [OF assms] by simp
next
  case (Cons p ps)
  then have "p \<in> all_nodes fl" using assms(2) by (intro all_nodesI [of _ _ ord]) auto
  then have "p + buddy_hhdm s \<noteq> 0" by (rule nodes_ok_node(2) [OF buddy_relD(1) [OF assms(1)]])
  then show ?thesis using buddy_relD(4) [OF assms] Cons by simp
qed

subsection \<open>The primitives refine list operations\<close>

lemma list_find_refines:
  assumes "buddy_rel s fl" and "ord \<le> 10"
  shows "list_find ord p s = Some (if p \<in> set (fl ord) then p + buddy_hhdm s else 0)"
proof -
  let ?h = "buddy_hhdm s"
  have walk: "list_walk (hd (map (\<lambda>p. p + ?h) ps @ [0])) p s = Some (if p \<in> set ps then p + ?h else 0)"
    if "dll (mem s) pr (map (\<lambda>p. p + ?h) ps) 0" "\<forall>q \<in> set ps. q + ?h \<noteq> 0" for ps pr
    using that
  proof (induction ps arbitrary: pr)
    case Nil
    then show ?case by (simp add: list_walk.simps [of 0])
  next
    case (Cons q ps)
    have "dll (mem s) (q + ?h) (map (\<lambda>p. p + ?h) ps) 0" "\<forall>q \<in> set ps. q + ?h \<noteq> 0"
      using Cons.prems by auto
    then have "list_walk (hd (map (\<lambda>p. p + ?h) ps @ [0])) p s = Some (if p \<in> set ps then p + ?h else 0)"
      by (rule Cons.IH)
    moreover have "node_next (mem s) (q + ?h) = hd (map (\<lambda>p. p + ?h) ps @ [0])" and "q + ?h \<noteq> 0"
      using Cons.prems by auto
    ultimately show ?case by (simp add: list_walk.simps [of "q + ?h"] phys_of_def)
  qed
  have "\<forall>q \<in> set (fl ord). q + ?h \<noteq> 0"
    using nodes_ok_node(2) [OF buddy_relD(1) [OF assms(1)]] assms(2) by (auto simp: all_nodes_def)
  then show ?thesis
    using walk [OF buddy_relD(5) [OF assms]] buddy_relD(4) [OF assms] by (simp add: list_find_def)
qed

text \<open>Two memories that agree on the nodes of \<open>fl\<close> hold the same lists.\<close>

lemma buddy_lists_cong:
  assumes "\<And>x. x \<in> set ps \<Longrightarrow> node_prev m (x + h) = node_prev m' (x + h) \<and>
    node_next m (x + h) = node_next m' (x + h)"
  shows "dll m p (map (\<lambda>p. p + h) ps) q = dll m' p (map (\<lambda>p. p + h) ps) q"
  using assms by (intro dll_cong) auto

lemma list_push_fields [simp]:
  "buddy_hhdm (list_push order phys s) = buddy_hhdm s"
  "length (free_list (list_push order phys s)) = length (free_list s)"
  "length (free_count (list_push order phys s)) = length (free_count s)"
  by (simp_all add: list_push_def Let_def set_prev_def set_next_def)

lemma list_remove_fields [simp]:
  "buddy_hhdm (list_remove order n s) = buddy_hhdm s"
  "length (free_list (list_remove order n s)) = length (free_list s)"
  "length (free_count (list_remove order n s)) = length (free_count s)"
  by (simp_all add: list_remove_def Let_def set_prev_def set_next_def)

lemma list_push_heads:
  assumes "order < length (free_list s)" and "order < length (free_count s)"
  shows "free_list (list_push order phys s) = (free_list s)[order := phys + buddy_hhdm s]"
    and "free_count (list_push order phys s) = (free_count s)[order := free_count s ! order + 1]"
  by (simp_all add: list_push_def Let_def set_prev_def set_next_def node_at_def)

text \<open>The memory effect of a push and of a removal, on any doubly linked list.\<close>

definition push_mem :: "memory \<Rightarrow> u64 \<Rightarrow> u64 \<Rightarrow> memory" where
  "push_mem m n head =
     (let m1 = store64 (store64 m (n + 8) 0) n head
      in if head \<noteq> 0 then store64 m1 (head + 8) n else m1)"

definition remove_mem :: "memory \<Rightarrow> u64 \<Rightarrow> memory" where
  "remove_mem m n =
     (let m1 = (if node_prev m n \<noteq> 0 then store64 m (node_prev m n) (node_next m n) else m)
      in if node_next m1 n \<noteq> 0 then store64 m1 (node_next m1 n + 8) (node_prev m1 n) else m1)"

definition same_node :: "memory \<Rightarrow> memory \<Rightarrow> u64 \<Rightarrow> bool" where
  "same_node m m' x \<longleftrightarrow> node_prev m x = node_prev m' x \<and> node_next m x = node_next m' x"

lemma dll_same_nodes: "(\<And>x. x \<in> set xs \<Longrightarrow> same_node m m' x) \<Longrightarrow> dll m p xs q = dll m' p xs q"
  by (rule dll_cong) (auto simp: same_node_def)

lemma same_node_store:
  assumes "aligned 12 a" and "aligned 12 x" and "a \<noteq> x"
  shows "same_node (store64 m a v) m' x \<longleftrightarrow> same_node m m' x"
    and "same_node (store64 m (a + 8) v) m' x \<longleftrightarrow> same_node m m' x"
  using assms by (auto simp: same_node_def node_prev_set node_next_set)

lemma same_node_store_list:
  assumes "a \<notin> set xs" and "aligned 12 a" and "\<forall>x \<in> set xs. aligned 12 x" and "x \<in> set xs"
  shows "same_node (store64 m a v) m' x \<longleftrightarrow> same_node m m' x"
    and "same_node (store64 m (a + 8) v) m' x \<longleftrightarrow> same_node m m' x"
proof -
  have "a \<noteq> x" "aligned 12 x" using assms by auto
  then show "same_node (store64 m a v) m' x \<longleftrightarrow> same_node m m' x"
    and "same_node (store64 m (a + 8) v) m' x \<longleftrightarrow> same_node m m' x"
    using assms(2) by (simp_all add: same_node_store)
qed

lemma same_node_refl [simp]: "same_node m m x"
  by (simp add: same_node_def)

lemma push_mem_other:
  assumes "aligned 12 n" and "aligned 12 head" and "aligned 12 x" and "x \<noteq> n" and "x \<noteq> head"
  shows "same_node (push_mem m n head) m x"
  using assms by (auto simp: push_mem_def Let_def same_node_store)

lemma push_mem_dll:
  assumes "dll m 0 xs 0" and "distinct (n # xs)" and "\<forall>x \<in> set (n # xs). aligned 12 x" and "0 \<notin> set xs"
  shows "dll (push_mem m n (hd (xs @ [0]))) 0 (n # xs) 0"
proof (cases xs)
  case Nil
  then show ?thesis using assms(3) by (simp add: push_mem_def Let_def node_prev_set)
next
  case (Cons y ys)
  let ?m1 = "store64 (store64 m (n + 8) 0) n y"
  have "dll ?m1 0 (y # ys) 0 = dll m 0 (y # ys) 0"
    using assms(2,3) Cons by (intro dll_same_nodes) (simp add: same_node_store_list [of n xs])
  then have "dll (store64 ?m1 (y + 8) n) n (y # ys) 0"
    using assms Cons by (intro dll_set_prev_first) auto
  moreover have "same_node (store64 ?m1 (y + 8) n) ?m1 n" using assms(2,3) Cons by (auto simp: same_node_store)
  moreover have "push_mem m n (hd (xs @ [0])) = store64 ?m1 (y + 8) n"
    using assms(4) Cons by (auto simp: push_mem_def Let_def)
  ultimately show ?thesis
    using assms(3) Cons by (simp add: same_node_def node_prev_set)
qed

lemma remove_mem_split:
  assumes l: "dll m 0 (xs @ n # ys) 0" and d: "distinct (xs @ n # ys)"
    and al: "\<forall>x \<in> set (xs @ n # ys). aligned 12 x" and nz: "0 \<notin> set (xs @ n # ys)"
  shows "dll (remove_mem m n) 0 (xs @ ys) 0"
    and "node_prev m n = last (0 # xs)" and "node_next m n = hd (ys @ [0])"
    and "\<lbrakk>aligned 12 x; x \<notin> set (xs @ n # ys)\<rbrakk> \<Longrightarrow> same_node (remove_mem m n) m x"
proof -
  let ?q = "hd (ys @ [0])"
  define m1 where "m1 = (if xs = [] then m else store64 m (last xs) ?q)"
  define m2 where "m2 = (if ys = [] then m1 else store64 m1 (hd ys + 8) (last (0 # xs)))"
  show pr: "node_prev m n = last (0 # xs)" and nx: "node_next m n = ?q"
    using l by (auto simp: dll_append)
  have lst: "xs \<noteq> [] \<Longrightarrow> last xs \<in> set xs" and fst: "ys \<noteq> [] \<Longrightarrow> hd ys \<in> set ys" by auto
  have "xs \<noteq> [] \<Longrightarrow> last xs \<noteq> n" "xs \<noteq> [] \<Longrightarrow> aligned 12 (last xs)" "ys \<noteq> [] \<Longrightarrow> aligned 12 (hd ys)"
    using lst fst d al by auto
  note ends = this
  have "same_node m1 m n" using ends al by (simp add: m1_def same_node_store)
  then have "node_prev m1 n = last (0 # xs)" "node_next m1 n = ?q" using pr nx by (auto simp: same_node_def)
  moreover have "last (0 # xs) \<noteq> 0 \<longleftrightarrow> xs \<noteq> []" using nz lst by (cases xs rule: rev_cases) auto
  moreover have "?q \<noteq> 0 \<longleftrightarrow> ys \<noteq> []" using nz by (cases ys) auto
  ultimately have m2: "remove_mem m n = m2"
    by (auto simp: remove_mem_def Let_def pr nx m1_def m2_def)
  show "same_node (remove_mem m n) m x" if "aligned 12 x" "x \<notin> set (xs @ n # ys)"
  proof -
    have "xs \<noteq> [] \<Longrightarrow> last xs \<noteq> x" "ys \<noteq> [] \<Longrightarrow> hd ys \<noteq> x" using that lst fst by auto
    then show ?thesis using that ends unfolding m2 m2_def m1_def by (simp add: same_node_store)
  qed
  have x1: "dll m1 0 xs ?q"
  proof (cases xs rule: rev_cases)
    case Nil
    then show ?thesis by simp
  next
    case (snoc zs z)
    have "dll m 0 (zs @ [z]) n" using l snoc by (simp add: dll_append)
    then show ?thesis using snoc d al by (auto simp: m1_def intro!: dll_set_next_last)
  qed
  have "dll m2 0 xs ?q = dll m1 0 xs ?q"
  proof (intro dll_same_nodes)
    fix x assume "x \<in> set xs"
    moreover have "ys \<noteq> [] \<Longrightarrow> hd ys \<notin> set xs" using d fst by auto
    ultimately show "same_node m2 m1 x"
      using al ends(3) unfolding m2_def by (simp add: same_node_store_list [of "hd ys" xs])
  qed
  moreover have "dll m2 (last (0 # xs)) ys 0"
  proof (cases ys)
    case Nil
    then show ?thesis by simp
  next
    case (Cons z zs)
    have "dll m1 n ys 0 = dll m n ys 0"
    proof (intro dll_same_nodes)
      fix x assume "x \<in> set ys"
      moreover have "xs \<noteq> [] \<Longrightarrow> last xs \<notin> set ys" using d lst by (fastforce simp del: last_in_set)
      ultimately show "same_node m1 m x"
        using al ends(2) unfolding m1_def by (simp add: same_node_store_list [of "last xs" ys])
    qed
    then have "dll m1 n (z # zs) 0" using l Cons by (auto simp: dll_append)
    then have "dll (store64 m1 (z + 8) (last (0 # xs))) (last (0 # xs)) (z # zs) 0"
      using d al Cons by (intro dll_set_prev_first) auto
    then show ?thesis using Cons by (simp add: m2_def)
  qed
  ultimately show "dll (remove_mem m n) 0 (xs @ ys) 0"
    using x1 by (simp add: m2 dll_append del: last.simps)
qed

lemma list_push_mem: "mem (list_push order phys s) = push_mem (mem s) (phys + buddy_hhdm s) (free_list s ! order)"
  by (simp add: list_push_def push_mem_def Let_def set_prev_def set_next_def node_at_def)

lemma list_remove_mem: "mem (list_remove order n s) = remove_mem (mem s) n"
  by (simp add: list_remove_def remove_mem_def Let_def set_prev_def set_next_def)

lemma list_remove_heads:
  "free_list (list_remove order n s) =
     (if node_prev (mem s) n \<noteq> 0 then free_list s else (free_list s)[order := node_next (mem s) n])"
  "free_count (list_remove order n s) = (free_count s)[order := free_count s ! order - 1]"
  by (simp_all add: list_remove_def Let_def set_prev_def set_next_def)

text \<open>Replacing one list of the abstraction.\<close>

lemma buddy_rel_update:
  assumes rel: "buddy_rel s fl" and ord: "ord \<le> 10" and h: "buddy_hhdm s' = buddy_hhdm s"
    and ok: "nodes_ok (buddy_hhdm s) (fl(ord := ps))"
    and heads: "free_list s' = (free_list s)[ord := hd (map (\<lambda>p. p + buddy_hhdm s) ps @ [0])]"
    and counts: "free_count s' = (free_count s)[ord := of_nat (length ps)]"
    and own: "dll (mem s') 0 (map (\<lambda>p. p + buddy_hhdm s) ps) 0"
    and other: "\<And>i p. i \<le> 10 \<Longrightarrow> i \<noteq> ord \<Longrightarrow> p \<in> set (fl i) \<Longrightarrow>
      same_node (mem s') (mem s) (p + buddy_hhdm s)"
  shows "buddy_rel s' (fl(ord := ps))"
  unfolding buddy_rel_def h
proof (intro conjI allI impI)
  show "nodes_ok (buddy_hhdm s) (fl(ord := ps))" by (rule ok)
  show "length (free_list s') = 11" "length (free_count s') = 11"
    using buddy_relD(2,3) [OF rel] by (simp_all add: heads counts)
  fix i :: nat assume i: "i \<le> 10"
  let ?ns = "map (\<lambda>p. p + buddy_hhdm s) ((fl(ord := ps)) i)"
  have "dll (mem s') 0 ?ns 0"
  proof (cases "i = ord")
    case False
    then have "dll (mem s') 0 ?ns 0 = dll (mem s) 0 ?ns 0"
      using other [OF i False] by (intro dll_same_nodes) auto
    then show ?thesis using buddy_relD(5) [OF rel i] False by simp
  qed (use own in simp)
  then show "let ns = ?ns in free_list s' ! i = hd (ns @ [0]) \<and> dll (mem s') 0 ns 0 \<and>
      free_count s' ! i = of_nat (length ((fl(ord := ps)) i))"
    using i ord buddy_relD(2-4,6) [OF rel] by (auto simp: Let_def heads counts nth_list_update)
qed

lemma buddy_rel_nodes:
  assumes "buddy_rel s fl" and "ord \<le> 10"
  shows "\<forall>x \<in> set (map (\<lambda>p. p + buddy_hhdm s) (fl ord)). aligned 12 x \<and> x \<noteq> 0"
    and "distinct (map (\<lambda>p. p + buddy_hhdm s) (fl ord))"
proof -
  note ok = buddy_relD(1) [OF assms(1)]
  show "\<forall>x \<in> set (map (\<lambda>p. p + buddy_hhdm s) (fl ord)). aligned 12 x \<and> x \<noteq> 0"
    using nodes_ok_node [OF ok] all_nodesI [OF _ assms(2)] by fastforce
  show "distinct (map (\<lambda>p. p + buddy_hhdm s) (fl ord))"
    using ok assms(2) by (simp add: distinct_map nodes_ok_def inj_on_def)
qed

lemma nodes_ok_push:
  assumes "nodes_ok h fl" and "ord \<le> 10" and "aligned 12 p" and "p + h \<noteq> 0" and "p \<notin> all_nodes fl"
  shows "nodes_ok h (fl(ord := p # fl ord))"
  using assms by (auto simp: nodes_ok_def all_nodes_def)

lemma nodes_ok_remove:
  assumes "nodes_ok h fl"
  shows "nodes_ok h (fl(ord := remove1 p (fl ord)))"
proof -
  let ?fl = "fl(ord := remove1 p (fl ord))"
  have sub: "set (?fl i) \<subseteq> set (fl i)" for i using set_remove1_subset [of p "fl ord"] by simp
  then have nodes: "all_nodes ?fl \<subseteq> all_nodes fl" unfolding all_nodes_def by blast
  have "distinct (?fl i)" if "i \<le> 10" for i using assms that by (simp add: nodes_ok_def)
  moreover have "set (?fl i) \<inter> set (?fl j) = {}" if "i \<le> 10" "j \<le> 10" "i \<noteq> j" for i j
  proof -
    have "set (fl i) \<inter> set (fl j) = {}" using assms that by (simp add: nodes_ok_def)
    then show ?thesis using sub [of i] sub [of j] by blast
  qed
  ultimately show ?thesis using assms nodes unfolding nodes_ok_def by blast
qed

lemma list_push_refines:
  assumes rel: "buddy_rel s fl" and ord: "ord \<le> 10"
    and p: "aligned 12 p" "p + buddy_hhdm s \<noteq> 0" "p \<notin> all_nodes fl"
  shows "buddy_rel (list_push ord p s) (fl(ord := p # fl ord))"
proof (rule buddy_rel_update [OF rel ord])
  let ?h = "buddy_hhdm s" and ?ns = "map (\<lambda>p. p + buddy_hhdm s) (fl ord)"
  note ok = buddy_relD(1) [OF rel] and nodes = buddy_rel_nodes [OF rel ord]
  have len: "ord < length (free_list s)" "ord < length (free_count s)"
    using buddy_relD(2,3) [OF rel] ord by auto
  have n: "aligned 12 (p + ?h)" using p(1) ok by (auto simp: nodes_ok_def)
  have new: "p + ?h \<notin> set ?ns" using p(3) all_nodesI [OF _ ord] by auto
  have nz: "0 \<notin> set ?ns" using nodes(1) by blast
  have head: "free_list s ! ord = hd (?ns @ [0])" by (rule buddy_relD(4) [OF rel ord])
  show "nodes_ok ?h (fl(ord := p # fl ord))" by (rule nodes_ok_push [OF ok ord p])
  show "free_list (list_push ord p s) = (free_list s)[ord := hd (map (\<lambda>p. p + ?h) (p # fl ord) @ [0])]"
    "free_count (list_push ord p s) = (free_count s)[ord := of_nat (length (p # fl ord))]"
    using buddy_relD(6) [OF rel ord] by (simp_all add: list_push_heads [OF len] add.commute)
  show "dll (mem (list_push ord p s)) 0 (map (\<lambda>p. p + ?h) (p # fl ord)) 0"
    using push_mem_dll [OF buddy_relD(5) [OF rel ord], of "p + ?h"] nodes new n nz
    by (simp add: list_push_mem head del: dll.simps)
  fix i q assume i: "i \<le> 10" "i \<noteq> ord" and q: "q \<in> set (fl i)"
  have qn: "q \<in> all_nodes fl" using q i(1) by (rule all_nodesI)
  have "set (fl i) \<inter> set (fl ord) = {}" using ok i ord by (simp add: nodes_ok_def)
  then have "q + ?h \<notin> set ?ns" using q by auto
  then have "q + ?h \<noteq> free_list s ! ord"
    using nodes_ok_node(2) [OF ok qn] unfolding head by (cases ?ns) auto
  moreover have "aligned 12 (free_list s ! ord)" using nodes(1) unfolding head by (cases ?ns) auto
  moreover have "q \<noteq> p" using qn p(3) by blast
  ultimately show "same_node (mem (list_push ord p s)) (mem s) (q + ?h)"
    unfolding list_push_mem using n nodes_ok_node(1) [OF ok qn] by (intro push_mem_other) auto
qed simp


lemma list_remove_refines:
  assumes rel: "buddy_rel s fl" and ord: "ord \<le> 10" and p: "p \<in> set (fl ord)"
  shows "buddy_rel (list_remove ord (p + buddy_hhdm s) s) (fl(ord := remove1 p (fl ord)))"
proof (rule buddy_rel_update [OF rel ord])
  let ?h = "buddy_hhdm s"
  let ?f = "\<lambda>p. p + ?h"
  note ok = buddy_relD(1) [OF rel] and nodes = buddy_rel_nodes [OF rel ord]
  obtain xs ys where fl: "fl ord = xs @ p # ys" using p by (meson split_list)
  have dis: "distinct (fl ord)" using ok ord by (simp add: nodes_ok_def)
  then have rem: "remove1 p (fl ord) = xs @ ys" using fl by (simp add: remove1_append)
  have map: "map ?f (fl ord) = map ?f xs @ ?f p # map ?f ys" by (simp add: fl)
  have nz: "0 \<notin> set (map ?f xs @ ?f p # map ?f ys)" using nodes(1) unfolding map by blast
  have al: "\<forall>x \<in> set (map ?f xs @ ?f p # map ?f ys). aligned 12 x" using nodes(1) unfolding map by blast
  note split = remove_mem_split [OF buddy_relD(5) [OF rel ord, unfolded map] nodes(2) [unfolded map] al nz]
  show "nodes_ok ?h (fl(ord := remove1 p (fl ord)))" by (rule nodes_ok_remove [OF ok])
  show "dll (mem (list_remove ord (p + ?h) s)) 0 (map ?f (remove1 p (fl ord))) 0"
    using split(1) by (simp add: list_remove_mem rem)
  have "last (0 # map ?f xs) \<noteq> 0 \<longleftrightarrow> xs \<noteq> []" using nz by (cases xs rule: rev_cases) auto
  moreover have "free_list s ! ord = hd (map ?f (fl ord) @ [0])" by (rule buddy_relD(4) [OF rel ord])
  moreover have "ord < length (free_list s)" using buddy_relD(2) [OF rel] ord by simp
  ultimately show "free_list (list_remove ord (p + ?h) s) =
      (free_list s)[ord := hd (map ?f (remove1 p (fl ord)) @ [0])]"
    unfolding list_remove_heads split(2,3) rem unfolding fl
    by (cases xs) (simp_all del: last.simps, metis list_update_id)
  show "free_count (list_remove ord (p + ?h) s) = (free_count s)[ord := of_nat (length (remove1 p (fl ord)))]"
    using buddy_relD(6) [OF rel ord] unfolding rem by (simp add: list_remove_heads fl)
  fix i q assume i: "i \<le> 10" "i \<noteq> ord" and q: "q \<in> set (fl i)"
  have "set (fl i) \<inter> set (fl ord) = {}" using ok i ord by (simp add: nodes_ok_def)
  then have "q + ?h \<notin> set (map ?f xs @ ?f p # map ?f ys)" using q unfolding fl by auto
  moreover have "q \<in> all_nodes fl" using q i(1) by (rule all_nodesI)
  then have "aligned 12 (q + ?h)" by (rule nodes_ok_node(1) [OF ok])
  ultimately show "same_node (mem (list_remove ord (p + ?h) s)) (mem s) (q + ?h)"
    unfolding list_remove_mem by (intro split(4))
qed simp

end
