(* ===== verification/Buddy_Blocks.thy ===== *)
theory Buddy_Blocks
  imports Buddy
begin

text \<open>
  The buddy allocator of \<^verbatim>\<open>core/mm/buddy.c\<close> on the level of blocks: a free block is a pair of
  its order and its physical address, the allocator's state is the set of its free blocks
  (\<open>buddy_inv\<close>), and allocation, free and initialisation are shown to do the right thing to that
  set. Frames are counted as natural numbers, \<open>blk ord p\<close> being the frames of one block.
\<close>

subsection \<open>Blocks and buddies\<close>

definition blk :: "nat \<Rightarrow> u64 \<Rightarrow> nat set" where
  "blk ord p = {unat p div 4096 ..< unat p div 4096 + 2 ^ ord}"

definition frames_of :: "(nat \<times> u64) set \<Rightarrow> nat set" where
  "frames_of B = (\<Union>(ord, p) \<in> B. blk ord p)"

definition block_ok :: "nat \<Rightarrow> nat \<Rightarrow> u64 \<Rightarrow> bool" where
  "block_ok N ord p \<longleftrightarrow> ord \<le> 10 \<and> aligned (12 + ord) p \<and> blk ord p \<subseteq> {1..<N}"

definition wf_blocks :: "nat \<Rightarrow> (nat \<times> u64) set \<Rightarrow> bool" where
  "wf_blocks N B \<longleftrightarrow> (\<forall>(ord, p) \<in> B. block_ok N ord p) \<and>
     (\<forall>b \<in> B. \<forall>c \<in> B. b \<noteq> c \<longrightarrow> blk (fst b) (snd b) \<inter> blk (fst c) (snd c) = {})"

lemma frames_of_simps [simp]:
  "frames_of {} = {}" "frames_of (insert (ord, p) B) = blk ord p \<union> frames_of B"
  "frames_of (B \<union> C) = frames_of B \<union> frames_of C"
  by (auto simp: frames_of_def)

lemma blk_in_frames: "(ord, p) \<in> B \<Longrightarrow> blk ord p \<subseteq> frames_of B"
  by (auto simp: frames_of_def)

lemma blk_first [simp]: "unat p div 4096 \<in> blk ord p"
  by (simp add: blk_def)

lemma block_ok_nonzero: "block_ok N ord p \<Longrightarrow> p \<noteq> 0"
  using blk_first [of 0 ord] by (fastforce simp: block_ok_def)

lemma wf_blocks_insert:
  assumes "wf_blocks N B" and "block_ok N ord p" and "blk ord p \<inter> frames_of B = {}"
  shows "wf_blocks N (insert (ord, p) B)"
proof -
  have "blk ord p \<inter> blk i q = {}" if "(i, q) \<in> B" for i q
    using assms(3) blk_in_frames [OF that] by blast
  then show ?thesis using assms(1,2) by (fastforce simp: wf_blocks_def)
qed

lemma wf_blocks_mono: "wf_blocks N B \<Longrightarrow> C \<subseteq> B \<Longrightarrow> wf_blocks N C"
  unfolding wf_blocks_def by blast

lemma frames_of_remove:
  assumes "wf_blocks N B" and "(ord, p) \<in> B"
  shows "frames_of (B - {(ord, p)}) = frames_of B - blk ord p"
proof -
  have "blk i q \<inter> blk ord p = {}" if "(i, q) \<in> B" "(i, q) \<noteq> (ord, p)" for i q
    using assms that unfolding wf_blocks_def by fastforce
  then show ?thesis by (fastforce simp: frames_of_def)
qed

lemma blocks_wf_ok: "wf_blocks N B \<Longrightarrow> (ord, p) \<in> B \<Longrightarrow> block_ok N ord p"
  by (auto simp: wf_blocks_def)

lemma block_bytes_unat: "ord \<le> 10 \<Longrightarrow> unat (block_bytes ord) = 2 ^ (12 + ord)"
proof -
  assume "ord \<le> 10"
  then have "(2 :: nat) ^ (12 + ord) < 2 ^ 64" by (intro power_strict_increasing) auto
  moreover have "block_bytes ord = of_nat (2 ^ (12 + ord))"
    by (simp add: block_bytes_def push_bit_eq_mult power_add)
  ultimately show ?thesis by (simp only: unat_of_nat) simp
qed

lemma block_bytes_bit: "bit (block_bytes ord) n \<longleftrightarrow> n = 12 + ord \<and> n < 64"
proof -
  have "block_bytes ord = push_bit (12 + ord) 1"
    by (simp add: block_bytes_def push_bit_eq_mult power_add)
  then show ?thesis by (auto simp: bit_simps)
qed

text \<open>
  A block of order \<open>ord + 1\<close> is its lower half and, \<open>block_bytes ord\<close> above it, the upper half.
\<close>

lemma halves:
  assumes "ord \<le> 9" and "aligned (13 + ord) p"
  shows "unat (p + block_bytes ord) = unat p + 2 ^ (12 + ord)"
    and "p XOR block_bytes ord = p + block_bytes ord"
    and "aligned (12 + ord) p" and "aligned (12 + ord) (p + block_bytes ord)"
    and "blk (Suc ord) p = blk ord p \<union> blk ord (p + block_bytes ord)"
    and "blk ord p \<inter> blk ord (p + block_bytes ord) = {}"
proof -
  have bb: "unat (block_bytes ord) = 2 ^ (12 + ord)" using assms(1) by (intro block_bytes_unat) simp
  have dv: "2 ^ (13 + ord) dvd unat p" using assms(2) by (simp add: aligned_dvd)
  have "(2::nat) ^ (13 + ord) dvd 2 ^ 64" using assms(1) by (intro le_imp_power_dvd) simp
  then have "2 ^ (13 + ord) dvd 2 ^ 64 - unat p" using dv by (rule dvd_diff_nat)
  have "(2::nat) ^ (12 + ord) < 2 ^ (13 + ord)" by (intro power_strict_increasing) auto
  have "0 < 2 ^ 64 - unat p" using unat_lt2p [of p] by simp
  with \<open>2 ^ (13 + ord) dvd 2 ^ 64 - unat p\<close> have "2 ^ (13 + ord) \<le> 2 ^ 64 - unat p" by (rule dvd_imp_le)
  then have room: "unat p + unat (block_bytes ord) < 2 ^ 64"
    using \<open>0 < 2 ^ 64 - unat p\<close> \<open>(2::nat) ^ (12 + ord) < 2 ^ (13 + ord)\<close> unfolding bb by linarith
  have "unat (p + block_bytes ord) = unat p + unat (block_bytes ord)"
    using room by (intro unat_add_exact) simp
  then show up: "unat (p + block_bytes ord) = unat p + 2 ^ (12 + ord)" by (simp only: bb)
  have "\<not> bit p (12 + ord)" using assms(2) by (intro aligned_bit) auto
  then have ands: "p AND block_bytes ord = 0"
    by (intro bit_word_eqI) (auto simp: bit_simps block_bytes_bit)
  then have "p + block_bytes ord = p OR block_bytes ord" by (rule disjunctive_add_eq_or)
  also have "\<dots> = p XOR block_bytes ord"
    using ands by (intro bit_word_eqI) (auto simp: bit_eq_iff bit_simps)
  finally show "p XOR block_bytes ord = p + block_bytes ord" by simp
  show al: "aligned (12 + ord) p" using assms(2) by (rule aligned_mono) simp
  have "aligned (12 + ord) (block_bytes ord)" by (simp add: aligned_dvd bb)
  then show "aligned (12 + ord) (p + block_bytes ord)" using al by blast
  have "(2 ^ (12 + ord) :: nat) = 4096 * 2 ^ ord" by (simp add: power_add)
  then have "unat (p + block_bytes ord) div 4096 = unat p div 4096 + 2 ^ ord" by (simp add: up)
  then show "blk (Suc ord) p = blk ord p \<union> blk ord (p + block_bytes ord)"
    and "blk ord p \<inter> blk ord (p + block_bytes ord) = {}"
    by (auto simp: blk_def)
qed

text \<open>
  The identity behind merging: flipping the block's own size bit gives the other half of the pair,
  and the lower of the two is the block of the next order.
\<close>

lemma buddy_pair:
  assumes "ord \<le> 9" and "aligned (12 + ord) p"
  defines "bud \<equiv> p XOR block_bytes ord"
  defines "lo \<equiv> (if bud < p then bud else p)"
  shows "aligned (13 + ord) lo" and "{p, bud} = {lo, lo + block_bytes ord}"
    and "blk (Suc ord) lo = blk ord p \<union> blk ord bud" and "blk ord p \<inter> blk ord bud = {}"
    and "lo + block_bytes ord = lo XOR block_bytes ord"
proof -
  define q where "q = p AND NOT (block_bytes ord)"
  have al: "aligned (13 + ord) q"
  proof (rule alignedI)
    fix i assume "i < 13 + ord"
    then have "i < 12 + ord \<or> i = 12 + ord" by arith
    then show "\<not> bit q i"
      using aligned_bit [OF assms(2)] assms(1) by (auto simp: q_def bit_simps block_bytes_bit)
  qed
  note h = halves [OF assms(1) al]
  have "p = q \<or> p = q XOR block_bytes ord"
  proof (cases "bit p (12 + ord)")
    case False
    then have "p = q" by (intro bit_word_eqI) (auto simp: q_def bit_simps block_bytes_bit)
    then show ?thesis ..
  next
    case True
    then have "p = q XOR block_bytes ord"
      by (intro bit_word_eqI) (auto simp: q_def bit_simps block_bytes_bit)
    then show ?thesis ..
  qed
  then have "p = q \<and> bud = q + block_bytes ord \<or> p = q + block_bytes ord \<and> bud = q"
    unfolding bud_def h(2) [symmetric] by (auto simp: xor.assoc)
  moreover have "q < q + block_bytes ord" using h(1) by (simp add: word_less_nat_alt)
  ultimately have lo: "lo = q" and "p = q \<and> bud = q + block_bytes ord \<or> p = q + block_bytes ord \<and> bud = q"
    by (auto simp: lo_def)
  then show "aligned (13 + ord) lo" and "{p, bud} = {lo, lo + block_bytes ord}"
    and "blk (Suc ord) lo = blk ord p \<union> blk ord bud" and "blk ord p \<inter> blk ord bud = {}"
    and "lo + block_bytes ord = lo XOR block_bytes ord"
    using al h(2,5,6) by auto
qed


subsection \<open>The invariant\<close>

definition blocks :: "(nat \<Rightarrow> u64 list) \<Rightarrow> (nat \<times> u64) set" where
  "blocks fl = {(ord, p). ord \<le> 10 \<and> p \<in> set (fl ord)}"

text \<open>The free lists hold exactly the blocks \<open>B\<close>: aligned, apart, inside the first \<open>N\<close> frames.\<close>

definition buddy_inv :: "nat \<Rightarrow> (nat \<times> u64) set \<Rightarrow> 'a buddy_scheme \<Rightarrow> bool" where
  "buddy_inv N B s \<longleftrightarrow> direct_map (buddy_hhdm s) N \<and> wf_blocks N B \<and>
     (\<exists>fl. buddy_rel s fl \<and> blocks fl = B)"

text \<open>
  A step of the allocator changes memory only in the frames \<open>F\<close>, seen through the direct map,
  and no variable but its own.
\<close>

definition heap_step :: "nat set \<Rightarrow> 'a buddy_scheme \<Rightarrow> 'a buddy_scheme \<Rightarrow> bool" where
  "heap_step F s s' \<longleftrightarrow>
     (\<exists>m l c. s' = s\<lparr>mem := m, free_list := l, free_count := c\<rparr>) \<and>
     (\<forall>x. dm_frame (buddy_hhdm s) x \<notin> F \<longrightarrow> mem s' x = mem s x)"

lemma heap_step_refl [simp]: "heap_step F s s"
proof -
  have "s = s\<lparr>mem := mem s, free_list := free_list s, free_count := free_count s\<rparr>" by simp
  then show ?thesis unfolding heap_step_def by blast
qed

lemma heap_step_trans:
  assumes "heap_step F s t" and "heap_step G t u" and "F \<subseteq> H" and "G \<subseteq> H"
  shows "heap_step H s u"
proof -
  obtain m l c m' l' c' where "t = s\<lparr>mem := m, free_list := l, free_count := c\<rparr>"
    "u = t\<lparr>mem := m', free_list := l', free_count := c'\<rparr>"
    using assms(1,2) unfolding heap_step_def by blast
  then have "u = s\<lparr>mem := m', free_list := l', free_count := c'\<rparr>" and "buddy_hhdm t = buddy_hhdm s" by simp_all
  then show ?thesis using assms unfolding heap_step_def by (metis subset_eq)
qed

lemma heap_step_mono: "heap_step F s t \<Longrightarrow> F \<subseteq> G \<Longrightarrow> heap_step G s t"
  by (rule heap_step_trans [OF _ heap_step_refl]) auto

lemma heap_step_fields:
  assumes "heap_step F s t"
  shows "buddy_hhdm t = buddy_hhdm s" and "bitmap t = bitmap s" and "bitmap_bytes t = bitmap_bytes s"
    and "total_frames t = total_frames s" and "usable_frames t = usable_frames s"
    and "free_frames t = free_frames s" and "next_hint t = next_hint s"
  using assms by (auto simp: heap_step_def)

lemma heap_step_mem:
  "heap_step F s t \<Longrightarrow> dm_frame (buddy_hhdm s) x \<notin> F \<Longrightarrow> mem t x = mem s x"
  by (simp add: heap_step_def)

subsection \<open>The free-list primitives on blocks\<close>

lemma push_mem_page:
  assumes "aligned 12 n" and "aligned 12 head" and "page x \<noteq> page n" and "head \<noteq> 0 \<Longrightarrow> page x \<noteq> page head"
  shows "push_mem m n head x = m x"
proof -
  have "page (a + 8) = page a" if "aligned 12 a" for a using that by (intro page_offset) auto
  then show ?thesis
    using assms by (auto simp: push_mem_def Let_def store64_page node_aligned)
qed

lemma remove_mem_page:
  assumes "aligned 12 n" and "aligned 12 (node_prev m n)" and "aligned 12 (node_next m n)"
    and "node_prev m n \<noteq> n"
    and "node_prev m n \<noteq> 0 \<Longrightarrow> page x \<noteq> page (node_prev m n)"
    and "node_next m n \<noteq> 0 \<Longrightarrow> page x \<noteq> page (node_next m n)"
  shows "remove_mem m n x = m x"
proof -
  have "page (a + 8) = page a" if "aligned 12 a" for a using that by (intro page_offset) auto
  moreover have "node_next (store64 m (node_prev m n) v) n = node_next m n"
    and "node_prev (store64 m (node_prev m n) v) n = node_prev m n" for v
    using assms(1,2,4) by (simp_all add: node_next_set node_prev_set)
  ultimately show ?thesis
    using assms by (auto simp: remove_mem_def Let_def store64_page node_aligned)
qed

lemma list_push_step: "\<exists>m l c. list_push ord p s = s\<lparr>mem := m, free_list := l, free_count := c\<rparr>"
  by (rule exI [of _ "mem (list_push ord p s)"], rule exI [of _ "free_list (list_push ord p s)"],
      rule exI [of _ "free_count (list_push ord p s)"])
    (cases s, simp add: list_push_def Let_def set_prev_def set_next_def)

lemma list_remove_step: "\<exists>m l c. list_remove ord n s = s\<lparr>mem := m, free_list := l, free_count := c\<rparr>"
  by (rule exI [of _ "mem (list_remove ord n s)"], rule exI [of _ "free_list (list_remove ord n s)"],
      rule exI [of _ "free_count (list_remove ord n s)"])
    (cases s, simp add: list_remove_def Let_def set_prev_def set_next_def)

lemma buddy_invD:
  assumes "buddy_inv N B s"
  shows "wf_blocks N B" and "direct_map (buddy_hhdm s) N" and "aligned 12 (buddy_hhdm s)"
  using assms by (auto simp: buddy_inv_def direct_map_def)

lemma block_node:
  assumes "direct_map h N" and "block_ok N ord p"
  shows "aligned 12 p" and "p + h \<noteq> 0"
proof -
  show "aligned 12 p" using assms(2) by (auto simp: block_ok_def elim: aligned_mono)
  have "unat p div 4096 < N" using assms(2) blk_first [of p ord] unfolding block_ok_def by (meson atLeastLessThan_iff subsetD)
  then have "unat p < N * 4096" by (simp add: div_less_iff_less_mult)
  then have "unat (p + h) = unat p + unat h"
    using assms(1) by (intro unat_add_exact) (simp add: direct_map_def)
  then show "p + h \<noteq> 0" using block_ok_nonzero [OF assms(2)] by (auto simp: unat_eq_0 dest: arg_cong [of _ _ unat])
qed

lemma blocks_nodes: "q \<in> all_nodes fl \<longleftrightarrow> (\<exists>i. (i, q) \<in> blocks fl)"
  by (auto simp: all_nodes_def blocks_def)

lemma node_page_frame:
  assumes "buddy_inv N B s" and "block_ok N ord q" and "page x = page (q + buddy_hhdm s)"
  shows "dm_frame (buddy_hhdm s) x \<in> blk ord q"
  using dm_frame_page [OF block_node(1) [OF buddy_invD(2) [OF assms(1)] assms(2)] buddy_invD(3) [OF assms(1)] assms(3)]
  by simp

text \<open>Pushing a block that is apart from the free ones.\<close>

lemma inv_push:
  assumes inv: "buddy_inv N B s" and ok: "block_ok N ord p" and new: "blk ord p \<inter> frames_of B = {}"
  shows "buddy_inv N (insert (ord, p) B) (list_push ord p s)"
    and "heap_step (frames_of B \<union> blk ord p) s (list_push ord p s)"
proof -
  obtain fl where rel: "buddy_rel s fl" and B: "blocks fl = B" using inv by (auto simp: buddy_inv_def)
  let ?h = "buddy_hhdm s"
  note wf = buddy_invD(1) [OF inv] and dm = buddy_invD(2) [OF inv]
  have ord: "ord \<le> 10" using ok by (simp add: block_ok_def)
  have "p \<notin> all_nodes fl"
    using new blk_in_frames [of _ p B] blk_first [of p] unfolding blocks_nodes B by blast
  then have rel': "buddy_rel (list_push ord p s) (fl(ord := p # fl ord))"
    using list_push_refines [OF rel ord] block_node [OF dm ok] by blast
  moreover have "blocks (fl(ord := p # fl ord)) = insert (ord, p) B"
    using ord B by (auto simp: blocks_def split: if_splits)
  moreover note wf_blocks_insert [OF wf ok new] dm
  ultimately show "buddy_inv N (insert (ord, p) B) (list_push ord p s)"
    unfolding buddy_inv_def by auto
  show "heap_step (frames_of B \<union> blk ord p) s (list_push ord p s)"
    unfolding heap_step_def
  proof (intro conjI list_push_step allI impI)
    fix x assume x: "dm_frame ?h x \<notin> frames_of B \<union> blk ord p"
    have head: "free_list s ! ord = 0 \<or> (\<exists>q. (ord, q) \<in> B \<and> free_list s ! ord = q + ?h)"
      using buddy_relD(4) [OF rel ord] B ord by (cases "fl ord") (auto simp: blocks_def)
    have "aligned 12 (free_list s ! ord)"
      using head blocks_wf_ok [OF wf] block_node(1) [OF dm] buddy_invD(3) [OF inv] by fastforce
    moreover have "page x \<noteq> page (p + ?h)" using node_page_frame [OF inv ok] x by blast
    moreover have "page x \<noteq> page (free_list s ! ord)" if "free_list s ! ord \<noteq> 0"
      using that head node_page_frame [OF inv blocks_wf_ok [OF wf]] x blk_in_frames by (metis UnCI subsetD)
    moreover have "aligned 12 (p + ?h)" using block_node(1) [OF dm ok] buddy_invD(3) [OF inv] by blast
    ultimately show "mem (list_push ord p s) x = mem s x" unfolding list_push_mem by (intro push_mem_page)
  qed
qed


lemma inv_find:
  assumes inv: "buddy_inv N B s" and ord: "ord \<le> 10"
  shows "list_find ord p s = Some (if (ord, p) \<in> B then p + buddy_hhdm s else 0)"
    and "(ord, p) \<in> B \<Longrightarrow> p + buddy_hhdm s \<noteq> 0"
proof -
  obtain fl where rel: "buddy_rel s fl" and B: "blocks fl = B" using inv by (auto simp: buddy_inv_def)
  show "list_find ord p s = Some (if (ord, p) \<in> B then p + buddy_hhdm s else 0)"
    using list_find_refines [OF rel ord] B ord by (auto simp: blocks_def)
  show "(ord, p) \<in> B \<Longrightarrow> p + buddy_hhdm s \<noteq> 0"
    using block_node(2) [OF buddy_invD(2) [OF inv] blocks_wf_ok [OF buddy_invD(1) [OF inv]]] .
qed

lemma inv_head:
  assumes inv: "buddy_inv N B s" and ord: "ord \<le> 10"
  shows "free_list s ! ord = 0 \<longleftrightarrow> (\<forall>p. (ord, p) \<notin> B)"
    and "free_list s ! ord \<noteq> 0 \<Longrightarrow> (ord, free_list s ! ord - buddy_hhdm s) \<in> B"
proof -
  obtain fl where rel: "buddy_rel s fl" and B: "blocks fl = B" using inv by (auto simp: buddy_inv_def)
  show "free_list s ! ord = 0 \<longleftrightarrow> (\<forall>p. (ord, p) \<notin> B)"
    using head_null_iff [OF rel ord] B ord by (auto simp: blocks_def)
  show "free_list s ! ord \<noteq> 0 \<Longrightarrow> (ord, free_list s ! ord - buddy_hhdm s) \<in> B"
    using buddy_relD(4) [OF rel ord] B ord by (cases "fl ord") (auto simp: blocks_def)
qed

lemma dll_neighbours:
  assumes "dll m 0 ns 0" and "n \<in> set ns" and "distinct ns" and "0 \<notin> set ns"
  shows "node_prev m n \<in> insert 0 (set ns)" and "node_next m n \<in> insert 0 (set ns)" and "node_prev m n \<noteq> n"
proof -
  obtain xs ys where ns: "ns = xs @ n # ys" using assms(2) by (meson split_list)
  then have "node_prev m n = last (0 # xs)" and "node_next m n = hd (ys @ [0])"
    using assms(1) by (auto simp: dll_append)
  moreover have "last (0 # xs) \<in> insert 0 (set xs)" by (cases xs rule: rev_cases) auto
  moreover have "hd (ys @ [0]) \<in> insert 0 (set ys)" by (cases ys) auto
  ultimately show "node_prev m n \<in> insert 0 (set ns)" and "node_next m n \<in> insert 0 (set ns)" and "node_prev m n \<noteq> n"
    using assms(3,4) unfolding ns by auto
qed

lemma inv_remove:
  assumes inv: "buddy_inv N B s" and p: "(ord, p) \<in> B"
  shows "buddy_inv N (B - {(ord, p)}) (list_remove ord (p + buddy_hhdm s) s)"
    and "heap_step (frames_of B) s (list_remove ord (p + buddy_hhdm s) s)"
proof -
  obtain fl where rel: "buddy_rel s fl" and B: "blocks fl = B" using inv by (auto simp: buddy_inv_def)
  let ?h = "buddy_hhdm s" and ?ns = "map (\<lambda>p. p + buddy_hhdm s) (fl ord)"
  note wf = buddy_invD(1) [OF inv] and dm = buddy_invD(2) [OF inv]
  have ord: "ord \<le> 10" and mem: "p \<in> set (fl ord)" using p B by (auto simp: blocks_def)
  have "distinct (fl ord)" using buddy_relD(1) [OF rel] ord by (simp add: nodes_ok_def)
  then have "blocks (fl(ord := remove1 p (fl ord))) = B - {(ord, p)}"
    using ord B by (auto simp: blocks_def split: if_splits)
  moreover have "wf_blocks N (B - {(ord, p)})" using wf by (rule wf_blocks_mono) auto
  moreover note list_remove_refines [OF rel ord mem] dm
  ultimately show "buddy_inv N (B - {(ord, p)}) (list_remove ord (p + ?h) s)"
    unfolding buddy_inv_def by auto
  have nz: "0 \<notin> set ?ns" using buddy_rel_nodes(1) [OF rel ord] by blast
  have "p + ?h \<in> set ?ns" using mem by simp
  note nb = dll_neighbours [OF buddy_relD(5) [OF rel ord] this buddy_rel_nodes(2) [OF rel ord] nz]
  have al: "aligned 12 n" if "n \<in> insert 0 (set ?ns)" for n
    using that buddy_rel_nodes(1) [OF rel ord] by auto
  have apart: "page x \<noteq> page n" if n: "dm_frame ?h x \<notin> frames_of B" "n \<in> insert 0 (set ?ns)" "n \<noteq> 0" for x n
  proof -
    obtain q where q: "q \<in> set (fl ord)" "n = q + ?h" using n(2,3) by auto
    then have "(ord, q) \<in> B" using B ord by (auto simp: blocks_def)
    then show ?thesis
      using node_page_frame [OF inv blocks_wf_ok [OF wf]] q(2) n(1) blk_in_frames by blast
  qed
  show "heap_step (frames_of B) s (list_remove ord (p + ?h) s)"
    unfolding heap_step_def list_remove_mem using nb mem al apart
    by (intro conjI list_remove_step allI impI remove_mem_page) auto
qed


subsection \<open>Allocation\<close>

text \<open>The upper halves that splitting a block of order \<open>ord\<close> down to \<open>order\<close> gives back.\<close>

definition upper_halves :: "nat \<Rightarrow> nat \<Rightarrow> u64 \<Rightarrow> (nat \<times> u64) set" where
  "upper_halves ord order p = {(i, p + block_bytes i) | i. order \<le> i \<and> i < ord}"

lemma upper_halves_step:
  "upper_halves order order p = {}"
  "order \<le> ord \<Longrightarrow> upper_halves (Suc ord) order p = insert (ord, p + block_bytes ord) (upper_halves ord order p)"
  by (auto simp: upper_halves_def less_Suc_eq)

lemma block_ok_halves:
  assumes "block_ok N (Suc ord) p"
  shows "block_ok N ord p" and "block_ok N ord (p + block_bytes ord)"
    and "blk (Suc ord) p = blk ord p \<union> blk ord (p + block_bytes ord)"
    and "blk ord p \<inter> blk ord (p + block_bytes ord) = {}"
proof -
  have "ord \<le> 9" and "aligned (13 + ord) p" using assms by (auto simp: block_ok_def)
  note h = halves [OF this]
  show "block_ok N ord p" and "block_ok N ord (p + block_bytes ord)"
    using assms h(3-5) by (auto simp: block_ok_def)
  show "blk (Suc ord) p = blk ord p \<union> blk ord (p + block_bytes ord)"
    and "blk ord p \<inter> blk ord (p + block_bytes ord) = {}" by (fact h(5,6))+
qed

lemma blk_order_mono: "order \<le> ord \<Longrightarrow> blk order p \<subseteq> blk ord p"
  using power_increasing [of order ord "2::nat"] by (auto simp: blk_def)

lemma frames_upper_halves:
  "order \<le> ord \<Longrightarrow> block_ok N ord p \<Longrightarrow> frames_of (upper_halves ord order p) = blk ord p - blk order p"
proof (induction ord)
  case 0
  then show ?case by (simp add: upper_halves_step)
next
  case (Suc ord)
  show ?case
  proof (cases "order = Suc ord")
    case True
    then show ?thesis by (simp add: upper_halves_step)
  next
    case False
    then have le: "order \<le> ord" using Suc.prems by simp
    note h = block_ok_halves [OF Suc.prems(2)]
    then show ?thesis
      using Suc.IH [OF le] blk_order_mono [OF le, of p] by (auto simp: upper_halves_step(2) [OF le])
  qed
qed

lemma split_down_blocks:
  "buddy_inv N B s \<Longrightarrow> order \<le> ord \<Longrightarrow> block_ok N ord p \<Longrightarrow> blk ord p \<inter> frames_of B = {} \<Longrightarrow>
   buddy_inv N (B \<union> upper_halves ord order p) (split_down ord order p s) \<and>
   heap_step (frames_of B \<union> blk ord p) s (split_down ord order p s)"
proof (induction ord arbitrary: s B)
  case 0
  then show ?case by (simp add: split_down.simps [of 0] upper_halves_step)
next
  case (Suc ord)
  show ?case
  proof (cases "order = Suc ord")
    case True
    then show ?thesis using Suc.prems by (simp add: split_down.simps [of "Suc ord"] upper_halves_step)
  next
    case False
    then have le: "order \<le> ord" using Suc.prems by simp
    let ?up = "p + block_bytes ord"
    note h = block_ok_halves [OF Suc.prems(3)]
    have new: "blk ord ?up \<inter> frames_of B = {}" using Suc.prems(4) h(3) by blast
    note push = inv_push [OF Suc.prems(1) h(2) new]
    have "blk ord p \<inter> frames_of (insert (ord, ?up) B) = {}" using Suc.prems(4) h(3,4) by auto
    note rest = Suc.IH [OF push(1) le h(1) this]
    have "split_down (Suc ord) order p s = split_down ord order p (list_push ord ?up s)"
      using le by (simp add: split_down.simps [of "Suc ord"] Let_def)
    moreover have "heap_step (frames_of B \<union> blk (Suc ord) p) s (split_down ord order p (list_push ord ?up s))"
      using push(2) conjunct2 [OF rest] h(3) by (rule_tac heap_step_trans) auto
    ultimately show ?thesis using rest by (simp add: upper_halves_step(2) [OF le])
  qed
qed

lemma find_order_spec:
  "buddy_inv N B s \<Longrightarrow>
   order \<le> find_order order s \<and> (\<forall>i p. order \<le> i \<and> i < find_order order s \<longrightarrow> (i, p) \<notin> B) \<and>
   (find_order order s \<le> 10 \<longrightarrow> free_list s ! find_order order s \<noteq> 0)"
proof (induction order s rule: find_order.induct)
  case (1 ord s)
  show ?case
  proof (cases "ord \<le> 10 \<and> free_list s ! ord = 0")
    case True
    then have "find_order ord s = find_order (ord + 1) s" by (simp add: find_order.simps [of ord s])
    moreover have "(ord, p) \<notin> B" for p using inv_head(1) [OF "1.prems"] True by blast
    moreover have "i = ord \<or> ord + 1 \<le> i" if "ord \<le> i" for i using that by auto
    ultimately show ?thesis using 1 True by (metis BUDDY_MAX_ORDER_def Suc_eq_plus1 Suc_leD)
  next
    case False
    then show ?thesis by (auto simp: find_order.simps [of ord s])
  qed
qed

text \<open>
  Allocation on blocks: without a free block of at least the requested order it returns 0 and
  changes nothing; otherwise it takes a block of the smallest sufficient order and gives the upper
  halves back.
\<close>

lemma buddy_alloc_none:
  assumes inv: "buddy_inv N B s" and none: "\<And>i p. order \<le> i \<Longrightarrow> (i, p) \<notin> B"
  shows "buddy_alloc order s = (0, s)"
proof -
  note f = find_order_spec [OF inv, of order]
  have "\<not> find_order order s \<le> 10"
    using f none inv_head(1) [OF inv, of "find_order order s"] by blast
  then show ?thesis by (simp add: buddy_alloc_def Let_def)
qed

lemma buddy_alloc_blocks:
  assumes inv: "buddy_inv N B s" and some: "order \<le> i" "(i, q) \<in> B"
  obtains ord p where "buddy_alloc order s = (p, snd (buddy_alloc order s))"
    and "(ord, p) \<in> B" and "order \<le> ord" and "ord \<le> 10" and "\<And>j r. order \<le> j \<Longrightarrow> (j, r) \<in> B \<Longrightarrow> ord \<le> j"
    and "buddy_inv N (B - {(ord, p)} \<union> upper_halves ord order p) (snd (buddy_alloc order s))"
    and "heap_step (frames_of B) s (snd (buddy_alloc order s))"
proof -
  note wf = buddy_invD(1) [OF inv]
  define ord where "ord = find_order order s"
  define p where "p = free_list s ! ord - buddy_hhdm s"
  note f = find_order_spec [OF inv, of order, folded ord_def]
  have i: "i \<le> 10" using blocks_wf_ok [OF wf some(2)] by (simp add: block_ok_def)
  have min: "ord \<le> j" if "order \<le> j" "(j, r) \<in> B" for j r using f that not_less by blast
  have le: "order \<le> ord" "ord \<le> 10" using f min [OF some] i by auto
  have pB: "(ord, p) \<in> B" using inv_head(2) [OF inv le(2)] f le(2) by (simp add: p_def)
  let ?s1 = "list_remove ord (p + buddy_hhdm s) s"
  note rm = inv_remove [OF inv pB]
  have alloc: "buddy_alloc order s = (p, split_down ord order p ?s1)"
    using le by (simp add: buddy_alloc_def Let_def ord_def [symmetric] p_def phys_of_def)
  have fr: "frames_of (B - {(ord, p)}) = frames_of B - blk ord p" by (rule frames_of_remove [OF wf pB])
  have "buddy_inv N (B - {(ord, p)} \<union> upper_halves ord order p) (split_down ord order p ?s1) \<and>
      heap_step (frames_of (B - {(ord, p)}) \<union> blk ord p) ?s1 (split_down ord order p ?s1)"
    using fr by (intro split_down_blocks [OF rm(1) le(1) blocks_wf_ok [OF wf pB]]) auto
  moreover have "frames_of (B - {(ord, p)}) \<union> blk ord p = frames_of B"
    using fr blk_in_frames [OF pB] by blast
  ultimately show ?thesis
    using alloc pB le min heap_step_trans [OF rm(2)] by (intro that [of p ord]) auto
qed

subsection \<open>Free\<close>

text \<open>Merging on blocks: the reference for the loop of \<open>buddy_free\<close>.\<close>

function merge_blocks :: "u64 \<Rightarrow> nat \<Rightarrow> (nat \<times> u64) set \<Rightarrow> (nat \<times> u64) set" where
  "merge_blocks p ord B =
     (let bud = p XOR block_bytes ord
      in if ord < 10 \<and> (ord, bud) \<in> B
         then merge_blocks (if bud < p then bud else p) (ord + 1) (B - {(ord, bud)})
         else insert (ord, p) B)"
  by pat_completeness auto
termination by (relation "measure (\<lambda>(p, ord, B). 10 - ord)") auto

declare merge_blocks.simps [simp del]

lemma merge_step:
  assumes wf: "wf_blocks N B" and ok: "block_ok N ord p" and new: "blk ord p \<inter> frames_of B = {}"
    and b: "ord < 10" "(ord, p XOR block_bytes ord) \<in> B"
  defines "bud \<equiv> p XOR block_bytes ord"
  defines "lo \<equiv> (if bud < p then bud else p)"
  shows "block_ok N (ord + 1) lo" and "blk (ord + 1) lo \<inter> frames_of (B - {(ord, bud)}) = {}"
    and "frames_of (B - {(ord, bud)}) \<union> blk (ord + 1) lo = frames_of B \<union> blk ord p"
proof -
  have o: "ord \<le> 9" using b by simp
  have al: "aligned (12 + ord) p" using ok by (simp add: block_ok_def)
  note pair = buddy_pair [OF o al, folded bud_def, folded lo_def]
  have bB: "(ord, bud) \<in> B" using b(2) by (simp add: bud_def)
  note okb = blocks_wf_ok [OF wf bB] and fr = frames_of_remove [OF wf bB]
  show "block_ok N (ord + 1) lo" using ok okb pair(1,3) b(1) by (auto simp: block_ok_def)
  show "blk (ord + 1) lo \<inter> frames_of (B - {(ord, bud)}) = {}"
    using pair(3) fr new by auto
  show "frames_of (B - {(ord, bud)}) \<union> blk (ord + 1) lo = frames_of B \<union> blk ord p"
    using pair(3) fr blk_in_frames [OF bB] by auto
qed

lemma merge_up_blocks:
  "buddy_inv N B s \<Longrightarrow> block_ok N ord p \<Longrightarrow> blk ord p \<inter> frames_of B = {} \<Longrightarrow>
   \<exists>s'. merge_up p ord s = Some s' \<and> buddy_inv N (merge_blocks p ord B) s' \<and>
     heap_step (frames_of B \<union> blk ord p) s s' \<and>
     frames_of (merge_blocks p ord B) = frames_of B \<union> blk ord p"
proof (induction p ord B arbitrary: s rule: merge_blocks.induct)
  case (1 p ord B)
  define bud where "bud = p XOR block_bytes ord"
  define lo where "lo = (if bud < p then bud else p)"
  have ord: "ord \<le> 10" using "1.prems"(2) by (simp add: block_ok_def)
  note find = inv_find [OF "1.prems"(1) ord, of bud]
  show ?case
  proof (cases "ord < 10 \<and> (ord, bud) \<in> B")
    case True
    let ?s1 = "list_remove ord (bud + buddy_hhdm s) s"
    have t: "ord < 10" "(ord, p XOR block_bytes ord) \<in> B" using True by (auto simp: bud_def)
    note rm = inv_remove [OF "1.prems"(1) conjunct2 [OF True]]
    note step = merge_step [OF buddy_invD(1) [OF "1.prems"(1)] "1.prems"(2,3) t, folded bud_def, folded lo_def]
    have m: "merge_up p ord s = merge_up lo (ord + 1) ?s1"
      "merge_blocks p ord B = merge_blocks lo (ord + 1) (B - {(ord, bud)})"
      using True find
      by (simp_all add: merge_up.simps [of p ord s] merge_blocks.simps [of p ord B] Let_def bud_def [symmetric] lo_def)
    obtain s' where s': "merge_up lo (ord + 1) ?s1 = Some s'"
      "buddy_inv N (merge_blocks lo (ord + 1) (B - {(ord, bud)})) s'"
      "heap_step (frames_of (B - {(ord, bud)}) \<union> blk (ord + 1) lo) ?s1 s'"
      "frames_of (merge_blocks lo (ord + 1) (B - {(ord, bud)})) = frames_of (B - {(ord, bud)}) \<union> blk (ord + 1) lo"
      using "1.IH" [OF bud_def True, folded lo_def, OF rm(1) step(1,2)] by blast
    have "heap_step (frames_of B \<union> blk ord p) s s'"
      using rm(2) s'(3) unfolding step(3) by (rule heap_step_trans) auto
    then show ?thesis using s' unfolding m step(3) by auto
  next
    case False
    then have "merge_up p ord s = Some (list_push ord p s)" "merge_blocks p ord B = insert (ord, p) B"
      using find ord
      by (auto simp: merge_up.simps [of p ord s] merge_blocks.simps [of p ord B] Let_def bud_def [symmetric])
    then show ?thesis using inv_push [OF "1.prems"] by (auto simp: Un_commute)
  qed
qed


text \<open>
  The lists are coalesced when no block and its buddy are both free. Both operations keep that,
  and under it a free undoes an allocation exactly.
\<close>

definition coalesced :: "(nat \<times> u64) set \<Rightarrow> bool" where
  "coalesced B \<longleftrightarrow> (\<forall>(ord, p) \<in> B. ord < 10 \<longrightarrow> (ord, p XOR block_bytes ord) \<notin> B)"

lemma coalesced_mono: "coalesced B \<Longrightarrow> C \<subseteq> B \<Longrightarrow> coalesced C"
  unfolding coalesced_def by blast

lemma block_bytes_nonzero: "ord \<le> 10 \<Longrightarrow> block_bytes ord \<noteq> 0"
  using block_bytes_unat [of ord] by (auto simp: unat_eq_0 dest: arg_cong [of _ _ unat])

lemma coalesced_insert:
  assumes "coalesced B" and "ord < 10 \<Longrightarrow> (ord, p XOR block_bytes ord) \<notin> B"
  shows "coalesced (insert (ord, p) B)"
proof -
  have self: "p XOR block_bytes ord \<noteq> p" if "ord < 10"
  proof
    assume "p XOR block_bytes ord = p"
    then have "p XOR (p XOR block_bytes ord) = 0" by simp
    then show False using that block_bytes_nonzero [of ord] by (simp flip: xor.assoc)
  qed
  have "(ord, p) \<noteq> (i, q XOR block_bytes i)" if "(i, q) \<in> B" "i < 10" for i q
    using that assms(2) by (auto simp: xor.assoc)
  then show ?thesis using assms self by (auto simp: coalesced_def)
qed

lemma merge_blocks_coalesced: "coalesced B \<Longrightarrow> coalesced (merge_blocks p ord B)"
proof (induction p ord B rule: merge_blocks.induct)
  case (1 p ord B)
  define bud where "bud = p XOR block_bytes ord"
  show ?case
  proof (cases "ord < 10 \<and> (ord, bud) \<in> B")
    case True
    have "coalesced (B - {(ord, bud)})" using "1.prems" by (rule coalesced_mono) auto
    then show ?thesis
      using "1.IH" [OF bud_def True] True by (simp add: merge_blocks.simps [of p ord B] Let_def bud_def [symmetric])
  next
    case False
    then have "merge_blocks p ord B = insert (ord, p) B"
      by (auto simp: merge_blocks.simps [of p ord B] Let_def bud_def)
    then show ?thesis using "1.prems" False by (auto intro: coalesced_insert simp: bud_def)
  qed
qed

lemma split_coalesced:
  "order \<le> ord \<Longrightarrow> block_ok N ord p \<Longrightarrow> coalesced B \<Longrightarrow> blk ord p \<inter> frames_of B = {} \<Longrightarrow>
   coalesced (B \<union> upper_halves ord order p)"
proof (induction ord arbitrary: B)
  case 0
  then show ?case by (simp add: upper_halves_step)
next
  case (Suc ord)
  show ?case
  proof (cases "order = Suc ord")
    case True
    then show ?thesis using Suc.prems by (simp add: upper_halves_step)
  next
    case False
    then have le: "order \<le> ord" using Suc.prems by simp
    note h = block_ok_halves [OF Suc.prems(2)]
    have "ord \<le> 9" and "aligned (13 + ord) p" using Suc.prems(2) by (auto simp: block_ok_def)
    note x = halves(2) [OF this]
    have "(p + block_bytes ord) XOR block_bytes ord = p" by (simp add: x [symmetric] xor.assoc)
    moreover have "(ord, p) \<notin> B" using Suc.prems(4) h(3) blk_in_frames [of ord p B] blk_first [of p ord] by blast
    ultimately have "coalesced (insert (ord, p + block_bytes ord) B)"
      using Suc.prems(3) by (intro coalesced_insert) auto
    moreover have "blk ord p \<inter> frames_of (insert (ord, p + block_bytes ord) B) = {}"
      using Suc.prems(4) h(3,4) by auto
    ultimately have "coalesced (insert (ord, p + block_bytes ord) B \<union> upper_halves ord order p)"
      by (rule Suc.IH [OF le h(1)])
    then show ?thesis by (simp add: upper_halves_step(2) [OF le])
  qed
qed

lemma merge_blocks_split:
  assumes "order \<le> ord" and "block_ok N ord p" and "blk ord p \<inter> frames_of B = {}"
  shows "merge_blocks p order (B \<union> upper_halves ord order p) = merge_blocks p ord B"
  using assms
proof (induction ord arbitrary: B)
  case 0
  then show ?case by (simp add: upper_halves_step)
next
  case (Suc ord)
  show ?case
  proof (cases "order = Suc ord")
    case True
    then show ?thesis by (simp add: upper_halves_step)
  next
    case False
    then have le: "order \<le> ord" using Suc.prems by simp
    let ?up = "p + block_bytes ord"
    note h = block_ok_halves [OF Suc.prems(2)]
    have o: "ord \<le> 9" and al: "aligned (13 + ord) p" using Suc.prems(2) by (auto simp: block_ok_def)
    note x = halves [OF this]
    have notin: "(ord, ?up) \<notin> B"
      using Suc.prems(3) h(3) blk_in_frames [of ord ?up B] blk_first [of ?up ord] by blast
    have "\<not> ?up < p" using x(1) by (simp add: word_less_nat_alt)
    then have step: "merge_blocks p ord (insert (ord, ?up) B) = merge_blocks p (Suc ord) B"
      using o notin by (simp add: merge_blocks.simps [of p ord] Let_def x(2))
    have "B \<union> upper_halves (Suc ord) order p = insert (ord, ?up) B \<union> upper_halves ord order p"
      by (simp add: upper_halves_step(2) [OF le])
    moreover have "blk ord p \<inter> frames_of (insert (ord, ?up) B) = {}" using Suc.prems(3) h(3,4) by auto
    note Suc.IH [OF le h(1) this]
    ultimately show ?thesis using step by simp
  qed
qed

lemma merge_blocks_stop:
  assumes "ord < 10 \<Longrightarrow> (ord, p XOR block_bytes ord) \<notin> B"
  shows "merge_blocks p ord B = insert (ord, p) B"
  using assms by (auto simp: merge_blocks.simps [of p ord B] Let_def)


text \<open>The contract of an allocation and of a free on the set of free blocks.\<close>

lemma alloc_contract:
  assumes inv: "buddy_inv N B s" and some: "order \<le> i" "(i, q) \<in> B"
  obtains p s' B' where "buddy_alloc order s = (p, s')" and "block_ok N order p"
    and "blk order p \<subseteq> frames_of B" and "buddy_inv N B' s'"
    and "frames_of B' = frames_of B - blk order p" and "heap_step (frames_of B) s s'"
    and "coalesced B \<Longrightarrow> coalesced B' \<and> merge_blocks p order B' = B"
proof -
  note wf = buddy_invD(1) [OF inv]
  obtain ord p where a: "buddy_alloc order s = (p, snd (buddy_alloc order s))" "(ord, p) \<in> B"
    "order \<le> ord" "ord \<le> 10"
    "buddy_inv N (B - {(ord, p)} \<union> upper_halves ord order p) (snd (buddy_alloc order s))"
    "heap_step (frames_of B) s (snd (buddy_alloc order s))"
    using buddy_alloc_blocks [OF inv some] by metis
  note ok = blocks_wf_ok [OF wf a(2)] and fr = frames_of_remove [OF wf a(2)]
  have small: "blk order p \<subseteq> blk ord p" by (rule blk_order_mono [OF a(3)])
  have ok': "block_ok N order p"
    using ok a(3) small by (auto simp: block_ok_def elim: aligned_mono)
  have apart: "blk ord p \<inter> frames_of (B - {(ord, p)}) = {}" using fr by auto
  have frames: "frames_of (B - {(ord, p)} \<union> upper_halves ord order p) = frames_of B - blk order p"
    using fr frames_upper_halves [OF a(3) ok] small blk_in_frames [OF a(2)] by auto
  have co: "coalesced (B - {(ord, p)} \<union> upper_halves ord order p) \<and>
      merge_blocks p order (B - {(ord, p)} \<union> upper_halves ord order p) = B" if "coalesced B"
  proof
    have c: "coalesced (B - {(ord, p)})" using that by (rule coalesced_mono) auto
    then show "coalesced (B - {(ord, p)} \<union> upper_halves ord order p)"
      by (rule split_coalesced [OF a(3) ok _ apart])
    have "(ord, p XOR block_bytes ord) \<notin> B - {(ord, p)}" if "ord < 10"
      using that \<open>coalesced B\<close> a(2) unfolding coalesced_def by fast
    then show "merge_blocks p order (B - {(ord, p)} \<union> upper_halves ord order p) = B"
      unfolding merge_blocks_split [OF a(3) ok apart] using a(2) by (subst merge_blocks_stop) auto
  qed
  show ?thesis
    using small blk_in_frames [OF a(2)] by (intro that [OF a(1) ok' _ a(5) frames a(6) co]) auto
qed

lemma free_contract:
  assumes inv: "buddy_inv N B s" and ok: "block_ok N order p" and new: "blk order p \<inter> frames_of B = {}"
  obtains s' where "buddy_free p order s = Some s'" and "buddy_inv N (merge_blocks p order B) s'"
    and "frames_of (merge_blocks p order B) = frames_of B \<union> blk order p"
    and "heap_step (frames_of B \<union> blk order p) s s'"
  using merge_up_blocks [OF assms] ok by (auto simp: buddy_free_def block_ok_def)

subsection \<open>A small heap for the witnesses\<close>

text \<open>One free block of four frames at \<^verbatim>\<open>0x4000\<close>.\<close>

definition empty_heap :: buddy where
  "empty_heap = \<lparr>mem = (\<lambda>_. 0), io_trace = [], device = (\<lambda>_ _. 0x20), cr2 = 0, cr3 = 0, rsp = 0,
     tlb_flushes = [], bitmap = 0, bitmap_bytes = 0, total_frames = 0, usable_frames = 0,
     free_frames = 0, next_hint = 0, paging_hhdm = demo_hhdm, kernel_pml4 = 0, free_list = replicate 11 0, free_count = replicate 11 0,
     buddy_hhdm = demo_hhdm\<rparr>"

definition demo_heap :: buddy where
  "demo_heap = list_push 2 0x4000 empty_heap"

lemma buddy_inv_empty:
  assumes "direct_map (buddy_hhdm s) N" and "free_list s = replicate 11 0" and "free_count s = replicate 11 0"
  shows "buddy_inv N {} s"
proof -
  have "buddy_rel s (\<lambda>_. [])"
    using assms by (auto simp: buddy_rel_def nodes_ok_def all_nodes_def direct_map_def nth_replicate)
  moreover have "blocks (\<lambda>_. []) = {}" by (simp add: blocks_def)
  ultimately show ?thesis using assms(1) unfolding buddy_inv_def wf_blocks_def by blast
qed

lemma demo_direct_map: "N \<le> 0x1000 \<Longrightarrow> direct_map demo_hhdm N"
  by (simp add: direct_map_def demo_hhdm_def aligned_def)

lemma demo_blk: "blk 2 0x4000 = {4..<8}" "blk 0 0x4000 = {4}" "blk 1 0x6000 = {6..<8}"
  by (auto simp: blk_def)

lemma demo_heap_inv: "buddy_inv 8 {(2, 0x4000)} demo_heap"
proof -
  have "buddy_inv 8 {} empty_heap" by (rule buddy_inv_empty) (simp_all add: empty_heap_def demo_direct_map)
  moreover have "block_ok 8 2 0x4000" by (auto simp: block_ok_def aligned_def demo_blk)
  ultimately show ?thesis using inv_push(1) [of 8 "{}" empty_heap 2 "0x4000"] by (simp add: demo_heap_def)
qed

lemma demo_coalesced: "coalesced {(2, 0x4000)}"
  using coalesced_insert [of "{}" 2 "0x4000"] by (simp add: coalesced_def)

subsection \<open>The properties of allocation and free\<close>

text \<open>C7 (functional): an allocation of order \<open>order\<close> fails, returning 0 and changing nothing,
  exactly when no free block is that large. Otherwise it returns the non-null address of a block
  aligned to its size whose frames were all free; exactly those frames leave the free set, the
  lists stay well formed (and coalesced, if they were), and no byte outside the free frames
  changes.\<close>

theorem buddy_alloc_correct:
  assumes "buddy_inv N B s"
  shows "case buddy_alloc order s of (p, s') \<Rightarrow>
    if \<exists>i q. order \<le> i \<and> (i, q) \<in> B
    then p \<noteq> 0 \<and> aligned (12 + order) p \<and> blk order p \<subseteq> frames_of B \<and> heap_step (frames_of B) s s' \<and>
      (\<exists>B'. buddy_inv N B' s' \<and> frames_of B' = frames_of B - blk order p \<and> (coalesced B \<longrightarrow> coalesced B'))
    else p = 0 \<and> s' = s"
proof (cases "\<exists>i q. order \<le> i \<and> (i, q) \<in> B")
  case True
  then obtain i q where i: "order \<le> i" "(i, q) \<in> B" by blast
  obtain p s' B' where a: "buddy_alloc order s = (p, s')" "block_ok N order p"
    "blk order p \<subseteq> frames_of B" "buddy_inv N B' s'" "frames_of B' = frames_of B - blk order p"
    "heap_step (frames_of B) s s'" "coalesced B \<Longrightarrow> coalesced B'"
    using alloc_contract [OF assms i] by metis
  have "p \<noteq> 0" "aligned (12 + order) p" using a(2) block_ok_nonzero by (auto simp: block_ok_def)
  then show ?thesis unfolding a(1) prod.case if_P [OF True] using a(3-7) by blast
next
  case False
  then show ?thesis using buddy_alloc_none [OF assms, of order] by auto
qed

theorem buddy_alloc_correct_witness:
  "case buddy_alloc 0 demo_heap of (p, s') \<Rightarrow> p \<noteq> 0 \<and> aligned 12 p \<and> blk 0 p \<subseteq> {4..<8}"
proof -
  have "\<exists>i q. (0 :: nat) \<le> i \<and> (i, q) \<in> {(2 :: nat, 0x4000 :: u64)}" by auto
  from buddy_alloc_correct [OF demo_heap_inv, of 0, unfolded if_P [OF this]] show ?thesis
    by (auto simp: demo_blk split: prod.splits)
qed

text \<open>C8 (refinement): freeing a block that is aligned, inside the managed frames and not free
  returns (the walk over the lists ends), and the new set of free blocks is the one the reference
  \<open>merge_blocks\<close> computes: the freed frames and no others become free, the lists stay well formed
  (and coalesced, if they were), and only free frames and the freed block are written.\<close>

theorem buddy_free_correct:
  assumes "buddy_inv N B s" and "block_ok N order p" and "blk order p \<inter> frames_of B = {}"
  shows "\<exists>s'. buddy_free p order s = Some s' \<and> buddy_inv N (merge_blocks p order B) s' \<and>
    frames_of (merge_blocks p order B) = frames_of B \<union> blk order p \<and>
    (coalesced B \<longrightarrow> coalesced (merge_blocks p order B)) \<and>
    heap_step (frames_of B \<union> blk order p) s s'"
  using free_contract [OF assms] merge_blocks_coalesced by metis

theorem buddy_free_correct_witness:
  "\<exists>s'. buddy_free 0x1000 0 demo_heap = Some s' \<and> buddy_inv 8 (merge_blocks 0x1000 0 {(2, 0x4000)}) s'"
proof -
  have "blk 0 0x1000 = {1}" by (auto simp: blk_def)
  then show ?thesis
    using buddy_free_correct [OF demo_heap_inv, of 0 "0x1000"]
    by (auto simp: block_ok_def aligned_def demo_blk)
qed

text \<open>C26 (round trip): on coalesced lists, freeing what an allocation returned puts back exactly
  the free blocks there were before, however far the allocation had to split.\<close>

theorem buddy_alloc_free_roundtrip:
  assumes "buddy_inv N B s" and "coalesced B" and "order \<le> i" and "(i, q) \<in> B"
  shows "\<exists>s'. buddy_free (fst (buddy_alloc order s)) order (snd (buddy_alloc order s)) = Some s' \<and>
    buddy_inv N B s'"
proof -
  obtain p s1 B' where a: "buddy_alloc order s = (p, s1)" "block_ok N order p" "buddy_inv N B' s1"
    "frames_of B' = frames_of B - blk order p" "merge_blocks p order B' = B"
    using alloc_contract [OF assms(1,3,4)] assms(2) by metis
  have "blk order p \<inter> frames_of B' = {}" using a(4) by auto
  from free_contract [OF a(3,2) this] a(1,5) show ?thesis by (metis fst_conv snd_conv)
qed

theorem buddy_alloc_free_roundtrip_witness:
  "\<exists>s'. buddy_free (fst (buddy_alloc 0 demo_heap)) 0 (snd (buddy_alloc 0 demo_heap)) = Some s' \<and>
     buddy_inv 8 {(2, 0x4000)} s'"
  using buddy_alloc_free_roundtrip [OF demo_heap_inv demo_coalesced, of 0 2 "0x4000"] by simp

end
