(* ===== verification/Buddy_Init.thy ===== *)
theory Buddy_Init
  imports Buddy_Blocks
begin

text \<open>
  How the buddy allocator gets its memory (\<^verbatim>\<open>buddy_init\<close> and \<^verbatim>\<open>seed_run\<close> of
  \<^verbatim>\<open>core/mm/buddy.c\<close>): it claims free frames from the frame allocator, all but a reserve, and
  chops each run of claimed frames into aligned blocks. The joint invariant \<open>mm_inv\<close> says that no
  frame is free in both allocators and that neither writes into the other's metadata.
\<close>

subsection \<open>Seeding a run of frames\<close>

lemma and_mask_aligned: "f AND (push_bit k 1 - 1) = 0 \<longleftrightarrow> aligned k f"
proof -
  have "push_bit k 1 - 1 = (mask k :: u64)" by (simp add: mask_eq_exp_minus_1)
  then show ?thesis by (simp add: aligned_take_bit flip: take_bit_eq_mask)
qed

lemma seed_order_spec:
  assumes "f < stop" and "unat stop \<le> 2 ^ 52" and "k \<le> 10"
  shows "seed_order k f stop \<le> k \<and> aligned (seed_order k f stop) f \<and>
    unat f + 2 ^ seed_order k f stop \<le> unat stop \<and>
    (\<forall>j. seed_order k f stop < j \<and> j \<le> k \<longrightarrow> \<not> (aligned j f \<and> unat f + 2 ^ j \<le> unat stop))"
  using assms(3)
proof (induction k)
  case 0
  then show ?case using assms(1) by (auto simp: aligned_def word_less_nat_alt)
next
  case (Suc k)
  have f: "unat f < unat stop" using assms(1) by (simp add: word_less_nat_alt)
  have "(2::nat) ^ Suc k \<le> 2 ^ 10" using Suc.prems by (intro power_increasing) auto
  moreover have "(2::nat) ^ 10 < 2 ^ 52" by simp
  ultimately have small: "(2::nat) ^ Suc k < 2 ^ 52" by (rule le_less_trans)
  have "push_bit (Suc k) 1 = (of_nat (2 ^ Suc k) :: u64)" by (simp add: push_bit_eq_mult)
  then have p: "unat (push_bit (Suc k) 1 :: u64) = 2 ^ Suc k"
    using small by (simp only: unat_of_nat) simp
  have "unat (f + push_bit (Suc k) 1) = unat f + 2 ^ Suc k"
    using f assms(2) small p by (subst unat_add_exact) auto
  then have fits: "f + push_bit (Suc k) 1 > stop \<longleftrightarrow> \<not> unat f + 2 ^ Suc k \<le> unat stop"
    by (simp add: word_less_nat_alt not_le)
  have "seed_order (Suc k) f stop =
      (if aligned (Suc k) f \<and> unat f + 2 ^ Suc k \<le> unat stop then Suc k else seed_order k f stop)"
    unfolding seed_order.simps and_mask_aligned fits by auto
  then show ?case using Suc by (auto simp: le_Suc_eq simp del: power_Suc seed_order.simps)
qed


lemma frame_block:
  assumes "unat f < 2 ^ 52"
  shows "unat (f * 4096) = unat f * 4096" and "blk ord (f * 4096) = {unat f ..< unat f + 2 ^ ord}"
    and "aligned ord f \<Longrightarrow> aligned (12 + ord) (f * 4096)"
proof -
  show u: "unat (f * 4096) = unat f * 4096" using assms by (simp add: unat_word_ariths)
  then show "blk ord (f * 4096) = {unat f ..< unat f + 2 ^ ord}" by (simp add: blk_def)
  show "aligned ord f \<Longrightarrow> aligned (12 + ord) (f * 4096)"
    using u by (simp add: aligned_dvd power_add mult.commute)
qed

text \<open>Seeding returns, and the new blocks cover exactly the run.\<close>

lemma seed_run_spec:
  "buddy_inv N B s \<Longrightarrow> 0 < f \<Longrightarrow> f \<le> stop \<Longrightarrow> unat stop \<le> N \<Longrightarrow>
   {unat f ..< unat stop} \<inter> frames_of B = {} \<Longrightarrow>
   \<exists>s' B'. seed_run f stop s = Some s' \<and> buddy_inv N B' s' \<and>
     frames_of B' = frames_of B \<union> {unat f ..< unat stop} \<and>
     heap_step (frames_of B \<union> {unat f ..< unat stop}) s s'"
proof (induction "unat stop - unat f" arbitrary: f s B rule: less_induct)
  case less
  show ?case
  proof (cases "f < stop")
    case False
    then have "f = stop" using less.prems(3) by simp
    then show ?thesis using less.prems(1) by (auto simp: seed_run.simps [where f = stop and stop = stop and s = s])
  next
    case True
    have N: "N \<le> 2 ^ 52" using buddy_invD(2) [OF less.prems(1)] by (simp add: direct_map_def)
    define ord where "ord = seed_order 10 f stop"
    have "unat stop \<le> 2 ^ 52" using N less.prems(4) by simp
    note so = seed_order_spec [OF True this, of 10, folded ord_def, simplified]
    have f: "unat f < unat stop" "unat f < 2 ^ 52" using True N less.prems(4) by (auto simp: word_less_nat_alt)
    note fb = frame_block(1) [OF f(2)] frame_block(2,3) [OF f(2), of ord]
    have "(2::nat) ^ ord \<le> 2 ^ 10" using so by (intro power_increasing) auto
    moreover have "(2::nat) ^ 10 < 2 ^ 64" by simp
    ultimately have "(2::nat) ^ ord < 2 ^ 64" by (rule le_less_trans)
    moreover have "push_bit ord 1 = (of_nat (2 ^ ord) :: u64)" by (simp add: push_bit_eq_mult)
    ultimately have "unat (push_bit ord 1 :: u64) = 2 ^ ord" by (simp only: unat_of_nat) simp
    then have nx: "unat (f + push_bit ord 1) = unat f + 2 ^ ord"
      using so N less.prems(4) by (subst unat_add_exact) auto
    have ok: "block_ok N ord (f * 4096)"
      using so fb less.prems(2,4) by (auto simp: block_ok_def word_less_nat_alt)
    have "blk ord (f * 4096) \<subseteq> {unat f ..< unat stop}" using so fb(2) by auto
    then have new: "blk ord (f * 4096) \<inter> frames_of B = {}" using less.prems(5) by blast
    note push = inv_push [OF less.prems(1) ok new]
    have run: "seed_run f stop s = seed_run (f + push_bit ord 1) stop (list_push ord (f * 4096) s)"
      using True by (simp add: seed_run.simps [where f = f and stop = stop and s = s] Let_def ord_def)
    have dis: "{unat (f + push_bit ord 1) ..< unat stop} \<inter> frames_of (insert (ord, f * 4096) B) = {}"
      using less.prems(5) fb(2) unfolding nx by fastforce
    have "unat stop - unat (f + push_bit ord 1) < unat stop - unat f" 
      using f(1) zero_less_power [of "2::nat" ord] unfolding nx by linarith
    moreover have "0 < f + push_bit ord 1" "f + push_bit ord 1 \<le> stop"
      using so unfolding word_less_nat_alt word_le_nat_alt nx by auto
    ultimately obtain s' B' where s': "seed_run (f + push_bit ord 1) stop (list_push ord (f * 4096) s) = Some s'"
      "buddy_inv N B' s'"
      "frames_of B' = frames_of (insert (ord, f * 4096) B) \<union> {unat (f + push_bit ord 1) ..< unat stop}"
      "heap_step (frames_of (insert (ord, f * 4096) B) \<union> {unat (f + push_bit ord 1) ..< unat stop})
         (list_push ord (f * 4096) s) s'"
      using less.hyps [OF _ push(1) _ _ less.prems(4) dis] by blast
    have split: "{unat f ..< unat stop} = blk ord (f * 4096) \<union> {unat (f + push_bit ord 1) ..< unat stop}"
      using so unfolding fb(2) nx by auto
    have "heap_step (frames_of B \<union> {unat f ..< unat stop}) s s'"
      by (rule heap_step_trans [OF push(2) s'(4)]) (auto simp: split)
    moreover have "frames_of B' = frames_of B \<union> {unat f ..< unat stop}" using s'(3) split by auto
    ultimately show ?thesis using run s'(1,2) by auto
  qed
qed


subsection \<open>Claiming runs of frames\<close>

text \<open>
  \<open>claims U F s s'\<close>: the frames \<open>F\<close>, all free in \<open>s\<close>, were taken from the frame allocator,
  which wrote nothing but its own bitmap and its free counter.
\<close>

definition claims :: "u64 set \<Rightarrow> u64 set \<Rightarrow> 'a pmm_scheme \<Rightarrow> 'a pmm_scheme \<Rightarrow> bool" where
  "claims U F s s' \<longleftrightarrow> pmm_inv U s' \<and> F \<subseteq> free_set s \<and> free_set s' = free_set s - F \<and>
     (\<exists>m k. s' = s\<lparr>mem := m, free_frames := k\<rparr>) \<and>
     (\<forall>x. x \<notin> bitmap_range s \<longrightarrow> mem s' x = mem s x)"

lemma claim_id: "\<exists>m k. s = s\<lparr>mem := m, free_frames := k\<rparr>" for s :: "'a pmm_scheme"
  by (rule exI [of _ "mem s"], rule exI [of _ "free_frames s"]) simp

lemma claims_empty: "pmm_inv U s \<Longrightarrow> claims U {} s s"
  unfolding claims_def using claim_id by auto

lemma claims_range: "claims U F s s' \<Longrightarrow> bitmap_range s' = bitmap_range s"
  by (auto simp: claims_def bitmap_range_def)

lemma claims_trans:
  assumes "claims U F s t" and "claims U G t u"
  shows "claims U (F \<union> G) s u"
proof -
  obtain m k m' k' where "t = s\<lparr>mem := m, free_frames := k\<rparr>" "u = t\<lparr>mem := m', free_frames := k'\<rparr>"
    using assms unfolding claims_def by blast
  then have "u = s\<lparr>mem := m', free_frames := k'\<rparr>" by simp
  then have "\<exists>m k. u = s\<lparr>mem := m, free_frames := k\<rparr>" by blast
  then show ?thesis using assms claims_range [OF assms(1)] by (auto simp: claims_def)
qed

lemma claim_one:
  assumes "pmm_inv U s" and "f \<in> free_set s"
  shows "claims U {f} s (snd (pmm_claim_frame (f * 4096) s))"
proof -
  have "\<exists>m k. snd (pmm_claim_frame (f * 4096) s) = s\<lparr>mem := m, free_frames := k\<rparr>"
    using claim_id [of s] by (auto simp: pmm_claim_frame_def bit_set_def Let_def)
  then show ?thesis
    using claim_free [OF assms] claim_mem [OF assms(1)] assms(2) by (simp add: claims_def)
qed

lemma unat_budget_Suc: "c < (n :: u64) \<Longrightarrow> unat (c + 1) = unat c + 1 \<and> c + 1 \<le> n"
  using unat_Suc_less [of c n] word_Suc_le [of c n] by simp

lemma claim_extend_spec:
  "pmm_inv U s \<Longrightarrow> f \<le> stop \<Longrightarrow> unat stop \<le> 2 ^ 52 \<Longrightarrow> c \<le> budget \<Longrightarrow>
   case claim_extend f stop c budget s of (f', c', s') \<Rightarrow>
     f \<le> f' \<and> f' \<le> stop \<and> claims U {f..<f'} s s' \<and> c' \<le> budget \<and>
     unat c' = unat c + (unat f' - unat f) \<and> (f' = stop \<or> c' = budget \<or> f' \<notin> free_set s')"
proof (induction f stop c budget s rule: claim_extend.induct)
  case (1 f stop c budget s)
  note def = claim_extend.simps [of f stop c budget s]
  show ?case
  proof (cases "f < stop \<and> c < budget")
    case False
    then have "claim_extend f stop c budget s = (f, c, s)" "f = stop \<or> c = budget"
      using 1 by (auto simp: def)
    then show ?thesis using "1.prems" claims_empty by auto
  next
    case True
    have f52: "unat f < 2 ^ 52" using True "1.prems"(3) by (simp add: word_less_nat_alt)
    show ?thesis
    proof (cases "f \<in> free_set s")
      case False
      then have "claim_extend f stop c budget s = (f, c, s)"
        using claim_used [OF f52 False] True by (simp add: def)
      then show ?thesis using "1.prems" claims_empty False by auto
    next
      case free: True
      define s1 where "s1 = snd (pmm_claim_frame (f * 4096) s)"
      have c1: "pmm_claim_frame (f * 4096) s = (True, s1)"
        using claim_free(1) [OF "1.prems"(1) free] by (simp add: s1_def prod_eq_iff)
      have one: "claims U {f} s s1" unfolding s1_def by (rule claim_one [OF "1.prems"(1) free])
      then have inv1: "pmm_inv U s1" by (simp add: claims_def)
      obtain f' c' s' where r: "claim_extend (f + 1) stop (c + 1) budget s1 = (f', c', s')"
        by (metis prod_cases3)
      have cb: "unat (c + 1) = unat c + 1" "c + 1 \<le> budget" using unat_budget_Suc True by blast+
      have ih: "f + 1 \<le> f'" "f' \<le> stop" "claims U {f + 1..<f'} s1 s'" "c' \<le> budget"
        "unat c' = unat (c + 1) + (unat f' - unat (f + 1))" "f' = stop \<or> c' = budget \<or> f' \<notin> free_set s'"
        using "1.IH" [OF True refl c1 [symmetric, folded PMM_FRAME_SIZE_def] TrueI inv1 word_Suc_le "1.prems"(3) cb(2)]
          True r by auto
      have lt: "f < f'" using ih(1) word_le_step(2) True by blast
      then have "{f..<f'} = {f} \<union> {f + 1..<f'}" using word_atLeastLessThan_step(1) by blast
      then have "claims U {f..<f'} s s'" using claims_trans [OF one ih(3)] by simp
      moreover have "unat c' = unat c + (unat f' - unat f)"
        using ih(5) cb lt unat_Suc_less [of f stop] True by (simp add: word_less_nat_alt)
      moreover have "claim_extend f stop c budget s = (f', c', s')" using True c1 r by (simp add: def)
      ultimately show ?thesis using ih lt by auto
    qed
  qed
qed


subsection \<open>The two allocators together\<close>

lemma buddy_inv_frame:
  assumes inv: "buddy_inv N B s" and same: "free_list t = free_list s" "free_count t = free_count s"
      "buddy_hhdm t = buddy_hhdm s"
    and mem: "\<And>x. dm_frame (buddy_hhdm s) x \<in> frames_of B \<Longrightarrow> mem t x = mem s x"
  shows "buddy_inv N B t"
proof -
  let ?h = "buddy_hhdm s"
  obtain fl where rel: "buddy_rel s fl" and B: "blocks fl = B" using inv by (auto simp: buddy_inv_def)
  note wf = buddy_invD(1) [OF inv] and dm = buddy_invD(2) [OF inv]
  have node: "same_node (mem t) (mem s) (p + ?h)" if "i \<le> 10" "p \<in> set (fl i)" for i p
  proof -
    have pB: "(i, p) \<in> B" using that B by (auto simp: blocks_def)
    note ok = blocks_wf_ok [OF wf pB]
    have al: "aligned 12 (p + ?h)" using block_node(1) [OF dm ok] buddy_invD(3) [OF inv] by blast
    then have pg: "page (p + ?h + 8) = page (p + ?h)" by (rule page_offset) simp
    have "mem t x = mem s x" if "page x = page (p + ?h)" for x
      using node_page_frame [OF inv ok that] blk_in_frames [OF pB] by (intro mem) blast
    then show ?thesis
      unfolding same_node_def node_prev_def node_next_def using node_aligned [OF al] pg
      by (auto intro: load64_page_cong)
  qed
  have "dll (mem t) 0 (map (\<lambda>p. p + ?h) (fl i)) 0 = dll (mem s) 0 (map (\<lambda>p. p + ?h) (fl i)) 0"
    if "i \<le> 10" for i using node [OF that] by (intro dll_same_nodes) auto
  then have "buddy_rel t fl" using rel by (auto simp: buddy_rel_def same Let_def)
  then show ?thesis using B wf dm by (auto simp: buddy_inv_def same)
qed

definition mm_inv :: "nat \<Rightarrow> u64 set \<Rightarrow> (nat \<times> u64) set \<Rightarrow> 'a buddy_scheme \<Rightarrow> bool" where
  "mm_inv N U B s \<longleftrightarrow> pmm_inv U s \<and> buddy_inv N B s \<and> unat (total_frames s) \<le> N \<and>
     frames_of B \<subseteq> unat ` (U - free_set s) \<and>
     (\<forall>x \<in> bitmap_range s. dm_frame (buddy_hhdm s) x \<notin> unat ` free_set s \<union> frames_of B)"

lemma mm_invD:
  assumes "mm_inv N U B s"
  shows "pmm_inv U s" and "buddy_inv N B s" and "unat (total_frames s) \<le> N"
    and "frames_of B \<subseteq> unat ` (U - free_set s)"
    and "x \<in> bitmap_range s \<Longrightarrow> dm_frame (buddy_hhdm s) x \<notin> unat ` free_set s"
    and "x \<in> bitmap_range s \<Longrightarrow> dm_frame (buddy_hhdm s) x \<notin> frames_of B"
  using assms by (auto simp: mm_inv_def)

lemma mm_inv_claims:
  assumes inv: "mm_inv N U B s" and c: "claims U F s s'"
  shows "mm_inv N U B s'"
proof -
  note i = mm_invD [OF inv]
  obtain m k where s': "s' = s\<lparr>mem := m, free_frames := k\<rparr>" using c by (auto simp: claims_def)
  have f: "free_set s' = free_set s - F" "pmm_inv U s'" "bitmap_range s' = bitmap_range s"
    using c claims_range [OF c] by (auto simp: claims_def)
  have "buddy_inv N B s'"
    using i(6) c by (intro buddy_inv_frame [OF i(2)]) (auto simp: s' claims_def)
  then show ?thesis using i f by (auto simp: mm_inv_def s')
qed

text \<open>A step of the buddy allocator that stays off the bitmap does not disturb the frame allocator.\<close>

lemma pmm_heap_step:
  assumes inv: "pmm_inv U s" and h: "heap_step F s s'"
    and off: "\<And>x. x \<in> bitmap_range s \<Longrightarrow> dm_frame (buddy_hhdm s) x \<notin> F"
  shows "pmm_inv U s'" and "free_set s' = free_set s" and "bitmap_range s' = bitmap_range s"
proof -
  obtain m l c where s': "s' = s\<lparr>mem := m, free_list := l, free_count := c\<rparr>"
    using h by (auto simp: heap_step_def)
  have "m x = mem s x" if "x \<in> bitmap_range s" for x
    using heap_step_mem [OF h off [OF that]] by (simp add: s')
  note p = pmm_frame [OF inv this]
  have "free_set s' = free_set (s\<lparr>mem := m\<rparr>)" "bitmap_range s' = bitmap_range (s\<lparr>mem := m\<rparr>)"
    by (simp_all add: s' free_set_def bitmap_range_def bit_test_alt)
  then show "free_set s' = free_set s" and "bitmap_range s' = bitmap_range s" using p by auto
  then show "pmm_inv U s'" using inv by (simp add: pmm_inv_def s')
qed

definition takes ::
  "nat \<Rightarrow> u64 set \<Rightarrow> (nat \<times> u64) set \<Rightarrow> 'a buddy_scheme \<Rightarrow> (nat \<times> u64) set \<Rightarrow> 'a buddy_scheme \<Rightarrow> bool" where
  "takes N U B s B' s' \<longleftrightarrow> mm_inv N U B' s' \<and> free_set s' \<subseteq> free_set s \<and>
     frames_of B' = frames_of B \<union> unat ` (free_set s - free_set s') \<and>
     bitmap_range s' = bitmap_range s \<and> buddy_hhdm s' = buddy_hhdm s \<and>
     (\<forall>x. x \<notin> bitmap_range s \<longrightarrow> dm_frame (buddy_hhdm s) x \<notin> frames_of B \<union> unat ` free_set s \<longrightarrow>
        mem s' x = mem s x)"

lemma takes_refl: "mm_inv N U B s \<Longrightarrow> takes N U B s B s"
  by (simp add: takes_def)

lemma takes_trans:
  assumes "takes N U B s B' t" and "takes N U B' t B'' u"
  shows "takes N U B s B'' u"
proof -
  have "frames_of B' \<union> unat ` free_set t \<subseteq> frames_of B \<union> unat ` free_set s"
    using assms(1) by (auto simp: takes_def)
  then have "mem u x = mem s x"
    if "x \<notin> bitmap_range s" "dm_frame (buddy_hhdm s) x \<notin> frames_of B \<union> unat ` free_set s" for x
    using that assms unfolding takes_def by (metis subsetD)
  moreover have "free_set s - free_set u = (free_set s - free_set t) \<union> (free_set t - free_set u)"
    using assms by (auto simp: takes_def)
  ultimately show ?thesis using assms by (auto simp: takes_def)
qed

lemma unat_interval: "unat ` {f..<g} = {unat f..<unat (g :: u64)}"
proof
  show "{unat f..<unat g} \<subseteq> unat ` {f..<g}"
  proof
    fix k assume k: "k \<in> {unat f..<unat g}"
    then have "k < 2 ^ 64" using unat_lt2p [of g] by simp
    then have "unat (of_nat k :: u64) = k" by (simp add: unat_of_nat)
    then show "k \<in> unat ` {f..<g}"
      using k by (intro image_eqI [of _ _ "of_nat k"]) (auto simp: word_less_nat_alt word_le_nat_alt)
  qed
qed (auto simp: word_less_nat_alt word_le_nat_alt)


text \<open>One claimed run becomes blocks.\<close>

lemma run_spec:
  assumes inv: "mm_inv N U B s" and c: "claims U {f..<g} s s1" and lt: "f < g"
  shows "\<exists>s' B'. seed_run f g s1 = Some s' \<and> takes N U B s B' s' \<and> free_set s' = free_set s - {f..<g}"
proof -
  let ?G = "{unat f..<unat g}" and ?h = "buddy_hhdm s"
  note i = mm_invD [OF inv] and i1 = mm_invD [OF mm_inv_claims [OF inv c]]
  obtain m k where s1: "s1 = s\<lparr>mem := m, free_frames := k\<rparr>" using c by (auto simp: claims_def)
  have G: "{f..<g} \<subseteq> free_set s" "free_set s1 = free_set s - {f..<g}" using c by (auto simp: claims_def)
  have U: "free_set s \<subseteq> U" using pmm_invD(2) [OF i(1)] .
  have GU: "?G \<subseteq> unat ` free_set s" using G(1) by (metis image_mono unat_interval)
  have g: "unat g \<le> N"
  proof -
    have "0 < g" using lt le_less_trans word_zero_le by blast
    then have "g - 1 \<in> {f..<g}" using lt word_less_pred(1) [of g f] word_less_pred(2) [of g] by auto
    then have "g - 1 < total_frames s" using G(1) by (auto simp: free_set_def)
    moreover have "unat (g - 1) = unat g - 1" using \<open>0 < g\<close> by (intro unat_minus_one) auto
    ultimately show ?thesis using i(3) by (simp add: word_less_nat_alt)
  qed
  have "f \<in> U" using G(1) U lt by auto
  then have f: "0 < f" using pmm_inv_bounds(1) [OF i(1)] by (simp add: word_gt_0)
  have "unat ` free_set s \<inter> unat ` (U - free_set s) = {}" by (auto simp: word_unat_eq_iff [symmetric])
  then have dis: "?G \<inter> frames_of B = {}" using GU i(4) by blast
  obtain s' B' where s': "seed_run f g s1 = Some s'" "buddy_inv N B' s'" "frames_of B' = frames_of B \<union> ?G"
    "heap_step (frames_of B \<union> ?G) s1 s'"
    using seed_run_spec [OF i1(2) f order_less_imp_le [OF lt] g dis] by blast
  have hs1: "buddy_hhdm s1 = ?h" by (simp add: s1)
  have off: "dm_frame (buddy_hhdm s1) x \<notin> frames_of B \<union> ?G" if "x \<in> bitmap_range s1" for x
    using i(5,6) [of x] that GU unfolding hs1 claims_range [OF c] by blast
  have p: "pmm_inv U s'" "free_set s' = free_set s1" "bitmap_range s' = bitmap_range s1"
    using pmm_heap_step [OF i1(1) s'(4)] off by blast+
  have hh: "buddy_hhdm s' = ?h" "total_frames s' = total_frames s"
    using heap_step_fields [OF s'(4)] by (simp_all add: s1)
  have fs: "free_set s' = free_set s - {f..<g}" using p(2) G(2) by simp
  then have taken: "free_set s - free_set s' = {f..<g}" using G(1) by auto
  have "{f..<g} \<subseteq> U - free_set s1" using G U by blast
  then have "?G \<subseteq> unat ` (U - free_set s1)" unfolding unat_interval [symmetric] by (rule image_mono)
  then have "frames_of B' \<subseteq> unat ` (U - free_set s')" unfolding s'(3) p(2) using i1(4) by (rule Un_least [rotated])
  moreover have "dm_frame ?h x \<notin> unat ` free_set s' \<union> frames_of B'" if "x \<in> bitmap_range s'" for x
    using off [of x] i1(5) [of x] that hs1 unfolding p(2,3) s'(3) by auto
  ultimately have "mm_inv N U B' s'" using p(1) s'(2) i(3) by (simp add: mm_inv_def hh)
  moreover have "mem s' x = mem s x"
    if "x \<notin> bitmap_range s" "dm_frame ?h x \<notin> frames_of B \<union> unat ` free_set s" for x
  proof -
    have "mem s' x = mem s1 x" using heap_step_mem [OF s'(4), of x] that(2) GU unfolding hs1 by blast
    then show ?thesis using c that(1) by (simp add: claims_def)
  qed
  moreover have "frames_of B' = frames_of B \<union> unat ` (free_set s - free_set s')"
    unfolding taken s'(3) unat_interval ..
  moreover have "bitmap_range s' = bitmap_range s" using p(3) claims_range [OF c] by simp
  ultimately have "takes N U B s B' s'" unfolding takes_def using fs hh(1) by blast
  then show ?thesis using s'(1) fs by blast
qed


text \<open>
  A whole region: the budget bounds the frames taken, and below the budget no free frame of the
  region is left behind.
\<close>

lemma takes_card:
  assumes "takes N U B s B' s'"
  shows "card (free_set s') + card (free_set s - free_set s') = card (free_set s)"
  using assms card_Diff_subset [of "free_set s'" "free_set s"] card_mono [of "free_set s" "free_set s'"]
  by (auto simp: takes_def)

definition region_taken :: "nat \<Rightarrow> u64 set \<Rightarrow> (nat \<times> u64) set \<Rightarrow> u64 \<Rightarrow> u64 \<Rightarrow> u64 set \<Rightarrow>
    'a buddy_scheme \<Rightarrow> u64 \<Rightarrow> 'a buddy_scheme \<Rightarrow> bool" where
  "region_taken N U B c budget R s c' s' \<longleftrightarrow>
     (\<exists>B'. takes N U B s B' s') \<and> c' \<le> budget \<and>
     unat c' + card (free_set s') = unat c + card (free_set s) \<and> free_set s - free_set s' \<subseteq> R \<and>
     (c' = budget \<or> free_set s' \<inter> R = {})"

text \<open>One run: the first free frame and those after it are claimed together.\<close>

lemma claim_run_spec:
  assumes inv: "pmm_inv U s" and f: "f \<in> free_set s" "f < stop" "unat stop \<le> 2 ^ 52" and c: "c < budget"
  obtains g c2 s1 s2 where "pmm_claim_frame (f * 4096) s = (True, s1)" and "claim_extend (f + 1) stop (c + 1) budget s1 = (g, c2, s2)"
    and "f < g" and "g \<le> stop" and "claims U {f..<g} s s2" and "c2 \<le> budget" and "unat c2 = unat c + card {f..<g}"
proof -
  define s1 where "s1 = snd (pmm_claim_frame (f * 4096) s)"
  have c1: "pmm_claim_frame (f * 4096) s = (True, s1)" using claim_free(1) [OF inv f(1)] by (simp add: s1_def prod_eq_iff)
  have one: "claims U {f} s s1" unfolding s1_def by (rule claim_one [OF inv f(1)])
  obtain g c2 s2 where r: "claim_extend (f + 1) stop (c + 1) budget s1 = (g, c2, s2)" by (metis prod_cases3)
  have cb: "unat (c + 1) = unat c + 1" "c + 1 \<le> budget" using unat_budget_Suc c by blast+
  have "pmm_inv U s1" using one by (simp add: claims_def)
  then have e: "f + 1 \<le> g" "g \<le> stop" "claims U {f + 1..<g} s1 s2" "c2 \<le> budget"
    "unat c2 = unat (c + 1) + (unat g - unat (f + 1))"
    using claim_extend_spec [of U s1 "f + 1" stop "c + 1" budget] word_Suc_le [of f stop] f cb(2) r by auto
  have lt: "f < g" using e(1) word_le_step(2) f(2) by blast
  have "{f..<g} = {f} \<union> {f + 1..<g}" using word_atLeastLessThan_step(1) [OF lt] by simp
  then have "claims U {f..<g} s s2" using claims_trans [OF one e(3)] by simp
  moreover have "unat c2 = unat c + card {f..<g}"
    using e(5) cb lt unat_Suc_less [OF lt] card_word_interval [OF order_less_imp_le [OF lt]] by (simp add: word_less_nat_alt)
  ultimately show thesis using that [OF c1 r lt e(2) _ e(4)] by blast
qed

lemma region_taken_run:
  assumes lt: "f < g" "g \<le> stop" and s3: "takes N U B s B3 s3" "free_set s3 = free_set s - {f..<g}" "{f..<g} \<subseteq> free_set s"
    and c2: "unat c2 = unat c + card {f..<g}" and r: "region_taken N U B3 c2 budget {g..<stop} s3 c' s'"
  shows "region_taken N U B c budget {f..<stop} s c' s'"
proof -
  have all: "{f..<stop} = {f..<g} \<union> {g..<stop}" using lt by auto
  obtain B' where B': "takes N U B3 s3 B' s'" using r by (auto simp: region_taken_def)
  have "card (free_set s3) + card {f..<g} = card (free_set s)"
    using takes_card [OF s3(1)] s3(2,3) by (simp add: double_diff)
  then have "unat c' + card (free_set s') = unat c + card (free_set s)" using r c2 by (simp add: region_taken_def)
  moreover have "free_set s - free_set s' \<subseteq> {f..<stop}" using r s3(2) all by (auto simp: region_taken_def)
  moreover have "free_set s' \<subseteq> free_set s3" using B' by (simp add: takes_def)
  ultimately show ?thesis using takes_trans [OF s3(1) B'] r s3(2) unfolding region_taken_def all by auto
qed

lemma claim_region_spec:
  "mm_inv N U B s \<Longrightarrow> f \<le> stop \<Longrightarrow> unat stop \<le> 2 ^ 52 \<Longrightarrow> c \<le> budget \<Longrightarrow>
   \<exists>c' s'. claim_region f stop c budget s = Some (c', s') \<and> region_taken N U B c budget {f..<stop} s c' s'"
proof (induction "unat (stop - f)" arbitrary: f c s B rule: less_induct)
  case less
  note def = claim_region.simps [of f stop c budget s] and i = mm_invD [OF less.prems(1)]
  show ?case
  proof (cases "f < stop \<and> c < budget")
    case False
    then have "claim_region f stop c budget s = Some (c, s)" "c = budget \<or> {f..<stop} = {}"
      using less.prems by (auto simp: def)
    then show ?thesis using less.prems takes_refl [OF less.prems(1)] by (auto simp: region_taken_def)
  next
    case True
    have f52: "unat f < 2 ^ 52" using True less.prems(3) by (simp add: word_less_nat_alt)
    have step: "{f..<stop} = insert f {f + 1..<stop}" using word_atLeastLessThan_step(1) True by blast
    show ?thesis
    proof (cases "f \<in> free_set s")
      case False
      then have "claim_region f stop c budget s = claim_region (f + 1) stop c budget s"
        using claim_used [OF f52 False] True by (simp add: def)
      moreover obtain c' s' where r: "claim_region (f + 1) stop c budget s = Some (c', s')"
        "region_taken N U B c budget {f + 1..<stop} s c' s'"
        using less.hyps [OF word_loop_decr less.prems(1) word_Suc_le less.prems(3,4)] True by blast
      moreover have "free_set s' \<subseteq> free_set s" using r(2) by (auto simp: region_taken_def takes_def)
      ultimately show ?thesis using False step by (auto simp: region_taken_def)
    next
      case free: True
      obtain g c2 s1 s2 where c1: "pmm_claim_frame (f * 4096) s = (True, s1)"
        and r: "claim_extend (f + 1) stop (c + 1) budget s1 = (g, c2, s2)" and lt: "f < g" "g \<le> stop"
        and cl: "claims U {f..<g} s s2" and c2: "c2 \<le> budget" "unat c2 = unat c + card {f..<g}"
        using claim_run_spec [OF i(1) free _ less.prems(3)] True by metis
      obtain s3 B3 where s3: "seed_run f g s2 = Some s3" "takes N U B s B3 s3"
        "free_set s3 = free_set s - {f..<g}" using run_spec [OF less.prems(1) cl lt(1)] by blast
      have "claim_region f stop c budget s = claim_region g stop c2 budget s3"
        using True c1 r s3(1) by (simp add: def)
      moreover have "mm_inv N U B3 s3" using s3(2) by (simp add: takes_def)
      then obtain c' s' where r3: "claim_region g stop c2 budget s3 = Some (c', s')"
        "region_taken N U B3 c2 budget {g..<stop} s3 c' s'"
        using less.hyps [OF word_gap_decr [OF lt] _ lt(2) less.prems(3) c2(1)] by blast
      moreover have "{f..<g} \<subseteq> free_set s" using cl by (simp add: claims_def)
      note region_taken_run [OF lt s3(2,3) this c2(2) r3(2)]
      ultimately show ?thesis by auto
    qed
  qed
qed

subsection \<open>The whole memory map\<close>

lemma entry_region:
  assumes "entry_ok e"
  defines "first \<equiv> me_base e div 4096" and "stop \<equiv> me_base e div 4096 + me_length e div 4096"
  shows "first \<le> stop" and "unat stop \<le> 2 ^ 52" and "{first..<stop} = entry_frames e"
proof -
  have b: "unat (me_base e div 4096) + unat (me_length e div 4096) < 2 ^ 52"
  proof -
    have "unat (me_base e) div 4096 * 4096 \<le> unat (me_base e)"
      "unat (me_length e) div 4096 * 4096 \<le> unat (me_length e)" by simp_all
    moreover have "unat (me_base e) + unat (me_length e) < 2 ^ 64" using assms(1) by (simp add: entry_ok_def)
    moreover have "(2 :: nat) ^ 64 = 2 ^ 52 * 4096" by simp
    ultimately have "unat (me_base e) div 4096 + unat (me_length e) div 4096 < 2 ^ 52" by linarith
    then show ?thesis by (simp add: unat_div)
  qed
  then have u: "unat stop = unat first + unat (me_length e div 4096)"
    unfolding stop_def first_def by (intro unat_add_exact) simp
  then show "first \<le> stop" unfolding word_le_nat_alt by linarith
  show "unat stop \<le> 2 ^ 52" using b u unfolding first_def by linarith
  have "unat first + unat (me_length e div 4096) < 2 ^ 64" using b unfolding first_def by simp
  note w = word_offset_less [OF this, unfolded first_def]
  show "{first..<stop} = entry_frames e"
    by (rule set_eqI) (simp only: entry_frames_def mem_Collect_eq atLeastLessThan_iff stop_def first_def w)
qed

lemma region_taken_trans:
  assumes 1: "takes N U B s B1 s1" "region_taken N U B c budget R s c1 s1"
    and 2: "region_taken N U B1 c1 budget R' s1 c2 s2"
  shows "region_taken N U B c budget (R \<union> R') s c2 s2"
proof -
  obtain B2 where B2: "takes N U B1 s1 B2 s2" using 2 by (auto simp: region_taken_def)
  have sub: "free_set s2 \<subseteq> free_set s1" "free_set s1 \<subseteq> free_set s"
    using 1(1) B2 by (auto simp: takes_def)
  have "unat c1 + card (free_set s1) = unat c + card (free_set s)"
    "unat c2 + card (free_set s2) = unat c1 + card (free_set s1)"
    using 1(2) 2 by (auto simp: region_taken_def)
  moreover have "card (free_set s2) \<le> card (free_set s1)" using sub(1) by (intro card_mono) auto
  ultimately have "c1 \<le> c2" by (simp add: word_le_nat_alt)
  then have "c1 = budget \<Longrightarrow> c2 = budget" using 2 by (auto simp: region_taken_def)
  then show ?thesis
    using takes_trans [OF 1(1) B2] 1(2) 2 sub unfolding region_taken_def by auto
qed

lemma claim_regions_spec:
  "limine_memmap mm \<Longrightarrow> mm_inv N U B s \<Longrightarrow> c \<le> budget \<Longrightarrow>
   \<exists>c' s'. claim_regions mm c budget s = Some s' \<and> region_taken N U B c budget (usable_set mm) s c' s'"
proof (induction mm arbitrary: c s B)
  case Nil
  then show ?case using takes_refl [OF Nil.prems(2)] by (auto simp: region_taken_def usable_set_def)
next
  case (Cons e mm)
  have mm: "limine_memmap mm" using Cons.prems(1) by simp
  show ?case
  proof (cases "c < budget")
    case False
    then have "c = budget" using Cons.prems(3) by simp
    then show ?thesis using takes_refl [OF Cons.prems(2)] by (auto simp: region_taken_def)
  next
    case c: True
    show ?thesis
    proof (cases "usable e")
      case False
      then have "claim_regions (e # mm) c budget s = claim_regions mm c budget s" "usable_set (e # mm) = usable_set mm"
        using c by (auto simp: usable_def usable_set_def)
      then show ?thesis using Cons.IH [OF mm Cons.prems(2,3)] by simp
    next
      case True
      then have ok: "entry_ok e" using Cons.prems(1) by simp
      note r = entry_region [OF ok]
      obtain c1 s1 where s1: "claim_region (me_base e div 4096) (me_base e div 4096 + me_length e div 4096) c budget s = Some (c1, s1)"
        "region_taken N U B c budget (entry_frames e) s c1 s1"
        using claim_region_spec [OF Cons.prems(2) r(1,2) Cons.prems(3)] r(3) by metis
      obtain B1 where B1: "takes N U B s B1 s1" using s1(2) by (auto simp: region_taken_def)
      have "mm_inv N U B1 s1" "c1 \<le> budget" using B1 s1(2) by (auto simp: takes_def region_taken_def)
      then obtain c' s' where s': "claim_regions mm c1 budget s1 = Some s'"
        "region_taken N U B1 c1 budget (usable_set mm) s1 c' s'" using Cons.IH [OF mm] by blast
      have "usable_set (e # mm) = entry_frames e \<union> usable_set mm" using True by (simp add: usable_set_def)
      then show ?thesis
        using region_taken_trans [OF B1 s1(2) s'(2)] s'(1) s1(1) True c by (auto simp: usable_def Let_def)
    qed
  qed
qed


lemma pmm_inv_more:
  "free_set (s\<lparr>buddy_hhdm := h, free_list := l, free_count := c\<rparr>) = free_set s"
  "pmm_inv U (s\<lparr>buddy_hhdm := h, free_list := l, free_count := c\<rparr>) = pmm_inv U s"
  "bitmap_range (s\<lparr>buddy_hhdm := h, free_list := l, free_count := c\<rparr>) = bitmap_range s"
  by (simp_all add: pmm_inv_def free_set_def bitmap_range_def bit_test_alt)

lemma buddy_init_spec:
  assumes mm: "limine_memmap mm" and inv: "pmm_inv (usable_set mm) s" and dm: "direct_map hhdm N"
    and N: "unat (total_frames s) \<le> N"
    and off: "\<forall>x \<in> bitmap_range s. dm_frame hhdm x \<notin> unat ` free_set s"
  obtains s' B where "buddy_init mm hhdm reserve s = Some s'" and "mm_inv N (usable_set mm) B s'"
    and "frames_of B = unat ` (free_set s - free_set s')" and "free_set s' \<subseteq> free_set s"
    and "card (free_set s') = min (card (free_set s)) (unat reserve)"
    and "\<And>x. x \<notin> bitmap_range s \<Longrightarrow> dm_frame hhdm x \<notin> unat ` free_set s \<Longrightarrow> mem s' x = mem s x"
    and "buddy_hhdm s' = hhdm"
proof -
  let ?U = "usable_set mm"
  define s1 where "s1 = s\<lparr>buddy_hhdm := hhdm, free_list := replicate 11 0, free_count := replicate 11 0\<rparr>"
  have fs1: "free_set s1 = free_set s" "bitmap_range s1 = bitmap_range s" "mem s1 = mem s"
    "free_frames s1 = free_frames s" "buddy_hhdm s1 = hhdm"
    by (simp_all add: s1_def pmm_inv_more)
  have "buddy_inv N {} s1" using dm by (intro buddy_inv_empty) (simp_all add: s1_def)
  then have mi: "mm_inv N ?U {} s1"
    using inv N off by (simp add: mm_inv_def fs1) (simp add: s1_def pmm_inv_more)
  define budget where "budget = (if free_frames s > reserve then free_frames s - reserve else 0)"
  obtain c' s' where s': "claim_regions mm 0 budget s1 = Some s'"
    "region_taken N ?U {} 0 budget ?U s1 c' s'"
    using claim_regions_spec [OF mm mi, of 0 budget] by auto
  then obtain B where B: "takes N ?U {} s1 B s'" by (auto simp: region_taken_def)
  have init: "buddy_init mm hhdm reserve s = Some s'"
    using s'(1) by (simp add: buddy_init_def Let_def pmm_get_stats_def s1_def budget_def split: if_splits)
  have free: "unat (free_frames s) = card (free_set s)" using pmm_invD(5) [OF inv] .
  have taken: "unat c' + card (free_set s') = card (free_set s)" "c' \<le> budget"
    "c' = budget \<or> free_set s' \<inter> ?U = {}"
    using s'(2) fs1 by (auto simp: region_taken_def)
  have "free_set s' \<subseteq> ?U" using B by (meson mm_invD(1) pmm_invD(2) takes_def)
  then have spent: "c' = budget \<or> free_set s' = {}" using taken(3) by blast
  have bud: "unat budget = card (free_set s) - unat reserve"
    using free by (simp add: budget_def unat_sub word_less_nat_alt word_le_nat_alt)
  have "unat c' \<le> unat budget" using taken(2) by (simp add: word_le_nat_alt)
  then have card: "card (free_set s') = min (card (free_set s)) (unat reserve)"
    using spent taken(1) bud by auto
  show thesis
    using B fs1 by (intro that [OF init _ _ _ card]) (auto simp: takes_def)
qed

subsection \<open>Statistics\<close>

lemma blocks_finite: "finite (blocks fl)"
proof -
  have "blocks fl \<subseteq> (\<Union>ord \<in> {..10}. Pair ord ` set (fl ord))" by (auto simp: blocks_def)
  then show ?thesis by (rule finite_subset) auto
qed

lemma frames_of_card:
  assumes wf: "wf_blocks N B" and fin: "finite B"
  shows "card (frames_of B) = (\<Sum>(ord, p) \<in> B. 2 ^ ord)"
proof -
  have "card (\<Union>b \<in> B. blk (fst b) (snd b)) = (\<Sum>b \<in> B. card (blk (fst b) (snd b)))"
    using wf fin by (intro card_UN_disjoint) (auto simp: wf_blocks_def blk_def)
  then show ?thesis by (simp add: frames_of_def blk_def case_prod_beta)
qed

lemma sum_blocks:
  assumes rel: "buddy_rel s fl"
  shows "(\<Sum>(ord, p) \<in> blocks fl. 2 ^ ord) = (\<Sum>ord \<in> {..10}. length (fl ord) * (2 ^ ord :: nat))"
proof -
  have dis: "distinct (fl ord)" if "ord \<le> 10" for ord
    using buddy_relD(1) [OF rel] that by (simp add: nodes_ok_def)
  have "blocks fl = Sigma {..10} (\<lambda>ord. set (fl ord))" by (auto simp: blocks_def)
  then have "(\<Sum>(ord, p) \<in> blocks fl. 2 ^ ord) = (\<Sum>ord \<in> {..10}. \<Sum>p \<in> set (fl ord). (2 ^ ord :: nat))"
    using sum.Sigma [of "{..10 :: nat}" "\<lambda>ord. set (fl ord)" "\<lambda>ord p. 2 ^ ord :: nat"] by simp
  also have "\<dots> = (\<Sum>ord \<in> {..10}. length (fl ord) * 2 ^ ord)"
    using dis by (intro sum.cong) (auto simp: distinct_card)
  finally show ?thesis .
qed

lemma block_bytes_of_nat: "block_bytes ord = of_nat (4096 * 2 ^ ord)"
  by (simp add: block_bytes_def push_bit_eq_mult)

lemma buddy_stats_total:
  assumes rel: "buddy_rel s fl"
  shows "snd (buddy_get_stats s) = of_nat (4096 * (\<Sum>ord \<in> {..10}. length (fl ord) * 2 ^ ord))"
proof -
  have "{..<11} = {..10 :: nat}" by auto
  then have "snd (buddy_get_stats s) = (\<Sum>ord \<in> {..10}. of_nat (length (fl ord)) * block_bytes ord)"
    using buddy_relD(6) [OF rel]
    by (simp add: buddy_get_stats_def interv_sum_list_conv_sum_set_nat atLeast0LessThan
        del: upt_Suc cong: sum.cong_simp)
  also have "\<dots> = of_nat (\<Sum>ord \<in> {..10}. length (fl ord) * (4096 * 2 ^ ord))"
    by (simp add: block_bytes_of_nat)
  also have "(\<Sum>ord \<in> {..10}. length (fl ord) * (4096 * 2 ^ ord)) = 4096 * (\<Sum>ord \<in> {..10}. length (fl ord) * (2 ^ ord :: nat))"
    by (simp add: sum_distrib_left mult.left_commute)
  finally show ?thesis .
qed


subsection \<open>A booted pair of allocators for the witnesses\<close>

definition cold_buddy :: buddy where
  "cold_buddy = empty_heap\<lparr>buddy_hhdm := 0, free_list := [], free_count := []\<rparr>"

definition booted_pmm :: buddy where
  "booted_pmm = (case pmm_init demo_map demo_hhdm cold_buddy of Inr s \<Rightarrow> s | Inl _ \<Rightarrow> cold_buddy)"

lemma booted_pmm_init: "pmm_init demo_map demo_hhdm cold_buddy = Inr booted_pmm"
  using demo_sizes
  by (simp add: booted_pmm_def pmm_init_def init_bytes_def init_total_def Let_def)

lemmas booted_spec = pmm_init_spec [OF demo_map_ok booted_pmm_init]

lemma booted_free: "free_set booted_pmm = {2..<8} \<union> {10..<14}"
  using booted_spec(2-4) pmm_init_spec(2-4) [OF demo_map_ok demo_pmm_init] demo_free by simp

subsection \<open>The properties of initialisation and statistics\<close>

text \<open>C11 (invariant): \<open>buddy_init\<close> returns, and the free blocks it seeds cover exactly the
  frames it took out of the frame allocator. It takes every free frame except \<open>reserve\<close> of them
  (all stay if there are fewer), so no frame is free in both allocators; and it writes nothing
  outside the bitmap and the frames that were free.\<close>

theorem buddy_init_correct:
  assumes "limine_memmap mm" and "pmm_inv (usable_set mm) s" and "direct_map hhdm N"
    and "unat (total_frames s) \<le> N" and "\<forall>x \<in> bitmap_range s. dm_frame hhdm x \<notin> unat ` free_set s"
  shows "\<exists>s' B. buddy_init mm hhdm reserve s = Some s' \<and> mm_inv N (usable_set mm) B s' \<and>
    frames_of B = unat ` (free_set s - free_set s') \<and> free_set s' \<subseteq> free_set s \<and>
    card (free_set s') = min (card (free_set s)) (unat reserve) \<and>
    (\<forall>x. x \<notin> bitmap_range s \<and> dm_frame hhdm x \<notin> unat ` free_set s \<longrightarrow> mem s' x = mem s x)"
  using buddy_init_spec [OF assms, of reserve] by metis

theorem buddy_init_correct_witness:
  "\<exists>s' B. buddy_init demo_map demo_hhdm 4 booted_pmm = Some s' \<and> mm_inv 16 (usable_set demo_map) B s' \<and>
     card (free_set s') = 4"
proof -
  have "{2, 3, 4, 5} \<subseteq> free_set booted_pmm"
    by (simp add: booted_free word_less_nat_alt word_le_nat_alt)
  then have "4 \<le> card (free_set booted_pmm)"
    using card_mono [of "free_set booted_pmm" "{2, 3, 4, 5}"] by simp
  moreover have "\<forall>x \<in> bitmap_range booted_pmm. dm_frame demo_hhdm x \<notin> unat ` free_set booted_pmm"
    using pmm_init_bitmap_off [OF demo_map_ok booted_pmm_init] by blast
  moreover have "unat (total_frames booted_pmm) \<le> 16" by (simp add: booted_spec(5) demo_sizes)
  ultimately show ?thesis
    using buddy_init_correct [OF demo_map_ok booted_spec(1) demo_direct_map, of 16 4] by fastforce
qed

text \<open>The statistics are exact: the count of each order is the number of free
  blocks of that order, and the total is 4096 bytes per free frame, without overflow.\<close>

theorem buddy_get_stats_correct:
  assumes "buddy_inv N B s"
  shows "(\<forall>ord \<le> 10. fst (buddy_get_stats s) ! ord = of_nat (card {p. (ord, p) \<in> B})) \<and>
    unat (snd (buddy_get_stats s)) = 4096 * card (frames_of B)"
proof -
  obtain fl where rel: "buddy_rel s fl" and B: "blocks fl = B" using assms by (auto simp: buddy_inv_def)
  note wf = buddy_invD(1) [OF assms]
  have counts: "fst (buddy_get_stats s) ! ord = of_nat (card {p. (ord, p) \<in> B})" if "ord \<le> 10" for ord
  proof -
    have "distinct (fl ord)" using buddy_relD(1) [OF rel] that by (simp add: nodes_ok_def)
    moreover have "{p. (ord, p) \<in> B} = set (fl ord)" using B that by (auto simp: blocks_def)
    ultimately show ?thesis
      using buddy_relD(6) [OF rel that] that
      by (simp add: buddy_get_stats_def distinct_card nth_append del: upt_Suc)
  qed
  have card: "card (frames_of B) = (\<Sum>ord \<in> {..10}. length (fl ord) * 2 ^ ord)"
    using frames_of_card [OF wf] sum_blocks [OF rel] blocks_finite [of fl] B by simp
  have "frames_of B \<subseteq> {1..<N}" using wf by (fastforce simp: frames_of_def wf_blocks_def block_ok_def)
  then have "card (frames_of B) \<le> N - 1" using card_mono [of "{1..<N}" "frames_of B"] by simp
  moreover have "N * 4096 \<le> 2 ^ 64" using buddy_invD(2) [OF assms] by (simp add: direct_map_def)
  ultimately have "4096 * card (frames_of B) < 2 ^ 64" by (cases N) auto
  then have "unat (snd (buddy_get_stats s)) = 4096 * card (frames_of B)"
    unfolding buddy_stats_total [OF rel] card [symmetric] by (simp only: unat_of_nat) simp
  then show ?thesis using counts by blast
qed

theorem buddy_get_stats_correct_witness:
  "unat (snd (buddy_get_stats demo_heap)) = 16384"
  using buddy_get_stats_correct [OF demo_heap_inv] by (simp add: demo_blk)

end
