(* ===== verification/Buddy_Owner.thy ===== *)
theory Buddy_Owner
  imports Buddy_Init
begin

text \<open>
  The contract of \<^verbatim>\<open>core/mm/buddy.h\<close> as a client uses it (\<open>block_allocator\<close>): blocks in the
  client's custody are disjoint from one another and from the free blocks, allocation adds one to
  them, free takes one away, and neither changes a byte of the blocks that stay. The client's part
  of the bargain is that it writes no free frame. The buddy allocator is an instance.
\<close>

subsection \<open>Custody of blocks\<close>

definition custody :: "nat \<Rightarrow> (nat \<times> u64) set \<Rightarrow> (nat \<times> u64) set \<Rightarrow> bool" where
  "custody N B Q \<longleftrightarrow> wf_blocks N Q \<and> frames_of B \<inter> frames_of Q = {}"

lemma custody_insert:
  assumes "custody N B Q" and "block_ok N ord p" and "blk ord p \<subseteq> frames_of B"
    and "frames_of B' = frames_of B - blk ord p"
  shows "custody N B' (insert (ord, p) Q)" and "(ord, p) \<notin> Q" and "blk ord p \<inter> frames_of Q = {}"
proof -
  show apart: "blk ord p \<inter> frames_of Q = {}" using assms(1,3) by (auto simp: custody_def)
  then show "(ord, p) \<notin> Q" using blk_in_frames [of ord p Q] blk_first [of p ord] by blast
  have "wf_blocks N (insert (ord, p) Q)"
    using assms(1,2) apart by (intro wf_blocks_insert) (auto simp: custody_def)
  then show "custody N B' (insert (ord, p) Q)" using assms(1,4) by (auto simp: custody_def)
qed

lemma custody_remove:
  assumes "custody N B Q" and "(ord, p) \<in> Q" and "frames_of B' = frames_of B \<union> blk ord p"
  shows "custody N B' (Q - {(ord, p)})" and "frames_of (Q - {(ord, p)}) = frames_of Q - blk ord p"
proof -
  have wf: "wf_blocks N Q" using assms(1) by (simp add: custody_def)
  show fr: "frames_of (Q - {(ord, p)}) = frames_of Q - blk ord p" by (rule frames_of_remove [OF wf assms(2)])
  then show "custody N B' (Q - {(ord, p)})"
    using assms(1,3) wf_blocks_mono [OF wf] by (auto simp: custody_def)
qed

subsection \<open>The contract\<close>

locale block_allocator =
  fixes alloc :: "nat \<Rightarrow> 's \<Rightarrow> u64 \<times> 's"
    and release :: "u64 \<Rightarrow> nat \<Rightarrow> 's \<Rightarrow> 's option"
    and invar :: "nat \<Rightarrow> (nat \<times> u64) set \<Rightarrow> 's \<Rightarrow> bool"
    and step :: "nat set \<Rightarrow> 's \<Rightarrow> 's \<Rightarrow> bool"
    and memory_of :: "'s \<Rightarrow> memory"
    and offset_of :: "'s \<Rightarrow> u64"
  assumes offset: "invar N B s \<Longrightarrow> direct_map (offset_of s) N"
    and alloc_none: "invar N B s \<Longrightarrow> (\<And>i q. order \<le> i \<Longrightarrow> (i, q) \<notin> B) \<Longrightarrow> alloc order s = (0, s)"
    and alloc_block: "invar N B s \<Longrightarrow> order \<le> i \<Longrightarrow> (i, q) \<in> B \<Longrightarrow>
      block_ok N order (fst (alloc order s)) \<and> blk order (fst (alloc order s)) \<subseteq> frames_of B \<and>
      step (frames_of B) s (snd (alloc order s)) \<and>
      (\<exists>B'. invar N B' (snd (alloc order s)) \<and> frames_of B' = frames_of B - blk order (fst (alloc order s)))"
    and release_block: "invar N B s \<Longrightarrow> block_ok N order p \<Longrightarrow> blk order p \<inter> frames_of B = {} \<Longrightarrow>
      \<exists>s' B'. release p order s = Some s' \<and> invar N B' s' \<and> frames_of B' = frames_of B \<union> blk order p \<and>
        step (frames_of B \<union> blk order p) s s'"
    and step_mem: "step F s s' \<Longrightarrow> dm_frame (offset_of s) x \<notin> F \<Longrightarrow> memory_of s' x = memory_of s x"
begin

lemma alloc_custody:
  assumes "invar N B s" and "custody N B Q" and "alloc order s = (p, s')"
  shows "p = 0 \<and> s' = s \<and> (\<forall>i q. order \<le> i \<longrightarrow> (i, q) \<notin> B) \<or>
    block_ok N order p \<and> step (frames_of B) s s' \<and> (order, p) \<notin> Q \<and> blk order p \<inter> frames_of Q = {} \<and>
    (\<exists>B'. invar N B' s' \<and> custody N B' (insert (order, p) Q) \<and> frames_of B' \<union> blk order p = frames_of B) \<and>
    (\<forall>x. dm_frame (offset_of s) x \<in> frames_of Q \<longrightarrow> memory_of s' x = memory_of s x)"
proof (cases "\<exists>i q. order \<le> i \<and> (i, q) \<in> B")
  case False
  then show ?thesis using alloc_none [OF assms(1)] assms(3) by auto
next
  case True
  then obtain i q where "order \<le> i" "(i, q) \<in> B" by blast
  note a = alloc_block [OF assms(1) this, unfolded assms(3) fst_conv snd_conv]
  then obtain B' where B': "invar N B' s'" "frames_of B' = frames_of B - blk order p" by blast
  note c = custody_insert [OF assms(2) _ _ B'(2)]
  have "memory_of s' x = memory_of s x" if "dm_frame (offset_of s) x \<in> frames_of Q" for x
    using that a assms(2) by (intro step_mem [of "frames_of B"]) (auto simp: custody_def)
  moreover have "frames_of B' \<union> blk order p = frames_of B" using a B'(2) by blast
  ultimately show ?thesis using a B'(1) c by blast
qed

lemma release_custody:
  assumes "invar N B s" and "custody N B Q" and "(order, p) \<in> Q"
  shows "\<exists>s' B'. release p order s = Some s' \<and> invar N B' s' \<and> custody N B' (Q - {(order, p)}) \<and>
    frames_of B' = frames_of B \<union> blk order p \<and>
    step (frames_of B \<union> blk order p) s s' \<and>
    (\<forall>x. dm_frame (offset_of s) x \<in> frames_of (Q - {(order, p)}) \<longrightarrow> memory_of s' x = memory_of s x)"
proof -
  have ok: "block_ok N order p" using assms(2,3) blocks_wf_ok by (auto simp: custody_def)
  have new: "blk order p \<inter> frames_of B = {}"
    using assms(2) blk_in_frames [OF assms(3)] by (auto simp: custody_def)
  obtain s' B' where r: "release p order s = Some s'" "invar N B' s'"
    "frames_of B' = frames_of B \<union> blk order p" "step (frames_of B \<union> blk order p) s s'"
    using release_block [OF assms(1) ok new] by blast
  note c = custody_remove [OF assms(2,3) r(3)]
  have "memory_of s' x = memory_of s x" if "dm_frame (offset_of s) x \<in> frames_of (Q - {(order, p)})" for x
    using that c(2) assms(2) by (intro step_mem [OF r(4)]) (auto simp: custody_def)
  then show ?thesis using r c(1) by blast
qed

end

interpretation blocks: block_allocator buddy_alloc buddy_free buddy_inv heap_step mem buddy_hhdm
proof
  fix N B order i q and s :: "'a buddy_scheme"
  assume inv: "buddy_inv N B s"
  show "direct_map (buddy_hhdm s) N" by (rule buddy_invD(2) [OF inv])
  show "buddy_alloc order s = (0, s)" if "\<And>i q. order \<le> i \<Longrightarrow> (i, q) \<notin> B"
    by (rule buddy_alloc_none [OF inv that])
  show "block_ok N order (fst (buddy_alloc order s)) \<and> blk order (fst (buddy_alloc order s)) \<subseteq> frames_of B \<and>
      heap_step (frames_of B) s (snd (buddy_alloc order s)) \<and>
      (\<exists>B'. buddy_inv N B' (snd (buddy_alloc order s)) \<and>
         frames_of B' = frames_of B - blk order (fst (buddy_alloc order s)))"
    if "order \<le> i" "(i, q) \<in> B"
    using alloc_contract [OF inv that] by (metis fst_conv snd_conv)
  show "\<exists>s' B'. buddy_free p order s = Some s' \<and> buddy_inv N B' s' \<and>
      frames_of B' = frames_of B \<union> blk order p \<and> heap_step (frames_of B \<union> blk order p) s s'"
    if "block_ok N order p" "blk order p \<inter> frames_of B = {}" for p
    using free_contract [OF inv that] by metis
next
  fix F x and s s' :: "'a buddy_scheme"
  assume "heap_step F s s'" "dm_frame (buddy_hhdm s) x \<notin> F"
  then show "mem s' x = mem s x" by (rule heap_step_mem)
qed

end
