(* ===== verification/Slab.thy ===== *)
theory Slab
  imports Buddy_Owner
begin

text \<open>
  The slab allocator of \<^verbatim>\<open>core/mm/slab.c\<close>: \<open>kmalloc\<close> and \<open>kfree\<close> over the buddy allocator. Slab
  headers, the threaded free lists inside the slots and the headers of large blocks live in the
  machine's memory, byte for byte as the structures of the source lay them out; the eight caches
  are the static array \<open>caches\<close>, whose link-time address \<open>caches_addr\<close> is what a slab header
  stores in its \<open>cache\<close> field. This theory holds the operations and what they do to one page;
  \<^verbatim>\<open>Slab_Heap\<close> has the heap as a whole.
\<close>

subsection \<open>State and layout\<close>

record kmem_cache =
  obj_size :: u64
  slabs :: u64
  slab_count :: u64
  total_slots :: u64
  free_slots :: u64

record slab = buddy +
  caches :: "kmem_cache list"
  slab_hhdm :: u64
  caches_addr :: u64

definition SLAB_PAGE_SIZE :: u64 where "SLAB_PAGE_SIZE = PMM_FRAME_SIZE"
definition SLAB_PAGE_MASK :: u64 where "SLAB_PAGE_MASK = NOT (SLAB_PAGE_SIZE - 1)"
definition SLAB_ALIGN :: u64 where "SLAB_ALIGN = 16"
definition SLAB_MAGIC :: u64 where "SLAB_MAGIC = 0x51AB51AB51AB51AB"
definition LARGE_MAGIC :: u64 where "LARGE_MAGIC = 0x1A86A110C1A86A11"
definition SLAB_NUM_CLASSES :: nat where [simp]: "SLAB_NUM_CLASSES = 8"

definition class_sizes :: "u64 list" where
  "class_sizes = [16, 32, 64, 128, 256, 512, 1024, 2048]"

text \<open>\<^verbatim>\<open>sizeof(struct slab)\<close>, \<^verbatim>\<open>sizeof(struct large_hdr)\<close> and \<^verbatim>\<open>sizeof(struct kmem_cache)\<close>.\<close>

definition sizeof_slab :: u64 where "sizeof_slab = 40"
definition sizeof_large_hdr :: u64 where "sizeof_large_hdr = 16"
definition sizeof_kmem_cache :: u64 where "sizeof_kmem_cache = 40"

text \<open>\<open>&caches[i]\<close>, and back: a pointer that is no element of the array has no index.\<close>

definition cache_ptr :: "nat \<Rightarrow> 'a slab_scheme \<Rightarrow> u64" where
  "cache_ptr i s = caches_addr s + of_nat i * sizeof_kmem_cache"

definition cache_index :: "u64 \<Rightarrow> 'a slab_scheme \<Rightarrow> nat option" where
  "cache_index c s =
     (let i = unat ((c - caches_addr s) div sizeof_kmem_cache)
      in if i < SLAB_NUM_CLASSES \<and> cache_ptr i s = c then Some i else None)"

definition set_cache :: "nat \<Rightarrow> kmem_cache \<Rightarrow> 'a slab_scheme \<Rightarrow> 'a slab_scheme" where
  "set_cache i c s = s\<lparr>caches := (caches s)[i := c]\<rparr>"

text \<open>
  The fields of \<^verbatim>\<open>struct slab\<close>: \<open>magic\<close> at 0, \<open>cache\<close> at 8, \<open>next\<close> at 16, \<open>free\<close> at 24,
  \<open>free_count\<close> at 32, \<open>total_slots\<close> at 36; of \<^verbatim>\<open>struct large_hdr\<close>: \<open>magic\<close> at 0, \<open>order\<close> at 8.
\<close>

definition put64 :: "u64 \<Rightarrow> u64 \<Rightarrow> 'a machine_scheme \<Rightarrow> 'a machine_scheme" where
  "put64 a v s = s\<lparr>mem := store64 (mem s) a v\<rparr>"
definition put32 :: "u64 \<Rightarrow> u32 \<Rightarrow> 'a machine_scheme \<Rightarrow> 'a machine_scheme" where
  "put32 a v s = s\<lparr>mem := store32 (mem s) a v\<rparr>"

definition sl_magic :: "memory \<Rightarrow> u64 \<Rightarrow> u64" where "sl_magic m b = load64 m b"
definition sl_cache :: "memory \<Rightarrow> u64 \<Rightarrow> u64" where "sl_cache m b = load64 m (b + 8)"
definition sl_next :: "memory \<Rightarrow> u64 \<Rightarrow> u64" where "sl_next m b = load64 m (b + 16)"
definition sl_free :: "memory \<Rightarrow> u64 \<Rightarrow> u64" where "sl_free m b = load64 m (b + 24)"
definition sl_free_count :: "memory \<Rightarrow> u64 \<Rightarrow> u32" where "sl_free_count m b = load32 m (b + 32)"
definition sl_total_slots :: "memory \<Rightarrow> u64 \<Rightarrow> u32" where "sl_total_slots m b = load32 m (b + 36)"
definition lh_order :: "memory \<Rightarrow> u64 \<Rightarrow> u32" where "lh_order m b = load32 m (b + 8)"

subsection \<open>Operations\<close>

definition align_up :: "u64 \<Rightarrow> u64 \<Rightarrow> u64" where
  "align_up v a = (v + (a - 1)) AND NOT (a - 1)"

text \<open>
  The search of \<open>order_for_bytes\<close>. The shift is undefined in C from 64 on, where the model stops
  with \<open>None\<close>; below that the shifted page size is 0 from 52 on, so this is where a request above
  \<open>2 ^ 63\<close> bytes ends up.
\<close>

function order_search :: "nat \<Rightarrow> u64 \<Rightarrow> nat option" where
  "order_search ord bytes =
     (if 64 \<le> ord then None
      else if push_bit ord SLAB_PAGE_SIZE < bytes then order_search (Suc ord) bytes
      else Some ord)"
  by pat_completeness auto
termination by (relation "measure (\<lambda>(ord, bytes). 64 - ord)") auto

declare order_search.simps [simp del]

definition order_for_bytes :: "u64 \<Rightarrow> nat option" where
  "order_for_bytes bytes = order_search 0 bytes"

definition slab_data_off :: u64 where
  "slab_data_off = align_up sizeof_slab SLAB_ALIGN"

text \<open>
  The loop that threads the slots. \<open>None\<close> in \<open>cache_grow\<close> is the division by a zero
  \<open>obj_size\<close> (a cache that \<open>slab_init\<close> has not set up).
\<close>

function thread_slots :: "nat \<Rightarrow> nat \<Rightarrow> u64 \<Rightarrow> u64 \<Rightarrow> 'a machine_scheme \<Rightarrow> 'a machine_scheme" where
  "thread_slots i slots base sz s =
     (if i < slots
      then let slot = base + slab_data_off + of_nat i * sz;
               s = put64 slot (sl_free (mem s) base) s;
               s = put64 (base + 24) slot s
           in thread_slots (Suc i) slots base sz s
      else s)"
  by pat_completeness auto
termination by (relation "measure (\<lambda>(i, slots, base, sz, s). slots - i)") auto

declare thread_slots.simps [simp del]

definition cache_grow :: "nat \<Rightarrow> 'a slab_scheme \<Rightarrow> (u64 \<times> 'a slab_scheme) option" where
  "cache_grow i s =
     (let (phys, s) = buddy_alloc 0 s
      in if phys = 0 then Some (0, s)
         else if obj_size (caches s ! i) = 0 then None
         else
           let base = phys + slab_hhdm s;
               slots = (ucast ((SLAB_PAGE_SIZE - slab_data_off) div obj_size (caches s ! i)) :: u32);
               s = put64 base SLAB_MAGIC s;
               s = put64 (base + 8) (cache_ptr i s) s;
               s = put32 (base + 36) slots s;
               s = put32 (base + 32) slots s;
               s = put64 (base + 24) 0 s;
               s = thread_slots 0 (unat slots) base (obj_size (caches s ! i)) s;
               c = caches s ! i;
               s = put64 (base + 16) (slabs c) s;
               s = set_cache i (c\<lparr>slabs := base, slab_count := slab_count c + 1,
                     total_slots := total_slots c + ucast slots, free_slots := free_slots c + ucast slots\<rparr>) s
           in Some (base, s))"

definition slab_init :: "u64 \<Rightarrow> 'a slab_scheme \<Rightarrow> 'a slab_scheme" where
  "slab_init hhdm_offset s =
     s\<lparr>slab_hhdm := hhdm_offset,
       caches := map (\<lambda>n. \<lparr>obj_size = n, slabs = 0, slab_count = 0, total_slots = 0, free_slots = 0\<rparr>) class_sizes\<rparr>"

definition large_alloc :: "u64 \<Rightarrow> 'a slab_scheme \<Rightarrow> (u64 \<times> 'a slab_scheme) option" where
  "large_alloc sz s =
     (let data_off = align_up sizeof_large_hdr SLAB_ALIGN
      in case order_for_bytes (data_off + sz) of None \<Rightarrow> None
         | Some order \<Rightarrow>
             let (phys, s) = buddy_alloc order s
             in if phys = 0 then Some (0, s)
                else let h = phys + slab_hhdm s;
                         s = put64 h LARGE_MAGIC s;
                         s = put32 (h + 8) (of_nat order) s
                     in Some (h + data_off, s))"

text \<open>The two loops of \<open>kmalloc\<close>: the smallest class that fits, and the first slab with a free slot.\<close>

fun find_class :: "nat \<Rightarrow> u64 list \<Rightarrow> u64 \<Rightarrow> nat option" where
  "find_class i [] sz = None"
| "find_class i (n # ns) sz = (if sz \<le> n then Some i else find_class (Suc i) ns sz)"

partial_function (option) find_slab :: "u64 \<Rightarrow> 'a machine_scheme \<Rightarrow> u64 option" where
  "find_slab p s =
     (if p \<noteq> 0 \<and> sl_free_count (mem s) p = 0 then find_slab (sl_next (mem s) p) s else Some p)"

definition pop_slot :: "nat \<Rightarrow> u64 \<Rightarrow> 'a slab_scheme \<Rightarrow> u64 \<times> 'a slab_scheme" where
  "pop_slot i p s =
     (let slot = sl_free (mem s) p;
          s = put64 (p + 24) (load64 (mem s) slot) s;
          s = put32 (p + 32) (sl_free_count (mem s) p - 1) s;
          c = caches s ! i;
          s = set_cache i (c\<lparr>free_slots := free_slots c - 1\<rparr>) s
      in (slot, s))"

definition kmalloc :: "u64 \<Rightarrow> 'a slab_scheme \<Rightarrow> (u64 \<times> 'a slab_scheme) option" where
  "kmalloc sz s =
     (if sz = 0 then Some (0, s)
      else case find_class 0 class_sizes sz of
        None \<Rightarrow> large_alloc sz s
      | Some cls \<Rightarrow>
          Option.bind (find_slab (slabs (caches s ! cls)) s) (\<lambda>p.
            if p \<noteq> 0 then Some (pop_slot cls p s)
            else Option.bind (cache_grow cls s) (\<lambda>(p, s).
              if p = 0 then Some (0, s) else Some (pop_slot cls p s))))"

text \<open>
  A slab header whose \<open>cache\<close> field points outside the array is corrupted memory; the counter
  the source would then increment is not the model's, and the result is \<open>None\<close>.
\<close>

definition kfree :: "u64 \<Rightarrow> 'a slab_scheme \<Rightarrow> ('a slab_scheme) option" where
  "kfree ptr s =
     (if ptr = 0 then Some s
      else
        let base = ptr AND SLAB_PAGE_MASK;
            magic = load64 (mem s) base
        in if magic = SLAB_MAGIC
           then case cache_index (sl_cache (mem s) base) s of None \<Rightarrow> None
             | Some i \<Rightarrow>
                 let s = put64 ptr (sl_free (mem s) base) s;
                     s = put64 (base + 24) ptr s;
                     s = put32 (base + 32) (sl_free_count (mem s) base + 1) s;
                     c = caches s ! i
                 in Some (set_cache i (c\<lparr>free_slots := free_slots c + 1\<rparr>) s)
           else if magic = LARGE_MAGIC
           then buddy_free (base - slab_hhdm s) (unat (lh_order (mem s) base)) s
           else Some s)"

definition kmalloc_usable_size :: "u64 \<Rightarrow> 'a slab_scheme \<Rightarrow> u64 option" where
  "kmalloc_usable_size ptr s =
     (if ptr = 0 then Some 0
      else
        let base = ptr AND SLAB_PAGE_MASK;
            magic = load64 (mem s) base
        in if magic = SLAB_MAGIC
           then map_option (\<lambda>i. obj_size (caches s ! i)) (cache_index (sl_cache (mem s) base) s)
           else if magic = LARGE_MAGIC
           then Some (push_bit (unat (lh_order (mem s) base)) SLAB_PAGE_SIZE)
           else Some 0)"

record slab_class_stats =
  st_obj_size :: u64
  st_slab_count :: u64
  st_total_slots :: u64
  st_free_slots :: u64
  st_bytes_in_use :: u64

definition slab_get_stats :: "'a slab_scheme \<Rightarrow> slab_class_stats list" where
  "slab_get_stats s =
     map (\<lambda>c. \<lparr>st_obj_size = obj_size c, st_slab_count = slab_count c, st_total_slots = total_slots c,
                st_free_slots = free_slots c, st_bytes_in_use = (total_slots c - free_slots c) * obj_size c\<rparr>)
       (caches s)"

end
