(* ===== verification/Slab_Page.thy ===== *)
theory Slab_Page
  imports Slab
begin

text \<open>
  One slab page: the header and the threaded free list of \<^verbatim>\<open>core/mm/slab.c\<close> as a predicate
  \<open>slab_page\<close> that names the free slots by their index, and what popping, pushing and threading do
  to it. Everything inside a page is addressed as its base plus an offset, so that two accesses
  are compared by their offsets alone.
\<close>

subsection \<open>Offsets within a page\<close>

lemma off_apart:
  fixes d e b :: u64
  assumes "unat e + n \<le> unat d \<or> unat d + k \<le> unat e" and "unat d \<le> 8192" and "unat e \<le> 8192"
    and "0 < n" "n \<le> 8" "0 < k" "k \<le> 8"
  shows "n \<le> unat ((b + d) - (b + e))" and "k \<le> unat ((b + e) - (b + d))"
proof -
  have *: "n \<le> unat (d - e) \<and> k \<le> unat (e - d)"
    if "unat e + n \<le> unat d" "unat d \<le> 8192" "0 < n" "k \<le> 8" for d e :: u64 and n k
  proof -
    have le: "e \<le> d" using that by (simp add: word_le_nat_alt)
    have 1: "unat (d - e) = unat d - unat e" using le by (rule unat_sub)
    have "d - e \<noteq> 0" using 1 that by (auto simp: unat_eq_0)
    then have "unat (- (d - e)) = 2 ^ 64 - unat (d - e)" by (rule unat_neg)
    then have 2: "unat (e - d) = 2 ^ 64 - (unat d - unat e)" using 1 by simp
    have "n \<le> unat d - unat e" "k \<le> 2 ^ 64 - (unat d - unat e)" using that by simp_all
    then show ?thesis unfolding 1 2 ..
  qed
  have "n \<le> unat (d - e) \<and> k \<le> unat (e - d)"
    using assms(1)
  proof
    assume "unat e + n \<le> unat d"
    then show ?thesis using * [of e n d k] assms by simp
  next
    assume "unat d + k \<le> unat e"
    then show ?thesis using * [of d k e n] assms by simp
  qed
  then show "n \<le> unat ((b + d) - (b + e))" and "k \<le> unat ((b + e) - (b + d))" by simp_all
qed

lemma load64_store64_off:
  "unat e + 8 \<le> unat d \<or> unat d + 8 \<le> unat e \<Longrightarrow> unat d \<le> 8192 \<Longrightarrow> unat e \<le> 8192 \<Longrightarrow>
   load64 (store64 m (b + e) v) (b + d) = load64 m (b + d)"
  unfolding load64_def store64_def by (intro load_store_apart off_apart) auto

lemma load64_store32_off:
  "unat e + 4 \<le> unat d \<or> unat d + 8 \<le> unat e \<Longrightarrow> unat d \<le> 8192 \<Longrightarrow> unat e \<le> 8192 \<Longrightarrow>
   load64 (store32 m (b + e) v) (b + d) = load64 m (b + d)"
  unfolding load64_def store32_def by (intro load_store_apart off_apart) auto

lemma load32_store64_off:
  "unat e + 8 \<le> unat d \<or> unat d + 4 \<le> unat e \<Longrightarrow> unat d \<le> 8192 \<Longrightarrow> unat e \<le> 8192 \<Longrightarrow>
   load32 (store64 m (b + e) v) (b + d) = load32 m (b + d)"
  unfolding load32_def store64_def by (intro load_store_apart off_apart) auto

lemma load32_store32_off:
  "unat e + 4 \<le> unat d \<or> unat d + 4 \<le> unat e \<Longrightarrow> unat d \<le> 8192 \<Longrightarrow> unat e \<le> 8192 \<Longrightarrow>
   load32 (store32 m (b + e) v) (b + d) = load32 m (b + d)"
  unfolding load32_def store32_def by (intro load_store_apart off_apart) auto

text \<open>The same for the word at the base itself.\<close>

lemmas base_off =
  load64_store64_off [of _ 0, simplified] load64_store64_off [where e = 0, simplified]
  load64_store32_off [where d = 0, simplified] load32_store64_off [where e = 0, simplified]

lemmas off_frame = load64_store64_off load64_store32_off load32_store64_off load32_store32_off base_off

lemma store64_off_other:
  "unat x < unat e \<or> unat e + 8 \<le> unat x \<Longrightarrow> unat e \<le> 8192 \<Longrightarrow> unat x \<le> 8192 \<Longrightarrow> store64 m (b + e) v (b + x) = m (b + x)"
  unfolding store64_def using off_apart(1) [of e 8 x 1 b] by (intro store_le_other) auto

lemma store32_off_other:
  "unat x < unat e \<or> unat e + 4 \<le> unat x \<Longrightarrow> unat e \<le> 8192 \<Longrightarrow> unat x \<le> 8192 \<Longrightarrow> store32 m (b + e) v (b + x) = m (b + x)"
  unfolding store32_def using off_apart(1) [of e 4 x 1 b] by (intro store_le_other) auto

subsection \<open>Size classes and slots\<close>

definition csize :: "nat \<Rightarrow> nat" where "csize i = 16 * 2 ^ i"
definition nslots :: "nat \<Rightarrow> nat" where "nslots i = 4048 div csize i"
definition slot_off :: "nat \<Rightarrow> nat \<Rightarrow> u64" where "slot_off i k = 48 + of_nat k * of_nat (csize i)"

lemma class_cases: "i < 8 \<Longrightarrow> i = 0 \<or> i = 1 \<or> i = 2 \<or> i = 3 \<or> i = 4 \<or> i = 5 \<or> i = 6 \<or> i = (7::nat)"
  by arith

lemma class_size: "i < 8 \<Longrightarrow> class_sizes ! i = of_nat (csize i)"
  and csize_bounds: "i < 8 \<Longrightarrow> 16 \<le> csize i \<and> csize i \<le> 2048"
  and nslots_bounds: "i < 8 \<Longrightarrow> 0 < nslots i \<and> nslots i \<le> 253"
  by (auto dest!: class_cases simp: class_sizes_def csize_def nslots_def)

lemma slots_fit: "i < 8 \<Longrightarrow> k < nslots i \<Longrightarrow> 48 + k * csize i + csize i \<le> 4096"
proof -
  assume "i < 8" "k < nslots i"
  then have "Suc k * csize i \<le> nslots i * csize i" by (intro mult_le_mono1) simp
  also have "\<dots> \<le> 4048" unfolding nslots_def by simp
  finally show ?thesis by simp
qed

lemma slot_off_unat: "i < 8 \<Longrightarrow> k < nslots i \<Longrightarrow> unat (slot_off i k) = 48 + k * csize i"
proof -
  assume "i < 8" "k < nslots i"
  then have lt: "48 + k * csize i < 2 ^ 64" using slots_fit by fastforce
  have "slot_off i k = of_nat (48 + k * csize i)" by (simp add: slot_off_def)
  then show ?thesis using lt by (simp only: unat_of_nat) simp
qed

lemma slot_off_bounds:
  assumes "i < 8" and "k < nslots i"
  shows "48 \<le> unat (slot_off i k)" and "unat (slot_off i k) + csize i \<le> 4096" and "unat (slot_off i k) + 8 \<le> 4096"
    and "unat (slot_off i k) \<le> 8192" and "unat (slot_off i k) mod 16 = 0"
proof -
  note u = slot_off_unat [OF assms] and f = slots_fit [OF assms] and c = csize_bounds [OF assms(1)]
  show "48 \<le> unat (slot_off i k)" "unat (slot_off i k) + csize i \<le> 4096" "unat (slot_off i k) + 8 \<le> 4096"
    "unat (slot_off i k) \<le> 8192" using u f c by simp_all
  have "16 dvd csize i" by (simp add: csize_def)
  then have "16 dvd 48 + k * csize i" by (intro dvd_add dvd_mult) simp_all
  then show "unat (slot_off i k) mod 16 = 0" unfolding u by (rule dvd_imp_mod_0)
qed

lemma slots_apart:
  assumes "i < 8" and "k < nslots i" and "j < nslots i" and "j \<noteq> k"
  shows "unat (slot_off i k) + csize i \<le> unat (slot_off i j) \<or> unat (slot_off i j) + csize i \<le> unat (slot_off i k)"
proof -
  have "Suc k \<le> j \<or> Suc j \<le> k" using assms(4) by arith
  then have "Suc k * csize i \<le> j * csize i \<or> Suc j * csize i \<le> k * csize i" by (metis mult_le_mono1)
  then show ?thesis using slot_off_unat [OF assms(1,2)] slot_off_unat [OF assms(1,3)] by auto
qed

lemma slot_off_inj: "i < 8 \<Longrightarrow> k < nslots i \<Longrightarrow> j < nslots i \<Longrightarrow> slot_off i j = slot_off i k \<Longrightarrow> j = k"
  using slots_apart [of i k j] csize_bounds [of i] by fastforce

lemma slots_apart8:
  assumes "i < 8" and "k < nslots i" and "j < nslots i" and "j \<noteq> k"
  shows "unat (slot_off i k) + 8 \<le> unat (slot_off i j) \<or> unat (slot_off i j) + 8 \<le> unat (slot_off i k)"
  using slots_apart [OF assms] csize_bounds [OF assms(1)] by auto

subsection \<open>The page predicate\<close>

primrec slot_chain :: "memory \<Rightarrow> u64 \<Rightarrow> nat \<Rightarrow> u64 \<Rightarrow> nat list \<Rightarrow> bool" where
  "slot_chain m b i p [] \<longleftrightarrow> p = 0"
| "slot_chain m b i p (k # ks) \<longleftrightarrow> p = b + slot_off i k \<and> slot_chain m b i (load64 m (b + slot_off i k)) ks"

definition slab_page :: "memory \<Rightarrow> u64 \<Rightarrow> nat \<Rightarrow> u64 \<Rightarrow> nat list \<Rightarrow> bool" where
  "slab_page m b i c ks \<longleftrightarrow>
     sl_magic m b = SLAB_MAGIC \<and> sl_cache m b = c \<and> slot_chain m b i (sl_free m b) ks \<and>
     distinct ks \<and> set ks \<subseteq> {..<nslots i} \<and>
     sl_free_count m b = of_nat (length ks) \<and> sl_total_slots m b = of_nat (nslots i)"

lemma slot_chain_cong:
  "(\<And>k. k \<in> set ks \<Longrightarrow> load64 m' (b + slot_off i k) = load64 m (b + slot_off i k)) \<Longrightarrow>
   slot_chain m' b i p ks = slot_chain m b i p ks"
  by (induction ks arbitrary: p) auto

lemma slots_length: "distinct ks \<Longrightarrow> set ks \<subseteq> {..<nslots i} \<Longrightarrow> length ks \<le> nslots i"
  using card_mono [of "{..<nslots i}" "set ks"] by (simp add: distinct_card)

lemmas sl_fields = sl_magic_def sl_cache_def sl_next_def sl_free_def sl_free_count_def sl_total_slots_def

text \<open>Popping the head of the free list.\<close>

lemma pop_page:
  assumes pg: "slab_page m b i c (k # ks)" and i: "i < 8"
  defines "m1 \<equiv> store64 m (b + 24) (load64 m (sl_free m b))"
  defines "m2 \<equiv> store32 m1 (b + 32) (sl_free_count m1 b - 1)"
  shows "sl_free m b = b + slot_off i k" and "slab_page m2 b i c ks" and "sl_next m2 b = sl_next m b"
    and "48 \<le> unat x \<Longrightarrow> unat x < 4096 \<Longrightarrow> m2 (b + x) = m (b + x)"
proof -
  note p = pg [unfolded slab_page_def]
  show head: "sl_free m b = b + slot_off i k" using p by simp
  have ld: "load64 m2 (b + slot_off i j) = load64 m (b + slot_off i j)" if "j < nslots i" for j
    using slot_off_bounds [OF i that] by (simp add: m2_def m1_def off_frame)
  have "slot_chain m2 b i (load64 m (b + slot_off i k)) ks"
    using p ld by (subst slot_chain_cong [where m = m]) auto
  moreover have "sl_free m2 b = load64 m (b + slot_off i k)"
    by (simp add: m2_def m1_def sl_free_def off_frame head [unfolded sl_free_def])
  moreover have "sl_free_count m2 b = of_nat (length ks)"
    using p by (simp add: m2_def m1_def sl_fields off_frame)
  moreover have "sl_magic m2 b = SLAB_MAGIC" "sl_cache m2 b = c" "sl_total_slots m2 b = of_nat (nslots i)"
    using p by (simp_all add: m2_def m1_def sl_fields off_frame)
  ultimately show "slab_page m2 b i c ks" using p by (simp add: slab_page_def)
  show "sl_next m2 b = sl_next m b" by (simp add: m2_def m1_def sl_fields off_frame)
  show "m2 (b + x) = m (b + x)" if "48 \<le> unat x" "unat x < 4096"
    using that by (simp add: m2_def m1_def store64_off_other store32_off_other)
qed

text \<open>Pushing a slot that is not on the list.\<close>

lemma push_page:
  assumes pg: "slab_page m b i c ks" and i: "i < 8" and k: "k < nslots i" "k \<notin> set ks"
  defines "m1 \<equiv> store64 m (b + slot_off i k) (sl_free m b)"
  defines "m2 \<equiv> store64 m1 (b + 24) (b + slot_off i k)"
  defines "m3 \<equiv> store32 m2 (b + 32) (sl_free_count m2 b + 1)"
  shows "slab_page m3 b i c (k # ks)" and "sl_next m3 b = sl_next m b"
    and "48 \<le> unat x \<Longrightarrow> unat x < 4096 \<Longrightarrow> unat x < unat (slot_off i k) \<or> unat (slot_off i k) + 8 \<le> unat x \<Longrightarrow>
      m3 (b + x) = m (b + x)"
proof -
  note p = pg [unfolded slab_page_def] and o = slot_off_bounds [OF i k(1)]
  have sub: "set ks \<subseteq> {..<nslots i}" using p by simp
  have ld: "load64 m3 (b + slot_off i j) = load64 m (b + slot_off i j)" if "j \<in> set ks" for j
  proof -
    have j: "j < nslots i" "j \<noteq> k" using that sub k(2) by auto
    note oj = slot_off_bounds [OF i j(1)]
    have "load64 m1 (b + slot_off i j) = load64 m (b + slot_off i j)"
      unfolding m1_def by (rule load64_store64_off [OF slots_apart8 [OF i k(1) j] oj(4) o(4)])
    then show ?thesis using oj by (simp add: m3_def m2_def off_frame)
  qed
  have head: "load64 m3 (b + slot_off i k) = sl_free m b"
    using o by (simp add: m3_def m2_def m1_def off_frame)
  have "slot_chain m3 b i (sl_free m b) ks = slot_chain m b i (sl_free m b) ks" by (rule slot_chain_cong) (rule ld)
  then have "slot_chain m3 b i (b + slot_off i k) (k # ks)" using p by (simp add: head)
  moreover have "sl_free m3 b = b + slot_off i k" by (simp add: m3_def m2_def sl_free_def off_frame)
  moreover have "sl_free_count m3 b = of_nat (length (k # ks))"
    using p o by (simp add: m3_def m2_def m1_def sl_fields off_frame)
  moreover have "sl_magic m3 b = SLAB_MAGIC" "sl_cache m3 b = c" "sl_total_slots m3 b = of_nat (nslots i)"
    using p o by (simp_all add: m3_def m2_def m1_def sl_fields off_frame)
  ultimately show "slab_page m3 b i c (k # ks)" using p k by (simp add: slab_page_def)
  show "sl_next m3 b = sl_next m b" using o by (simp add: m3_def m2_def m1_def sl_fields off_frame)
  show "m3 (b + x) = m (b + x)"
    if "48 \<le> unat x" "unat x < 4096" "unat x < unat (slot_off i k) \<or> unat (slot_off i k) + 8 \<le> unat x"
    using that o by (simp add: m3_def m2_def m1_def store64_off_other store32_off_other)
qed

text \<open>
  The bytes a slab page depends on: the header, and the link in the first eight bytes of every
  free slot. A store anywhere else, in particular into an allocated slot, leaves it alone.
\<close>

definition meta :: "u64 \<Rightarrow> nat \<Rightarrow> nat list \<Rightarrow> u64 set" where
  "meta b i ks = {b + x |x. unat x < 48} \<union> {b + slot_off i k + x |k x. k \<in> set ks \<and> unat x < 8}"

lemma load_off_cong:
  assumes "\<And>x. unat x < n \<Longrightarrow> m' (a + x) = m (a + x)" and "n \<le> 8"
  shows "load_le n m' a = (load_le n m a :: 'w::len word)"
proof (rule load_le_cong)
  fix j assume "j < n"
  then have "unat (of_nat j :: u64) < n" using assms(2) by (simp add: unat_of_nat)
  then show "m' (a + of_nat j) = m (a + of_nat j)" by (rule assms(1))
qed

lemma meta_header:
  assumes "\<forall>x \<in> meta b i ks. m' x = m x" and "unat d + n \<le> 48" and "n \<le> 8"
  shows "load_le n m' (b + d) = (load_le n m (b + d) :: 'w::len word)"
proof (rule load_off_cong [OF _ assms(3)])
  fix x :: u64 assume "unat x < n"
  then have "unat (d + x) < 48" using assms(2) unat_add_le [of d x] by linarith
  then have "b + (d + x) \<in> meta b i ks" by (auto simp: meta_def)
  then show "m' (b + d + x) = m (b + d + x)" using assms(1) by (simp add: add.assoc)
qed

lemma slab_page_cong:
  assumes "\<forall>x \<in> meta b i ks. m' x = m x"
  shows "slab_page m' b i c ks \<longleftrightarrow> slab_page m b i c ks" and "sl_next m' b = sl_next m b"
proof -
  note h = meta_header [OF assms]
  have f: "sl_magic m' b = sl_magic m b" "sl_cache m' b = sl_cache m b" "sl_free m' b = sl_free m b"
    "sl_free_count m' b = sl_free_count m b" "sl_total_slots m' b = sl_total_slots m b"
    using h [of 0 8] h [of 8 8] h [of 24 8] h [of 32 4] h [of 36 4] by (simp_all add: sl_fields load64_def load32_def)
  show "sl_next m' b = sl_next m b" using h [of 16 8] by (simp add: sl_fields load64_def)
  have "load64 m' (b + slot_off i k) = load64 m (b + slot_off i k)" if "k \<in> set ks" for k
    unfolding load64_def
  proof (rule load_off_cong)
    fix x :: u64 assume "unat x < 8"
    then have "b + slot_off i k + x \<in> meta b i ks" using that by (auto simp: meta_def)
    then show "m' (b + slot_off i k + x) = m (b + slot_off i k + x)" using assms by blast
  qed simp
  then have "slot_chain m' b i (sl_free m b) ks = slot_chain m b i (sl_free m b) ks" by (rule slot_chain_cong)
  then show "slab_page m' b i c ks \<longleftrightarrow> slab_page m b i c ks" unfolding slab_page_def f by simp
qed

lemma meta_page:
  assumes "aligned 12 b" and "i < 8" and "set ks \<subseteq> {..<nslots i}" and "x \<in> meta b i ks"
  shows "page x = page b"
proof -
  have "\<exists>d. x = b + d \<and> unat d < 4096"
  proof -
    consider (header) d where "x = b + d" "unat d < 48"
      | (slot) k d where "x = b + (slot_off i k + d)" "k \<in> set ks" "unat d < 8"
      using assms(4) by (auto simp: meta_def add.assoc)
    then show ?thesis
    proof cases
      case header
      then show ?thesis by (intro exI [of _ d]) simp
    next
      case slot
      have "k < nslots i" using slot(2) assms(3) by auto
      from slot_off_bounds(3) [OF assms(2) this] have "unat (slot_off i k + d) < 4096"
        using slot(3) unat_add_le [of "slot_off i k" d] by linarith
      then show ?thesis using slot(1) by blast
    qed
  qed
  then show ?thesis using page_offset [OF assms(1)] by auto
qed

lemma slab_page_other:
  assumes "aligned 12 b" and "i < 8" and "slab_page m b i c ks" and "\<And>x. page x = page b \<Longrightarrow> m' x = m x"
  shows "slab_page m' b i c ks" and "sl_next m' b = sl_next m b"
proof -
  have "set ks \<subseteq> {..<nslots i}" using assms(3) by (simp add: slab_page_def)
  then have *: "\<forall>x \<in> meta b i ks. m' x = m x" using meta_page [OF assms(1,2)] assms(4) by blast
  show "slab_page m' b i c ks" "sl_next m' b = sl_next m b" using slab_page_cong [OF *] assms(3) by auto
qed

text \<open>Threading the slots of a fresh page.\<close>

lemma slab_data_off_value [simp]: "slab_data_off = 48"
  by (simp add: slab_data_off_def align_up_def sizeof_slab_def SLAB_ALIGN_def)

lemma thread_slots_spec:
  assumes "i < 8" and "aligned 12 b" and "j \<le> nslots i"
    and "slot_chain (mem s) b i (sl_free (mem s) b) (rev [0..<j])"
  defines "s' \<equiv> thread_slots j (nslots i) b (of_nat (csize i)) s"
  shows "\<exists>m. s' = s\<lparr>mem := m\<rparr> \<and> slot_chain m b i (sl_free m b) (rev [0..<nslots i]) \<and>
    sl_magic m b = sl_magic (mem s) b \<and> sl_cache m b = sl_cache (mem s) b \<and>
    sl_free_count m b = sl_free_count (mem s) b \<and> sl_total_slots m b = sl_total_slots (mem s) b \<and>
    (\<forall>x. page x \<noteq> page b \<longrightarrow> m x = mem s x)"
  using assms(3,4) unfolding s'_def
proof (induction "nslots i - j" arbitrary: j s)
  case 0
  then have "thread_slots j (nslots i) b (of_nat (csize i)) s = s\<lparr>mem := mem s\<rparr>" and "j = nslots i"
    by (simp_all add: thread_slots.simps [of j])
  then show ?case using 0 by blast
next
  case (Suc n)
  then have j: "j < nslots i" by simp
  note o = slot_off_bounds [OF assms(1) j]
  let ?m1 = "store64 (mem s) (b + slot_off i j) (sl_free (mem s) b)"
  let ?m2 = "store64 ?m1 (b + 24) (b + slot_off i j)"
  let ?s2 = "s\<lparr>mem := ?m2\<rparr>"
  have step: "thread_slots j (nslots i) b (of_nat (csize i)) s = thread_slots (Suc j) (nslots i) b (of_nat (csize i)) ?s2"
    using j by (simp add: thread_slots.simps [of j] put64_def slot_off_def Let_def add.assoc)
  have "load64 ?m2 (b + slot_off i k) = load64 (mem s) (b + slot_off i k)" if "k \<in> set (rev [0..<j])" for k
  proof -
    have k: "k < nslots i" "k \<noteq> j" using that j by auto
    note ok = slot_off_bounds [OF assms(1) k(1)]
    have "load64 ?m1 (b + slot_off i k) = load64 (mem s) (b + slot_off i k)"
      by (rule load64_store64_off [OF slots_apart8 [OF assms(1) j k] ok(4) o(4)])
    then show ?thesis using ok by (simp add: off_frame)
  qed
  then have "slot_chain ?m2 b i (sl_free (mem s) b) (rev [0..<j]) = slot_chain (mem s) b i (sl_free (mem s) b) (rev [0..<j])"
    by (rule slot_chain_cong)
  moreover have "load64 ?m2 (b + slot_off i j) = sl_free (mem s) b" using o by (simp add: off_frame)
  ultimately have chain: "slot_chain (mem ?s2) b i (sl_free (mem ?s2) b) (rev [0..<Suc j])"
    using Suc.prems(2) by (simp add: sl_free_def)
  have n: "n = nslots i - Suc j" "Suc j \<le> nslots i" using Suc.hyps(2) j by simp_all
  obtain m where m: "thread_slots (Suc j) (nslots i) b (of_nat (csize i)) ?s2 = ?s2\<lparr>mem := m\<rparr>"
    "slot_chain m b i (sl_free m b) (rev [0..<nslots i])"
    "sl_magic m b = sl_magic ?m2 b" "sl_cache m b = sl_cache ?m2 b"
    "sl_free_count m b = sl_free_count ?m2 b" "sl_total_slots m b = sl_total_slots ?m2 b"
    "\<And>x. page x \<noteq> page b \<Longrightarrow> m x = ?m2 x"
    using Suc.hyps(1) [OF n chain] by auto
  have "?m2 x = mem s x" if "page x \<noteq> page b" for x
  proof -
    have "aligned 3 (b + slot_off i j)" "aligned 3 (b + 24)"
    proof -
      have b: "aligned 3 b" using assms(2) by (rule aligned_mono) simp
      have "8 dvd unat (slot_off i j)" using o(5) by presburger
      then show "aligned 3 (b + slot_off i j)" using b by (intro aligned_add) (simp_all add: aligned_dvd)
      show "aligned 3 (b + 24)" using b by (intro aligned_add) (simp_all add: aligned_def)
    qed
    moreover have "page (b + slot_off i j) = page b" "page (b + 24) = page b"
      using o(3) by (simp_all add: page_offset [OF assms(2)])
    ultimately show ?thesis using that by (simp add: store64_page)
  qed
  moreover have "sl_magic ?m2 b = sl_magic (mem s) b" "sl_cache ?m2 b = sl_cache (mem s) b"
    "sl_free_count ?m2 b = sl_free_count (mem s) b" "sl_total_slots ?m2 b = sl_total_slots (mem s) b"
    using o by (simp_all add: sl_fields off_frame)
  ultimately show ?case unfolding step using m by (intro exI [of _ m]) simp
qed

end
