(* ===== verification/Slab_Heap.thy ===== *)
theory Slab_Heap
  imports Slab_Page
begin

text \<open>
  The heap of \<^verbatim>\<open>core/mm/slab.c\<close> as a whole. A view \<open>heap_view\<close> names the slab pages of each class
  in list order, the free slots of each page and the large blocks; \<open>slab_inv\<close> ties it to the
  memory, the caches' counters and the buddy allocator, which owns every page the view does not.
  Clients see only the set of live objects, address and usable size (\<open>heap_inv\<close>).
\<close>

subsection \<open>The view of the heap\<close>

record heap_view =
  class_pages :: "nat \<Rightarrow> u64 list"
  page_free :: "u64 \<Rightarrow> nat list"
  large_blocks :: "(nat \<times> u64) set"

definition pages :: "heap_view \<Rightarrow> u64 set" where
  "pages G = (\<Union>i < 8. set (class_pages G i))"

definition owned :: "heap_view \<Rightarrow> (nat \<times> u64) set" where
  "owned G = Pair 0 ` pages G \<union> large_blocks G"

text \<open>The frames the heap manages: the buddy allocator's free ones and those of its own blocks.\<close>

definition managed :: "(nat \<times> u64) set \<Rightarrow> heap_view \<Rightarrow> nat set" where
  "managed B G = frames_of B \<union> frames_of (owned G)"

primrec slab_chain :: "memory \<Rightarrow> u64 \<Rightarrow> u64 \<Rightarrow> u64 list \<Rightarrow> bool" where
  "slab_chain m h ptr [] \<longleftrightarrow> ptr = 0"
| "slab_chain m h ptr (p # ps) \<longleftrightarrow> ptr = p + h \<and> slab_chain m h (sl_next m (p + h)) ps"

definition large_page :: "memory \<Rightarrow> u64 \<Rightarrow> nat \<Rightarrow> bool" where
  "large_page m b ord \<longleftrightarrow> load64 m b = LARGE_MAGIC \<and> lh_order m b = of_nat ord"

definition cache_ok :: "heap_view \<Rightarrow> nat \<Rightarrow> 'a slab_scheme \<Rightarrow> bool" where
  "cache_ok G i s \<longleftrightarrow> (let c = caches s ! i; ps = class_pages G i in
     obj_size c = of_nat (csize i) \<and> slab_chain (mem s) (slab_hhdm s) (slabs c) ps \<and>
     (\<forall>p \<in> set ps. slab_page (mem s) (p + slab_hhdm s) i (cache_ptr i s) (page_free G p)) \<and>
     slab_count c = of_nat (length ps) \<and> total_slots c = of_nat (length ps * nslots i) \<and>
     free_slots c = of_nat (sum_list (map (length \<circ> page_free G) ps)))"

definition view_ok :: "heap_view \<Rightarrow> bool" where
  "view_ok G \<longleftrightarrow> (\<forall>i < 8. distinct (class_pages G i)) \<and>
     (\<forall>i < 8. \<forall>j < 8. i \<noteq> j \<longrightarrow> set (class_pages G i) \<inter> set (class_pages G j) = {}) \<and>
     (\<forall>p \<in> pages G. (0, p) \<notin> large_blocks G)"

definition slab_inv :: "nat \<Rightarrow> (nat \<times> u64) set \<Rightarrow> heap_view \<Rightarrow> 'a slab_scheme \<Rightarrow> bool" where
  "slab_inv N B G s \<longleftrightarrow> buddy_inv N B s \<and> slab_hhdm s = buddy_hhdm s \<and> custody N B (owned G) \<and> view_ok G \<and>
     length (caches s) = 8 \<and> (\<forall>i < 8. cache_ok G i s) \<and>
     (\<forall>(ord, p) \<in> large_blocks G. large_page (mem s) (p + slab_hhdm s) ord)"

lemma slab_invD:
  assumes "slab_inv N B G s"
  shows "buddy_inv N B s" and "slab_hhdm s = buddy_hhdm s" and "custody N B (owned G)" and "view_ok G"
    and "length (caches s) = 8" and "i < 8 \<Longrightarrow> cache_ok G i s"
    and "(ord, p) \<in> large_blocks G \<Longrightarrow> large_page (mem s) (p + slab_hhdm s) ord"
    and "aligned 12 (slab_hhdm s)" and "direct_map (slab_hhdm s) N"
  using assms by (auto simp: slab_inv_def buddy_invD)

text \<open>
  Every owned block starts a page of its own.
\<close>

lemma owned_page:
  assumes "slab_inv N B G s" and "(ord, p) \<in> owned G"
  shows "block_ok N ord p" and "aligned 12 p" and "aligned 12 (p + slab_hhdm s)" and "p + slab_hhdm s \<noteq> 0"
    and "page x = page (p + slab_hhdm s) \<Longrightarrow> dm_frame (slab_hhdm s) x = unat p div 4096"
    and "page x = page (p + slab_hhdm s) \<Longrightarrow> dm_frame (slab_hhdm s) x \<in> frames_of (owned G)"
    and "page x = page (p + slab_hhdm s) \<Longrightarrow> dm_frame (slab_hhdm s) x \<notin> frames_of B"
proof -
  note i = slab_invD [OF assms(1)]
  show ok: "block_ok N ord p" using i(3) assms(2) blocks_wf_ok by (auto simp: custody_def)
  show al: "aligned 12 p" "p + slab_hhdm s \<noteq> 0" using block_node [OF i(9) ok] by auto
  then show "aligned 12 (p + slab_hhdm s)" using i(8) by blast
  show fr: "dm_frame (slab_hhdm s) x = unat p div 4096" if "page x = page (p + slab_hhdm s)" for x
    by (rule dm_frame_page [OF al(1) i(8) that])
  have "unat p div 4096 \<in> frames_of (owned G)" using blk_in_frames [OF assms(2)] blk_first by blast
  then show "dm_frame (slab_hhdm s) x \<in> frames_of (owned G)" and "dm_frame (slab_hhdm s) x \<notin> frames_of B"
    if "page x = page (p + slab_hhdm s)"
    using fr [OF that] i(3) by (auto simp: custody_def)
qed

lemma owned_apart:
  assumes inv: "slab_inv N B G s" and b: "(ord, p) \<in> owned G" "(ord', q) \<in> owned G" "(ord, p) \<noteq> (ord', q)"
  shows "p \<noteq> q" and "page (p + slab_hhdm s) \<noteq> page (q + slab_hhdm s)"
    and "blk ord p \<inter> blk ord' q = {}"
proof -
  have "wf_blocks N (owned G)" using slab_invD(3) [OF inv] by (simp add: custody_def)
  then show apart: "blk ord p \<inter> blk ord' q = {}"
    using b unfolding wf_blocks_def by (metis fst_conv snd_conv)
  then show ne: "p \<noteq> q" using blk_first [of p ord] blk_first [of p ord'] by blast
  then show "page (p + slab_hhdm s) \<noteq> page (q + slab_hhdm s)"
    using page_eq_iff owned_page(3) [OF inv b(1)] owned_page(3) [OF inv b(2)] by simp
qed

lemma pages_owned: "i < 8 \<Longrightarrow> p \<in> set (class_pages G i) \<Longrightarrow> (0, p) \<in> owned G"
  by (auto simp: owned_def pages_def)

lemma slab_chain_cong:
  "(\<And>p. p \<in> set ps \<Longrightarrow> sl_next m' (p + h) = sl_next m (p + h)) \<Longrightarrow> slab_chain m' h ptr ps = slab_chain m h ptr ps"
  by (induction ps arbitrary: ptr) auto

text \<open>The bytes the whole heap depends on.\<close>

definition heap_meta :: "heap_view \<Rightarrow> u64 \<Rightarrow> u64 set" where
  "heap_meta G h = (\<Union>i < 8. \<Union>p \<in> set (class_pages G i). meta (p + h) i (page_free G p)) \<union>
     (\<Union>(ord, p) \<in> large_blocks G. {p + h + x |x. unat x < 16})"

lemma large_page_cong:
  assumes "\<And>x. unat x < 16 \<Longrightarrow> m' (b + x) = m (b + x)"
  shows "large_page m' b ord = large_page m b ord"
proof -
  have "load64 m' b = load64 m b" unfolding load64_def by (rule load_off_cong) (use assms in auto)
  moreover have "lh_order m' b = lh_order m b"
    unfolding lh_order_def load32_def
  proof (rule load_off_cong)
    fix x :: u64 assume "unat x < 4"
    then have "unat (8 + x) < 16" using unat_add_le [of 8 x] by simp
    then show "m' (b + 8 + x) = m (b + 8 + x)" using assms [of "8 + x"] by (simp add: add.assoc)
  qed simp
  ultimately show ?thesis by (simp add: large_page_def)
qed

lemma slab_inv_frame:
  assumes inv: "slab_inv N B G s" and bud: "buddy_inv N B' t" "custody N B' (owned G)"
    and same: "slab_hhdm t = slab_hhdm s" "buddy_hhdm t = buddy_hhdm s" "caches t = caches s" "caches_addr t = caches_addr s"
    and mem: "\<forall>x \<in> heap_meta G (slab_hhdm s). mem t x = mem s x"
  shows "slab_inv N B' G t"
proof -
  note i = slab_invD [OF inv]
  have pg: "\<forall>x \<in> meta (p + slab_hhdm s) i (page_free G p). mem t x = mem s x" if "i < 8" "p \<in> set (class_pages G i)" for i p
    using mem that unfolding heap_meta_def by blast
  have "cache_ok G i t" if "i < 8" for i
    using i(6) [OF that] slab_page_cong [OF pg [OF that]] slab_chain_cong [of "class_pages G i" "mem t" "slab_hhdm s" "mem s"]
    by (simp add: cache_ok_def Let_def same cache_ptr_def)
  moreover have "large_page (mem t) (p + slab_hhdm s) ord" if "(ord, p) \<in> large_blocks G" for ord p
    using i(7) [OF that] large_page_cong [of "mem t" "p + slab_hhdm s" "mem s"] mem that unfolding heap_meta_def by blast
  ultimately show ?thesis using i(2,4,5) bud by (auto simp: slab_inv_def same)
qed

text \<open>The metadata lies in the owned pages.\<close>

lemma heap_meta_owned:
  assumes inv: "slab_inv N B G s" and x: "x \<in> heap_meta G (slab_hhdm s)"
  shows "dm_frame (slab_hhdm s) x \<in> frames_of (owned G)"
proof -
  consider (slab) i p where "i < 8" "p \<in> set (class_pages G i)" "x \<in> meta (p + slab_hhdm s) i (page_free G p)"
    | (large) ord p d where "(ord, p) \<in> large_blocks G" "x = p + slab_hhdm s + d" "unat d < 16"
    using x by (auto simp: heap_meta_def)
  then show ?thesis
  proof cases
    case slab
    note o = pages_owned [OF slab(1,2)]
    have "slab_page (mem s) (p + slab_hhdm s) i (cache_ptr i s) (page_free G p)"
      using slab_invD(6) [OF inv slab(1)] slab(2) by (simp add: cache_ok_def Let_def)
    then have "set (page_free G p) \<subseteq> {..<nslots i}" by (simp add: slab_page_def)
    from meta_page [OF owned_page(3) [OF inv o] slab(1) this slab(3)] show ?thesis by (rule owned_page(6) [OF inv o])
  next
    case large
    have o: "(ord, p) \<in> owned G" using large(1) by (simp add: owned_def)
    have "page x = page (p + slab_hhdm s)"
      unfolding large(2) using large(3) by (intro page_offset owned_page(3) [OF inv o]) simp
    then show ?thesis by (rule owned_page(6) [OF inv o])
  qed
qed

subsection \<open>Changing one slab page\<close>

lemma sum_list_update:
  assumes "distinct ps" and "q \<in> set ps"
  shows "sum_list (map (length \<circ> f(q := ks)) ps) + length (f q) = sum_list (map (length \<circ> f) ps) + length ks"
  using assms
proof (induction ps)
  case (Cons p ps)
  show ?case
  proof (cases "p = q")
    case True
    then have "map (length \<circ> f(q := ks)) ps = map (length \<circ> f) ps" using Cons.prems(1) by auto
    then have "sum_list (map (length \<circ> f(q := ks)) ps) = sum_list (map (length \<circ> f) ps)" by (rule arg_cong)
    then show ?thesis unfolding True list.map sum_list.Cons by simp
  next
    case False
    then show ?thesis using Cons by simp
  qed
qed simp

lemma other_pages:
  assumes inv: "slab_inv N B G s" and off: "\<And>x. page x \<noteq> page b \<Longrightarrow> m' x = mem s x"
  shows "j < 8 \<Longrightarrow> p \<in> set (class_pages G j) \<Longrightarrow> page (p + slab_hhdm s) \<noteq> page b \<Longrightarrow>
      slab_page m' (p + slab_hhdm s) j (cache_ptr j s) (page_free G p) \<and>
      sl_next m' (p + slab_hhdm s) = sl_next (mem s) (p + slab_hhdm s)"
    and "(ord, p) \<in> large_blocks G \<Longrightarrow> page (p + slab_hhdm s) \<noteq> page b \<Longrightarrow> large_page m' (p + slab_hhdm s) ord"
proof -
  note I = slab_invD [OF inv]
  let ?h = "slab_hhdm s"
  show "slab_page m' (p + ?h) j (cache_ptr j s) (page_free G p) \<and> sl_next m' (p + ?h) = sl_next (mem s) (p + ?h)"
    if p: "j < 8" "p \<in> set (class_pages G j)" "page (p + ?h) \<noteq> page b"
    using slab_page_other [OF owned_page(3) [OF inv pages_owned [OF p(1,2)]] p(1), of "mem s" "cache_ptr j s" "page_free G p" m']
      I(6) [OF p(1)] p(2,3) off by (simp add: cache_ok_def Let_def)
  show "large_page m' (p + ?h) ord" if l: "(ord, p) \<in> large_blocks G" "page (p + ?h) \<noteq> page b"
  proof -
    have lo: "(ord, p) \<in> owned G" using l by (simp add: owned_def)
    have "m' (p + ?h + x) = mem s (p + ?h + x)" if "unat x < 16" for x
      using that l(2) page_offset [OF owned_page(3) [OF inv lo], of x] by (intro off) simp
    then show ?thesis using I(7) [OF l(1)] large_page_cong [of m' "p + ?h" "mem s"] by simp
  qed
qed

lemma slab_inv_page:
  assumes inv: "slab_inv N B G s" and i: "i < 8" and q: "q \<in> set (class_pages G i)"
    and off: "\<And>x. page x \<noteq> page (q + slab_hhdm s) \<Longrightarrow> m' x = mem s x"
    and pg: "slab_page m' (q + slab_hhdm s) i (cache_ptr i s) ks" "sl_next m' (q + slab_hhdm s) = sl_next (mem s) (q + slab_hhdm s)"
    and f: "f + of_nat (length (page_free G q)) = free_slots (caches s ! i) + of_nat (length ks)"
  defines "G' \<equiv> G\<lparr>page_free := (page_free G)(q := ks)\<rparr>"
  defines "t \<equiv> set_cache i ((caches s ! i)\<lparr>free_slots := f\<rparr>) (s\<lparr>mem := m'\<rparr>)"
  shows "slab_inv N B G' t"
proof -
  note I = slab_invD [OF inv] and qo = pages_owned [OF i q]
  let ?h = "slab_hhdm s"
  have view: "class_pages G' = class_pages G" "large_blocks G' = large_blocks G" "pages G' = pages G" "owned G' = owned G"
    by (simp_all add: G'_def pages_def owned_def)
  have st: "slab_hhdm t = ?h" "mem t = m'" "buddy_hhdm t = buddy_hhdm s" "length (caches t) = 8" "caches_addr t = caches_addr s"
    using I(5) by (simp_all add: t_def set_cache_def)
  have bud: "buddy_inv N B t"
    using off owned_page(7) [OF inv qo] I(2) by (intro buddy_inv_frame [OF I(1)]) (auto simp: t_def set_cache_def)
  have other: "slab_page m' (p + ?h) j (cache_ptr j s) (page_free G p) \<and> sl_next m' (p + ?h) = sl_next (mem s) (p + ?h)"
    if p: "j < 8" "p \<in> set (class_pages G j)" "p \<noteq> q" for j p
    using owned_apart(2) [OF inv pages_owned [OF p(1,2)] qo] p(3) by (intro other_pages(1) [OF inv off p(1,2)]) simp_all
  have nxt: "sl_next m' (p + ?h) = sl_next (mem s) (p + ?h)" if "j < 8" "p \<in> set (class_pages G j)" for j p
    using other [OF that] pg(2) by (cases "p = q") auto
  have only: "j = i" if "j < 8" "q \<in> set (class_pages G j)" for j
    using I(4) that i q unfolding view_ok_def by blast
  have "cache_ok G' j t" if j: "j < 8" for j
  proof -
    let ?ps = "class_pages G j" and ?c = "caches s ! j"
    have c0: "obj_size ?c = of_nat (csize j)" "slab_chain (mem s) ?h (slabs ?c) ?ps"
        "slab_count ?c = of_nat (length ?ps)" "total_slots ?c = of_nat (length ?ps * nslots j)"
        "free_slots ?c = of_nat (sum_list (map (length \<circ> page_free G) ?ps))"
      using I(6) [OF j] by (simp_all add: cache_ok_def Let_def)
    have ct: "obj_size (caches t ! j) = obj_size ?c" "slabs (caches t ! j) = slabs ?c" "slab_count (caches t ! j) = slab_count ?c"
      "total_slots (caches t ! j) = total_slots ?c" "free_slots (caches t ! j) = (if j = i then f else free_slots ?c)"
      using I(5) i by (simp_all add: t_def set_cache_def nth_list_update)
    have "slab_chain m' ?h (slabs ?c) ?ps = slab_chain (mem s) ?h (slabs ?c) ?ps" by (rule slab_chain_cong) (rule nxt [OF j])
    then have chain: "slab_chain m' ?h (slabs ?c) ?ps" using c0(2) by simp
    have pgs: "slab_page m' (p + ?h) j (cache_ptr j s) (page_free G' p)" if "p \<in> set ?ps" for p
      using other [OF j that] pg(1) only [OF j] that by (cases "p = q") (auto simp: G'_def)
    have fr: "free_slots (caches t ! j) = of_nat (sum_list (map (length \<circ> page_free G') ?ps))"
    proof (cases "j = i")
      case True
      have "distinct ?ps" "q \<in> set ?ps" using I(4) j q True by (auto simp: view_ok_def)
      from sum_list_update [OF this, of "page_free G" ks]
      have "(of_nat (sum_list (map (length \<circ> page_free G') ?ps) + length (page_free G q)) :: u64) =
        of_nat (sum_list (map (length \<circ> page_free G) ?ps) + length ks)" by (simp add: G'_def)
      then have "of_nat (sum_list (map (length \<circ> page_free G') ?ps)) + of_nat (length (page_free G q)) = f + of_nat (length (page_free G q))"
        using f c0(5) True by (simp only: of_nat_add)
      then have "of_nat (sum_list (map (length \<circ> page_free G') ?ps)) = f" by (simp only: add_right_cancel)
      then show ?thesis unfolding ct(5) if_P [OF True] by simp
    next
      case False
      then have "q \<notin> set ?ps" using only [OF j] by blast
      then have "map (length \<circ> page_free G') ?ps = map (length \<circ> page_free G) ?ps" by (auto simp: G'_def)
      then show ?thesis unfolding ct(5) if_not_P [OF False] c0(5) by (simp only:)
    qed
    show ?thesis
      unfolding cache_ok_def Let_def view st ct(1-4)
      using c0 chain pgs fr by (simp add: cache_ptr_def st)
  qed
  moreover have "large_page m' (p + ?h) ord" if l: "(ord, p) \<in> large_blocks G" for ord p
  proof -
    have lo: "(ord, p) \<in> owned G" using l by (simp add: owned_def)
    have "(ord, p) \<noteq> (0, q)" using I(4) l i q by (auto simp: view_ok_def pages_def)
    from owned_apart(2) [OF inv lo qo this] show ?thesis using other_pages(2) [OF inv, of "q + ?h" m', OF off l] by simp
  qed
  moreover have "view_ok G'" using I(4) by (simp add: view_ok_def view)
  ultimately show ?thesis using bud I(2,3) unfolding slab_inv_def view st by blast
qed

subsection \<open>Growing a cache\<close>

definition grown :: "heap_view \<Rightarrow> nat \<Rightarrow> u64 \<Rightarrow> heap_view" where
  "grown G i p = G\<lparr>class_pages := (class_pages G)(i := p # class_pages G i),
     page_free := (page_free G)(p := rev [0..<nslots i])\<rparr>"

lemma slots_word: "i < 8 \<Longrightarrow> (ucast ((4048 :: u64) div of_nat (csize i)) :: u32) = of_nat (nslots i)"
  by (auto dest!: class_cases simp: csize_def nslots_def)

text \<open>The header and the threaded list that \<open>cache_grow\<close> lays out.\<close>

definition fresh_header :: "u64 \<Rightarrow> u64 \<Rightarrow> u32 \<Rightarrow> memory \<Rightarrow> memory" where
  "fresh_header b c n m =
     store64 (store32 (store32 (store64 (store64 m b SLAB_MAGIC) (b + 8) c) (b + 36) n) (b + 32) n) (b + 24) 0"

lemma page_header:
  assumes "aligned 12 b" and "page x \<noteq> page b"
  shows "store64 m b v x = m x" "store64 m (b + 8) v x = m x" "store64 m (b + 16) v x = m x" "store64 m (b + 24) v x = m x"
    "store32 m (b + 32) w x = m x" "store32 m (b + 36) w x = m x" "store32 m (b + 8) w x = m x"
proof -
  have al: "aligned 3 b" using assms(1) by (rule aligned_mono) simp
  have al': "aligned 3 (b + d)" "page (b + d) = page b" if "unat d mod 8 = 0" "unat d < 4096" for d
    using that aligned_add [OF al, of d] page_offset [OF assms(1), of d] by (simp_all add: aligned_def)
  show "store64 m b v x = m x" using al assms(2) by (simp add: store64_page)
  show "store64 m (b + 8) v x = m x" "store64 m (b + 16) v x = m x" "store64 m (b + 24) v x = m x"
    using al' [of 8] al' [of 16] al' [of 24] assms(2) by (simp_all add: store64_page)
  show "store32 m (b + 32) w x = m x" "store32 m (b + 8) w x = m x"
    using store32_page [of "b + 32" x 0] store32_page [of "b + 8" x 0] al' [of 32] al' [of 8] assms(2) by simp_all
  show "store32 m (b + 36) w x = m x"
    using store32_page [of "b + 32" x 4 m w] al' [of 32] assms(2) by (simp add: add.assoc)
qed

lemma fresh_page:
  fixes s :: "'a slab_scheme" and c :: u64
  assumes i: "i < 8" and b: "aligned 12 b"
  defines "s1 \<equiv> s\<lparr>mem := fresh_header b c (of_nat (nslots i)) (mem s)\<rparr>"
  shows "\<exists>m. thread_slots 0 (nslots i) b (of_nat (csize i)) s1 = s\<lparr>mem := m\<rparr> \<and>
    (\<forall>v. slab_page (store64 m (b + 16) v) b i c (rev [0..<nslots i]) \<and> sl_next (store64 m (b + 16) v) b = v) \<and>
    (\<forall>x. page x \<noteq> page b \<longrightarrow> m x = mem s x)"
proof -
  let ?m1 = "mem s1"
  have f1: "sl_magic ?m1 b = SLAB_MAGIC" "sl_cache ?m1 b = c" "sl_free ?m1 b = 0"
    "sl_free_count ?m1 b = of_nat (nslots i)" "sl_total_slots ?m1 b = of_nat (nslots i)"
    by (simp_all add: s1_def fresh_header_def sl_fields off_frame)
  have "slot_chain ?m1 b i (sl_free ?m1 b) (rev [0..<0])" using f1(3) by simp
  from thread_slots_spec [OF i b _ this] obtain m where m:
    "thread_slots 0 (nslots i) b (of_nat (csize i)) s1 = s1\<lparr>mem := m\<rparr>"
    "slot_chain m b i (sl_free m b) (rev [0..<nslots i])" "sl_magic m b = sl_magic ?m1 b" "sl_cache m b = sl_cache ?m1 b"
    "sl_free_count m b = sl_free_count ?m1 b" "sl_total_slots m b = sl_total_slots ?m1 b"
    "\<And>x. page x \<noteq> page b \<Longrightarrow> m x = ?m1 x" by auto
  have "slab_page (store64 m (b + 16) v) b i c (rev [0..<nslots i]) \<and> sl_next (store64 m (b + 16) v) b = v" for v
  proof -
    let ?m2 = "store64 m (b + 16) v"
    have "load64 ?m2 (b + slot_off i k) = load64 m (b + slot_off i k)" if "k \<in> set (rev [0..<nslots i])" for k
      using slot_off_bounds [OF i, of k] that by (simp add: off_frame)
    then have "slot_chain ?m2 b i (sl_free m b) (rev [0..<nslots i])"
      using m(2) slot_chain_cong [of "rev [0..<nslots i]" ?m2 b i m] by blast
    moreover have "sl_magic ?m2 b = sl_magic m b" "sl_cache ?m2 b = sl_cache m b" "sl_free ?m2 b = sl_free m b"
      "sl_free_count ?m2 b = sl_free_count m b" "sl_total_slots ?m2 b = sl_total_slots m b" "sl_next ?m2 b = v"
      by (simp_all add: sl_fields off_frame)
    ultimately show ?thesis using m f1 by (auto simp: slab_page_def)
  qed
  moreover have "m x = mem s x" if "page x \<noteq> page b" for x
    using m(7) [OF that] page_header [OF b that] by (simp add: s1_def fresh_header_def)
  moreover have "s1\<lparr>mem := m\<rparr> = s\<lparr>mem := m\<rparr>" by (simp add: s1_def)
  ultimately show ?thesis using m(1) by auto
qed

lemma heap_step_slab:
  assumes "heap_step F s s'"
  shows "caches s' = caches s" and "slab_hhdm s' = slab_hhdm s" and "caches_addr s' = caches_addr s" and "buddy_hhdm s' = buddy_hhdm s"
  using assms by (auto simp: heap_step_def)

text \<open>A step of the heap changes its own variables and the memory of the frames \<open>F\<close>, nothing else.\<close>

definition slab_step :: "nat set \<Rightarrow> 'a slab_scheme \<Rightarrow> 'a slab_scheme \<Rightarrow> bool" where
  "slab_step F s t \<longleftrightarrow>
     (\<exists>m l c k. t = s\<lparr>mem := m, free_list := l, free_count := c, caches := k\<rparr>) \<and>
     (\<forall>x. dm_frame (slab_hhdm s) x \<notin> F \<longrightarrow> mem t x = mem s x)"

lemma slab_step_put:
  assumes "t = s\<lparr>mem := m, free_list := l, free_count := c, caches := k\<rparr>"
    and "\<And>x. dm_frame (slab_hhdm s) x \<notin> F \<Longrightarrow> m x = mem s x"
  shows "slab_step F s t"
  unfolding slab_step_def using assms by (intro conjI exI [of _ m] exI [of _ l] exI [of _ c] exI [of _ k]) simp_all

lemma slab_step_set_cache:
  assumes "\<And>x. dm_frame (slab_hhdm s) x \<notin> F \<Longrightarrow> m x = mem s x"
  shows "slab_step F s (set_cache i c (s\<lparr>mem := m\<rparr>))"
  by (rule slab_step_put [OF _ assms, of _ "(caches s)[i := c]" "free_count s" "free_list s"]) (simp_all add: set_cache_def)

lemma slab_step_refl: "slab_step F s s"
  by (rule slab_step_put [where m = "mem s" and l = "free_list s" and c = "free_count s" and k = "caches s"]) simp_all

lemma slab_step_trans:
  assumes "slab_step F s t" and "slab_step F t u"
  shows "slab_step F s u"
proof -
  obtain m l c k m' l' c' k' where "t = s\<lparr>mem := m, free_list := l, free_count := c, caches := k\<rparr>"
    "u = t\<lparr>mem := m', free_list := l', free_count := c', caches := k'\<rparr>"
    using assms unfolding slab_step_def by blast
  then have u: "u = s\<lparr>mem := m', free_list := l', free_count := c', caches := k'\<rparr>" and h: "slab_hhdm t = slab_hhdm s" by simp_all
  have "mem u x = mem s x" if "dm_frame (slab_hhdm s) x \<notin> F" for x using assms that unfolding slab_step_def h by simp
  then have "m' x = mem s x" if "dm_frame (slab_hhdm s) x \<notin> F" for x using that by (simp add: u)
  with u show ?thesis by (rule slab_step_put)
qed

lemma slab_step_mono: "slab_step F s t \<Longrightarrow> F \<subseteq> H \<Longrightarrow> slab_step H s t"
  unfolding slab_step_def by blast

lemma slab_step_buddy: "heap_step F s t \<Longrightarrow> buddy_hhdm s = slab_hhdm s \<Longrightarrow> F \<subseteq> H \<Longrightarrow> slab_step H s t"
  unfolding heap_step_def by (elim conjE exE) (auto intro!: slab_step_put [where k = "caches s"])

lemma slab_stepD:
  assumes "slab_step F s t"
  shows "slab_hhdm t = slab_hhdm s" and "dm_frame (slab_hhdm s) x \<notin> F \<Longrightarrow> mem t x = mem s x"
    and "\<exists>m l c k. t = s\<lparr>mem := m, free_list := l, free_count := c, caches := k\<rparr>"
  using assms by (auto simp: slab_step_def)

lemma cache_grow_mem:
  assumes "i < 8" and "length (caches s) = 8" and "obj_size (caches s ! i) = of_nat (csize i)"
    and "buddy_alloc 0 s = (p, s1)" and "p \<noteq> 0" and "caches s1 = caches s" and "aligned 12 (p + slab_hhdm s1)"
  shows "\<exists>m. cache_grow i s = Some (p + slab_hhdm s1,
      set_cache i ((caches s ! i)\<lparr>slabs := p + slab_hhdm s1, slab_count := slab_count (caches s ! i) + 1,
        total_slots := total_slots (caches s ! i) + of_nat (nslots i),
        free_slots := free_slots (caches s ! i) + of_nat (nslots i)\<rparr>) (s1\<lparr>mem := m\<rparr>)) \<and>
    slab_page m (p + slab_hhdm s1) i (cache_ptr i s1) (rev [0..<nslots i]) \<and>
    sl_next m (p + slab_hhdm s1) = slabs (caches s ! i) \<and>
    (\<forall>x. page x \<noteq> page (p + slab_hhdm s1) \<longrightarrow> m x = mem s1 x)"
proof -
  let ?b = "p + slab_hhdm s1" and ?n = "of_nat (nslots i) :: u32"
  have ne: "obj_size (caches s ! i) \<noteq> 0" using assms(1,3) by (auto dest!: class_cases simp: csize_def)
  have un: "unat ?n = nslots i" "(ucast ?n :: u64) = of_nat (nslots i)"
    using nslots_bounds [OF assms(1)] by (simp_all add: unat_of_nat word_unat_eq_iff unsigned_ucast_eq take_bit_eq_mod)
  obtain m where m: "thread_slots 0 (nslots i) ?b (of_nat (csize i)) (s1\<lparr>mem := fresh_header ?b (cache_ptr i s1) ?n (mem s1)\<rparr>) = s1\<lparr>mem := m\<rparr>"
    "\<And>v. slab_page (store64 m (?b + 16) v) ?b i (cache_ptr i s1) (rev [0..<nslots i]) \<and> sl_next (store64 m (?b + 16) v) ?b = v"
    "\<And>x. page x \<noteq> page ?b \<Longrightarrow> m x = mem s1 x"
    using fresh_page [OF assms(1,7), of "cache_ptr i s1" s1] by blast
  let ?m = "store64 m (?b + 16) (slabs (caches s ! i))"
  have "?m x = mem s1 x" if "page x \<noteq> page ?b" for x using m(3) [OF that] page_header(3) [OF assms(7) that] by simp
  moreover have "cache_grow i s = Some (?b,
      set_cache i ((caches s ! i)\<lparr>slabs := ?b, slab_count := slab_count (caches s ! i) + 1,
        total_slots := total_slots (caches s ! i) + of_nat (nslots i),
        free_slots := free_slots (caches s ! i) + of_nat (nslots i)\<rparr>) (s1\<lparr>mem := ?m\<rparr>))"
    unfolding cache_grow_def
    using assms(2-6) ne m(1) slots_word [OF assms(1)] un
    by (simp add: Let_def put64_def put32_def fresh_header_def SLAB_PAGE_SIZE_def cache_ptr_def)
  ultimately show ?thesis using m(2) by (intro exI [of _ ?m]) blast
qed

lemma grown_view:
  assumes "i < 8"
  shows "large_blocks (grown G i p) = large_blocks G" and "pages (grown G i p) = insert p (pages G)"
    and "owned (grown G i p) = insert (0, p) (owned G)"
    and "page_free (grown G i p) = (page_free G)(p := rev [0..<nslots i])"
    and "class_pages (grown G i p) j = (if j = i then p # class_pages G i else class_pages G j)"
proof -
  show "large_blocks (grown G i p) = large_blocks G" "page_free (grown G i p) = (page_free G)(p := rev [0..<nslots i])"
    "class_pages (grown G i p) j = (if j = i then p # class_pages G i else class_pages G j)"
    by (simp_all add: grown_def)
  show "pages (grown G i p) = insert p (pages G)" using assms by (auto simp: grown_def pages_def split: if_splits)
  then show "owned (grown G i p) = insert (0, p) (owned G)" by (simp add: owned_def grown_def)
qed

lemma view_ok_grown:
  assumes ok: "view_ok G" and i: "i < 8" and new: "p \<notin> pages G" "(0, p) \<notin> large_blocks G"
  shows "view_ok (grown G i p)"
  unfolding view_ok_def grown_view [OF i]
proof (intro conjI allI impI ballI)
  show "distinct (if j = i then p # class_pages G i else class_pages G j)" if "j < 8" for j
    using ok new(1) that i by (auto simp: view_ok_def pages_def)
  show "set (if j = i then p # class_pages G i else class_pages G j) \<inter> set (if k = i then p # class_pages G i else class_pages G k) = {}"
    if "j < 8" "k < 8" "j \<noteq> k" for j k
  proof -
    have "set (class_pages G j) \<inter> set (class_pages G k) = {}" using ok that by (simp add: view_ok_def)
    moreover have "p \<notin> set (class_pages G j)" "p \<notin> set (class_pages G k)" using new(1) that by (auto simp: pages_def)
    ultimately show ?thesis using that(3) by auto
  qed
  show "(0, q) \<notin> large_blocks G" if "q \<in> insert p (pages G)" for q
    using that new(2) ok by (auto simp: view_ok_def)
qed

lemma cache_ok_grown:
  assumes inv: "slab_inv N B G s" and i: "i < 8" and j: "j < 8" and new: "p \<notin> pages G"
    and off: "\<And>x. page x \<noteq> page (p + slab_hhdm s) \<Longrightarrow> m x = mem s x"
    and apart: "\<And>q. q \<in> set (class_pages G j) \<Longrightarrow> page (q + slab_hhdm s) \<noteq> page (p + slab_hhdm s)"
    and pg: "slab_page m (p + slab_hhdm s) i (cache_ptr i s) (rev [0..<nslots i])"
      "sl_next m (p + slab_hhdm s) = slabs (caches s ! i)"
  defines "t \<equiv> set_cache i ((caches s ! i)\<lparr>slabs := p + slab_hhdm s, slab_count := slab_count (caches s ! i) + 1,
        total_slots := total_slots (caches s ! i) + of_nat (nslots i),
        free_slots := free_slots (caches s ! i) + of_nat (nslots i)\<rparr>) (s\<lparr>mem := m\<rparr>)"
  shows "cache_ok (grown G i p) j t"
proof -
  note I = slab_invD [OF inv]
  let ?h = "slab_hhdm s" and ?G = "grown G i p"
  note view = grown_view [OF i, of G p]
  have st: "slab_hhdm t = ?h" "mem t = m" "caches_addr t = caches_addr s"
    by (simp_all add: t_def set_cache_def)
  let ?ps = "class_pages G j" and ?c = "caches s ! j"
  have c0: "obj_size ?c = of_nat (csize j)" "slab_chain (mem s) ?h (slabs ?c) ?ps"
      "slab_count ?c = of_nat (length ?ps)" "total_slots ?c = of_nat (length ?ps * nslots j)"
      "free_slots ?c = of_nat (sum_list (map (length \<circ> page_free G) ?ps))"
    using I(6) [OF j] by (simp_all add: cache_ok_def Let_def)
  have old: "slab_page m (q + ?h) j (cache_ptr j s) (page_free ?G q) \<and> sl_next m (q + ?h) = sl_next (mem s) (q + ?h)"
    if q: "q \<in> set ?ps" for q
  proof -
    have "q \<noteq> p" using q j new by (auto simp: pages_def)
    then show ?thesis using other_pages(1) [OF inv off j q] apart [OF q] by (simp add: view)
  qed
  have "slab_chain m ?h (slabs ?c) ?ps = slab_chain (mem s) ?h (slabs ?c) ?ps"
    by (rule slab_chain_cong) (use old in blast)
  then have chain: "slab_chain m ?h (slabs ?c) ?ps" using c0(2) by simp
  have "p \<notin> set ?ps" using j new by (auto simp: pages_def)
  then have fr: "map (length \<circ> page_free ?G) ?ps = map (length \<circ> page_free G) ?ps" by (auto simp: view)
  show ?thesis
  proof (cases "j = i")
    case True
    have ct: "caches t ! j = ?c\<lparr>slabs := p + ?h, slab_count := slab_count ?c + 1,
        total_slots := total_slots ?c + of_nat (nslots i), free_slots := free_slots ?c + of_nat (nslots i)\<rparr>"
      using I(5) i True by (simp add: t_def set_cache_def)
    have "free_slots (caches t ! j) = of_nat (sum_list (map (length \<circ> page_free ?G) (p # ?ps)))"
      unfolding ct list.map sum_list.Cons fr using c0(5) by (simp add: view)
    moreover have "obj_size (caches t ! j) = of_nat (csize j)" "slabs (caches t ! j) = p + ?h"
      "slab_count (caches t ! j) = of_nat (length (p # ?ps))" "total_slots (caches t ! j) = of_nat (length (p # ?ps) * nslots j)"
      unfolding ct using c0 True by (simp_all add: algebra_simps)
    moreover have "slab_chain m ?h (p + ?h) (p # ?ps)" using chain pg(2) True by simp
    moreover have "\<forall>q \<in> set (p # ?ps). slab_page m (q + ?h) j (cache_ptr j t) (page_free ?G q)"
      using old pg(1) True by (auto simp: view cache_ptr_def st)
    moreover have "class_pages ?G j = p # ?ps" using True by (simp add: view)
    ultimately show ?thesis unfolding cache_ok_def Let_def st by presburger
  next
    case False
    have ct: "caches t ! j = ?c" using I(5) False by (simp add: t_def set_cache_def)
    show ?thesis
      unfolding cache_ok_def Let_def st view(5) if_not_P [OF False] ct fr
      using c0 chain old by (simp add: cache_ptr_def st)
  qed
qed

lemma slab_inv_grown:
  assumes inv: "slab_inv N B G s" and i: "i < 8" and cust: "custody N B (insert (0, p) (owned G))" "(0, p) \<notin> owned G"
    and apart: "blk 0 p \<inter> frames_of (owned G) = {}" and al: "aligned 12 p"
    and off: "\<And>x. page x \<noteq> page (p + slab_hhdm s) \<Longrightarrow> m x = mem s x"
    and pg: "slab_page m (p + slab_hhdm s) i (cache_ptr i s) (rev [0..<nslots i])"
      "sl_next m (p + slab_hhdm s) = slabs (caches s ! i)"
  defines "t \<equiv> set_cache i ((caches s ! i)\<lparr>slabs := p + slab_hhdm s, slab_count := slab_count (caches s ! i) + 1,
        total_slots := total_slots (caches s ! i) + of_nat (nslots i),
        free_slots := free_slots (caches s ! i) + of_nat (nslots i)\<rparr>) (s\<lparr>mem := m\<rparr>)"
  shows "slab_inv N B (grown G i p) t"
proof -
  note I = slab_invD [OF inv]
  let ?h = "slab_hhdm s" and ?G = "grown G i p"
  have new: "p \<notin> pages G" "(0, p) \<notin> large_blocks G" using cust(2) by (auto simp: owned_def)
  note view = grown_view [OF i, of G p]
  have vok: "view_ok ?G" by (rule view_ok_grown [OF I(4) i new])
  have frame: "unat q div 4096 \<in> frames_of (owned G)" if "(ord, q) \<in> owned G" for ord q
    using blk_in_frames [OF that] blk_first by blast
  have apart': "page (q + ?h) \<noteq> page (p + ?h)" if q: "(ord, q) \<in> owned G" for ord q
  proof
    assume "page (q + ?h) = page (p + ?h)"
    then have "dm_frame ?h (q + ?h) = unat p div 4096" by (rule dm_frame_page [OF al I(8)])
    then have "unat q div 4096 = unat p div 4096" using owned_page(5) [OF inv q refl] by simp
    then have "unat q div 4096 \<in> blk 0 p" using blk_first [of p 0] by simp
    then show False using frame [OF q] apart by blast
  qed
  have st: "slab_hhdm t = ?h" "mem t = m" "buddy_hhdm t = buddy_hhdm s" "length (caches t) = 8" "caches_addr t = caches_addr s"
    using I(5) by (simp_all add: t_def set_cache_def)
  have "buddy_inv N B t"
  proof (rule buddy_inv_frame [OF I(1)])
    fix x assume x: "dm_frame (buddy_hhdm s) x \<in> frames_of B"
    have "unat p div 4096 \<notin> frames_of B" using cust(1) blk_first [of p 0] by (auto simp: custody_def)
    then have "page x \<noteq> page (p + ?h)" using dm_frame_page [OF al I(8), of x] x I(2) by auto
    then show "mem t x = mem s x" using off by (simp add: st)
  qed (simp_all add: t_def set_cache_def)
  moreover have "cache_ok ?G j t" if j: "j < 8" for j
    unfolding t_def using apart' [OF pages_owned [OF j]] by (intro cache_ok_grown [OF inv i j new(1) off _ pg])
  moreover have "large_page m (q + ?h) ord" if l: "(ord, q) \<in> large_blocks G" for ord q
    using apart' [of ord q] l by (intro other_pages(2) [OF inv off l]) (simp_all add: owned_def)
  ultimately show ?thesis using vok cust(1) I(2) unfolding slab_inv_def view(1,3) st by blast
qed

text \<open>
  A block that the slab layer takes from the buddy allocator: the heap is as it was, and the block is a
  new one whose first page belongs to no object.
\<close>

lemma block_taken:
  assumes inv: "slab_inv N B G s" and a: "buddy_alloc ord s = (p, s1)"
  obtains (none) "p = 0" and "s1 = s" and "\<forall>j q. ord \<le> j \<longrightarrow> (j, q) \<notin> B"
  | (block) B' where "p \<noteq> 0" and "block_ok N ord p" and "aligned 12 p" and "(ord, p) \<notin> owned G" and "blk ord p \<inter> frames_of (owned G) = {}"
      and "slab_inv N B' G s1" and "custody N B' (insert (ord, p) (owned G))" and "frames_of B' \<union> blk ord p = frames_of B"
      and "slab_step (managed B G) s s1" and "caches s1 = caches s" and "slab_hhdm s1 = slab_hhdm s" and "caches_addr s1 = caches_addr s"
      and "\<forall>x. page x = page (p + slab_hhdm s) \<longrightarrow> dm_frame (slab_hhdm s) x \<in> blk ord p"
      and "\<forall>x. dm_frame (slab_hhdm s) x \<in> frames_of (owned G) \<longrightarrow> mem s1 x = mem s x"
proof -
  note I = slab_invD [OF inv]
  from blocks.alloc_custody [OF I(1,3) a] show thesis
  proof
    assume "p = 0 \<and> s1 = s \<and> (\<forall>i q. ord \<le> i \<longrightarrow> (i, q) \<notin> B)"
    then show thesis using none by blast
  next
    assume *: "block_ok N ord p \<and> heap_step (frames_of B) s s1 \<and> (ord, p) \<notin> owned G \<and> blk ord p \<inter> frames_of (owned G) = {} \<and>
      (\<exists>B'. buddy_inv N B' s1 \<and> custody N B' (insert (ord, p) (owned G)) \<and> frames_of B' \<union> blk ord p = frames_of B) \<and>
      (\<forall>x. dm_frame (buddy_hhdm s) x \<in> frames_of (owned G) \<longrightarrow> mem s1 x = mem s x)"
    then obtain B' where B': "buddy_inv N B' s1" "custody N B' (insert (ord, p) (owned G))" "frames_of B' \<union> blk ord p = frames_of B" by blast
    have ok: "block_ok N ord p" and step: "heap_step (frames_of B) s s1"
      and new: "(ord, p) \<notin> owned G" "blk ord p \<inter> frames_of (owned G) = {}" using * by auto
    note f = heap_step_slab [OF step]
    have al: "aligned 12 p" using block_node(1) [OF I(9) ok] .
    have same: "\<forall>x. dm_frame (slab_hhdm s) x \<in> frames_of (owned G) \<longrightarrow> mem s1 x = mem s x" using * I(2) by simp
    have "custody N B' (owned G)" using B'(2) wf_blocks_mono [of N "insert (ord, p) (owned G)" "owned G"] by (auto simp: custody_def)
    then have inv1: "slab_inv N B' G s1"
      using heap_meta_owned [OF inv] same by (intro slab_inv_frame [OF inv B'(1)]) (auto simp: f)
    have first: "\<forall>x. page x = page (p + slab_hhdm s) \<longrightarrow> dm_frame (slab_hhdm s) x \<in> blk ord p"
      using dm_frame_page [OF al I(8)] blk_first [of p ord] by auto
    have "slab_step (managed B G) s s1" by (rule slab_step_buddy [OF step I(2) [symmetric]]) (simp add: managed_def)
    from block [OF block_ok_nonzero [OF ok] ok al new inv1 B'(2,3) this f(1-3) first same] show thesis .
  qed
qed

lemma cache_grow_spec:
  assumes inv: "slab_inv N B G s" and i: "i < 8"
  shows "cache_grow i s = Some (0, s) \<and> B = {} \<or>
    (\<exists>p B' t. cache_grow i s = Some (p + slab_hhdm s, t) \<and> p + slab_hhdm s \<noteq> 0 \<and> slab_inv N B' (grown G i p) t \<and>
       managed B' (grown G i p) = managed B G \<and> (0, p) \<notin> owned G \<and> slab_step (managed B G) s t \<and>
       (\<forall>x. dm_frame (slab_hhdm s) x \<in> frames_of (owned G) \<longrightarrow> mem t x = mem s x))"
proof -
  note I = slab_invD [OF inv]
  obtain p s1 where a: "buddy_alloc 0 s = (p, s1)" by (metis prod.exhaust)
  from inv a show ?thesis
  proof (cases rule: block_taken)
    case none
    then show ?thesis using a by (auto simp: cache_grow_def)
  next
    case (block B')
    let ?h = "slab_hhdm s"
    have alb: "aligned 12 (p + ?h)" using block(3) I(8) by blast
    have c: "obj_size (caches s ! i) = of_nat (csize i)" using I(6) [OF i] by (simp add: cache_ok_def Let_def)
    define t where "t m = set_cache i ((caches s ! i)\<lparr>slabs := p + ?h, slab_count := slab_count (caches s ! i) + 1,
        total_slots := total_slots (caches s ! i) + of_nat (nslots i),
        free_slots := free_slots (caches s ! i) + of_nat (nslots i)\<rparr>) (s1\<lparr>mem := m\<rparr>)" for m
    obtain m where m: "cache_grow i s = Some (p + ?h, t m)" "slab_page m (p + ?h) i (cache_ptr i s1) (rev [0..<nslots i])"
      "sl_next m (p + ?h) = slabs (caches s ! i)" "\<And>x. page x \<noteq> page (p + ?h) \<Longrightarrow> m x = mem s1 x"
      using cache_grow_mem [OF i I(5) c a block(1,10)] alb unfolding block(11) t_def by blast
    have g: "slab_inv N B' (grown G i p) (t m)"
      using slab_inv_grown [OF block(6) i block(7,4,5,3), of m] m(2-4) by (simp add: block t_def)
    have "m x = mem s x" if x: "dm_frame ?h x \<in> frames_of (owned G)" for x
    proof -
      have "page x \<noteq> page (p + ?h)" using x block(5,13) by blast
      then show ?thesis using m(4) block(14) x by simp
    qed
    moreover have "slab_step (managed B G) s1 (t m)"
      unfolding t_def
    proof (rule slab_step_set_cache)
      fix x assume "dm_frame (slab_hhdm s1) x \<notin> managed B G"
      then have "page x \<noteq> page (p + ?h)" using block(8,11,13) by (auto simp: managed_def)
      then show "m x = mem s1 x" by (rule m(4))
    qed
    then have "slab_step (managed B G) s (t m)" by (rule slab_step_trans [OF block(9)])
    moreover have "mem (t m) = m" by (simp add: t_def set_cache_def)
    moreover have "managed B' (grown G i p) = managed B G"
      using block(8) grown_view(3) [OF i, of G p] by (auto simp: managed_def)
    moreover have "p + ?h \<noteq> 0" using block_node [OF I(9) block(2)] by auto
    ultimately show ?thesis
      using m(1) g block(4) by (intro disjI2 exI [of _ p] exI [of _ B'] exI [of _ "t m"]) (metis (no_types))
  qed
qed

subsection \<open>Live objects\<close>

text \<open>
  What a client holds: slots that are on no free list, with the size of their class, and large
  blocks less their header. \<open>bytes a n\<close> are the addresses of an object.
\<close>

definition slot_obj :: "u64 \<Rightarrow> nat \<Rightarrow> u64 \<Rightarrow> nat \<Rightarrow> u64 \<times> nat" where
  "slot_obj h i p k = (p + h + slot_off i k, csize i)"

definition large_obj :: "u64 \<Rightarrow> nat \<Rightarrow> u64 \<Rightarrow> u64 \<times> nat" where
  "large_obj h ord p = (p + h + 16, 4096 * 2 ^ ord - 16)"

definition live :: "heap_view \<Rightarrow> u64 \<Rightarrow> (u64 \<times> nat) set" where
  "live G h = {slot_obj h i p k |i p k. i < 8 \<and> p \<in> set (class_pages G i) \<and> k < nslots i \<and> k \<notin> set (page_free G p)} \<union>
     {large_obj h ord p |ord p. (ord, p) \<in> large_blocks G}"

definition bytes :: "u64 \<Rightarrow> nat \<Rightarrow> u64 set" where
  "bytes a n = {a + of_nat d |d. d < n}"

lemma live_cases:
  assumes "ob \<in> live G h"
  obtains (slot) i p k where "ob = slot_obj h i p k" "i < 8" "p \<in> set (class_pages G i)" "k < nslots i" "k \<notin> set (page_free G p)"
    | (large) ord p where "ob = large_obj h ord p" "(ord, p) \<in> large_blocks G"
  using assms unfolding live_def by blast

lemma bytes_off:
  assumes "x \<in> bytes (b + e) n" and "unat e + n \<le> M" and "M \<le> 2 ^ 32"
  shows "\<exists>d. x = b + d \<and> unat e \<le> unat d \<and> unat d < unat e + n"
proof -
  obtain j where j: "j < n" "x = b + e + of_nat j" using assms(1) by (auto simp: bytes_def)
  have small: "unat e + j < 2 ^ 32" using j(1) assms(2,3) by linarith
  then have "unat (of_nat j :: u64) = j" by (simp add: unat_of_nat)
  then have "unat (e + of_nat j) = unat e + j"
    using unat_add_exact [of e "of_nat j"] small by simp
  then show ?thesis using j by (intro exI [of _ "e + of_nat j"]) (simp add: add.assoc)
qed

text \<open>A byte of a live slot, and of a live large block, located.\<close>

lemma slot_byte:
  assumes inv: "slab_inv N B G s" and i: "i < 8" "p \<in> set (class_pages G i)" "k < nslots i"
    and x: "x \<in> bytes (p + slab_hhdm s + slot_off i k) (csize i)"
  obtains d where "x = p + slab_hhdm s + d" "unat (slot_off i k) \<le> unat d" "unat d < unat (slot_off i k) + csize i"
    "unat d < 4096" "48 \<le> unat d" "page x = page (p + slab_hhdm s)" "dm_frame (slab_hhdm s) x \<in> blk 0 p"
proof -
  note o = slot_off_bounds [OF i(1,3)] and po = pages_owned [OF i(1,2)]
  obtain d where d: "x = p + slab_hhdm s + d" "unat (slot_off i k) \<le> unat d" "unat d < unat (slot_off i k) + csize i"
    using bytes_off [OF x o(2)] by auto
  have "unat d < 4096" "48 \<le> unat d" using d o by linarith+
  moreover from this have pg: "page x = page (p + slab_hhdm s)"
    unfolding d(1) by (intro page_offset owned_page(3) [OF inv po]) simp
  moreover have "dm_frame (slab_hhdm s) x \<in> blk 0 p" using owned_page(5) [OF inv po pg] blk_first by simp
  ultimately show thesis using d that by blast
qed

lemma large_byte:
  assumes inv: "slab_inv N B G s" and l: "(ord, p) \<in> large_blocks G"
    and x: "x \<in> bytes (p + slab_hhdm s + 16) (4096 * 2 ^ ord - 16)"
  obtains d where "x = p + slab_hhdm s + d" "16 \<le> unat d" "unat d < 4096 * 2 ^ ord" "dm_frame (slab_hhdm s) x \<in> blk ord p"
proof -
  have lo: "(ord, p) \<in> owned G" using l by (simp add: owned_def)
  have ok: "block_ok N ord p" by (rule owned_page(1) [OF inv lo])
  then have ord: "ord \<le> 10" by (simp add: block_ok_def)
  have big: "(4096 :: nat) * 2 ^ ord \<le> 2 ^ 22"
    using power_increasing [OF ord, of "2 :: nat"] by simp
  have "(16 :: nat) \<le> 4096 * 2 ^ ord" using one_le_power [of "2 :: nat" ord] by simp
  then have "unat (16 :: u64) + (4096 * 2 ^ ord - 16) \<le> 4096 * 2 ^ ord" by simp
  from bytes_off [OF x this] big obtain d where d: "x = p + slab_hhdm s + d" "16 \<le> unat d" "unat d < 4096 * 2 ^ ord"
    by auto
  have "dm_frame (slab_hhdm s) x = unat (p + d) div 4096" by (simp add: dm_frame_def d(1) add.assoc)
  also have "unat (p + d) = unat p + unat d"
  proof (rule unat_add_exact)
    obtain q where q: "unat p = 4096 * q" using owned_page(2) [OF inv lo] by (auto simp: aligned_dvd)
    have "blk ord p \<subseteq> {1..<N}" using ok by (simp add: block_ok_def)
    moreover obtain r where r: "(2 :: nat) ^ ord = Suc r" by (metis not0_implies_Suc power_not_zero zero_neq_numeral)
    moreover have "q + r \<in> blk ord p" using q by (simp add: blk_def r)
    ultimately have "q + r < N" by auto
    then have "4096 * (q + 2 ^ ord) \<le> 4096 * N" unfolding r by simp
    also have "\<dots> \<le> 2 ^ 64" using slab_invD(9) [OF inv] by (simp add: direct_map_def)
    finally have "4096 * q + 4096 * 2 ^ ord \<le> 2 ^ 64" by (simp only: distrib_left)
    then show "unat p + unat d < 2 ^ LENGTH(64)" using q d(3) by simp
  qed
  also have "(unat p + unat d) div 4096 = unat p div 4096 + unat d div 4096"
    using owned_page(2) [OF inv lo] by (simp add: aligned_dvd div_plus_div_distrib_dvd_left)
  finally have "dm_frame (slab_hhdm s) x = unat p div 4096 + unat d div 4096" .
  moreover have "unat d div 4096 < 2 ^ ord" using d(3) by (simp add: less_mult_imp_div_less mult.commute)
  ultimately show thesis using d that by (simp add: blk_def)
qed

text \<open>The block a live object lies in.\<close>

definition holder :: "u64 \<Rightarrow> heap_view \<Rightarrow> (u64 \<times> nat) \<Rightarrow> nat \<times> u64 \<Rightarrow> bool" where
  "holder h G ob b \<longleftrightarrow>
     (\<exists>i p k. ob = slot_obj h i p k \<and> i < 8 \<and> p \<in> set (class_pages G i) \<and> k < nslots i \<and> k \<notin> set (page_free G p) \<and> b = (0, p)) \<or>
     (\<exists>ord p. ob = large_obj h ord p \<and> (ord, p) \<in> large_blocks G \<and> b = (ord, p))"

lemma live_holder: "ob \<in> live G h \<longleftrightarrow> (\<exists>b. holder h G ob b)"
  unfolding live_def holder_def by blast

lemma holder_owned: "holder h G ob b \<Longrightarrow> b \<in> owned G"
  by (auto simp: holder_def owned_def pages_def)

lemma holder_frame:
  assumes "slab_inv N B G s" and "holder (slab_hhdm s) G ob b" and "x \<in> bytes (fst ob) (snd ob)"
  shows "dm_frame (slab_hhdm s) x \<in> blk (fst b) (snd b)"
  using assms(2) unfolding holder_def
proof (elim disjE exE conjE)
  fix i p k assume o: "ob = slot_obj (slab_hhdm s) i p k" "i < 8" "p \<in> set (class_pages G i)" "k < nslots i" "b = (0, p)"
  have "x \<in> bytes (p + slab_hhdm s + slot_off i k) (csize i)" using assms(3) o(1) by (simp add: slot_obj_def)
  from slot_byte [OF assms(1) o(2-4) this] o(5) show ?thesis by (metis fst_conv snd_conv)
next
  fix ord p assume o: "ob = large_obj (slab_hhdm s) ord p" "(ord, p) \<in> large_blocks G" "b = (ord, p)"
  have "x \<in> bytes (p + slab_hhdm s + 16) (4096 * 2 ^ ord - 16)" using assms(3) o(1) by (simp add: large_obj_def)
  from large_byte [OF assms(1) o(2) this] o(3) show ?thesis by (metis fst_conv snd_conv)
qed

lemma live_disjoint:
  assumes inv: "slab_inv N B G s" and ob: "ob \<in> live G (slab_hhdm s)" "ob' \<in> live G (slab_hhdm s)" "ob \<noteq> ob'"
  shows "bytes (fst ob) (snd ob) \<inter> bytes (fst ob') (snd ob') = {}"
proof (rule ccontr)
  assume "bytes (fst ob) (snd ob) \<inter> bytes (fst ob') (snd ob') \<noteq> {}"
  then obtain x where x: "x \<in> bytes (fst ob) (snd ob)" "x \<in> bytes (fst ob') (snd ob')" by blast
  obtain b b' where b: "holder (slab_hhdm s) G ob b" "holder (slab_hhdm s) G ob' b'" using ob by (auto simp: live_holder)
  have "b = b'"
    using owned_apart(3) [OF inv, of "fst b" "snd b" "fst b'" "snd b'"] holder_owned [OF b(1)] holder_owned [OF b(2)]
      holder_frame [OF inv b(1) x(1)] holder_frame [OF inv b(2) x(2)] by auto
  then have h': "holder (slab_hhdm s) G ob' b" using b(2) by simp
  have sep: "(0, p) \<notin> large_blocks G" if "i < 8" "p \<in> set (class_pages G i)" for i p
    using slab_invD(4) [OF inv] that by (auto simp: view_ok_def pages_def)
  from b(1) show False
    unfolding holder_def
  proof (elim disjE exE conjE)
    fix i p k assume o: "ob = slot_obj (slab_hhdm s) i p k" "i < 8" "p \<in> set (class_pages G i)" "k < nslots i" "b = (0, p)"
    then obtain i' k' where o': "ob' = slot_obj (slab_hhdm s) i' p k'" "i' < 8" "p \<in> set (class_pages G i')" "k' < nslots i'"
      using h' sep [OF o(2,3)] unfolding holder_def by blast
    have "i' = i" using slab_invD(4) [OF inv] o(2,3) o'(2,3) unfolding view_ok_def by blast
    then have "k \<noteq> k'" "k' < nslots i" using o(1) o'(1,4) ob(3) by auto
    note ap = slots_apart [OF o(2) this(2) o(4) this(1)]
    obtain d where d: "x = p + slab_hhdm s + d" "unat (slot_off i k) \<le> unat d" "unat d < unat (slot_off i k) + csize i"
      using slot_byte [OF inv o(2-4)] x(1) o(1) by (auto simp: slot_obj_def)
    obtain d' where d': "x = p + slab_hhdm s + d'" "unat (slot_off i k') \<le> unat d'" "unat d' < unat (slot_off i k') + csize i"
      using slot_byte [OF inv o(2,3) \<open>k' < nslots i\<close>] x(2) o'(1) \<open>i' = i\<close> by (auto simp: slot_obj_def)
    have "d = d'" using d(1) d'(1) by simp
    from ap show False
    proof
      assume "unat (slot_off i k') + csize i \<le> unat (slot_off i k)"
      then show False using d(2) d'(3) \<open>d = d'\<close> by simp
    next
      assume "unat (slot_off i k) + csize i \<le> unat (slot_off i k')"
      then show False using d(3) d'(2) \<open>d = d'\<close> by simp
    qed
  next
    fix ord p assume o: "ob = large_obj (slab_hhdm s) ord p" "(ord, p) \<in> large_blocks G" "b = (ord, p)"
    have "ob' = large_obj (slab_hhdm s) ord p" using h' sep o(2,3) unfolding holder_def by blast
    then show False using o(1) ob(3) by simp
  qed
qed

end
