(* ===== verification/Slab_Alloc.thy ===== *)
theory Slab_Alloc
  imports Slab_Heap
begin

text \<open>
  \<open>kmalloc\<close>, \<open>kfree\<close> and the rest of \<^verbatim>\<open>core/mm/slab.h\<close> against the set of live objects, and the
  contract \<open>object_heap\<close> that the kernel's other components use the heap through.
\<close>

subsection \<open>How the view changes the live objects\<close>

definition with_free :: "heap_view \<Rightarrow> u64 \<Rightarrow> nat list \<Rightarrow> heap_view" where
  "with_free G q ks = G\<lparr>page_free := (page_free G)(q := ks)\<rparr>"

lemma with_free_view [simp]:
  "class_pages (with_free G q ks) = class_pages G" "large_blocks (with_free G q ks) = large_blocks G"
  "page_free (with_free G q ks) = (page_free G)(q := ks)" "owned (with_free G q ks) = owned G"
  by (simp_all add: with_free_def owned_def pages_def)

lemma slot_live:
  "i < 8 \<Longrightarrow> p \<in> set (class_pages G i) \<Longrightarrow> k < nslots i \<Longrightarrow> k \<notin> set (page_free G p) \<Longrightarrow> slot_obj h i p k \<in> live G h"
  unfolding live_def by blast

lemma large_live: "(ord, p) \<in> large_blocks G \<Longrightarrow> large_obj h ord p \<in> live G h"
  unfolding live_def by blast

lemma class_unique: "view_ok G \<Longrightarrow> i < 8 \<Longrightarrow> j < 8 \<Longrightarrow> p \<in> set (class_pages G i) \<Longrightarrow> p \<in> set (class_pages G j) \<Longrightarrow> i = j"
  unfolding view_ok_def by blast

lemma live_pop:
  assumes "view_ok G" and i: "i < 8" "q \<in> set (class_pages G i)" and fr: "page_free G q = k # ks" "k \<notin> set ks" "k < nslots i"
  shows "live (with_free G q ks) h = insert (slot_obj h i q k) (live G h)"
proof (intro set_eqI iffI)
  fix ob assume "ob \<in> live (with_free G q ks) h"
  then show "ob \<in> insert (slot_obj h i q k) (live G h)"
  proof (cases rule: live_cases)
    case (slot j p k')
    then show ?thesis
    proof (cases "p = q \<and> k' = k")
      case True
      then show ?thesis using slot class_unique [OF assms(1) i(1) slot(2) i(2)] by auto
    next
      case False
      then have "k' \<notin> set (page_free G p)" using slot(5) fr(1) by (auto split: if_splits)
      then show ?thesis using slot by (auto intro: slot_live)
    qed
  next
    case (large ord p)
    then show ?thesis by (auto intro: large_live)
  qed
next
  fix ob assume "ob \<in> insert (slot_obj h i q k) (live G h)"
  then show "ob \<in> live (with_free G q ks) h"
  proof (elim insertE)
    assume "ob = slot_obj h i q k"
    then show ?thesis using i fr by (auto intro: slot_live)
  next
    assume "ob \<in> live G h"
    then show ?thesis
    proof (cases rule: live_cases)
      case (slot j p k')
      then have "k' \<notin> set (page_free (with_free G q ks) p)" using fr(1) by auto
      then show ?thesis using slot by (auto intro: slot_live)
    next
      case (large ord p)
      then show ?thesis by (auto intro: large_live)
    qed
  qed
qed

lemma live_grown:
  assumes "i < 8" and "p \<notin> pages G"
  shows "live (grown G i p) h = live G h"
proof (intro set_eqI iffI)
  fix ob assume "ob \<in> live (grown G i p) h"
  then show "ob \<in> live G h"
  proof (cases rule: live_cases)
    case (slot j q k)
    have "q \<noteq> p"
    proof
      assume "q = p"
      then have "j = i" using slot(2,3) assms(2) grown_view(5) [OF assms(1), of G p j] by (auto simp: pages_def split: if_splits)
      then show False using slot(4,5) \<open>q = p\<close> grown_view(4) [OF assms(1), of G p] by simp
    qed
    then show ?thesis
      using slot grown_view(4,5) [OF assms(1), of G p] by (auto intro!: slot_live split: if_splits)
  next
    case (large ord q)
    then show ?thesis using grown_view(1) [OF assms(1)] by (auto intro: large_live)
  qed
next
  fix ob assume "ob \<in> live G h"
  then show "ob \<in> live (grown G i p) h"
  proof (cases rule: live_cases)
    case (slot j q k)
    then have "q \<noteq> p" using assms(2) by (auto simp: pages_def)
    then show ?thesis using slot grown_view(4,5) [OF assms(1), of G p] by (auto intro!: slot_live)
  next
    case (large ord q)
    then show ?thesis using grown_view(1) [OF assms(1)] by (auto intro: large_live)
  qed
qed

text \<open>Two slots with the same address are the same.\<close>

lemma slot_obj_inj:
  assumes inv: "slab_inv N B G s" and a: "i < 8" "p \<in> set (class_pages G i)" "k < nslots i"
    and b: "j < 8" "q \<in> set (class_pages G j)" "l < nslots j"
    and eq: "p + slab_hhdm s + slot_off i k = q + slab_hhdm s + slot_off j l"
  shows "p = q" and "i = j" and "k = l"
proof -
  have "page (p + slab_hhdm s + slot_off i k) = page (p + slab_hhdm s)"
    using slot_off_bounds(3) [OF a(1,3)] by (intro page_offset owned_page(3) [OF inv pages_owned [OF a(1,2)]]) simp
  moreover have "page (q + slab_hhdm s + slot_off j l) = page (q + slab_hhdm s)"
    using slot_off_bounds(3) [OF b(1,3)] by (intro page_offset owned_page(3) [OF inv pages_owned [OF b(1,2)]]) simp
  ultimately have "page (p + slab_hhdm s) = page (q + slab_hhdm s)" using eq by simp
  then show pq: "p = q" using owned_apart(2) [OF inv pages_owned [OF a(1,2)] pages_owned [OF b(1,2)]] by blast
  then show ij: "i = j" using class_unique [OF slab_invD(4) [OF inv] a(1) b(1) a(2)] b(2) by simp
  show "k = l" using slot_off_inj [OF b(1,3), of k] a(3) eq pq ij by simp
qed

lemma slot_not_large:
  assumes inv: "slab_inv N B G s" and a: "i < 8" "p \<in> set (class_pages G i)" "k < nslots i" and l: "(ord, q) \<in> large_blocks G"
  shows "p + slab_hhdm s + slot_off i k \<noteq> q + slab_hhdm s + 16"
proof
  assume eq: "p + slab_hhdm s + slot_off i k = q + slab_hhdm s + 16"
  have lo: "(ord, q) \<in> owned G" using l by (simp add: owned_def)
  have "page (p + slab_hhdm s + slot_off i k) = page (p + slab_hhdm s)"
    using slot_off_bounds(3) [OF a(1,3)] by (intro page_offset owned_page(3) [OF inv pages_owned [OF a(1,2)]]) simp
  moreover have "page (q + slab_hhdm s + 16) = page (q + slab_hhdm s)" by (intro page_offset owned_page(3) [OF inv lo]) simp
  ultimately have "page (p + slab_hhdm s) = page (q + slab_hhdm s)" using eq by simp
  then have "(0, p) = (ord, q)" using owned_apart(2) [OF inv pages_owned [OF a(1,2)] lo] by blast
  then show False using slab_invD(4) [OF inv] a l by (auto simp: view_ok_def pages_def)
qed

lemma live_push:
  assumes inv: "slab_inv N B G s" and i: "i < 8" "q \<in> set (class_pages G i)" "k < nslots i" "k \<notin> set (page_free G q)"
  shows "live (with_free G q (k # page_free G q)) (slab_hhdm s) = live G (slab_hhdm s) - {slot_obj (slab_hhdm s) i q k}"
    (is "?L = ?R")
proof (intro set_eqI iffI)
  fix ob assume "ob \<in> ?L"
  then show "ob \<in> ?R"
  proof (cases rule: live_cases)
    case (slot j p l)
    then have "(p, l) \<noteq> (q, k)" "l \<notin> set (page_free G p)" by (auto split: if_splits)
    then have "ob \<noteq> slot_obj (slab_hhdm s) i q k"
      using slot slot_obj_inj(1,3) [OF inv _ _ _ i(1-3), of j p l] by (auto simp: slot_obj_def)
    then show ?thesis using slot \<open>l \<notin> set (page_free G p)\<close> by (auto intro: slot_live)
  next
    case (large ord p)
    then have "ob \<noteq> slot_obj (slab_hhdm s) i q k"
      using slot_not_large [OF inv i(1-3), of ord p] by (auto simp: slot_obj_def large_obj_def)
    then show ?thesis using large by (auto intro: large_live)
  qed
next
  fix ob assume o: "ob \<in> ?R"
  then have "ob \<in> live G (slab_hhdm s)" by simp
  then show "ob \<in> ?L"
  proof (cases rule: live_cases)
    case (slot j p l)
    have "p = q \<longrightarrow> l \<noteq> k" using o slot class_unique [OF slab_invD(4) [OF inv] i(1) slot(2) i(2)] by auto
    then have "l \<notin> set (page_free (with_free G q (k # page_free G q)) p)" using slot(5) by auto
    then show ?thesis using slot by (auto intro: slot_live)
  next
    case (large ord p)
    then show ?thesis by (auto intro: large_live)
  qed
qed

subsection \<open>Taking a slot\<close>

lemma free_slots_page:
  assumes "slab_inv N B G s" and "i < 8" and "q \<in> set (class_pages G i)"
  shows "slab_page (mem s) (q + slab_hhdm s) i (cache_ptr i s) (page_free G q)"
    and "distinct (page_free G q)" and "set (page_free G q) \<subseteq> {..<nslots i}"
proof -
  show "slab_page (mem s) (q + slab_hhdm s) i (cache_ptr i s) (page_free G q)"
    using slab_invD(6) [OF assms(1,2)] assms(3) by (simp add: cache_ok_def Let_def)
  then show "distinct (page_free G q)" "set (page_free G q) \<subseteq> {..<nslots i}" by (simp_all add: slab_page_def)
qed

lemma pop_slot_spec:
  assumes inv: "slab_inv N B G s" and i: "i < 8" "q \<in> set (class_pages G i)" and fr: "page_free G q = k # ks"
  shows "\<exists>t. pop_slot i (q + slab_hhdm s) s = (q + slab_hhdm s + slot_off i k, t) \<and> slab_inv N B (with_free G q ks) t \<and>
    slab_step (frames_of (owned G)) s t \<and> k < nslots i \<and>
    live (with_free G q ks) (slab_hhdm s) = insert (slot_obj (slab_hhdm s) i q k) (live G (slab_hhdm s)) \<and>
    slot_obj (slab_hhdm s) i q k \<notin> live G (slab_hhdm s) \<and>
    (\<forall>x. (\<forall>d. x = q + slab_hhdm s + d \<longrightarrow> 48 \<le> unat d) \<longrightarrow> mem t x = mem s x)"
proof -
  let ?b = "q + slab_hhdm s"
  note pg = free_slots_page [OF inv i] and al = owned_page(3) [OF inv pages_owned [OF i]]
  have k: "k < nslots i" "k \<notin> set ks" using pg(2,3) fr by auto
  define m1 where "m1 = store64 (mem s) (?b + 24) (load64 (mem s) (sl_free (mem s) ?b))"
  define m2 where "m2 = store32 m1 (?b + 32) (sl_free_count m1 ?b - 1)"
  note pop = pop_page [OF pg(1) [unfolded fr] i(1), folded m1_def, folded m2_def]
  define t where "t = set_cache i ((caches s ! i)\<lparr>free_slots := free_slots (caches s ! i) - 1\<rparr>) (s\<lparr>mem := m2\<rparr>)"
  have eq: "pop_slot i ?b s = (?b + slot_off i k, t)"
    using pop(1) by (simp add: pop_slot_def Let_def put64_def put32_def m1_def m2_def t_def set_cache_def)
  have off: "m2 x = mem s x" if "page x \<noteq> page ?b" for x
    using page_header [OF al that] by (simp add: m2_def m1_def)
  have "slab_inv N B (with_free G q ks) t"
    unfolding t_def with_free_def by (rule slab_inv_page [OF inv i off pop(2,3)]) (simp_all add: fr)
  moreover have "slab_step (frames_of (owned G)) s t"
    unfolding t_def using off owned_page(6) [OF inv pages_owned [OF i]] by (intro slab_step_set_cache) blast
  moreover have "mem t x = mem s x" if x: "\<And>d. x = ?b + d \<Longrightarrow> 48 \<le> unat d" for x
  proof (cases "page x = page ?b")
    case True
    have "unat (x - ?b) < 4096" by (rule page_eq_near [OF True al])
    then show ?thesis using pop(4) [of "x - ?b"] x [of "x - ?b"] by (simp add: t_def set_cache_def)
  next
    case False
    then show ?thesis using off by (simp add: t_def set_cache_def)
  qed
  moreover have "slot_obj (slab_hhdm s) i q k \<notin> live G (slab_hhdm s)"
  proof
    assume "slot_obj (slab_hhdm s) i q k \<in> live G (slab_hhdm s)"
    then show False
    proof (cases rule: live_cases)
      case (slot j p l)
      then show False using slot_obj_inj [OF inv i k(1) slot(2-4)] fr by (auto simp: slot_obj_def)
    next
      case (large ord p)
      then show False using slot_not_large [OF inv i k(1)] by (auto simp: slot_obj_def large_obj_def)
    qed
  qed
  ultimately show ?thesis
    using eq k live_pop [OF slab_invD(4) [OF inv] i fr k(2,1)] by (intro exI [of _ t]) (simp add: t_def set_cache_def)
qed

lemma find_slab_spec:
  assumes inv: "slab_inv N B G s" and i: "i < 8" and sub: "set ps \<subseteq> set (class_pages G i)"
    and ch: "slab_chain (mem s) (slab_hhdm s) ptr ps"
  shows "\<exists>r. find_slab ptr s = Some r \<and>
    (r = 0 \<and> (\<forall>p \<in> set ps. page_free G p = []) \<or> (\<exists>q \<in> set ps. r = q + slab_hhdm s \<and> r \<noteq> 0 \<and> page_free G q \<noteq> []))"
  using sub ch
proof (induction ps arbitrary: ptr)
  case Nil
  then show ?case by (simp add: find_slab.simps [of 0])
next
  case (Cons p ps)
  then have p: "p \<in> set (class_pages G i)" and ptr: "ptr = p + slab_hhdm s" by auto
  note pg = free_slots_page [OF inv i p]
  have nz: "ptr \<noteq> 0" using owned_page(4) [OF inv pages_owned [OF i p]] ptr by simp
  have "length (page_free G p) \<le> 253" using slots_length [OF pg(2,3)] nslots_bounds [OF i] by simp
  then have "unat (of_nat (length (page_free G p)) :: u32) = length (page_free G p)" by (simp add: unat_of_nat)
  then have zero: "sl_free_count (mem s) ptr = 0 \<longleftrightarrow> page_free G p = []"
    using pg(1) ptr by (simp add: slab_page_def unat_eq_0 [symmetric])
  show ?case
  proof (cases "page_free G p = []")
    case True
    then have "find_slab ptr s = find_slab (sl_next (mem s) ptr) s" using nz zero by (simp add: find_slab.simps [of ptr])
    then show ?thesis using Cons.IH [of "sl_next (mem s) ptr"] Cons.prems ptr True by auto
  next
    case False
    then have "find_slab ptr s = Some ptr" using nz zero by (simp add: find_slab.simps [of ptr])
    then show ?thesis using False ptr nz by auto
  qed
qed

lemma bytes_first: "0 < n \<Longrightarrow> a \<in> bytes a n"
  unfolding bytes_def by (intro CollectI exI [of _ 0]) simp

lemma bytes_mem:
  assumes "unat e \<le> unat d" and "unat d < unat e + n"
  shows "b + d \<in> bytes (b + e) n"
proof -
  let ?j = "unat d - unat e"
  have "?j < 2 ^ 64" using unat_lt2p [of d] by simp
  then have "unat (of_nat ?j :: u64) = ?j" by (simp add: unat_of_nat)
  then have "unat (e + of_nat ?j) = unat d"
    using assms(1) unat_lt2p [of d] unat_add_exact [of e "of_nat ?j"] by simp
  then have "d = e + of_nat ?j" by (simp add: word_unat_eq_iff)
  then have "b + d = b + e + of_nat ?j" by (metis add.assoc)
  moreover have "?j < n" using assms by simp
  ultimately show ?thesis unfolding bytes_def by blast
qed

lemma live_frame:
  assumes inv: "slab_inv N B G s" and ob: "ob \<in> live G (slab_hhdm s)" and x: "x \<in> bytes (fst ob) (snd ob)"
  shows "dm_frame (slab_hhdm s) x \<in> frames_of (owned G)" and "dm_frame (slab_hhdm s) x \<notin> frames_of B"
proof -
  obtain b where b: "holder (slab_hhdm s) G ob b" using ob by (auto simp: live_holder)
  have "(fst b, snd b) \<in> owned G" using holder_owned [OF b] by simp
  from blk_in_frames [OF this] holder_frame [OF inv b x]
  show "dm_frame (slab_hhdm s) x \<in> frames_of (owned G)" by blast
  then show "dm_frame (slab_hhdm s) x \<notin> frames_of B" using slab_invD(3) [OF inv] by (auto simp: custody_def)
qed

text \<open>No live object reaches into the header of a slab page.\<close>

lemma live_off_header:
  assumes inv: "slab_inv N B G s" and ob: "ob \<in> live G (slab_hhdm s)" and x: "x \<in> bytes (fst ob) (snd ob)"
    and i: "i < 8" "q \<in> set (class_pages G i)" and d: "x = q + slab_hhdm s + d"
  shows "48 \<le> unat d"
proof (rule ccontr)
  assume small: "\<not> 48 \<le> unat d"
  note qo = pages_owned [OF i]
  have pg: "page x = page (q + slab_hhdm s)" unfolding d using small by (intro page_offset owned_page(3) [OF inv qo]) simp
  have fr: "dm_frame (slab_hhdm s) x \<in> blk 0 q" using owned_page(5) [OF inv qo pg] blk_first by simp
  from ob show False
  proof (cases rule: live_cases)
    case (slot j p k)
    have "x \<in> bytes (p + slab_hhdm s + slot_off j k) (csize j)" using x slot(1) by (simp add: slot_obj_def)
    from slot_byte [OF inv slot(2-4) this] obtain e where
      e: "x = p + slab_hhdm s + e" "48 \<le> unat e" "page x = page (p + slab_hhdm s)" by metis
    have "p = q" using owned_apart(2) [OF inv pages_owned [OF slot(2,3)] qo] e(3) pg by auto
    then show False using e(1,2) d small by simp
  next
    case (large ord p)
    have "x \<in> bytes (p + slab_hhdm s + 16) (4096 * 2 ^ ord - 16)" using x large(1) by (simp add: large_obj_def)
    from large_byte [OF inv large(2) this] have "dm_frame (slab_hhdm s) x \<in> blk ord p" by metis
    moreover have "(ord, p) \<noteq> (0, q)" using slab_invD(4) [OF inv] i large(2) by (auto simp: view_ok_def pages_def)
    then have "blk ord p \<inter> blk 0 q = {}" using owned_apart(3) [OF inv _ qo] large(2) by (simp add: owned_def)
    ultimately show False using fr by blast
  qed
qed

subsection \<open>Large blocks\<close>

lemma page_shift: "ord \<le> 51 \<Longrightarrow> unat (push_bit ord SLAB_PAGE_SIZE) = 4096 * 2 ^ ord"
proof -
  assume "ord \<le> 51"
  then have "(2 :: nat) ^ (12 + ord) \<le> 2 ^ 63" by (intro power_increasing) simp_all
  then have lt: "(4096 :: nat) * 2 ^ ord < 2 ^ 64" by (simp add: power_add)
  have "push_bit ord SLAB_PAGE_SIZE = of_nat (4096 * 2 ^ ord)" by (simp add: push_bit_eq_mult SLAB_PAGE_SIZE_def)
  then show ?thesis using lt by (simp only: unat_of_nat) simp
qed

lemma order_search_spec:
  assumes "unat n \<le> 2 ^ 63" and "ord \<le> 51" and "\<forall>k < ord. 4096 * 2 ^ k < unat n"
  shows "\<exists>r \<le> 51. order_search ord n = Some r \<and> unat n \<le> 4096 * 2 ^ r \<and> (\<forall>k < r. 4096 * 2 ^ k < unat n)"
  using assms(2,3)
proof (induction "51 - ord" arbitrary: ord)
  case 0
  then have "ord = 51" by simp
  moreover have "\<not> push_bit 51 SLAB_PAGE_SIZE < n" using assms(1) page_shift [of 51] by (simp add: word_less_nat_alt)
  ultimately show ?case
    using 0 assms(1) by (intro exI [of _ 51]) (simp add: order_search.simps [of 51])
next
  case (Suc k)
  show ?case
  proof (cases "push_bit ord SLAB_PAGE_SIZE < n")
    case True
    then have "\<forall>k < Suc ord. 4096 * 2 ^ k < unat n"
      using Suc.prems page_shift [of ord] by (auto simp: word_less_nat_alt less_Suc_eq)
    moreover have "order_search ord n = order_search (Suc ord) n"
      using True Suc.prems by (simp add: order_search.simps [of ord])
    ultimately show ?thesis using Suc.hyps(1) [of "Suc ord"] Suc.hyps(2) by simp
  next
    case False
    then have "order_search ord n = Some ord" using Suc.prems by (simp add: order_search.simps [of ord])
    moreover have "unat n \<le> 4096 * 2 ^ ord" using False page_shift [OF Suc.prems(1)] by (simp add: word_less_nat_alt not_less)
    ultimately show ?thesis using Suc.prems by auto
  qed
qed

definition with_large :: "heap_view \<Rightarrow> nat \<Rightarrow> u64 \<Rightarrow> heap_view" where
  "with_large G ord p = G\<lparr>large_blocks := insert (ord, p) (large_blocks G)\<rparr>"

lemma with_large_view [simp]:
  "class_pages (with_large G ord p) = class_pages G" "page_free (with_large G ord p) = page_free G"
  "large_blocks (with_large G ord p) = insert (ord, p) (large_blocks G)" "pages (with_large G ord p) = pages G"
  "owned (with_large G ord p) = insert (ord, p) (owned G)"
  by (auto simp: with_large_def owned_def pages_def)

lemma live_large: "live (with_large G ord p) h = insert (large_obj h ord p) (live G h)"
  by (auto simp: live_def)

lemma slab_inv_large:
  assumes inv: "slab_inv N B G s" and cust: "custody N B (insert (ord, p) (owned G))" "(ord, p) \<notin> owned G"
    and apart: "blk ord p \<inter> frames_of (owned G) = {}" and al: "aligned 12 p"
  defines "m \<equiv> store32 (store64 (mem s) (p + slab_hhdm s) LARGE_MAGIC) (p + slab_hhdm s + 8) (of_nat ord)"
  shows "slab_inv N B (with_large G ord p) (s\<lparr>mem := m\<rparr>)"
proof -
  note I = slab_invD [OF inv]
  let ?h = "slab_hhdm s" and ?G = "with_large G ord p" and ?t = "s\<lparr>mem := m\<rparr>"
  have alb: "aligned 12 (p + ?h)" using al I(8) by blast
  have off: "m x = mem s x" if "page x \<noteq> page (p + ?h)" for x using page_header [OF alb that] by (simp add: m_def)
  have apart': "page (q + ?h) \<noteq> page (p + ?h)" if q: "(ord', q) \<in> owned G" for ord' q
  proof
    assume "page (q + ?h) = page (p + ?h)"
    then have "dm_frame ?h (q + ?h) = unat p div 4096" by (rule dm_frame_page [OF al I(8)])
    then have "dm_frame ?h (q + ?h) \<in> blk ord p" using blk_first by simp
    then show False using owned_page(6) [OF inv q refl] apart by blast
  qed
  have bud: "buddy_inv N B ?t"
  proof (rule buddy_inv_frame [OF I(1)])
    fix x assume x: "dm_frame (buddy_hhdm s) x \<in> frames_of B"
    have "unat p div 4096 \<notin> frames_of B" using cust(1) blk_first [of p ord] by (auto simp: custody_def)
    then have "page x \<noteq> page (p + ?h)" using dm_frame_page [OF al I(8), of x] x I(2) by auto
    then show "mem ?t x = mem s x" using off by simp
  qed simp_all
  have "cache_ok ?G j ?t" if j: "j < 8" for j
  proof -
    have old: "slab_page m (q + ?h) j (cache_ptr j s) (page_free G q) \<and> sl_next m (q + ?h) = sl_next (mem s) (q + ?h)"
      if "q \<in> set (class_pages G j)" for q
      by (rule other_pages(1) [OF inv off j that apart' [OF pages_owned [OF j that]]])
    have "slab_chain m ?h (slabs (caches s ! j)) (class_pages G j) = slab_chain (mem s) ?h (slabs (caches s ! j)) (class_pages G j)"
      by (rule slab_chain_cong) (use old in blast)
    then show ?thesis using I(6) [OF j] old by (simp add: cache_ok_def Let_def cache_ptr_def)
  qed
  moreover have "large_page m (q + ?h) o'" if "(o', q) \<in> insert (ord, p) (large_blocks G)" for o' q
  proof (cases "(o', q) = (ord, p)")
    case True
    then show ?thesis by (simp add: large_page_def m_def lh_order_def off_frame)
  next
    case False
    then have l: "(o', q) \<in> large_blocks G" using that by blast
    then have "(o', q) \<in> owned G" by (simp add: owned_def)
    from apart' [OF this] show ?thesis using other_pages(2) [OF inv, of "p + ?h" m, OF off l] by simp
  qed
  moreover have "view_ok ?G" using I(4) cust(2) by (auto simp: view_ok_def owned_def)
  ultimately show ?thesis using bud cust(1) I(2,5) by (auto simp: slab_inv_def)
qed

text \<open>
  The heap after an allocation: the new object was not live and is now, nothing else changes, and
  the bytes of the objects there were stay as they are.
\<close>

definition new_object :: "nat \<Rightarrow> (nat \<times> u64) set \<Rightarrow> heap_view \<Rightarrow> 'a slab_scheme \<Rightarrow> u64 \<times> nat \<Rightarrow> 'a slab_scheme \<Rightarrow> bool" where
  "new_object N B G s ob t \<longleftrightarrow> ob \<notin> live G (slab_hhdm s) \<and> slab_step (managed B G) s t \<and>
     (\<exists>B' G'. slab_inv N B' G' t \<and> live G' (slab_hhdm s) = insert ob (live G (slab_hhdm s)) \<and> managed B' G' = managed B G) \<and>
     (\<forall>ob' \<in> live G (slab_hhdm s). \<forall>x \<in> bytes (fst ob') (snd ob'). mem t x = mem s x)"

definition object_ok :: "u64 \<times> nat \<Rightarrow> u64 \<Rightarrow> bool" where
  "object_ok ob n \<longleftrightarrow> fst ob \<noteq> 0 \<and> aligned 4 (fst ob) \<and> unat n \<le> snd ob"

lemma header16: "aligned 12 b \<Longrightarrow> aligned 4 (b + 16)"
  by (rule aligned_add) (auto elim: aligned_mono simp: aligned_def)

lemma in_page_nonzero:
  assumes "direct_map h N" and "block_ok N ord p" and "aligned 12 p" and "unat d < 4096"
  shows "p + h + d \<noteq> 0"
proof -
  have "aligned 12 h" using assms(1) by (simp add: direct_map_def)
  then have "page (p + h + d) = page (p + h)" using assms(3,4) by (intro page_offset) auto
  moreover have "page (p + h) \<noteq> page 0"
    using page_eq_iff [of "p + h" 0] block_node(2) [OF assms(1,2)] \<open>aligned 12 h\<close> assms(3) by auto
  ultimately show ?thesis by metis
qed

lemma large_alloc_spec:
  assumes inv: "slab_inv N B G s" and sz: "unat n + 16 \<le> 2 ^ 63"
  shows "\<exists>a t. large_alloc n s = Some (a, t) \<and>
    (a = 0 \<and> t = s \<and> (\<forall>(j, q) \<in> B. 4096 * 2 ^ j < unat n + 16) \<or>
     (\<exists>c. object_ok (a, c) n \<and> new_object N B G s (a, c) t))"
proof -
  note I = slab_invD [OF inv]
  have doff: "align_up sizeof_large_hdr SLAB_ALIGN = 16" by (simp add: align_up_def sizeof_large_hdr_def SLAB_ALIGN_def)
  have un: "unat (16 + n) = unat n + 16" using sz unat_add_exact [of 16 n] by simp
  obtain ord where ord: "order_for_bytes (16 + n) = Some ord" "unat n + 16 \<le> 4096 * 2 ^ ord"
    "\<forall>k < ord. 4096 * 2 ^ k < unat n + 16"
    using order_search_spec [of "16 + n" 0] sz un by (auto simp: order_for_bytes_def)
  obtain p s1 where a: "buddy_alloc ord s = (p, s1)" by (metis prod.exhaust)
  from inv a show ?thesis
  proof (cases rule: block_taken)
    case none
    then have "large_alloc n s = Some (0, s)" using a ord(1) by (simp add: large_alloc_def doff Let_def)
    moreover have "4096 * 2 ^ j < unat n + 16" if "(j, q) \<in> B" for j q
      using none that ord(3) by (meson not_le)
    ultimately show ?thesis using none by blast
  next
    case (block B')
    let ?h = "slab_hhdm s"
    have alb: "aligned 12 (p + ?h)" using block(3) I(8) by blast
    let ?m = "store32 (store64 (mem s1) (p + ?h) LARGE_MAGIC) (p + ?h + 8) (of_nat ord)" and ?ob = "large_obj ?h ord p"
    have g: "slab_inv N B' (with_large G ord p) (s1\<lparr>mem := ?m\<rparr>)"
      using slab_inv_large [OF block(6,7,4,5,3)] by (simp add: block)
    have eq: "large_alloc n s = Some (p + ?h + 16, s1\<lparr>mem := ?m\<rparr>)"
      using a ord(1) block(1) by (simp add: large_alloc_def doff Let_def put64_def put32_def block)
    have fresh: "?ob \<notin> live G ?h"
    proof
      assume l: "?ob \<in> live G ?h"
      have "4096 * 1 \<le> 4096 * (2 :: nat) ^ ord" by (intro mult_le_mono2 one_le_power) simp
      then have "0 < 4096 * 2 ^ ord - (16 :: nat)" by linarith
      then have "fst ?ob \<in> bytes (fst ?ob) (snd ?ob)" by (intro bytes_first) (simp add: large_obj_def)
      from live_frame(1) [OF inv l this] block(5,13) page_offset [OF alb, of 16]
      show False by (auto simp: large_obj_def)
    qed
    have "?m x = mem s x" if ob: "ob' \<in> live G ?h" "x \<in> bytes (fst ob') (snd ob')" for ob' x
    proof -
      note fr = live_frame(1) [OF inv ob]
      then have "page x \<noteq> page (p + ?h)" using block(5,13) by blast
      then show ?thesis using block(14) fr page_header [OF alb] by simp
    qed
    moreover have "managed B' (with_large G ord p) = managed B G" using block(8) by (auto simp: managed_def)
    moreover have "slab_step (managed B G) s1 (s1\<lparr>mem := ?m\<rparr>)"
    proof (rule slab_step_put [where m = ?m and l = "free_list s1" and c = "free_count s1" and k = "caches s1"])
      fix x assume "dm_frame (slab_hhdm s1) x \<notin> managed B G"
      then have "page x \<noteq> page (p + ?h)" using block(8,11,13) by (auto simp: managed_def)
      then show "?m x = mem s1 x" using page_header [OF alb] by simp
    qed simp
    then have "slab_step (managed B G) s (s1\<lparr>mem := ?m\<rparr>)" by (rule slab_step_trans [OF block(9)])
    ultimately have "new_object N B G s ?ob (s1\<lparr>mem := ?m\<rparr>)"
      unfolding new_object_def using fresh g live_large [of G ord p ?h] block(11) by auto
    moreover have "object_ok ?ob n"
      using ord(2) header16 [OF alb] in_page_nonzero [OF I(9) block(2,3), of 16] by (simp add: object_ok_def large_obj_def)
    ultimately show ?thesis using eq by (auto simp: large_obj_def)
  qed
qed

subsection \<open>Allocation\<close>

lemma find_class_spec: "find_class i ns n = Some j \<Longrightarrow> \<exists>k < length ns. j = i + k \<and> n \<le> ns ! k"
proof (induction i ns n rule: find_class.induct)
  case (2 i m ns n)
  show ?case
  proof (cases "n \<le> m")
    case True
    then show ?thesis using "2.prems" by (intro exI [of _ 0]) simp
  next
    case False
    then obtain k where "k < length ns" "j = Suc i + k" "n \<le> ns ! k" using 2 by auto
    then show ?thesis by (intro exI [of _ "Suc k"]) simp
  qed
qed simp

lemma class_found:
  assumes "find_class 0 class_sizes n = Some i"
  shows "i < 8" and "unat n \<le> csize i"
proof -
  have i: "i < 8 \<and> n \<le> class_sizes ! i" using find_class_spec [OF assms] by (simp add: class_sizes_def)
  then show "i < 8" by simp
  have "unat (of_nat (csize i) :: u64) = csize i" using csize_bounds [of i] i by (simp add: unat_of_nat)
  then show "unat n \<le> csize i" using i class_size [of i] by (simp add: word_le_nat_alt)
qed

lemma pop_new_object:
  assumes inv: "slab_inv N B G s" and i: "i < 8" "q \<in> set (class_pages G i)" and fr: "page_free G q \<noteq> []" and sz: "unat n \<le> csize i"
  shows "\<exists>a t. pop_slot i (q + slab_hhdm s) s = (a, t) \<and> object_ok (a, csize i) n \<and> new_object N B G s (a, csize i) t"
proof -
  obtain k ks where ks: "page_free G q = k # ks" using fr by (cases "page_free G q") auto
  let ?h = "slab_hhdm s"
  note qo = pages_owned [OF i]
  obtain t where t: "pop_slot i (q + ?h) s = (q + ?h + slot_off i k, t)" "slab_inv N B (with_free G q ks) t"
    "slab_step (frames_of (owned G)) s t" "k < nslots i" "live (with_free G q ks) ?h = insert (slot_obj ?h i q k) (live G ?h)"
    "slot_obj ?h i q k \<notin> live G ?h" "\<And>x. \<forall>d. x = q + ?h + d \<longrightarrow> 48 \<le> unat d \<Longrightarrow> mem t x = mem s x"
    using pop_slot_spec [OF inv i ks] by blast
  note o = slot_off_bounds [OF i(1) t(4)]
  have "aligned 4 (q + ?h)" using owned_page(3) [OF inv qo] by (rule aligned_mono) simp
  moreover have "aligned 4 (slot_off i k)" using o(5) by (simp add: aligned_def)
  ultimately have "object_ok (q + ?h + slot_off i k, csize i) n"
    using sz in_page_nonzero [OF slab_invD(9) [OF inv] owned_page(1,2) [OF inv qo], of "slot_off i k"] o(3)
    by (simp add: object_ok_def aligned_add)
  moreover have "new_object N B G s (q + ?h + slot_off i k, csize i) t"
    unfolding new_object_def
  proof (intro conjI ballI)
    have "managed B (with_free G q ks) = managed B G" by (simp add: managed_def)
    then show "\<exists>B' G'. slab_inv N B' G' t \<and> live G' ?h = insert (q + ?h + slot_off i k, csize i) (live G ?h) \<and> managed B' G' = managed B G"
      using t(2,5) unfolding slot_obj_def by blast
    show "slab_step (managed B G) s t" using t(3) by (rule slab_step_mono) (simp add: managed_def)
    fix ob x assume ob: "ob \<in> live G ?h" "x \<in> bytes (fst ob) (snd ob)"
    show "mem t x = mem s x" using live_off_header [OF inv ob i] by (intro t(7)) blast
  qed (use t(6) in \<open>simp add: slot_obj_def\<close>)
  ultimately show ?thesis using t(1) by blast
qed

lemma kmalloc_spec:
  assumes inv: "slab_inv N B G s" and sz: "unat n + 16 \<le> 2 ^ 63"
  shows "\<exists>a t. kmalloc n s = Some (a, t) \<and>
    (a = 0 \<and> t = s \<and> (n = 0 \<or> (\<forall>(j, q) \<in> B. 4096 * 2 ^ j < unat n + 16)) \<or>
     n \<noteq> 0 \<and> (\<exists>c. object_ok (a, c) n \<and> new_object N B G s (a, c) t))"
proof (cases "n = 0 \<or> find_class 0 class_sizes n = None")
  case True
  then show ?thesis using large_alloc_spec [OF inv sz] by (cases "n = 0") (auto simp: kmalloc_def)
next
  case False
  then obtain i where nz: "n \<noteq> 0" and cl: "find_class 0 class_sizes n = Some i" by auto
  note i = class_found [OF cl]
  let ?h = "slab_hhdm s"
  have "slab_chain (mem s) ?h (slabs (caches s ! i)) (class_pages G i)"
    using slab_invD(6) [OF inv i(1)] by (simp add: cache_ok_def Let_def)
  from find_slab_spec [OF inv i(1) subset_refl this] obtain r where r: "find_slab (slabs (caches s ! i)) s = Some r"
    "r = 0 \<and> (\<forall>p \<in> set (class_pages G i). page_free G p = []) \<or>
     (\<exists>q \<in> set (class_pages G i). r = q + ?h \<and> r \<noteq> 0 \<and> page_free G q \<noteq> [])" by blast
  show ?thesis
  proof (cases "r = 0")
    case False
    then obtain q where q: "q \<in> set (class_pages G i)" "r = q + ?h" "page_free G q \<noteq> []" using r(2) by blast
    obtain a t where "pop_slot i r s = (a, t)" "object_ok (a, csize i) n" "new_object N B G s (a, csize i) t"
      using pop_new_object [OF inv i(1) q(1,3) i(2)] q(2) by blast
    moreover have "kmalloc n s = Some (pop_slot i r s)" using nz cl r(1) False by (simp add: kmalloc_def)
    ultimately show ?thesis using nz by auto
  next
    case True
    from cache_grow_spec [OF inv i(1)] show ?thesis
    proof (elim disjE exE conjE)
      assume g: "cache_grow i s = Some (0, s)" "B = {}"
      then have "kmalloc n s = Some (0, s)" using nz cl r(1) True by (simp add: kmalloc_def)
      then show ?thesis using g(2) by auto
    next
      fix p B' s1
      assume g: "cache_grow i s = Some (p + ?h, s1)" "p + ?h \<noteq> 0" "slab_inv N B' (grown G i p) s1" "(0, p) \<notin> owned G"
        and man: "managed B' (grown G i p) = managed B G" and st: "slab_step (managed B G) s s1" and g'':
        "\<forall>x. dm_frame ?h x \<in> frames_of (owned G) \<longrightarrow> mem s1 x = mem s x"
      note g' = slab_stepD(1) [OF st] g''
      have new: "p \<notin> pages G" using g(4) by (auto simp: owned_def)
      have mem: "p \<in> set (class_pages (grown G i p) i)" "page_free (grown G i p) p \<noteq> []"
        using grown_view(4,5) [OF i(1), of G p] nslots_bounds [OF i(1)] by auto
      obtain a t where a: "pop_slot i (p + ?h) s1 = (a, t)" "object_ok (a, csize i) n" "new_object N B' (grown G i p) s1 (a, csize i) t"
        using pop_new_object [OF g(3) i(1) mem i(2)] g'(1) by auto
      have "kmalloc n s = Some (a, t)" using nz cl r(1) True g(1,2) a(1) by (simp add: kmalloc_def)
      moreover have "new_object N B G s (a, csize i) t"
        using a(3) live_frame(1) [OF inv] g' slab_step_trans [OF st] unfolding new_object_def live_grown [OF i(1) new] man by simp
      ultimately show ?thesis using a(2) nz by blast
    qed
  qed
qed

text \<open>When an allocation fails: the counter of free slots, and the buddy allocator's answer, decide.\<close>

lemma class_least:
  assumes "find_class 0 class_sizes n = Some i"
  shows "i < 8" and "unat n \<le> 2048" and "unat n \<le> csize j \<and> (\<forall>k < j. csize k < unat n) \<longleftrightarrow> j = i"
proof -
  have f: "find_class 0 [16, 32, 64, 128, 256, 512, 1024, 2048] n = Some i" using assms by (simp add: class_sizes_def)
  note i = class_found [OF assms]
  show "i < 8" by (rule i(1))
  show "unat n \<le> 2048" using i csize_bounds [of i] by simp
  have low: "csize k < unat n" if "k < i" for k
  proof -
    have "k < 8" "n > class_sizes ! k" using f that class_cases [OF i(1)]
      by (auto simp: class_sizes_def less_Suc_eq eval_nat_numeral split: if_splits)
    moreover from this(1) have "unat (of_nat (csize k) :: u64) = csize k" using csize_bounds [of k] by (simp add: unat_of_nat)
    ultimately show ?thesis using class_size [of k] by (simp add: word_less_nat_alt)
  qed
  show "unat n \<le> csize j \<and> (\<forall>k < j. csize k < unat n) \<longleftrightarrow> j = i"
    using i(2) low by (metis linorder_neqE_nat not_le)
qed

lemma class_none: "find_class 0 class_sizes n = None \<longleftrightarrow> 2048 < unat n"
  by (auto simp: class_sizes_def word_le_nat_alt)

lemma buddy_null:
  assumes "buddy_inv N B s"
  shows "fst (buddy_alloc ord s) = 0 \<longleftrightarrow> (\<forall>j q. ord \<le> j \<longrightarrow> (j, q) \<notin> B)"
  using blocks.alloc_none [OF assms, of ord] blocks.alloc_block [OF assms, of ord] block_ok_nonzero by fastforce

lemma class_pages_le:
  assumes inv: "slab_inv N B G s" and i: "i < 8"
  shows "length (class_pages G i) \<le> N"
proof -
  let ?f = "\<lambda>p :: u64. unat p div 4096"
  have "?f p = ?f q \<Longrightarrow> p = q" if "p \<in> set (class_pages G i)" "q \<in> set (class_pages G i)" for p q
    using owned_apart(3) [OF inv pages_owned [OF i that(1)] pages_owned [OF i that(2)]] blk_first [of p 0] blk_first [of q 0] by (metis IntI empty_iff prod.inject)
  then have "inj_on ?f (set (class_pages G i))" by (auto intro: inj_onI)
  moreover have "?f ` set (class_pages G i) \<subseteq> {..<N}"
  proof clarify
    fix p assume "p \<in> set (class_pages G i)"
    from owned_page(1) [OF inv pages_owned [OF i this]] have "blk 0 p \<subseteq> {1..<N}" by (simp add: block_ok_def)
    then show "unat p div 4096 < N" using blk_first [of p 0] by (metis atLeastLessThan_iff subsetD)
  qed
  ultimately have "card (set (class_pages G i)) \<le> N" using card_image card_mono [of "{..<N}"] by (metis card_lessThan finite_lessThan)
  then show ?thesis using slab_invD(4) [OF inv] i by (simp add: view_ok_def distinct_card)
qed

lemma class_full:
  assumes inv: "slab_inv N B G s" and i: "i < 8"
  shows "free_slots (caches s ! i) = 0 \<longleftrightarrow> (\<forall>p \<in> set (class_pages G i). page_free G p = [])"
proof -
  let ?F = "sum_list (map (length \<circ> page_free G) (class_pages G i))"
  have "length (page_free G p) \<le> 253" if "p \<in> set (class_pages G i)" for p
  proof -
    have "card (set (page_free G p)) \<le> card {..<nslots i}" using free_slots_page(3) [OF inv i that] by (intro card_mono) auto
    then show ?thesis using nslots_bounds [OF i] distinct_card [OF free_slots_page(2) [OF inv i that]] by simp
  qed
  then have "?F \<le> (\<Sum>p \<leftarrow> class_pages G i. 253)" by (intro sum_list_mono) simp
  also have "\<dots> = length (class_pages G i) * 253" by (simp add: sum_list_triv)
  also have "\<dots> \<le> 2 ^ 52 * 253"
    using class_pages_le [OF inv i] slab_invD(9) [OF inv] by (intro mult_le_mono1) (simp add: direct_map_def)
  finally have "unat (of_nat ?F :: u64) = ?F" by (simp add: unat_of_nat)
  moreover have "free_slots (caches s ! i) = of_nat ?F" using slab_invD(6) [OF inv i] by (simp add: cache_ok_def Let_def)
  ultimately have "free_slots (caches s ! i) = 0 \<longleftrightarrow> ?F = 0" by (metis unat_0 unat_eq_zero)
  then show ?thesis by auto
qed

lemma kmalloc_null:
  assumes inv: "slab_inv N B G s" and sz: "unat n + 16 \<le> 2 ^ 63" and r: "kmalloc n s = Some (a, t)"
  shows "a = 0 \<longleftrightarrow> n = 0 \<or>
    (if unat n \<le> 2048
     then (\<exists>i < 8. unat n \<le> csize i \<and> (\<forall>j < i. csize j < unat n) \<and> free_slots (caches s ! i) = 0) \<and> B = {}
     else \<forall>(j, q) \<in> B. 4096 * 2 ^ j < unat n + 16)"
proof (cases "find_class 0 class_sizes n")
  case None
  then have big: "2048 < unat n" using class_none by blast
  then have "large_alloc n s = Some (a, t)" "n \<noteq> 0" using r None by (auto simp: kmalloc_def split: if_splits)
  moreover from this(1) have "\<forall>(j, q) \<in> B. 4096 * 2 ^ j < unat n + 16" if "a = 0"
    using large_alloc_spec [OF inv sz] that by (auto simp: object_ok_def)
  moreover have "a = 0" if small: "\<forall>(j, q) \<in> B. 4096 * 2 ^ j < unat n + 16"
  proof -
    have doff: "align_up sizeof_large_hdr SLAB_ALIGN = 16" by (simp add: align_up_def sizeof_large_hdr_def SLAB_ALIGN_def)
    have un: "unat (16 + n) = unat n + 16" using sz unat_add_exact [of 16 n] by simp
    obtain ord where ord: "order_for_bytes (16 + n) = Some ord" "unat n + 16 \<le> 4096 * 2 ^ ord"
      using order_search_spec [of "16 + n" 0] sz un by (auto simp: order_for_bytes_def)
    have "(j, q) \<notin> B" if "ord \<le> j" for j q
    proof
      assume "(j, q) \<in> B"
      then have "4096 * 2 ^ j < unat n + 16" using small by auto
      moreover have "(2 :: nat) ^ ord \<le> 2 ^ j" using that by (intro power_increasing) simp_all
      ultimately show False using ord(2) by linarith
    qed
    then have "buddy_alloc ord s = (0, s)" by (rule blocks.alloc_none [OF slab_invD(1) [OF inv]])
    then show ?thesis using \<open>large_alloc n s = Some (a, t)\<close> ord(1) by (simp add: large_alloc_def doff Let_def)
  qed
  ultimately show ?thesis unfolding if_not_P [OF iffD2 [OF not_le big]] by blast
next
  case (Some i)
  let ?h = "slab_hhdm s"
  note i = class_least [OF Some] and fit = class_found(2) [OF Some]
  have ex: "(\<exists>j < 8. unat n \<le> csize j \<and> (\<forall>k < j. csize k < unat n) \<and> free_slots (caches s ! j) = 0) \<longleftrightarrow> free_slots (caches s ! i) = 0"
  proof -
    have "unat n \<le> csize j \<and> (\<forall>k < j. csize k < unat n) \<and> X \<longleftrightarrow> j = i \<and> X" for j X using i(3) [of j] by (simp only: conj_assoc [symmetric])
    then show ?thesis using i(1) by simp
  qed
  have "slab_chain (mem s) ?h (slabs (caches s ! i)) (class_pages G i)" using slab_invD(6) [OF inv i(1)] by (simp add: cache_ok_def Let_def)
  from find_slab_spec [OF inv i(1) subset_refl this] obtain p where p: "find_slab (slabs (caches s ! i)) s = Some p"
    "p = 0 \<and> (\<forall>p \<in> set (class_pages G i). page_free G p = []) \<or>
     (\<exists>q \<in> set (class_pages G i). p = q + ?h \<and> p \<noteq> 0 \<and> page_free G q \<noteq> [])" by blast
  show ?thesis
  proof (cases "n = 0")
    case True
    then show ?thesis using r by (simp add: kmalloc_def)
  next
    case nz: False
    show ?thesis
    proof (cases "p = 0")
      case False
      then obtain q where q: "q \<in> set (class_pages G i)" "p = q + ?h" "page_free G q \<noteq> []" using p(2) by blast
      have "kmalloc n s = Some (pop_slot i p s)" using nz Some p(1) False by (simp add: kmalloc_def)
      then have "a \<noteq> 0" using pop_new_object [OF inv i(1) q(1,3) fit] q(2) r by (auto simp: object_ok_def)
      moreover have "free_slots (caches s ! i) \<noteq> 0" using class_full [OF inv i(1)] q by blast
      ultimately show ?thesis using nz i(2) ex by simp
    next
      case True
      then have full: "free_slots (caches s ! i) = 0" using class_full [OF inv i(1)] p(2) by blast
      have k: "kmalloc n s = Option.bind (cache_grow i s) (\<lambda>(p, s). if p = 0 then Some (0, s) else Some (pop_slot i p s))"
        using nz Some p(1) True by (simp add: kmalloc_def)
      have "a = 0 \<longleftrightarrow> B = {}"
      proof
        assume "B = {}"
        then have "buddy_alloc 0 s = (0, s)" by (intro blocks.alloc_none [OF slab_invD(1) [OF inv]]) simp
        then show "a = 0" using r k by (simp add: cache_grow_def)
      next
        assume "a = 0"
        then have small: "\<forall>(j, q) \<in> B. 4096 * 2 ^ j < unat n + 16" using kmalloc_spec [OF inv sz] r nz by (auto simp: object_ok_def)
        have "(j, q) \<notin> B" for j q
        proof
          assume "(j, q) \<in> B"
          then have "4096 * 2 ^ j < unat n + 16" using small by auto
          moreover have "4096 * 1 \<le> 4096 * (2 :: nat) ^ j" by (intro mult_le_mono2 one_le_power) simp
          ultimately show False using i(2) by linarith
        qed
        then show "B = {}" by auto
      qed
      then show ?thesis using nz i(2) ex full by simp
    qed
  qed
qed

subsection \<open>Free\<close>

lemma page_base:
  assumes "aligned 12 b" and "unat d < 4096"
  shows "(b + d) AND SLAB_PAGE_MASK = b"
proof -
  have mask: "SLAB_PAGE_MASK = NOT (mask 12)" by (simp add: SLAB_PAGE_MASK_def SLAB_PAGE_SIZE_def mask_eq_exp_minus_1)
  have "b + d = b OR d" using assms by (intro aligned_plus_or) auto
  moreover have "\<not> bit d i" if "12 \<le> i" for i using bit_less_exp [of d 12 i] assms(2) that by auto
  moreover have "\<not> bit b i" if "i < 12" for i using aligned_bit [OF assms(1) that] .
  ultimately show ?thesis unfolding mask by (intro bit_word_eqI) (force simp: bit_simps not_less [symmetric])
qed

lemma cache_index_ptr: "i < 8 \<Longrightarrow> cache_index (cache_ptr i s) s = Some i"
  by (auto dest!: class_cases simp: cache_index_def cache_ptr_def sizeof_kmem_cache_def)

text \<open>The heap after a free: the object is gone, the others keep their bytes.\<close>

definition object_gone :: "nat \<Rightarrow> (nat \<times> u64) set \<Rightarrow> heap_view \<Rightarrow> 'a slab_scheme \<Rightarrow> u64 \<times> nat \<Rightarrow> 'a slab_scheme \<Rightarrow> bool" where
  "object_gone N B G s ob t \<longleftrightarrow> slab_step (managed B G) s t \<and>
     (\<exists>B' G'. slab_inv N B' G' t \<and> live G' (slab_hhdm s) = live G (slab_hhdm s) - {ob} \<and> managed B' G' = managed B G) \<and>
     (\<forall>ob' \<in> live G (slab_hhdm s) - {ob}. \<forall>x \<in> bytes (fst ob') (snd ob'). mem t x = mem s x)"

lemma kfree_slot:
  assumes inv: "slab_inv N B G s" and i: "i < 8" "q \<in> set (class_pages G i)" "k < nslots i" "k \<notin> set (page_free G q)"
  defines "ob \<equiv> slot_obj (slab_hhdm s) i q k"
  shows "\<exists>t. kfree (fst ob) s = Some t \<and> object_gone N B G s ob t"
proof -
  let ?h = "slab_hhdm s" and ?b = "q + slab_hhdm s" and ?a = "q + slab_hhdm s + slot_off i k"
  note pg = free_slots_page [OF inv i(1,2)] and qo = pages_owned [OF i(1,2)] and o = slot_off_bounds [OF i(1,3)]
  note al = owned_page(3) [OF inv qo]
  have lv: "ob \<in> live G ?h" unfolding ob_def using i by (intro slot_live)
  have base: "?a AND SLAB_PAGE_MASK = ?b" using page_base [OF al, of "slot_off i k"] o(3) by simp
  have nz: "?a \<noteq> 0" using in_page_nonzero [OF slab_invD(9) [OF inv] owned_page(1,2) [OF inv qo]] o(3) by simp
  have hd: "load64 (mem s) ?b = SLAB_MAGIC" "cache_index (sl_cache (mem s) ?b) s = Some i"
    using pg(1) cache_index_ptr [OF i(1)] by (simp_all add: slab_page_def sl_magic_def)
  define m1 where "m1 = store64 (mem s) ?a (sl_free (mem s) ?b)"
  define m2 where "m2 = store64 m1 (?b + 24) ?a"
  define m3 where "m3 = store32 m2 (?b + 32) (sl_free_count m2 ?b + 1)"
  note push = push_page [OF pg(1) i(1,3,4), folded m1_def, folded m2_def, folded m3_def]
  define t where "t = set_cache i ((caches s ! i)\<lparr>free_slots := free_slots (caches s ! i) + 1\<rparr>) (s\<lparr>mem := m3\<rparr>)"
  have eq: "kfree ?a s = Some t"
    using nz hd by (simp add: kfree_def base Let_def put64_def put32_def m1_def m2_def m3_def t_def set_cache_def)
  have off: "m3 x = mem s x" if "page x \<noteq> page ?b" for x
  proof -
    have "8 dvd unat (slot_off i k)" using o(5) by presburger
    then have "aligned 3 (slot_off i k)" by (simp add: aligned_dvd)
    then have "aligned 3 ?a" using aligned_mono [OF al, of 3] by (intro aligned_add [of 3 ?b]) simp_all
    moreover have "page ?a = page ?b" using page_offset [OF al] o(3) by simp
    ultimately show ?thesis using page_header [OF al that] that by (simp add: m3_def m2_def m1_def store64_page)
  qed
  have "slab_inv N B (with_free G q (k # page_free G q)) t"
    unfolding t_def with_free_def by (rule slab_inv_page [OF inv i(1,2) off push(1,2)]) simp_all
  moreover have "mem t x = mem s x" if ob': "ob' \<in> live G ?h" "ob' \<noteq> ob" and x: "x \<in> bytes (fst ob') (snd ob')" for ob' x
  proof (cases "page x = page ?b")
    case True
    let ?d = "x - ?b"
    have d: "unat ?d < 4096" "48 \<le> unat ?d"
      using page_eq_near [OF True al] live_off_header [OF inv ob'(1) x i(1,2), of ?d] by simp_all
    have "x \<notin> bytes ?a (csize i)" using live_disjoint [OF inv lv ob'(1)] ob'(2) x by (auto simp: ob_def slot_obj_def)
    have "unat ?d < unat (slot_off i k) \<or> unat (slot_off i k) + 8 \<le> unat ?d"
    proof (rule ccontr)
      assume "\<not> ?thesis"
      then have in8: "unat (slot_off i k) \<le> unat ?d" "unat ?d < unat (slot_off i k) + csize i"
        using csize_bounds [OF i(1)] by auto
      have "?b + ?d \<in> bytes ?a (csize i)" using in8 by (intro bytes_mem) simp_all
      then show False using \<open>x \<notin> bytes ?a (csize i)\<close> by simp
    qed
    from push(3) [OF d(2,1) this] show ?thesis by (simp add: t_def set_cache_def)
  next
    case False
    then show ?thesis using off by (simp add: t_def set_cache_def)
  qed
  moreover have "managed B (with_free G q (k # page_free G q)) = managed B G" by (simp add: managed_def)
  moreover have "slab_step (managed B G) s t"
    unfolding t_def managed_def using off owned_page(6) [OF inv qo] by (intro slab_step_set_cache) blast
  ultimately show ?thesis
    using eq live_push [OF inv i] unfolding object_gone_def ob_def slot_obj_def fst_conv by blast
qed

definition without_large :: "heap_view \<Rightarrow> nat \<Rightarrow> u64 \<Rightarrow> heap_view" where
  "without_large G ord p = G\<lparr>large_blocks := large_blocks G - {(ord, p)}\<rparr>"

lemma slab_inv_drop:
  assumes inv: "slab_inv N B G s" and l: "(ord, p) \<in> large_blocks G"
  shows "owned (without_large G ord p) = owned G - {(ord, p)}" and "slab_inv N B (without_large G ord p) s"
proof -
  note I = slab_invD [OF inv]
  let ?G = "without_large G ord p"
  have v: "pages ?G = pages G" "class_pages ?G = class_pages G" "page_free ?G = page_free G"
    "large_blocks ?G = large_blocks G - {(ord, p)}" by (simp_all add: without_large_def pages_def)
  show o: "owned ?G = owned G - {(ord, p)}"
    using I(4) l unfolding owned_def v by (auto simp: view_ok_def)
  have "custody N B (owned ?G)"
    using I(3) wf_blocks_mono [of N "owned G" "owned ?G"] unfolding custody_def o by (auto simp: frames_of_def)
  moreover have "view_ok ?G" using I(4) by (auto simp: view_ok_def v)
  moreover have "cache_ok ?G i s" if "i < 8" for i using I(6) [OF that] by (simp add: cache_ok_def v)
  ultimately show "slab_inv N B ?G s" using I(1,2,5,7) by (auto simp: slab_inv_def v)
qed

lemma kfree_large:
  assumes inv: "slab_inv N B G s" and l: "(ord, p) \<in> large_blocks G"
  defines "ob \<equiv> large_obj (slab_hhdm s) ord p"
  shows "\<exists>t. kfree (fst ob) s = Some t \<and> object_gone N B G s ob t"
proof -
  note I = slab_invD [OF inv]
  let ?h = "slab_hhdm s" and ?b = "p + slab_hhdm s"
  have lo: "(ord, p) \<in> owned G" using l by (simp add: owned_def)
  note al = owned_page(3) [OF inv lo] and ok = owned_page(1) [OF inv lo] and drop = slab_inv_drop [OF inv l]
  have lv: "ob \<in> live G ?h" unfolding ob_def using l by (rule large_live)
  have base: "(?b + 16) AND SLAB_PAGE_MASK = ?b" by (rule page_base [OF al]) simp
  have nz: "?b + 16 \<noteq> 0" using in_page_nonzero [OF I(9) ok owned_page(2) [OF inv lo], of 16] by simp
  have "ord \<le> 10" using ok by (simp add: block_ok_def)
  then have hd: "load64 (mem s) ?b = LARGE_MAGIC" "unat (lh_order (mem s) ?b) = ord"
    using I(7) [OF l] by (simp_all add: large_page_def unat_of_nat)
  obtain t B' where t: "buddy_free p ord s = Some t" "buddy_inv N B' t" "custody N B' (owned G - {(ord, p)})"
    "heap_step (frames_of B \<union> blk ord p) s t"
    "\<And>x. dm_frame (buddy_hhdm s) x \<in> frames_of (owned G - {(ord, p)}) \<Longrightarrow> mem t x = mem s x"
    "frames_of B' = frames_of B \<union> blk ord p"
    using blocks.release_custody [OF I(1,3) lo] by blast
  note f = heap_step_slab [OF t(4)]
  have eq: "kfree (?b + 16) s = Some t"
    using nz hd t(1) by (simp add: kfree_def base Let_def SLAB_MAGIC_def LARGE_MAGIC_def)
  let ?G = "without_large G ord p"
  have keep: "mem t x = mem s x" if "dm_frame ?h x \<in> frames_of (owned ?G)" for x
    using t(5) [of x] that I(2) unfolding drop(1) by simp
  have inv': "slab_inv N B' ?G t"
    using heap_meta_owned [OF drop(2)] keep t(2,3) by (intro slab_inv_frame [OF drop(2)]) (auto simp: f drop(1))
  have lv': "live ?G ?h = live G ?h - {ob}"
  proof -
    have inj: "(ord', p') = (ord, p)" if "(ord', p') \<in> large_blocks G" "large_obj ?h ord' p' = ob" for ord' p'
      using that owned_apart(1) [OF inv _ lo, of ord' p'] by (auto simp: ob_def large_obj_def owned_def)
    have slot: "slot_obj ?h i q k \<noteq> ob" if "i < 8" "q \<in> set (class_pages G i)" "k < nslots i" for i q k
      using slot_not_large [OF inv that l] by (auto simp: ob_def large_obj_def slot_obj_def)
    show ?thesis
    proof (intro set_eqI iffI)
      fix x assume "x \<in> live ?G ?h"
      then show "x \<in> live G ?h - {ob}"
        by (cases rule: live_cases) (auto simp: without_large_def intro: slot_live large_live dest: slot inj)
    next
      fix x assume x: "x \<in> live G ?h - {ob}"
      then have "x \<in> live G ?h" by simp
      then show "x \<in> live ?G ?h"
        using x by (cases rule: live_cases) (auto simp: without_large_def ob_def intro!: slot_live large_live)
    qed
  qed
  have "mem t x = mem s x" if ob': "ob' \<in> live G ?h - {ob}" and x: "x \<in> bytes (fst ob') (snd ob')" for ob' x
    using live_frame(1) [OF drop(2), of ob' x] ob' x lv' by (intro keep) simp
  moreover have st: "slab_step (managed B G) s t"
    using t(4) I(2) blk_in_frames [OF lo] by (intro slab_step_buddy) (auto simp: managed_def)
  moreover have "managed B' ?G = managed B G"
    using t(6) frames_of_remove [of N "owned G" ord p] I(3) lo blk_in_frames [OF lo]
    unfolding managed_def drop(1) by (auto simp: custody_def)
  ultimately have "object_gone N B G s ob t" unfolding object_gone_def using inv' lv' st by blast
  then show ?thesis using eq by (auto simp: ob_def large_obj_def)
qed

lemma kfree_spec:
  assumes "slab_inv N B G s" and "ob \<in> live G (slab_hhdm s)"
  shows "\<exists>t. kfree (fst ob) s = Some t \<and> object_gone N B G s ob t"
  using assms(2) by (cases rule: live_cases) (use kfree_slot [OF assms(1)] kfree_large [OF assms(1)] in blast)+

end
