(* ===== verification/Slab_Contract.thy ===== *)
theory Slab_Contract
  imports Slab_Alloc
begin

text \<open>
  The contract of \<^verbatim>\<open>core/mm/slab.h\<close> for the rest of the kernel. \<open>heap_inv N F L s\<close> says that the
  machine \<open>s\<close> holds a sound heap over the first \<open>N\<close> frames whose live objects, address and usable
  size, are \<open>L\<close>; the locale \<open>object_heap\<close> states what allocation, free and the client's own writes
  do to \<open>L\<close>, and the slab allocator is its instance.
\<close>

subsection \<open>The heap its clients see\<close>

definition heap_inv :: "nat \<Rightarrow> nat set \<Rightarrow> (u64 \<times> nat) set \<Rightarrow> 'a slab_scheme \<Rightarrow> bool" where
  "heap_inv N F L s \<longleftrightarrow> (\<exists>B G. slab_inv N B G s \<and> live G (slab_hhdm s) = L \<and> managed B G = F)"

lemma new_object_heap: "new_object N B G s ob t \<Longrightarrow> heap_inv N (managed B G) (insert ob (live G (slab_hhdm s))) t"
  unfolding new_object_def heap_inv_def by (metis slab_stepD(1))

lemma object_gone_heap: "object_gone N B G s ob t \<Longrightarrow> heap_inv N (managed B G) (live G (slab_hhdm s) - {ob}) t"
  unfolding object_gone_def heap_inv_def by (metis slab_stepD(1))

lemma heap_kmalloc:
  assumes "heap_inv N F L s" and "unat n + 16 \<le> 2 ^ 63"
  shows "\<exists>a t. kmalloc n s = Some (a, t) \<and>
    (a = 0 \<and> t = s \<and> (n = 0 \<or> (\<forall>ord. unat n + 16 \<le> 4096 * 2 ^ ord \<longrightarrow> fst (buddy_alloc ord s) = 0)) \<or>
     a \<noteq> 0 \<and> n \<noteq> 0 \<and> aligned 4 a \<and> (\<exists>c \<ge> unat n. (a, c) \<notin> L \<and> heap_inv N F (insert (a, c) L) t) \<and>
     (\<forall>ob \<in> L. \<forall>x \<in> bytes (fst ob) (snd ob). mem t x = mem s x))"
proof -
  obtain B G where inv: "slab_inv N B G s" and L: "live G (slab_hhdm s) = L" "managed B G = F" using assms(1) by (auto simp: heap_inv_def)
  obtain a t where r: "kmalloc n s = Some (a, t)"
    "a = 0 \<and> t = s \<and> (n = 0 \<or> (\<forall>(j, q) \<in> B. 4096 * 2 ^ j < unat n + 16)) \<or>
     n \<noteq> 0 \<and> (\<exists>c. object_ok (a, c) n \<and> new_object N B G s (a, c) t)"
    using kmalloc_spec [OF inv assms(2)] by blast
  show ?thesis
  proof (intro exI conjI)
    show "kmalloc n s = Some (a, t)" by (rule r(1))
    from r(2) show "a = 0 \<and> t = s \<and> (n = 0 \<or> (\<forall>ord. unat n + 16 \<le> 4096 * 2 ^ ord \<longrightarrow> fst (buddy_alloc ord s) = 0)) \<or>
      a \<noteq> 0 \<and> n \<noteq> 0 \<and> aligned 4 a \<and> (\<exists>c \<ge> unat n. (a, c) \<notin> L \<and> heap_inv N F (insert (a, c) L) t) \<and>
      (\<forall>ob \<in> L. \<forall>x \<in> bytes (fst ob) (snd ob). mem t x = mem s x)"
    proof (elim disjE conjE exE)
      assume small: "\<forall>(j, q) \<in> B. 4096 * 2 ^ j < unat n + 16" and z: "a = 0" "t = s"
      have "fst (buddy_alloc ord s) = 0" if "unat n + 16 \<le> 4096 * 2 ^ ord" for ord
      proof -
        have "(j, q) \<notin> B" if "ord \<le> j" for j q
        proof
          assume "(j, q) \<in> B"
          then have "4096 * 2 ^ j < unat n + 16" using small by auto
          moreover have "(2 :: nat) ^ ord \<le> 2 ^ j" using that by (intro power_increasing) simp_all
          ultimately show False using \<open>unat n + 16 \<le> 4096 * 2 ^ ord\<close> by linarith
        qed
        then show ?thesis using blocks.alloc_none [OF slab_invD(1) [OF inv]] by simp
      qed
      then show ?thesis using z by simp
    next
      fix c assume ob: "object_ok (a, c) n" "new_object N B G s (a, c) t" and n: "n \<noteq> 0"
      have "(a, c) \<notin> L \<and> heap_inv N F (insert (a, c) L) t" using new_object_heap [OF ob(2)] ob(2) by (simp add: L new_object_def)
      moreover have "\<forall>ob \<in> L. \<forall>x \<in> bytes (fst ob) (snd ob). mem t x = mem s x" using ob(2) by (simp add: L new_object_def)
      ultimately show ?thesis using ob(1) n unfolding object_ok_def by auto
    qed simp
  qed
qed

text \<open>When a request finds no room: what the statistics and the buddy allocator say.\<close>

definition no_room :: "u64 \<Rightarrow> 'a slab_scheme \<Rightarrow> bool" where
  "no_room n s \<longleftrightarrow>
     (if unat n \<le> 2048
      then (\<exists>i < 8. unat n \<le> csize i \<and> (\<forall>j < i. csize j < unat n) \<and> st_free_slots (slab_get_stats s ! i) = 0) \<and> fst (buddy_alloc 0 s) = 0
      else \<forall>ord. unat n + 16 \<le> 4096 * 2 ^ ord \<longrightarrow> fst (buddy_alloc ord s) = 0)"

lemma heap_kmalloc_null:
  assumes "heap_inv N F L s" and "unat n + 16 \<le> 2 ^ 63" and "kmalloc n s = Some (a, t)"
  shows "a = 0 \<longleftrightarrow> n = 0 \<or> no_room n s"
proof -
  obtain B G where inv: "slab_inv N B G s" using assms(1) by (auto simp: heap_inv_def)
  note null = buddy_null [OF slab_invD(1) [OF inv]]
  have st: "st_free_slots (slab_get_stats s ! i) = free_slots (caches s ! i)" if "i < 8" for i
    using that slab_invD(5) [OF inv] by (simp add: slab_get_stats_def)
  have "(\<forall>(j, q) \<in> B. 4096 * 2 ^ j < unat n + 16) \<longleftrightarrow> (\<forall>ord. unat n + 16 \<le> 4096 * 2 ^ ord \<longrightarrow> (\<forall>j q. ord \<le> j \<longrightarrow> (j, q) \<notin> B))"
  proof (intro iffI allI impI ballI)
    fix ord j q assume "\<forall>(j, q) \<in> B. 4096 * 2 ^ j < unat n + 16" and *: "unat n + 16 \<le> 4096 * 2 ^ ord" "ord \<le> j"
    moreover have "(2 :: nat) ^ ord \<le> 2 ^ j" using *(2) by (intro power_increasing) simp_all
    ultimately show "(j, q) \<notin> B" by fastforce
  next
    fix b assume "\<forall>ord. unat n + 16 \<le> 4096 * 2 ^ ord \<longrightarrow> (\<forall>j q. ord \<le> j \<longrightarrow> (j, q) \<notin> B)" "b \<in> B"
    then have "\<not> unat n + 16 \<le> 4096 * 2 ^ fst b" by (metis order_refl prod.collapse)
    then show "case b of (j, q) \<Rightarrow> 4096 * 2 ^ j < unat n + 16" by (simp add: case_prod_beta)
  qed
  moreover have "B = {} \<longleftrightarrow> (\<forall>j q. 0 \<le> j \<longrightarrow> (j, q) \<notin> B)" by auto
  moreover have "(\<exists>i < 8. unat n \<le> csize i \<and> (\<forall>j < i. csize j < unat n) \<and> st_free_slots (slab_get_stats s ! i) = 0) \<longleftrightarrow>
      (\<exists>i < 8. unat n \<le> csize i \<and> (\<forall>j < i. csize j < unat n) \<and> free_slots (caches s ! i) = 0)" using st by metis
  ultimately show ?thesis unfolding no_room_def null kmalloc_null [OF inv assms(2,3)] by presburger
qed

text \<open>
  What an allocation and a free leave alone: everything but the heap's own variables and the
  memory of its frames. All live objects lie in those frames.
\<close>

lemma heap_step_kmalloc:
  assumes "heap_inv N F L s" and "unat n + 16 \<le> 2 ^ 63" and "kmalloc n s = Some (a, t)"
  shows "slab_step F s t"
proof -
  obtain B G where inv: "slab_inv N B G s" and "managed B G = F" using assms(1) by (auto simp: heap_inv_def)
  then show ?thesis using kmalloc_spec [OF inv assms(2)] assms(3) by (auto simp: new_object_def slab_step_refl)
qed

lemma heap_step_kfree:
  assumes "heap_inv N F L s" and "(a, c) \<in> L" and "kfree a s = Some t"
  shows "slab_step F s t"
proof -
  obtain B G where inv: "slab_inv N B G s" and L: "live G (slab_hhdm s) = L" "managed B G = F" using assms(1) by (auto simp: heap_inv_def)
  then show ?thesis using kfree_spec [OF inv, of "(a, c)"] assms(2,3) by (auto simp: object_gone_def)
qed

lemma heap_object_frame:
  assumes "heap_inv N F L s" and "ob \<in> L" and "x \<in> bytes (fst ob) (snd ob)"
  shows "dm_frame (slab_hhdm s) x \<in> F"
proof -
  obtain B G where inv: "slab_inv N B G s" and L: "live G (slab_hhdm s) = L" "managed B G = F" using assms(1) by (auto simp: heap_inv_def)
  then show ?thesis using live_frame(1) [OF inv, of ob x] assms(2,3) by (auto simp: managed_def)
qed

lemma heap_kfree:
  assumes "heap_inv N F L s" and "(a, c) \<in> L"
  shows "\<exists>t. kfree a s = Some t \<and> heap_inv N F (L - {(a, c)}) t \<and>
    (\<forall>ob \<in> L - {(a, c)}. \<forall>x \<in> bytes (fst ob) (snd ob). mem t x = mem s x)"
proof -
  obtain B G where inv: "slab_inv N B G s" and L: "live G (slab_hhdm s) = L" "managed B G = F" using assms(1) by (auto simp: heap_inv_def)
  obtain t where "kfree a s = Some t" "object_gone N B G s (a, c) t" using kfree_spec [OF inv, of "(a, c)"] assms(2) L by auto
  then show ?thesis using object_gone_heap [of N B G s] unfolding object_gone_def L by blast
qed

lemma heap_apart:
  assumes "heap_inv N F L s" and "ob \<in> L" and "ob' \<in> L" and "ob \<noteq> ob'"
  shows "bytes (fst ob) (snd ob) \<inter> bytes (fst ob') (snd ob') = {}"
proof -
  obtain B G where "slab_inv N B G s" and "live G (slab_hhdm s) = L" "managed B G = F" using assms(1) by (auto simp: heap_inv_def)
  then show ?thesis using live_disjoint [of N B G s ob ob'] assms(2-4) by simp
qed

text \<open>Metadata is off the live objects, so a client may write what it holds.\<close>

lemma live_off_meta:
  assumes inv: "slab_inv N B G s" and ob: "ob \<in> live G (slab_hhdm s)" and x: "x \<in> bytes (fst ob) (snd ob)"
  shows "x \<notin> heap_meta G (slab_hhdm s)"
proof
  let ?h = "slab_hhdm s"
  assume "x \<in> heap_meta G ?h"
  then consider (slab) i p where "i < 8" "p \<in> set (class_pages G i)" "x \<in> meta (p + ?h) i (page_free G p)"
    | (large) ord p d where "(ord, p) \<in> large_blocks G" "x = p + ?h + d" "unat d < 16"
    by (auto simp: heap_meta_def)
  then show False
  proof cases
    case slab
    then consider (header) d where "x = p + ?h + d" "unat d < 48"
      | (link) k d where "x = p + ?h + slot_off i k + d" "k \<in> set (page_free G p)" "unat d < 8"
      by (auto simp: meta_def)
    then show False
    proof cases
      case header
      then show False using live_off_header [OF inv ob x slab(1,2) header(1)] by simp
    next
      case link
      have k: "k < nslots i" using free_slots_page(3) [OF inv slab(1,2)] link(2) by auto
      note o = slot_off_bounds [OF slab(1) k]
      have "unat (slot_off i k + d) = unat (slot_off i k) + unat d" using o(3) link(3) by (intro unat_add_exact) simp
      then have d: "unat (slot_off i k) \<le> unat (slot_off i k + d)" "unat (slot_off i k + d) < unat (slot_off i k) + csize i"
        "unat (slot_off i k + d) < 4096"
        using link(3) csize_bounds [OF slab(1)] o(3) by auto
      have pg: "page x = page (p + ?h)"
        using page_offset [OF owned_page(3) [OF inv pages_owned [OF slab(1,2)]], of "slot_off i k + d"] d(3) link(1)
        by (simp add: add.assoc)
      from ob show False
      proof (cases rule: live_cases)
        case (slot j q l)
        have "x \<in> bytes (q + ?h + slot_off j l) (csize j)" using x slot(1) by (simp add: slot_obj_def)
        from slot_byte [OF inv slot(2-4) this] obtain e where e: "x = q + ?h + e" "unat (slot_off j l) \<le> unat e"
          "unat e < unat (slot_off j l) + csize j" "page x = page (q + ?h)" by metis
        have "q = p" using owned_apart(2) [OF inv pages_owned [OF slot(2,3)] pages_owned [OF slab(1,2)]] e(4) pg by auto
        moreover from this have "j = i" using class_unique [OF slab_invD(4) [OF inv] slot(2) slab(1) slot(3)] slab(2) by simp
        moreover have "e = slot_off i k + d" using e(1) link(1) \<open>q = p\<close> by (simp add: add.assoc)
        moreover have "l \<noteq> k" using slot(5) link(2) \<open>q = p\<close> by auto
        ultimately show False
          using slots_apart [OF slab(1) k, of l] slot(4) d(1,2) e(2,3) by auto
      next
        case (large ord q)
        have "x \<in> bytes (q + ?h + 16) (4096 * 2 ^ ord - 16)" using x large(1) by (simp add: large_obj_def)
        from large_byte [OF inv large(2) this] have "dm_frame ?h x \<in> blk ord q" by metis
        moreover have "dm_frame ?h x \<in> blk 0 p" using owned_page(5) [OF inv pages_owned [OF slab(1,2)] pg] blk_first by simp
        moreover have "(ord, q) \<noteq> (0, p)" using slab_invD(4) [OF inv] slab large(2) by (auto simp: view_ok_def pages_def)
        ultimately show False
          using owned_apart(3) [OF inv _ pages_owned [OF slab(1,2)], of ord q] large(2) by (auto simp: owned_def)
      qed
    qed
  next
    case large
    have lo: "(ord, p) \<in> owned G" using large(1) by (simp add: owned_def)
    have pg: "page x = page (p + ?h)" unfolding large(2) using large(3) by (intro page_offset owned_page(3) [OF inv lo]) simp
    have fr: "dm_frame ?h x \<in> blk ord p" using owned_page(5) [OF inv lo pg] blk_first by simp
    obtain b where b: "holder ?h G ob b" using ob by (auto simp: live_holder)
    have "b = (ord, p)"
      using owned_apart(3) [OF inv, of "fst b" "snd b" ord p] holder_owned [OF b] lo holder_frame [OF inv b x] fr by auto
    then have "ob = large_obj ?h ord p"
      using b slab_invD(4) [OF inv] large(1) unfolding holder_def by (auto simp: view_ok_def pages_def)
    then have "x \<in> bytes (p + ?h + 16) (4096 * 2 ^ ord - 16)" using x by (simp add: large_obj_def)
    from large_byte [OF inv large(1) this] obtain e where "x = p + ?h + e" "16 \<le> unat e" by metis
    then show False using large(2,3) by simp
  qed
qed

lemma heap_inv_frame:
  assumes "heap_inv N F L s"
    and same: "free_list t = free_list s" "free_count t = free_count s" "buddy_hhdm t = buddy_hhdm s"
      "caches t = caches s" "slab_hhdm t = slab_hhdm s" "caches_addr t = caches_addr s"
    and mem: "\<And>x. dm_frame (slab_hhdm s) x \<in> F \<Longrightarrow> (\<And>ob. ob \<in> L \<Longrightarrow> x \<notin> bytes (fst ob) (snd ob)) \<Longrightarrow> mem t x = mem s x"
  shows "heap_inv N F L t"
proof -
  obtain B G where inv: "slab_inv N B G s" and L: "live G (slab_hhdm s) = L" and F: "managed B G = F"
    using assms(1) by (auto simp: heap_inv_def)
  note I = slab_invD [OF inv]
  have "buddy_inv N B t"
  proof (rule buddy_inv_frame [OF I(1) same(1-3)])
    fix x assume x: "dm_frame (buddy_hhdm s) x \<in> frames_of B"
    then have "dm_frame (slab_hhdm s) x \<in> F" using I(2) F by (auto simp: managed_def)
    moreover have "x \<notin> bytes (fst ob) (snd ob)" if "ob \<in> L" for ob
      using live_frame(2) [OF inv, of ob x] that L x I(2) by auto
    ultimately show "mem t x = mem s x" by (rule mem)
  qed
  moreover have "mem t x = mem s x" if x: "x \<in> heap_meta G (slab_hhdm s)" for x
  proof (rule mem)
    show "dm_frame (slab_hhdm s) x \<in> F" using heap_meta_owned [OF inv x] F by (auto simp: managed_def)
    show "x \<notin> bytes (fst ob) (snd ob)" if "ob \<in> L" for ob using live_off_meta [OF inv] that L x by blast
  qed
  ultimately have "slab_inv N B G t" using I(3) same by (intro slab_inv_frame [OF inv]) auto
  then show ?thesis using L F same(5) by (auto simp: heap_inv_def)
qed

lemma heap_write:
  assumes "heap_inv N F L s" and "(a, c) \<in> L" and "\<And>x. x \<notin> bytes a c \<Longrightarrow> m x = mem s x"
  shows "heap_inv N F L (s\<lparr>mem := m\<rparr>)"
  using assms(2,3) by (intro heap_inv_frame [OF assms(1)]) auto

subsection \<open>The contract\<close>

definition same_bytes :: "(u64 \<times> nat) set \<Rightarrow> memory \<Rightarrow> memory \<Rightarrow> bool" where
  "same_bytes L m m' \<longleftrightarrow> (\<forall>ob \<in> L. \<forall>x \<in> bytes (fst ob) (snd ob). m' x = m x)"

locale object_heap =
  fixes malloc :: "u64 \<Rightarrow> 's \<Rightarrow> (u64 \<times> 's) option"
    and free :: "u64 \<Rightarrow> 's \<Rightarrow> 's option"
    and invar :: "(u64 \<times> nat) set \<Rightarrow> 's \<Rightarrow> bool"
    and memory_of :: "'s \<Rightarrow> memory"
    and put_mem :: "memory \<Rightarrow> 's \<Rightarrow> 's"
  assumes malloc_law: "invar L s \<Longrightarrow> unat n + 16 \<le> 2 ^ 63 \<Longrightarrow> \<exists>a t. malloc n s = Some (a, t) \<and>
      (a = 0 \<and> t = s \<or> a \<noteq> 0 \<and> aligned 4 a \<and> (\<exists>c \<ge> unat n. (a, c) \<notin> L \<and> invar (insert (a, c) L) t) \<and>
        same_bytes L (memory_of s) (memory_of t))"
    and free_law: "invar L s \<Longrightarrow> (a, c) \<in> L \<Longrightarrow> \<exists>t. free a s = Some t \<and> invar (L - {(a, c)}) t \<and>
      same_bytes (L - {(a, c)}) (memory_of s) (memory_of t)"
    and write_law: "invar L s \<Longrightarrow> (a, c) \<in> L \<Longrightarrow> (\<And>x. x \<notin> bytes a c \<Longrightarrow> m x = memory_of s x) \<Longrightarrow> invar L (put_mem m s)"
    and objects_apart: "invar L s \<Longrightarrow> ob \<in> L \<Longrightarrow> ob' \<in> L \<Longrightarrow> ob \<noteq> ob' \<Longrightarrow>
      bytes (fst ob) (snd ob) \<inter> bytes (fst ob') (snd ob') = {}"
    and memory_put: "memory_of (put_mem m s) = m"
begin

text \<open>A non-null result, its size and the heap after it.\<close>

lemma malloc_some:
  assumes "invar L s" and "unat n + 16 \<le> 2 ^ 63" and "malloc n s = Some (a, t)" and "a \<noteq> 0"
  obtains c where "unat n \<le> c" and "(a, c) \<notin> L" and "invar (insert (a, c) L) t" and "same_bytes L (memory_of s) (memory_of t)"
    and "\<And>ob. ob \<in> L \<Longrightarrow> bytes a c \<inter> bytes (fst ob) (snd ob) = {}"
proof -
  obtain c where c: "unat n \<le> c" "(a, c) \<notin> L" "invar (insert (a, c) L) t" "same_bytes L (memory_of s) (memory_of t)"
    using malloc_law [OF assms(1,2)] assms(3,4) by auto
  have "bytes a c \<inter> bytes (fst ob) (snd ob) = {}" if "ob \<in> L" for ob
    using objects_apart [OF c(3), of "(a, c)" ob] that c(2) by auto
  then show thesis using c that by blast
qed

lemma malloc_free_restores:
  assumes "invar L s" and "unat n + 16 \<le> 2 ^ 63" and "malloc n s = Some (a, t)" and "a \<noteq> 0"
  shows "\<exists>u. free a t = Some u \<and> invar L u \<and> same_bytes L (memory_of s) (memory_of u)"
proof -
  obtain c where c: "(a, c) \<notin> L" "invar (insert (a, c) L) t" "same_bytes L (memory_of s) (memory_of t)"
    using malloc_some [OF assms] by metis
  then have "insert (a, c) L - {(a, c)} = L" by simp
  then obtain u where "free a t = Some u" "invar L u" "same_bytes L (memory_of t) (memory_of u)"
    using free_law [OF c(2), of a c] by auto
  then show ?thesis using c(3) by (simp add: same_bytes_def)
qed

text \<open>What a client has written into an object is there after other clients' requests.\<close>

lemma contents_kept:
  assumes "invar L s" and "(a, c) \<in> L" and "\<And>x. x \<notin> bytes a c \<Longrightarrow> m x = memory_of s x"
    and "unat n + 16 \<le> 2 ^ 63" and "malloc n (put_mem m s) = Some (b, t)" and "x \<in> bytes a c"
  shows "memory_of t x = m x"
proof -
  have inv: "invar L (put_mem m s)" by (rule write_law [OF assms(1-3)])
  show ?thesis
  proof (cases "b = 0")
    case True
    then have "t = put_mem m s" using malloc_law [OF inv assms(4)] assms(5) by auto
    then show ?thesis by (simp add: memory_put)
  next
    case False
    then have "same_bytes L (memory_of (put_mem m s)) (memory_of t)" using malloc_law [OF inv assms(4)] assms(5) by auto
    then show ?thesis using assms(2,6) by (auto simp: same_bytes_def memory_put)
  qed
qed

end

interpretation heap: object_heap kmalloc kfree "heap_inv N F" mem "\<lambda>m s. s\<lparr>mem := m\<rparr>" for N F
proof
  fix L n a c m ob ob' and s :: "'a slab_scheme"
  assume inv: "heap_inv N F L s"
  show "\<exists>a t. kmalloc n s = Some (a, t) \<and>
      (a = 0 \<and> t = s \<or> a \<noteq> 0 \<and> aligned 4 a \<and> (\<exists>c \<ge> unat n. (a, c) \<notin> L \<and> heap_inv N F (insert (a, c) L) t) \<and>
        same_bytes L (mem s) (mem t))" if "unat n + 16 \<le> 2 ^ 63"
    using heap_kmalloc [OF inv that] unfolding same_bytes_def by blast
  show "\<exists>t. kfree a s = Some t \<and> heap_inv N F (L - {(a, c)}) t \<and> same_bytes (L - {(a, c)}) (mem s) (mem t)" if "(a, c) \<in> L"
    using heap_kfree [OF inv that] unfolding same_bytes_def by blast
  show "heap_inv N F L (s\<lparr>mem := m\<rparr>)" if "(a, c) \<in> L" "\<And>x. x \<notin> bytes a c \<Longrightarrow> m x = mem s x"
    by (rule heap_write [OF inv that])
  show "bytes (fst ob) (snd ob) \<inter> bytes (fst ob') (snd ob') = {}" if "ob \<in> L" "ob' \<in> L" "ob \<noteq> ob'"
    by (rule heap_apart [OF inv that])
qed simp

subsection \<open>Initialisation, statistics, sizes\<close>

definition empty_view :: heap_view where
  "empty_view = \<lparr>class_pages = (\<lambda>_. []), page_free = (\<lambda>_. []), large_blocks = {}\<rparr>"

lemma slab_init_inv:
  assumes "buddy_inv N B s"
  shows "slab_inv N B empty_view (slab_init (buddy_hhdm s) s)" and "live empty_view h = {}"
proof -
  let ?t = "slab_init (buddy_hhdm s) s"
  have len: "length class_sizes = 8" by (simp add: class_sizes_def)
  have v: "owned empty_view = {}" "view_ok empty_view" by (simp_all add: empty_view_def owned_def pages_def view_ok_def)
  have "buddy_inv N B ?t" by (rule buddy_inv_frame [OF assms]) (simp_all add: slab_init_def)
  moreover have "cache_ok empty_view i ?t" if "i < 8" for i
    using class_size [OF that] that len by (simp add: cache_ok_def Let_def slab_init_def empty_view_def)
  ultimately show "slab_inv N B empty_view ?t"
    using v len by (simp add: slab_inv_def slab_init_def custody_def wf_blocks_def empty_view_def)
  show "live empty_view h = {}" by (simp add: live_def empty_view_def)
qed

lemma managed_empty: "managed B empty_view = frames_of B"
  by (simp add: managed_def owned_def pages_def empty_view_def)

lemma heap_slab_init: "buddy_inv N B s \<Longrightarrow> heap_inv N (frames_of B) {} (slab_init (buddy_hhdm s) s)"
proof -
  assume inv: "buddy_inv N B s"
  show ?thesis unfolding heap_inv_def using slab_init_inv [OF inv] managed_empty by blast
qed

text \<open>The live objects of one class, counted.\<close>

lemma class_objects:
  assumes inv: "slab_inv N B G s" and i: "i < 8"
  shows "card {ob \<in> live G (slab_hhdm s). snd ob = csize i} + sum_list (map (length \<circ> page_free G) (class_pages G i)) =
    length (class_pages G i) * nslots i"
proof -
  let ?h = "slab_hhdm s" and ?ps = "class_pages G i"
  let ?S = "SIGMA p:set ?ps. {..<nslots i} - set (page_free G p)"
  have dist: "distinct ?ps" using slab_invD(4) [OF inv] i by (simp add: view_ok_def)
  have inj: "csize j = csize i \<longleftrightarrow> j = i" for j by (simp add: csize_def)
  have big: "4096 * 2 ^ ord - 16 \<noteq> csize i" for ord
  proof -
    have "4096 * 1 \<le> 4096 * (2 :: nat) ^ ord" by (intro mult_le_mono2 one_le_power) simp
    then show ?thesis using csize_bounds [OF i] by linarith
  qed
  have "{ob \<in> live G ?h. snd ob = csize i} = (\<lambda>(p, k). slot_obj ?h i p k) ` ?S"
  proof (intro set_eqI iffI)
    fix ob assume "ob \<in> {ob \<in> live G ?h. snd ob = csize i}"
    then have ob: "ob \<in> live G ?h" "snd ob = csize i" by auto
    from ob(1) show "ob \<in> (\<lambda>(p, k). slot_obj ?h i p k) ` ?S"
    proof (cases rule: live_cases)
      case (slot j p k)
      then have "j = i" using ob(2) inj by (simp add: slot_obj_def)
      then show ?thesis using slot by (intro image_eqI [of _ _ "(p, k)"]) auto
    next
      case (large ord p)
      then show ?thesis using ob(2) big by (simp add: large_obj_def)
    qed
  next
    fix ob assume "ob \<in> (\<lambda>(p, k). slot_obj ?h i p k) ` ?S"
    then show "ob \<in> {ob \<in> live G ?h. snd ob = csize i}" using i by (auto intro: slot_live) (simp add: slot_obj_def)
  qed
  moreover have "inj_on (\<lambda>(p, k). slot_obj ?h i p k) ?S"
    using slot_obj_inj(1,3) [OF inv i _ _ i] by (intro inj_onI) (auto simp: slot_obj_def)
  ultimately have "card {ob \<in> live G ?h. snd ob = csize i} = card ?S" by (simp add: card_image)
  also have "\<dots> = (\<Sum>p \<in> set ?ps. card ({..<nslots i} - set (page_free G p)))" by simp
  also have "\<dots> = sum_list (map (\<lambda>p. nslots i - length (page_free G p)) ?ps)"
    unfolding sum_list_distinct_conv_sum_set [OF dist]
  proof (rule sum.cong [OF refl])
    fix p assume p: "p \<in> set ?ps"
    note f = free_slots_page [OF inv i p]
    show "card ({..<nslots i} - set (page_free G p)) = nslots i - length (page_free G p)"
      using card_Diff_subset [of "set (page_free G p)" "{..<nslots i}"] f(2,3) by (simp add: distinct_card)
  qed
  finally have card: "card {ob \<in> live G ?h. snd ob = csize i} = sum_list (map (\<lambda>p. nslots i - length (page_free G p)) ?ps)" .
  have "sum_list (map (\<lambda>p. nslots i - length (page_free G p)) ps) + sum_list (map (length \<circ> page_free G) ps) = length ps * nslots i"
    if "set ps \<subseteq> set ?ps" for ps
    using that
  proof (induction ps)
    case (Cons p ps)
    then have "length (page_free G p) \<le> nslots i" using free_slots_page [OF inv i, of p] slots_length by auto
    then show ?case using Cons by simp
  qed simp
  then show ?thesis unfolding card by blast
qed

lemma stats_class:
  assumes "heap_inv N F L s" and i: "i < 8"
  shows "st_obj_size (slab_get_stats s ! i) = of_nat (csize i)"
    and "st_bytes_in_use (slab_get_stats s ! i) = of_nat (csize i * card {ob \<in> L. snd ob = csize i})"
proof -
  obtain B G where inv: "slab_inv N B G s" and L: "live G (slab_hhdm s) = L" "managed B G = F" using assms(1) by (auto simp: heap_inv_def)
  note c = slab_invD(6) [OF inv i, unfolded cache_ok_def Let_def] and len = slab_invD(5) [OF inv]
  let ?F = "sum_list (map (length \<circ> page_free G) (class_pages G i))" and ?k = "card {ob \<in> L. snd ob = csize i}"
  have "total_slots (caches s ! i) = of_nat (?k + ?F)" using c class_objects [OF inv i] L by simp
  moreover have "free_slots (caches s ! i) = of_nat ?F" using c by simp
  ultimately have "total_slots (caches s ! i) - free_slots (caches s ! i) = of_nat ?k"
    by (simp only: of_nat_add add_diff_cancel_right')
  then show "st_bytes_in_use (slab_get_stats s ! i) = of_nat (csize i * ?k)"
    using c len i by (simp add: slab_get_stats_def)
  show "st_obj_size (slab_get_stats s ! i) = of_nat (csize i)" using c len i by (simp add: slab_get_stats_def)
qed

text \<open>
  The reported size: the class of a slot; for a large block the size of the whole block, header
  included.
\<close>

lemma usable_size:
  assumes inv: "slab_inv N B G s" and ob: "(a, c) \<in> live G (slab_hhdm s)"
  shows "kmalloc_usable_size a s = Some (of_nat (if c \<le> 2048 then c else c + 16))"
  using ob
proof (cases rule: live_cases)
  case (slot i q k)
  note pg = free_slots_page [OF inv slot(2,3)] and qo = pages_owned [OF slot(2,3)] and o = slot_off_bounds [OF slot(2,4)]
  have a: "a = q + slab_hhdm s + slot_off i k" "c = csize i" using slot(1) by (simp_all add: slot_obj_def)
  have base: "a AND SLAB_PAGE_MASK = q + slab_hhdm s"
    unfolding a using page_base [OF owned_page(3) [OF inv qo], of "slot_off i k"] o(3) by simp
  have nz: "a \<noteq> 0" unfolding a using in_page_nonzero [OF slab_invD(9) [OF inv] owned_page(1,2) [OF inv qo]] o(3) by simp
  have "obj_size (caches s ! i) = of_nat (csize i)" using slab_invD(6) [OF inv slot(2)] by (simp add: cache_ok_def Let_def)
  then show ?thesis
    using pg(1) cache_index_ptr [OF slot(2), of s] csize_bounds [OF slot(2)] nz
    by (simp add: kmalloc_usable_size_def base slab_page_def sl_magic_def a(2))
next
  case (large ord p)
  have lo: "(ord, p) \<in> owned G" using large(2) by (simp add: owned_def)
  have a: "a = p + slab_hhdm s + 16" "c = 4096 * 2 ^ ord - 16" using large(1) by (simp_all add: large_obj_def)
  note ok = owned_page(1) [OF inv lo]
  have ord: "ord \<le> 10" using ok by (simp add: block_ok_def)
  have base: "a AND SLAB_PAGE_MASK = p + slab_hhdm s" unfolding a by (rule page_base [OF owned_page(3) [OF inv lo]]) simp
  have nz: "a \<noteq> 0" unfolding a using in_page_nonzero [OF slab_invD(9) [OF inv] ok owned_page(2) [OF inv lo], of 16] by simp
  have le: "4096 * 1 \<le> 4096 * (2 :: nat) ^ ord" by (intro mult_le_mono2 one_le_power) simp
  have "kmalloc_usable_size a s = Some (push_bit ord SLAB_PAGE_SIZE)"
    using nz slab_invD(7) [OF inv large(2)] ord
    by (simp add: kmalloc_usable_size_def base large_page_def LARGE_MAGIC_def SLAB_MAGIC_def unat_of_nat)
  moreover have "push_bit ord SLAB_PAGE_SIZE = of_nat (4096 * 2 ^ ord)" by (simp add: push_bit_eq_mult SLAB_PAGE_SIZE_def)
  moreover have "\<not> c \<le> 2048" "c + 16 = 4096 * 2 ^ ord" using a(2) le by linarith+
  ultimately show ?thesis by simp
qed

text \<open>Requests at the top of the range.\<close>

lemma order_search_none: "unat n > 2 ^ 63 \<Longrightarrow> order_search ord n = None"
proof (induction "64 - ord" arbitrary: ord)
  case 0
  then show ?case by (simp add: order_search.simps [of ord])
next
  case (Suc k)
  have "push_bit ord SLAB_PAGE_SIZE < n"
  proof (cases "ord \<le> 51")
    case True
    then have "(2 :: nat) ^ ord \<le> 2 ^ 51" by (intro power_increasing) simp_all
    then show ?thesis using Suc.prems page_shift [OF True] by (simp add: word_less_nat_alt)
  next
    case False
    have "push_bit ord SLAB_PAGE_SIZE = push_bit (ord + 12) 1"
      by (simp add: SLAB_PAGE_SIZE_def push_bit_eq_mult power_add)
    also have "\<dots> = 0" using False by (intro bit_word_eqI) (auto simp: bit_simps)
    finally have "push_bit ord SLAB_PAGE_SIZE = 0" .
    then show ?thesis using Suc.prems by (simp add: word_less_nat_alt)
  qed
  then show ?case using Suc by (simp add: order_search.simps [of ord])
qed

lemma kmalloc_large: "2048 < unat n \<Longrightarrow> kmalloc n s = large_alloc n s"
  by (auto simp: kmalloc_def class_sizes_def word_le_nat_alt)

lemma kmalloc_huge_none:
  assumes "2 ^ 63 < unat n + 16" and "unat n + 16 < 2 ^ 64"
  shows "kmalloc n s = None"
proof -
  have "align_up sizeof_large_hdr SLAB_ALIGN = 16" by (simp add: align_up_def sizeof_large_hdr_def SLAB_ALIGN_def)
  moreover have "unat (16 + n) = unat n + 16" using assms(2) unat_add_exact [of 16 n] by simp
  then have "order_search 0 (16 + n) = None" using assms(1) by (intro order_search_none) simp
  moreover have "2048 < unat n" using assms(1) by simp
  ultimately show ?thesis by (simp add: kmalloc_large large_alloc_def order_for_bytes_def)
qed

lemma kmalloc_wrapped: "2 ^ 64 \<le> unat n + 16 \<Longrightarrow> kmalloc n s = large_alloc n s \<and> order_for_bytes (16 + n) = Some 0"
proof -
  assume n: "2 ^ 64 \<le> unat n + 16"
  have lt: "unat n < 2 ^ 64" using unat_lt2p [of n] by simp
  obtain d where d: "unat n + 16 = 2 ^ 64 + d" using le_Suc_ex [OF n] by (elim exE)
  have "unat (n + 16) = (unat n + unat (16 :: u64)) mod 2 ^ LENGTH(64)" by (rule unat_word_ariths(1))
  then have "unat (16 + n) = (unat n + 16) mod 2 ^ 64" unfolding add.commute [of 16 n] by simp
  also have "\<dots> = d mod 2 ^ 64" unfolding d by (rule mod_add_self1)
  also have "\<dots> \<le> d" by (rule mod_less_eq_dividend)
  also have "d < 16" using d lt by linarith
  finally have "\<not> push_bit 0 SLAB_PAGE_SIZE < 16 + n" by (simp add: SLAB_PAGE_SIZE_def word_less_nat_alt)
  then have "order_for_bytes (16 + n) = Some 0" by (simp add: order_for_bytes_def order_search.simps [of 0])
  moreover have "2048 < unat n" using n by simp
  ultimately show ?thesis by (simp add: kmalloc_large)
qed

subsection \<open>A heap for the witnesses\<close>

definition cold_slab :: slab where
  "cold_slab = \<lparr>mem = (\<lambda>_. 0), io_trace = [], device = demo_uart, cr2 = 0, cr3 = 0, rsp = 0,
     tlb_flushes = [], bitmap = 0, bitmap_bytes = 0, total_frames = 0, usable_frames = 0,
     free_frames = 0, next_hint = 0, paging_hhdm = demo_hhdm, kernel_pml4 = 0, free_list = replicate 11 0,
     free_count = replicate 11 0, buddy_hhdm = demo_hhdm, caches = [], slab_hhdm = 0, caches_addr = 0xffffffff80010000\<rparr>"

definition cold_blocks :: slab where "cold_blocks = list_push 2 0x4000 cold_slab"
definition demo_slab :: slab where "demo_slab = slab_init demo_hhdm cold_blocks"

lemma cold_blocks_inv: "buddy_inv 8 {(2, 0x4000)} cold_blocks" and cold_blocks_hhdm: "buddy_hhdm cold_blocks = demo_hhdm"
proof -
  have "buddy_inv 8 {} cold_slab" by (rule buddy_inv_empty) (simp_all add: cold_slab_def demo_direct_map)
  moreover have "block_ok 8 2 0x4000" by (auto simp: block_ok_def aligned_def demo_blk)
  ultimately have p: "buddy_inv 8 {(2, 0x4000)} cold_blocks" "heap_step (blk 2 0x4000) cold_slab cold_blocks"
    using inv_push [of 8 "{}" cold_slab 2 "0x4000"] by (simp_all add: cold_blocks_def)
  show "buddy_inv 8 {(2, 0x4000)} cold_blocks" by (rule p(1))
  show "buddy_hhdm cold_blocks = demo_hhdm" using heap_step_fields(1) [OF p(2)] by (simp add: cold_slab_def)
qed

lemma demo_slab_inv: "slab_inv 8 {(2, 0x4000)} empty_view demo_slab" "heap_inv 8 {4..<8} {} demo_slab"
  using slab_init_inv(1) [OF cold_blocks_inv] heap_slab_init [OF cold_blocks_inv] by (simp_all add: demo_slab_def cold_blocks_hhdm demo_blk)

text \<open>The heap after \<open>kmalloc(100)\<close>: one live object of 128 bytes or more.\<close>

lemma demo_object: "\<exists>a c t. kmalloc 100 demo_slab = Some (a, t) \<and> a \<noteq> 0 \<and> 100 \<le> c \<and> heap_inv 8 {4..<8} {(a, c)} t"
proof -
  obtain a t where r: "kmalloc 100 demo_slab = Some (a, t)"
    "a = 0 \<and> t = demo_slab \<and> (\<forall>(j, q) \<in> {(2, 0x4000 :: u64)}. 4096 * 2 ^ j < unat (100 :: u64) + 16) \<or>
     (\<exists>c. object_ok (a, c) 100 \<and> new_object 8 {(2, 0x4000)} empty_view demo_slab (a, c) t)"
    using kmalloc_spec [OF demo_slab_inv(1), of 100] by auto
  then obtain c where "object_ok (a, c) 100" "new_object 8 {(2, 0x4000)} empty_view demo_slab (a, c) t" by auto
  moreover have "managed {(2, 0x4000)} empty_view = {4..<8}" by (simp add: managed_empty demo_blk)
  ultimately show ?thesis
    using r(1) new_object_heap [of 8 "{(2, 0x4000)}" empty_view demo_slab "(a, c)" t]
    by (auto simp: object_ok_def slab_init_inv(2) [OF cold_blocks_inv])
qed

subsection \<open>The properties of the heap\<close>

text \<open>C4 (functional): an allocation of up to \<open>2 ^ 63 - 16\<close> bytes returns. It returns null and changes nothing
  exactly for a request of zero bytes or when there is no room: for up to 2048 bytes, when the smallest class that fits
  counts no free slot and the buddy allocator has no page; above, when the buddy allocator has no block that holds the
  request and its header. Otherwise it
  returns a 16-byte aligned non-null pointer to a new object of at least the requested size that
  overlaps no live object; the heap stays sound and manages the same frames (none is lost), and no
  byte of a live object changes.\<close>

theorem kmalloc_correct:
  assumes "heap_inv N F L s" and "unat n + 16 \<le> 2 ^ 63"
  shows "\<exists>a t. kmalloc n s = Some (a, t) \<and> (a = 0 \<longleftrightarrow> n = 0 \<or> no_room n s) \<and>
    (if a = 0 then t = s
     else aligned 4 a \<and>
       (\<exists>c \<ge> unat n. (a, c) \<notin> L \<and> heap_inv N F (insert (a, c) L) t \<and> (\<forall>ob \<in> L. bytes a c \<inter> bytes (fst ob) (snd ob) = {})) \<and>
       (\<forall>ob \<in> L. \<forall>x \<in> bytes (fst ob) (snd ob). mem t x = mem s x))"
proof -
  obtain a t where r: "kmalloc n s = Some (a, t)" "a = 0 \<and> t = s \<or> a \<noteq> 0 \<and> aligned 4 a"
    "a \<noteq> 0 \<longrightarrow> (\<forall>ob \<in> L. \<forall>x \<in> bytes (fst ob) (snd ob). mem t x = mem s x)"
    using heap_kmalloc [OF assms] by blast
  note null = heap_kmalloc_null [OF assms r(1)]
  show ?thesis
  proof (cases "a = 0")
    case True
    then show ?thesis using r null by auto
  next
    case False
    obtain c where "unat n \<le> c" "(a, c) \<notin> L" "heap_inv N F (insert (a, c) L) t"
      "\<And>ob. ob \<in> L \<Longrightarrow> bytes a c \<inter> bytes (fst ob) (snd ob) = {}"
      using heap.malloc_some [OF assms r(1) False] by metis
    then have "\<exists>c \<ge> unat n. (a, c) \<notin> L \<and> heap_inv N F (insert (a, c) L) t \<and> (\<forall>ob \<in> L. bytes a c \<inter> bytes (fst ob) (snd ob) = {})"
      by blast
    then show ?thesis using r null False by (intro exI [of _ a] exI [of _ t]) simp
  qed
qed

theorem kmalloc_correct_witness:
  "\<exists>a t. kmalloc 5000 demo_slab = Some (a, t) \<and> a \<noteq> 0 \<and> (\<exists>c \<ge> 5000. heap_inv 8 {4..<8} {(a, c)} t)"
proof -
  have "fst (buddy_alloc 1 demo_slab) \<noteq> 0" using buddy_null [OF slab_invD(1) [OF demo_slab_inv(1)], of 1] by auto
  moreover have "unat (5000 :: u64) + 16 \<le> 4096 * 2 ^ 1" "\<not> unat (5000 :: u64) \<le> 2048" by simp_all
  ultimately have "\<not> no_room 5000 demo_slab" unfolding no_room_def by meson
  then show ?thesis using kmalloc_correct [OF demo_slab_inv(2), of 5000] by (auto split: if_splits)
qed

text \<open>C5 (functional): freeing a live object returns; exactly that object leaves the set of live
  objects, the heap stays sound and manages the same frames, and the bytes of all others are
  unchanged.\<close>

theorem kfree_correct:
  assumes "heap_inv N F L s" and "(a, c) \<in> L"
  shows "\<exists>t. kfree a s = Some t \<and> heap_inv N F (L - {(a, c)}) t \<and>
    (\<forall>ob \<in> L - {(a, c)}. \<forall>x \<in> bytes (fst ob) (snd ob). mem t x = mem s x)"
  by (rule heap_kfree [OF assms])

theorem kfree_correct_witness:
  "\<exists>a t u. kmalloc 100 demo_slab = Some (a, t) \<and> kfree a t = Some u \<and> heap_inv 8 {4..<8} {} u"
proof -
  obtain a c t where o: "kmalloc 100 demo_slab = Some (a, t)" "heap_inv 8 {4..<8} {(a, c)} t" using demo_object by blast
  from kfree_correct [OF o(2), of a c] o(1) show ?thesis by auto
qed

text \<open>C6 (safety): the objects of the heap never overlap, and a client that writes only inside an
  object it holds cannot damage the allocator: the heap stays sound with the same live objects,
  and freeing any of them still works.\<close>

theorem kmalloc_objects_safe:
  assumes "heap_inv N F L s" and "(a, c) \<in> L" and "\<forall>x. x \<notin> bytes a c \<longrightarrow> m x = mem s x"
  shows "(\<forall>ob \<in> L. ob \<noteq> (a, c) \<longrightarrow> bytes a c \<inter> bytes (fst ob) (snd ob) = {}) \<and>
    heap_inv N F L (s\<lparr>mem := m\<rparr>) \<and> (\<forall>(b, d) \<in> L. \<exists>t. kfree b (s\<lparr>mem := m\<rparr>) = Some t)"
proof -
  have w: "heap_inv N F L (s\<lparr>mem := m\<rparr>)" using assms(3) by (intro heap.write_law [OF assms(1,2)]) simp
  moreover have "bytes a c \<inter> bytes (fst ob) (snd ob) = {}" if "ob \<in> L" "ob \<noteq> (a, c)" for ob
    using heap.objects_apart [OF assms(1,2) that(1)] that(2) by simp
  moreover have "\<exists>t. kfree b (s\<lparr>mem := m\<rparr>) = Some t" if "(b, d) \<in> L" for b d
    using heap.free_law [OF w that] by blast
  ultimately show ?thesis by blast
qed

theorem kmalloc_objects_safe_witness:
  "\<exists>a c t. kmalloc 100 demo_slab = Some (a, t) \<and> heap_inv 8 {4..<8} {(a, c)} (t\<lparr>mem := (mem t)(a := 7)\<rparr>)"
proof -
  obtain a c t where o: "kmalloc 100 demo_slab = Some (a, t)" "100 \<le> c" "heap_inv 8 {4..<8} {(a, c)} t" using demo_object by blast
  have "a \<in> bytes a c" using o(2) by (intro bytes_first) simp
  then have "heap_inv 8 {4..<8} {(a, c)} (t\<lparr>mem := (mem t)(a := 7)\<rparr>)"
    using kmalloc_objects_safe [OF o(3), of a c "(mem t)(a := 7)"] by auto
  then show ?thesis using o(1) by blast
qed

text \<open>Freeing what \<open>kmalloc\<close> has just returned gives back a heap with the live
  objects there were before, their contents untouched.\<close>

theorem kmalloc_kfree_roundtrip:
  assumes "heap_inv N F L s" and "unat n + 16 \<le> 2 ^ 63" and "kmalloc n s = Some (a, t)" and "a \<noteq> 0"
  shows "\<exists>u. kfree a t = Some u \<and> heap_inv N F L u \<and> (\<forall>ob \<in> L. \<forall>x \<in> bytes (fst ob) (snd ob). mem u x = mem s x)"
  using heap.malloc_free_restores [OF assms] by (simp add: same_bytes_def)

theorem kmalloc_kfree_roundtrip_witness:
  "\<exists>a t u. kmalloc 100 demo_slab = Some (a, t) \<and> kfree a t = Some u \<and> heap_inv 8 {4..<8} {} u"
proof -
  obtain a c t where o: "kmalloc 100 demo_slab = Some (a, t)" "a \<noteq> 0" using demo_object by blast
  from kmalloc_kfree_roundtrip [OF demo_slab_inv(2) _ o] o(1) show ?thesis by auto
qed

text \<open>\<open>slab_init\<close> on an initialised buddy allocator gives an empty sound heap.\<close>

theorem slab_init_correct:
  assumes "buddy_inv N B s"
  shows "heap_inv N (frames_of B) {} (slab_init (buddy_hhdm s) s)"
  by (rule heap_slab_init [OF assms])

theorem slab_init_correct_witness: "heap_inv 8 {4..<8} {} (slab_init (buddy_hhdm cold_blocks) cold_blocks)"
  using slab_init_correct [OF cold_blocks_inv] by (simp add: demo_blk)

text \<open>The statistics are exact: each class reports its object size and the size
  of all the live objects of that class.\<close>

theorem slab_get_stats_correct:
  assumes "heap_inv N F L s" and "i < 8"
  shows "st_obj_size (slab_get_stats s ! i) = of_nat (csize i) \<and>
    st_bytes_in_use (slab_get_stats s ! i) = of_nat (csize i * card {ob \<in> L. snd ob = csize i})"
  using stats_class [OF assms] by simp

theorem slab_get_stats_correct_witness: "st_bytes_in_use (slab_get_stats demo_slab ! 3) = 0"
  using slab_get_stats_correct [OF demo_slab_inv(2), of 3] by simp

text \<open>\<open>kmalloc_usable_size\<close> of a live object is its size, except for large
  blocks, for which it counts the 16 bytes of the header that the caller must not use.\<close>

theorem kmalloc_usable_size_correct:
  assumes "heap_inv N F L s" and "(a, c) \<in> L"
  shows "kmalloc_usable_size a s = Some (of_nat (if c \<le> 2048 then c else c + 16))"
proof -
  obtain B G where "slab_inv N B G s" "live G (slab_hhdm s) = L" "managed B G = F" using assms(1) by (auto simp: heap_inv_def)
  then show ?thesis using usable_size [of N B G s a c] assms(2) by simp
qed

theorem kmalloc_usable_size_correct_witness:
  "\<exists>a c t. kmalloc 100 demo_slab = Some (a, t) \<and> kmalloc_usable_size a t = Some (of_nat (if c \<le> 2048 then c else c + 16))"
proof -
  obtain a c t where o: "kmalloc 100 demo_slab = Some (a, t)" "heap_inv 8 {4..<8} {(a, c)} t" using demo_object by blast
  from kmalloc_usable_size_correct [OF o(2), of a c] o(1) show ?thesis by auto
qed

text \<open>C40 (error): the top of the range. Between \<open>2 ^ 63 - 16\<close> and \<open>2 ^ 64 - 16\<close> bytes the search for an order
  shifts out of range and never finds one; above, the sum with the header wraps around, and the
  request is answered with a single page of the buddy allocator.\<close>

theorem kmalloc_huge:
  assumes "2 ^ 63 < unat n + 16"
  shows "if unat n + 16 < 2 ^ 64 then kmalloc n s = None
    else \<exists>t. kmalloc n s = Some (case buddy_alloc 0 s of (p, s1) \<Rightarrow> if p = 0 then 0 else p + slab_hhdm s1 + 16, t)"
proof (cases "unat n + 16 < 2 ^ 64")
  case True
  then show ?thesis using kmalloc_huge_none [OF assms] by simp
next
  case False
  have hdr: "align_up sizeof_large_hdr SLAB_ALIGN = 16" by (simp add: align_up_def sizeof_large_hdr_def SLAB_ALIGN_def)
  note w = kmalloc_wrapped [of n s]
  have "kmalloc n s = large_alloc n s" "order_for_bytes (16 + n) = Some 0" using w False by simp_all
  then show ?thesis
    using False by (auto simp: large_alloc_def hdr Let_def put64_def put32_def split: prod.split)
qed

theorem kmalloc_huge_witness:
  "kmalloc 0x9000000000000000 demo_slab = None \<and> (\<exists>a t. kmalloc 0xfffffffffffffff8 demo_slab = Some (a, t))"
  using kmalloc_huge [of "0x9000000000000000" demo_slab] kmalloc_huge [of "0xfffffffffffffff8" demo_slab] by auto

end
