(* ===== verification/Sched.thy ===== *)
theory Sched
  imports Slab_Contract
begin

text \<open>
  The cooperative round-robin scheduler of \<^verbatim>\<open>core/sched/sched.c\<close> with the context switch of
  \<^verbatim>\<open>arch/x86_64/context.asm\<close>. Tasks are \<^verbatim>\<open>struct task\<close> objects on the kernel heap, linked into a
  ring; a suspended task is a saved stack pointer and a frame of seven words on its own stack. The
  abstraction is a queue of contexts: the running task's registers and, in ring order, the context
  each suspended task resumes with. A yield moves the running context to the end of that queue and
  loads its head; nothing else is lost or changed.
\<close>

subsection \<open>State and operations\<close>

text \<open>
  The callee-saved registers and the instruction pointer, beside \<open>rsp\<close> of the machine; the static
  variables of \<^verbatim>\<open>sched.c\<close>; and two link-time addresses: that of \<open>task_trampoline\<close> and the return
  address of the call of \<open>context_switch\<close> in \<open>sched_yield\<close>.
\<close>

record sched = slab +
  rbp :: u64
  rbx :: u64
  r12 :: u64
  r13 :: u64
  r14 :: u64
  r15 :: u64
  rip :: u64
  current :: u64
  next_id :: u32
  task_trampoline :: u64
  yield_return :: u64

definition KERNEL_STACK_SIZE :: u64 where "KERNEL_STACK_SIZE = 16384"
definition TASK_READY :: u32 where "TASK_READY = 0"
definition TASK_RUNNING :: u32 where "TASK_RUNNING = 1"

text \<open>\<^verbatim>\<open>struct task\<close>: \<open>rsp\<close> at 0, \<open>stack_base\<close> at 8, \<open>id\<close> at 16, \<open>state\<close> at 20, \<open>next\<close> at 24.\<close>

definition sizeof_task :: u64 where "sizeof_task = 32"
definition t_rsp :: "memory \<Rightarrow> u64 \<Rightarrow> u64" where "t_rsp m t = load64 m t"
definition t_stack_base :: "memory \<Rightarrow> u64 \<Rightarrow> u64" where "t_stack_base m t = load64 m (t + 8)"
definition t_id :: "memory \<Rightarrow> u64 \<Rightarrow> u32" where "t_id m t = load32 m (t + 16)"
definition t_state :: "memory \<Rightarrow> u64 \<Rightarrow> u32" where "t_state m t = load32 m (t + 20)"
definition t_next :: "memory \<Rightarrow> u64 \<Rightarrow> u64" where "t_next m t = load64 m (t + 24)"

definition push_reg :: "u64 \<Rightarrow> 'a machine_scheme \<Rightarrow> 'a machine_scheme" where
  "push_reg v s = (let s = s\<lparr>rsp := rsp s - 8\<rparr> in s\<lparr>mem := store64 (mem s) (rsp s) v\<rparr>)"

definition pop_reg :: "'a machine_scheme \<Rightarrow> u64 \<times> 'a machine_scheme" where
  "pop_reg s = (load64 (mem s) (rsp s), s\<lparr>rsp := rsp s + 8\<rparr>)"

text \<open>\<open>context_switch\<close> from its call, which pushes \<open>ret\<close>, to its \<^verbatim>\<open>ret\<close>.\<close>

definition context_switch :: "u64 \<Rightarrow> u64 \<Rightarrow> u64 \<Rightarrow> 'a sched_scheme \<Rightarrow> 'a sched_scheme" where
  "context_switch ret old_rsp new_rsp s =
     (let s = push_reg ret s;
          s = push_reg (rbp s) s; s = push_reg (rbx s) s; s = push_reg (r12 s) s;
          s = push_reg (r13 s) s; s = push_reg (r14 s) s; s = push_reg (r15 s) s;
          s = put64 old_rsp (rsp s) s;
          s = s\<lparr>rsp := new_rsp\<rparr>;
          (v, s) = pop_reg s; s = s\<lparr>r15 := v\<rparr>;
          (v, s) = pop_reg s; s = s\<lparr>r14 := v\<rparr>;
          (v, s) = pop_reg s; s = s\<lparr>r13 := v\<rparr>;
          (v, s) = pop_reg s; s = s\<lparr>r12 := v\<rparr>;
          (v, s) = pop_reg s; s = s\<lparr>rbx := v\<rparr>;
          (v, s) = pop_reg s; s = s\<lparr>rbp := v\<rparr>;
          (v, s) = pop_reg s
      in s\<lparr>rip := v\<rparr>)"

definition sched_init :: "'a sched_scheme \<Rightarrow> ((halt \<times> 'a sched_scheme) + 'a sched_scheme) option" where
  "sched_init s = Option.bind (kmalloc sizeof_task s) (\<lambda>(t, s).
     if t = 0 then Some (Inl (NullDeref, s))
     else
       let s = put64 t 0 s;
           s = put64 (t + 8) 0 s;
           s = put32 (t + 16) (next_id s) s;
           s = s\<lparr>next_id := next_id s + 1\<rparr>;
           s = put32 (t + 20) TASK_RUNNING s;
           s = put64 (t + 24) t s
       in Some (Inr (s\<lparr>current := t\<rparr>)))"

text \<open>The walk to the tail of the ring, and the forged frame: eight words below \<open>stack_top\<close>.\<close>

partial_function (option) ring_tail :: "u64 \<Rightarrow> 'a sched_scheme \<Rightarrow> u64 option" where
  "ring_tail tail s =
     (if t_next (mem s) tail \<noteq> current s then ring_tail (t_next (mem s) tail) s else Some tail)"

definition forge_stack :: "u64 \<Rightarrow> u64 \<Rightarrow> 'a sched_scheme \<Rightarrow> 'a sched_scheme" where
  "forge_stack stack_top entry s =
     (let s = put64 (stack_top - 8) (task_trampoline s) s;
          s = put64 (stack_top - 16) entry s;
          s = put64 (stack_top - 24) 0 s;
          s = put64 (stack_top - 32) 0 s;
          s = put64 (stack_top - 40) 0 s;
          s = put64 (stack_top - 48) 0 s;
          s = put64 (stack_top - 56) 0 s
      in put64 (stack_top - 64) 0 s)"

definition task_create :: "u64 \<Rightarrow> 'a sched_scheme \<Rightarrow> ((halt \<times> 'a sched_scheme) + (u64 \<times> 'a sched_scheme)) option" where
  "task_create entry s = Option.bind (kmalloc sizeof_task s) (\<lambda>(t, s).
     if t = 0 then Some (Inr (0, s))
     else Option.bind (kmalloc KERNEL_STACK_SIZE s) (\<lambda>(stack, s).
       if stack = 0 then map_option (\<lambda>s. Inr (0, s)) (kfree t s)
       else
         let stack_top = (stack + KERNEL_STACK_SIZE) AND NOT 0xF;
             s = forge_stack stack_top entry s;
             sp = stack_top - 64;
             s = put64 t sp s;
             s = put64 (t + 8) stack s;
             s = put32 (t + 16) (next_id s) s;
             s = s\<lparr>next_id := next_id s + 1\<rparr>;
             s = put32 (t + 20) TASK_READY s
         in if current s = 0 then Some (Inl (NullDeref, s))
            else map_option (\<lambda>tail.
              let s = put64 (tail + 24) t s;
                  s = put64 (t + 24) (current s) s
              in Inr (t, s)) (ring_tail (current s) s)))"

definition sched_yield :: "'a sched_scheme \<Rightarrow> (halt \<times> 'a sched_scheme) + 'a sched_scheme" where
  "sched_yield s =
     (if current s = 0 then Inl (NullDeref, s)
      else
        let prev = current s; nxt = t_next (mem s) prev
        in if nxt = prev then Inr s
           else
             let s = put32 (prev + 20) TASK_READY s;
                 s = put32 (nxt + 20) TASK_RUNNING s;
                 s = s\<lparr>current := nxt\<rparr>
             in Inr (context_switch (yield_return s) prev (t_rsp (mem s) nxt) s))"

subsection \<open>Bytes\<close>

lemma bytes_iff: "n \<le> 2 ^ 64 \<Longrightarrow> x \<in> bytes a n \<longleftrightarrow> unat (x - a) < n"
proof
  assume n: "n \<le> 2 ^ 64"
  assume "x \<in> bytes a n"
  then obtain d where "d < n" "x = a + of_nat d" by (auto simp: bytes_def)
  then show "unat (x - a) < n" using n by (simp add: unat_of_nat)
next
  assume "unat (x - a) < n"
  then show "x \<in> bytes a n" unfolding bytes_def by (intro CollectI exI [of _ "unat (x - a)"]) simp
qed

lemma store64_bytes: "x \<notin> bytes a 8 \<Longrightarrow> store64 m a v x = m x"
  by (simp add: bytes_iff store64_def store_le_def)

lemma store32_bytes: "x \<notin> bytes a 4 \<Longrightarrow> store32 m a v x = m x"
  by (simp add: bytes_iff store32_def store_le_def)

lemma load64_bytes: "(\<And>x. x \<in> bytes a 8 \<Longrightarrow> m' x = m x) \<Longrightarrow> load64 m' a = load64 m a"
  unfolding load64_def by (rule load_le_cong) (auto simp: bytes_def)

lemma load32_bytes: "(\<And>x. x \<in> bytes a 4 \<Longrightarrow> m' x = m x) \<Longrightarrow> load32 m' a = load32 m a"
  unfolding load32_def by (rule load_le_cong) (auto simp: bytes_def)

lemma bytes_sub:
  assumes "unat d + k \<le> n"
  shows "bytes (a + d) k \<subseteq> bytes a n"
proof
  fix x assume "x \<in> bytes (a + d) k"
  then obtain j where j: "j < k" "x = a + d + of_nat j" by (auto simp: bytes_def)
  have "d = of_nat (unat d)" by simp
  then have "x = a + of_nat (unat d + j)" using j(2) by (metis add.assoc of_nat_add)
  then show "x \<in> bytes a n" using j(1) assms unfolding bytes_def by (intro CollectI exI [of _ "unat d + j"]) simp
qed

lemma bytes_mono: "k \<le> n \<Longrightarrow> bytes a k \<subseteq> bytes a n"
  using bytes_sub [of 0 k n a] by simp

subsection \<open>Contexts\<close>

text \<open>What a suspended task resumes with, read from its frame at \<open>r\<close>, and the running one's.\<close>

record context_view =
  c_rbp :: u64
  c_rbx :: u64
  c_r12 :: u64
  c_r13 :: u64
  c_r14 :: u64
  c_r15 :: u64
  c_rip :: u64
  c_rsp :: u64

definition saved_context :: "memory \<Rightarrow> u64 \<Rightarrow> context_view" where
  "saved_context m r = \<lparr>c_rbp = load64 m (r + 40), c_rbx = load64 m (r + 32), c_r12 = load64 m (r + 24),
     c_r13 = load64 m (r + 16), c_r14 = load64 m (r + 8), c_r15 = load64 m r, c_rip = load64 m (r + 48), c_rsp = r + 56\<rparr>"

definition cpu_context :: "'a sched_scheme \<Rightarrow> context_view" where
  "cpu_context s = \<lparr>c_rbp = rbp s, c_rbx = rbx s, c_r12 = r12 s, c_r13 = r13 s, c_r14 = r14 s, c_r15 = r15 s,
     c_rip = rip s, c_rsp = rsp s\<rparr>"

lemma saved_context_cong:
  assumes "\<And>x. x \<in> bytes r 56 \<Longrightarrow> m' x = m x"
  shows "saved_context m' r = saved_context m r"
proof -
  have "load64 m' (r + d) = load64 m (r + d)" if "unat d + 8 \<le> 56" for d
    using assms bytes_sub [OF that, of r] by (intro load64_bytes) blast
  from this [of 0] this [of 8] this [of 16] this [of 24] this [of 32] this [of 40] this [of 48]
  show ?thesis by (simp add: saved_context_def)
qed

text \<open>The memory after the seven pushes, as stores above the new stack pointer.\<close>

definition push_frame :: "memory \<Rightarrow> u64 \<Rightarrow> context_view \<Rightarrow> memory" where
  "push_frame m r c = store64 (store64 (store64 (store64 (store64 (store64 (store64 m (r + 48) (c_rip c))
     (r + 40) (c_rbp c)) (r + 32) (c_rbx c)) (r + 24) (c_r12 c)) (r + 16) (c_r13 c)) (r + 8) (c_r14 c)) r (c_r15 c)"

lemma push_frame_context: "c_rsp c = r + 56 \<Longrightarrow> saved_context (push_frame m r c) r = c"
  by (simp add: saved_context_def push_frame_def off_frame)

lemma push_frame_other: "x \<notin> bytes r 56 \<Longrightarrow> push_frame m r c x = m x"
proof -
  assume x: "x \<notin> bytes r 56"
  have "x \<notin> bytes (r + d) 8" if "unat d + 8 \<le> 56" for d using bytes_sub [OF that, of r] x by blast
  from this [of 0] this [of 8] this [of 16] this [of 24] this [of 32] this [of 40] this [of 48]
  show ?thesis by (simp add: push_frame_def store64_bytes)
qed

definition switched :: "context_view \<Rightarrow> memory \<Rightarrow> 'a sched_scheme \<Rightarrow> 'a sched_scheme" where
  "switched c m s = s\<lparr>mem := m, rsp := c_rsp c, rbp := c_rbp c, rbx := c_rbx c, r12 := c_r12 c, r13 := c_r13 c,
     r14 := c_r14 c, r15 := c_r15 c, rip := c_rip c\<rparr>"

lemma context_switch_effect:
  fixes s :: "'a sched_scheme" and ret old_rsp :: u64
  defines "m1 \<equiv> push_frame (mem s) (rsp s - 56) ((cpu_context s)\<lparr>c_rip := ret\<rparr>)"
  defines "m2 \<equiv> store64 m1 old_rsp (rsp s - 56)"
  shows "context_switch ret old_rsp new_rsp s = switched (saved_context m2 new_rsp) m2 s"
  by (rule sched.equality) (simp_all add: context_switch_def push_reg_def pop_reg_def put64_def Let_def m1_def m2_def
      push_frame_def switched_def saved_context_def cpu_context_def add.commute [of new_rsp])

subsection \<open>The ring of tasks\<close>

text \<open>
  \<open>R\<close> lists the tasks from the running one in scheduling order, each with the area its stack may
  use. Such an area is memory the heap does not manage (the boot stack) or lies in live objects,
  meets no task structure and no other area.
\<close>

type_synonym ring = "(u64 \<times> u64 set) list"

definition client_area :: "nat set \<Rightarrow> (u64 \<times> nat) set \<Rightarrow> u64 \<Rightarrow> u64 set \<Rightarrow> bool" where
  "client_area F L h X \<longleftrightarrow> (\<forall>x \<in> X. dm_frame h x \<notin> F \<or> (\<exists>ob \<in> L. x \<in> bytes (fst ob) (snd ob)))"

definition ring_ok :: "memory \<Rightarrow> u64 list \<Rightarrow> bool" where
  "ring_ok m ts \<longleftrightarrow> (\<forall>i < length ts. t_next m (ts ! i) = ts ! (Suc i mod length ts))"

definition areas_apart :: "ring \<Rightarrow> bool" where
  "areas_apart R \<longleftrightarrow> (\<forall>(t, X) \<in> set R. \<forall>(t', X') \<in> set R. X \<inter> bytes t' 32 = {} \<and>
     (t \<noteq> t' \<longrightarrow> X \<inter> X' = {} \<and> bytes t 32 \<inter> bytes t' 32 = {}))"

definition suspended :: "memory \<Rightarrow> u64 \<times> u64 set \<Rightarrow> bool" where
  "suspended m = (\<lambda>(t, X). t_state m t = TASK_READY \<and> bytes (t_rsp m t) 56 \<subseteq> X)"

definition sched_inv :: "nat \<Rightarrow> nat set \<Rightarrow> (u64 \<times> nat) set \<Rightarrow> ring \<Rightarrow> 'a sched_scheme \<Rightarrow> bool" where
  "sched_inv N F L R s \<longleftrightarrow> heap_inv N F L s \<and> R \<noteq> [] \<and> current s = fst (hd R) \<and> distinct (map fst R) \<and>
     (\<forall>(t, X) \<in> set R. t \<noteq> 0 \<and> (\<exists>c \<ge> 32. (t, c) \<in> L) \<and> client_area F L (slab_hhdm s) X) \<and>
     ring_ok (mem s) (map fst R) \<and> areas_apart R \<and> t_state (mem s) (current s) = TASK_RUNNING \<and>
     (\<forall>q \<in> set (tl R). suspended (mem s) q)"

lemma sched_invD:
  assumes "sched_inv N F L R s"
  shows "heap_inv N F L s" and "R \<noteq> []" and "current s = fst (hd R)" and "distinct (map fst R)"
    and "(t, X) \<in> set R \<Longrightarrow> t \<noteq> 0" and "(t, X) \<in> set R \<Longrightarrow> \<exists>c \<ge> 32. (t, c) \<in> L"
    and "(t, X) \<in> set R \<Longrightarrow> client_area F L (slab_hhdm s) X"
    and "ring_ok (mem s) (map fst R)" and "areas_apart R" and "t_state (mem s) (current s) = TASK_RUNNING"
    and "q \<in> set (tl R) \<Longrightarrow> suspended (mem s) q"
  using assms unfolding sched_inv_def by blast+

text \<open>The contexts of the suspended tasks, in scheduling order.\<close>

definition waiting :: "ring \<Rightarrow> memory \<Rightarrow> context_view list" where
  "waiting R m = map (\<lambda>(t, X). saved_context m (t_rsp m t)) (tl R)"

lemma task_fields_cong:
  assumes "\<And>x. x \<in> bytes t 32 \<Longrightarrow> m' x = m x"
  shows "t_rsp m' t = t_rsp m t" and "t_stack_base m' t = t_stack_base m t" and "t_id m' t = t_id m t"
    and "t_state m' t = t_state m t" and "t_next m' t = t_next m t"
proof -
  have l64: "load64 m' (t + d) = load64 m (t + d)" if "unat d + 8 \<le> 32" for d
    using assms bytes_sub [OF that, of t] by (intro load64_bytes) blast
  have l32: "load32 m' (t + d) = load32 m (t + d)" if "unat d + 4 \<le> 32" for d
    using assms bytes_sub [OF that, of t] by (intro load32_bytes) blast
  show "t_rsp m' t = t_rsp m t" "t_stack_base m' t = t_stack_base m t" "t_next m' t = t_next m t"
    using l64 [of 0] l64 [of 8] l64 [of 24] by (simp_all add: t_rsp_def t_stack_base_def t_next_def)
  show "t_id m' t = t_id m t" "t_state m' t = t_state m t"
    using l32 [of 16] l32 [of 20] by (simp_all add: t_id_def t_state_def)
qed

lemma task_store:
  shows "t_rsp (store64 m t v) t = v" "t_state (store64 m t v) t = t_state m t" "t_next (store64 m t v) t = t_next m t"
    "t_id (store64 m t v) t = t_id m t"
    "t_state (store32 m (t + 20) w) t = w" "t_rsp (store32 m (t + 20) w) t = t_rsp m t"
    "t_next (store32 m (t + 20) w) t = t_next m t" "t_id (store32 m (t + 20) w) t = t_id m t"
    "t_next (store64 m (t + 24) v) t = v" "t_rsp (store64 m (t + 24) v) t = t_rsp m t"
    "t_state (store64 m (t + 24) v) t = t_state m t" "t_id (store64 m (t + 24) v) t = t_id m t"
    "t_rsp (store64 m (t + 8) v) t = t_rsp m t" "t_state (store64 m (t + 8) v) t = t_state m t"
    "t_id (store32 m (t + 16) w) t = w" "t_rsp (store32 m (t + 16) w) t = t_rsp m t"
    "t_state (store32 m (t + 16) w) t = t_state m t"
  by (simp_all add: t_rsp_def t_state_def t_next_def t_id_def off_frame)

text \<open>A field store changes only the bytes of that task's structure.\<close>

lemma task_store_other:
  assumes "x \<notin> bytes t 32"
  shows "store64 m t v x = m x" "store64 m (t + 8) v x = m x" "store64 m (t + 24) v x = m x"
    "store32 m (t + 16) w x = m x" "store32 m (t + 20) w x = m x"
proof -
  have 64: "x \<notin> bytes (t + d) 8" if "unat d + 8 \<le> 32" for d using bytes_sub [OF that, of t] assms by blast
  have 32: "x \<notin> bytes (t + d) 4" if "unat d + 4 \<le> 32" for d using bytes_sub [OF that, of t] assms by blast
  show "store64 m t v x = m x" "store64 m (t + 8) v x = m x" "store64 m (t + 24) v x = m x"
    using 64 [of 0] 64 [of 8] 64 [of 24] by (simp_all add: store64_bytes)
  show "store32 m (t + 16) w x = m x" "store32 m (t + 20) w x = m x"
    using 32 [of 16] 32 [of 20] by (simp_all add: store32_bytes)
qed

subsection \<open>Yield\<close>

lemma ring_ok_rotate1:
  assumes "ring_ok m ts"
  shows "ring_ok m (rotate1 ts)"
  unfolding ring_ok_def
proof (intro allI impI)
  fix i assume i: "i < length (rotate1 ts)"
  then have "0 < length ts" by auto
  then have "Suc i mod length ts < length ts" "rotate1 ts ! i = ts ! (Suc i mod length ts)"
    using i by (simp_all add: nth_rotate1)
  moreover have "rotate1 ts ! (Suc i mod length ts) = ts ! (Suc (Suc i mod length ts) mod length ts)"
    using calculation(1) by (simp add: nth_rotate1)
  ultimately show "t_next m (rotate1 ts ! i) = rotate1 ts ! (Suc i mod length (rotate1 ts))"
    using assms by (simp add: ring_ok_def)
qed

lemma ring_ok_cong: "(\<And>t. t \<in> set ts \<Longrightarrow> t_next m' t = t_next m t) \<Longrightarrow> ring_ok m' ts = ring_ok m ts"
  by (simp add: ring_ok_def)

lemma ring_next:
  assumes "ring_ok m (p # ts)"
  shows "t_next m p = (case ts of [] \<Rightarrow> p | q # _ \<Rightarrow> q)"
  using assms unfolding ring_ok_def by (cases ts) (auto dest: spec [of _ 0])

lemma areas_apartD:
  assumes "areas_apart R" and "(t, X) \<in> set R" and "(t', X') \<in> set R"
  shows "X \<inter> bytes t' 32 = {}" and "t \<noteq> t' \<Longrightarrow> X \<inter> X' = {}" and "t \<noteq> t' \<Longrightarrow> bytes t 32 \<inter> bytes t' 32 = {}"
  using assms unfolding areas_apart_def by fast+

text \<open>What the memory is like after a yield from \<open>p\<close> to \<open>q\<close>.\<close>

definition yield_mem :: "u64 \<Rightarrow> u64 \<Rightarrow> 'a sched_scheme \<Rightarrow> memory" where
  "yield_mem p q s = (let m = store32 (store32 (mem s) (p + 20) TASK_READY) (q + 20) TASK_RUNNING
     in store64 (push_frame m (rsp s - 56) ((cpu_context s)\<lparr>c_rip := yield_return s\<rparr>)) p (rsp s - 56))"

lemma yield_mem_other:
  assumes "x \<notin> bytes p 32" and "x \<notin> bytes q 32" and "x \<notin> bytes (rsp s - 56) 56"
  shows "yield_mem p q s x = mem s x"
  using assms by (simp add: yield_mem_def Let_def task_store_other push_frame_other)

lemma sched_yield_switch:
  assumes inv: "sched_inv N F L R s" and R: "R = (p, X) # (q, Y) # rest"
  shows "sched_yield s = Inr (switched (saved_context (yield_mem p q s) (t_rsp (mem s) q)) (yield_mem p q s) (s\<lparr>current := q\<rparr>))"
proof -
  note I = sched_invD [OF inv]
  have p: "current s = p" "p \<noteq> 0" using I(3) I(5) [of p X] by (simp_all add: R)
  have nq: "t_next (mem s) p = q" using ring_next [of "mem s" p "q # map fst rest"] I(8) by (simp add: R)
  have "p \<noteq> q" using I(4) by (auto simp: R)
  then have apart: "bytes q 32 \<inter> bytes p 32 = {}" using areas_apartD(3) [OF I(9), of q Y p X] by (simp add: R)
  let ?m = "store32 (store32 (mem s) (p + 20) TASK_READY) (q + 20) TASK_RUNNING"
  have "t_rsp (store32 (mem s) (p + 20) TASK_READY) q = t_rsp (mem s) q"
    using apart by (intro task_fields_cong task_store_other) auto
  then have r: "t_rsp ?m q = t_rsp (mem s) q" by (simp add: task_store)
  show ?thesis
    using p nq \<open>p \<noteq> q\<close> r
    by (simp add: sched_yield_def Let_def put32_def context_switch_effect yield_mem_def switched_def cpu_context_def)
qed

lemma client_write:
  assumes "heap_inv N F L s" and "\<And>x. m x \<noteq> mem s x \<Longrightarrow> dm_frame (slab_hhdm s) x \<notin> F \<or> (\<exists>ob \<in> L. x \<in> bytes (fst ob) (snd ob))"
    and "t = s\<lparr>mem := m, rsp := a1, rbp := a2, rbx := a3, r12 := a4, r13 := a5, r14 := a6, r15 := a7, rip := a8,
      current := a9, next_id := a10\<rparr>"
  shows "heap_inv N F L t"
proof (rule heap_inv_frame [OF assms(1)])
  fix x assume "dm_frame (slab_hhdm s) x \<in> F" "\<And>ob. ob \<in> L \<Longrightarrow> x \<notin> bytes (fst ob) (snd ob)"
  then have "m x = mem s x" using assms(2) by blast
  then show "mem t x = mem s x" by (simp add: assms(3))
qed (simp_all add: assms(3))

text \<open>What a yield leaves alone: the areas and the structures of all tasks but the two it switches between.\<close>

lemma yield_apart:
  assumes inv: "sched_inv N F L R s" and R: "R = (p, X) # (q, Y) # rest" and room: "bytes (rsp s - 56) 56 \<subseteq> X"
  shows "x \<notin> bytes p 32 \<Longrightarrow> x \<notin> bytes q 32 \<Longrightarrow> x \<notin> X \<Longrightarrow> yield_mem p q s x = mem s x"
    and "(u, Z) \<in> set R \<Longrightarrow> u \<noteq> p \<Longrightarrow> x \<in> Z \<Longrightarrow> yield_mem p q s x = mem s x"
    and "(u, Z) \<in> set R \<Longrightarrow> u \<noteq> p \<Longrightarrow> u \<noteq> q \<Longrightarrow> x \<in> bytes u 32 \<Longrightarrow> yield_mem p q s x = mem s x"
proof -
  note A = areas_apartD [OF sched_invD(9) [OF inv]]
  have mR: "(p, X) \<in> set R" "(q, Y) \<in> set R" by (simp_all add: R)
  show other: "yield_mem p q s x = mem s x" if "x \<notin> bytes p 32" "x \<notin> bytes q 32" "x \<notin> X" for x
    using that room by (intro yield_mem_other) auto
  show "yield_mem p q s x = mem s x" if "(u, Z) \<in> set R" "u \<noteq> p" "x \<in> Z"
    using that A(1) [OF that(1) mR(1)] A(1) [OF that(1) mR(2)] A(2) [OF that(1) mR(1)] by (intro other) auto
  show "yield_mem p q s x = mem s x" if "(u, Z) \<in> set R" "u \<noteq> p" "u \<noteq> q" "x \<in> bytes u 32"
    using that A(3) [OF that(1) mR(1)] A(3) [OF that(1) mR(2)] A(1) [OF mR(1) that(1)] by (intro other) auto
qed

text \<open>The frame and the fields a yield writes.\<close>

lemma yield_fields:
  assumes inv: "sched_inv N F L R s" and R: "R = (p, X) # (q, Y) # rest" and room: "bytes (rsp s - 56) 56 \<subseteq> X"
  defines "m \<equiv> yield_mem p q s"
  shows "saved_context m (rsp s - 56) = (cpu_context s)\<lparr>c_rip := yield_return s\<rparr>"
    and "t_next m p = t_next (mem s) p" and "t_state m p = TASK_READY" and "t_rsp m p = rsp s - 56"
    and "t_next m q = t_next (mem s) q" and "t_state m q = TASK_RUNNING" and "t_rsp m q = t_rsp (mem s) q"
proof -
  note I = sched_invD [OF inv]
  note A = areas_apartD [OF I(9)]
  let ?r = "rsp s - 56" and ?c = "(cpu_context s)\<lparr>c_rip := yield_return s\<rparr>"
  have mR: "(p, X) \<in> set R" "(q, Y) \<in> set R" by (simp_all add: R)
  have pq: "p \<noteq> q" using I(4) by (auto simp: R)
  show "saved_context m ?r = ?c"
  proof -
    let ?m1 = "push_frame (store32 (store32 (mem s) (p + 20) TASK_READY) (q + 20) TASK_RUNNING) ?r ?c"
    have "saved_context m ?r = saved_context ?m1 ?r"
      unfolding m_def yield_mem_def Let_def
    proof (rule saved_context_cong)
      fix x assume "x \<in> bytes ?r 56"
      then show "store64 ?m1 p ?r x = ?m1 x" using room A(1) [OF mR(1) mR(1)] by (intro task_store_other) auto
    qed
    also have "\<dots> = ?c" by (rule push_frame_context) (simp add: cpu_context_def)
    finally show ?thesis .
  qed
  define m0 where "m0 = store32 (store32 (mem s) (p + 20) TASK_READY) (q + 20) TASK_RUNNING"
  have push: "push_frame m0 ?r ?c x = m0 x" if "x \<in> bytes p 32 \<or> x \<in> bytes q 32" for x
    using that room A(1) [OF mR(1) mR(1)] A(1) [OF mR(1) mR(2)] by (intro push_frame_other) auto
  have m: "m = store64 (push_frame m0 ?r ?c) p ?r" by (simp add: m_def yield_mem_def Let_def m0_def)
  have ap: "bytes q 32 \<inter> bytes p 32 = {}" using A(3) [OF mR(2) mR(1)] pq by simp
  have q0: "t_rsp (store32 (mem s) (p + 20) TASK_READY) q = t_rsp (mem s) q"
      "t_next (store32 (mem s) (p + 20) TASK_READY) q = t_next (mem s) q"
    using ap by (auto intro!: task_fields_cong task_store_other)
  have p0: "t_next m0 p = t_next (mem s) p" "t_state m0 p = TASK_READY"
    using ap unfolding m0_def
    by (subst task_fields_cong [where m = "store32 (mem s) (p + 20) TASK_READY"]; auto simp: task_store intro!: task_store_other)+
  show p1: "t_next m p = t_next (mem s) p" "t_state m p = TASK_READY" "t_rsp m p = ?r"
    using p0 task_fields_cong [of p "push_frame m0 ?r ?c" m0] push by (simp_all add: m task_store)
  have "m x = m0 x" if x: "x \<in> bytes q 32" for x
  proof -
    have "x \<notin> bytes p 32" using x ap by blast
    then show ?thesis using push x by (simp add: m task_store_other)
  qed
  from task_fields_cong [OF this] show "t_next m q = t_next (mem s) q" "t_state m q = TASK_RUNNING" "t_rsp m q = t_rsp (mem s) q"
    using q0 by (simp_all add: m0_def task_store)
qed

lemma yield_inv:
  assumes inv: "sched_inv N F L R s" and R: "R = (p, X) # (q, Y) # rest" and room: "bytes (rsp s - 56) 56 \<subseteq> X"
  defines "m \<equiv> yield_mem p q s"
  defines "s' \<equiv> switched (saved_context m (t_rsp (mem s) q)) m (s\<lparr>current := q\<rparr>)"
  shows "sched_inv N F L (rotate1 R) s'" and "cpu_context s' = hd (waiting R (mem s))"
    and "waiting (rotate1 R) m = tl (waiting R (mem s)) @ [(cpu_context s)\<lparr>c_rip := yield_return s\<rparr>]"
proof -
  note I = sched_invD [OF inv]
  note other = yield_apart(1) [OF inv R room, folded m_def] and area = yield_apart(2) [OF inv R room, folded m_def]
    and strct = yield_apart(3) [OF inv R room, folded m_def]
  note W = yield_fields [OF inv R room, folded m_def]
  let ?c = "(cpu_context s)\<lparr>c_rip := yield_return s\<rparr>"
  have mR: "(p, X) \<in> set R" "(q, Y) \<in> set R" by (simp_all add: R)
  have nxt: "t_next m u = t_next (mem s) u" if "(u, Z) \<in> set R" for u Z
    using W(2,5) task_fields_cong(5) [of u m "mem s"] strct [OF that] by (cases "u = p"; cases "u = q") auto
  have rest: "t_rsp m u = t_rsp (mem s) u" "t_state m u = t_state (mem s) u" if "(u, Z) \<in> set rest" for u Z
  proof -
    have u: "(u, Z) \<in> set R" "u \<noteq> p" "u \<noteq> q" using that I(4) by (auto simp: R image_iff)
    show "t_rsp m u = t_rsp (mem s) u" "t_state m u = t_state (mem s) u"
      using task_fields_cong [of u m "mem s"] strct [OF u] by auto
  qed
  have frames: "saved_context m (t_rsp (mem s) u) = saved_context (mem s) (t_rsp (mem s) u)" if u: "(u, Z) \<in> set ((q, Y) # rest)" for u Z
  proof (rule saved_context_cong)
    fix x assume "x \<in> bytes (t_rsp (mem s) u) 56"
    then have "x \<in> Z" using I(11) [of "(u, Z)"] u by (auto simp: R suspended_def)
    moreover have "(u, Z) \<in> set R" "u \<noteq> p" using u I(4) by (auto simp: R image_iff)
    ultimately show "m x = mem s x" by (intro area)
  qed
  have st: "mem s' = m" "current s' = q" "slab_hhdm s' = slab_hhdm s" by (simp_all add: s'_def switched_def)
  have "heap_inv N F L s'"
  proof (rule client_write [OF I(1)])
    show "s' = s\<lparr>mem := m, rsp := rsp s', rbp := rbp s', rbx := rbx s', r12 := r12 s', r13 := r13 s', r14 := r14 s', r15 := r15 s',
        rip := rip s', current := q, next_id := next_id s\<rparr>" by (simp add: s'_def switched_def)
    fix x assume "m x \<noteq> mem s x"
    then consider "x \<in> bytes p 32" | "x \<in> bytes q 32" | "x \<in> X" using other by blast
    then show "dm_frame (slab_hhdm s) x \<notin> F \<or> (\<exists>ob \<in> L. x \<in> bytes (fst ob) (snd ob))"
    proof cases
      case 1
      then show ?thesis using I(6) [OF mR(1)] bytes_mono by fastforce
    next
      case 2
      then show ?thesis using I(6) [OF mR(2)] bytes_mono by fastforce
    next
      case 3
      then show ?thesis using I(7) [OF mR(1)] by (auto simp: client_area_def)
    qed
  qed
  moreover have "ring_ok m (map fst (rotate1 R))"
  proof -
    have "ring_ok m (map fst R) = ring_ok (mem s) (map fst R)" by (rule ring_ok_cong) (use nxt in auto)
    then have "ring_ok m (map fst R)" using I(8) by simp
    from ring_ok_rotate1 [OF this] show ?thesis by (simp add: rotate1_map)
  qed
  moreover have "suspended m u" if "u \<in> set (tl (rotate1 R))" for u
  proof -
    have "u \<in> set rest \<or> u = (p, X)" using that by (auto simp: R)
    then show ?thesis
    proof
      assume u: "u \<in> set rest"
      then show ?thesis using I(11) [of u] rest [of "fst u" "snd u"] by (auto simp: R suspended_def split: prod.splits)
    next
      assume "u = (p, X)"
      then show ?thesis using W(3,4) room by (simp add: suspended_def)
    qed
  qed
  moreover have "distinct (map fst (rotate1 R))" using I(4) by (auto simp: R)
  moreover have "areas_apart (rotate1 R)" using I(9) by (simp only: areas_apart_def set_rotate1)
  moreover have "\<forall>(t, Z) \<in> set (rotate1 R). t \<noteq> 0 \<and> (\<exists>c \<ge> 32. (t, c) \<in> L) \<and> client_area F L (slab_hhdm s) Z"
    using I(5-7) unfolding set_rotate1 by blast
  moreover have "rotate1 R \<noteq> []" "fst (hd (rotate1 R)) = q" by (simp_all add: R)
  ultimately show "sched_inv N F L (rotate1 R) s'"
    using W(6) unfolding sched_inv_def st by blast
  show "cpu_context s' = hd (waiting R (mem s))"
    using frames [of q Y] by (simp add: s'_def switched_def cpu_context_def R waiting_def)
  show "waiting (rotate1 R) m = tl (waiting R (mem s)) @ [?c]"
  proof -
    have "saved_context m (t_rsp m u) = saved_context (mem s) (t_rsp (mem s) u)" if "(u, Z) \<in> set rest" for u Z
      using rest(1) [OF that] frames [of u Z] that by simp
    then show ?thesis by (auto simp: R waiting_def W)
  qed
qed

end
