(* ===== verification/Sched_Tasks.thy ===== *)
theory Sched_Tasks
  imports Sched
begin

text \<open>
  Creation of tasks, adoption of the boot flow as the first one, and what the scheduler promises over a
  whole run: tasks take turns in creation order, and each resumes with exactly the context it gave up.
\<close>

subsection \<open>What leaves the tasks alone\<close>

lemma sched_inv_cong:
  assumes inv: "sched_inv N F L R s" and heap: "heap_inv N F L' t" and sub: "L \<subseteq> L'"
    and same: "current t = current s" "slab_hhdm t = slab_hhdm s"
    and mem: "\<And>u Z x. (u, Z) \<in> set R \<Longrightarrow> x \<in> bytes u 32 \<union> Z \<Longrightarrow> mem t x = mem s x"
  shows "sched_inv N F L' R t" and "waiting R (mem t) = waiting R (mem s)"
proof -
  note I = sched_invD [OF inv]
  have fields: "t_rsp (mem t) u = t_rsp (mem s) u" "t_state (mem t) u = t_state (mem s) u" "t_next (mem t) u = t_next (mem s) u"
    if "(u, Z) \<in> set R" for u Z
    using task_fields_cong [of u "mem t" "mem s"] mem [OF that] by auto
  have tlR: "q \<in> set R" if "q \<in> set (tl R)" for q using that I(2) by (cases R) auto
  have susp: "suspended (mem t) q" if "q \<in> set (tl R)" for q
    using I(11) [OF that] fields [of "fst q" "snd q"] tlR [OF that] by (auto simp: suspended_def split: prod.splits)
  have "ring_ok (mem t) (map fst R) = ring_ok (mem s) (map fst R)" by (rule ring_ok_cong) (use fields in auto)
  moreover have "\<forall>(t, X) \<in> set R. t \<noteq> 0 \<and> (\<exists>c \<ge> 32. (t, c) \<in> L') \<and> client_area F L' (slab_hhdm s) X"
    using I(5-7) sub unfolding client_area_def by blast
  moreover have "t_state (mem t) (current s) = TASK_RUNNING"
    using fields(2) [of "fst (hd R)" "snd (hd R)"] I(2,3,10) by simp
  ultimately show "sched_inv N F L' R t"
    unfolding sched_inv_def same using heap I(2-4,8,9) susp by blast
  have "saved_context (mem t) (t_rsp (mem t) u) = saved_context (mem s) (t_rsp (mem s) u)" if q: "(u, Z) \<in> set (tl R)" for u Z
    unfolding fields(1) [OF tlR [OF q]] using I(11) [OF q] mem [OF tlR [OF q]]
    by (intro saved_context_cong) (auto simp: suspended_def)
  then show "waiting R (mem t) = waiting R (mem s)" by (auto simp: waiting_def)
qed

lemma sched_inv_heap:
  assumes inv: "sched_inv N F L R s" and heap: "heap_inv N F L' t" and sub: "L \<subseteq> L'"
    and step: "slab_step F s t" and same: "same_bytes L (mem s) (mem t)"
  shows "sched_inv N F L' R t" and "waiting R (mem t) = waiting R (mem s)"
proof -
  note I = sched_invD [OF inv]
  have c: "current t = current s" using slab_stepD(3) [OF step] by auto
  have eq: "mem t x = mem s x" if u: "(u, Z) \<in> set R" and x: "x \<in> bytes u 32 \<union> Z" for u Z x
  proof -
    obtain c where c: "32 \<le> c" "(u, c) \<in> L" using I(6) [OF u] by blast
    have "x \<in> bytes (fst (u, c)) (snd (u, c))" if "x \<in> bytes u 32" using that bytes_mono [OF c(1), of u] by auto
    then have "dm_frame (slab_hhdm s) x \<notin> F \<or> (\<exists>ob \<in> L. x \<in> bytes (fst ob) (snd ob))"
      using x I(7) [OF u] c(2) unfolding client_area_def by blast
    then show ?thesis using slab_stepD(2) [OF step, of x] same unfolding same_bytes_def by blast
  qed
  show "sched_inv N F L' R t" and "waiting R (mem t) = waiting R (mem s)"
    using sched_inv_cong [OF inv heap sub c slab_stepD(1) [OF step]] eq by blast+
qed

lemma slab_step_regs:
  assumes "slab_step F s t"
  shows "cpu_context t = cpu_context s" and "next_id t = next_id s" and "current t = current s"
    and "task_trampoline t = task_trampoline s" and "yield_return t = yield_return s"
  using slab_stepD(3) [OF assms] by (auto simp: cpu_context_def)

subsection \<open>The tail of the ring and the forged frame\<close>

lemma ring_tail_last:
  assumes "ring_ok (mem s) ts" and "distinct ts" and "ts \<noteq> []" and "current s = hd ts" and "i < length ts"
  shows "ring_tail (ts ! i) s = Some (last ts)"
  using assms(5)
proof (induction "length ts - i" arbitrary: i)
  case (Suc k)
  let ?n = "length ts"
  have nx: "t_next (mem s) (ts ! i) = ts ! (Suc i mod ?n)" using assms(1) Suc.prems by (simp add: ring_ok_def)
  have hd: "current s = ts ! 0" using assms(3,4) by (simp add: hd_conv_nth)
  show ?case
  proof (cases "Suc i < ?n")
    case True
    then have "ts ! Suc i \<noteq> ts ! 0" using assms(2,3) by (subst nth_eq_iff_index_eq) auto
    then have "ring_tail (ts ! i) s = ring_tail (ts ! Suc i) s" using nx True hd by (simp add: ring_tail.simps [of "ts ! i"])
    then show ?thesis using Suc.hyps(1) [of "Suc i"] Suc.hyps(2) True by simp
  next
    case False
    then have "Suc i = ?n" using Suc.prems by simp
    then have i: "i = ?n - 1" by simp
    have "ring_tail (ts ! i) s = Some (ts ! i)" using nx hd \<open>Suc i = ?n\<close> by (simp add: ring_tail.simps [of "ts ! i"])
    then show ?thesis using assms(3) i by (simp add: last_conv_nth)
  qed
qed simp

lemma ring_ok_append:
  assumes "ring_ok m ts" and "ts \<noteq> []" and "distinct (ts @ [t])"
    and "t_next m' (last ts) = t" and "t_next m' t = hd ts" and "\<And>u. u \<in> set ts \<Longrightarrow> u \<noteq> last ts \<Longrightarrow> t_next m' u = t_next m u"
  shows "ring_ok m' (ts @ [t])"
  unfolding ring_ok_def
proof (intro allI impI)
  fix i assume i: "i < length (ts @ [t])"
  let ?n = "length ts"
  consider (mid) "Suc i < ?n" | (tail) "Suc i = ?n" | (new) "i = ?n" using i by fastforce
  then show "t_next m' ((ts @ [t]) ! i) = (ts @ [t]) ! (Suc i mod length (ts @ [t]))"
  proof cases
    case mid
    have "ts ! i \<noteq> last ts" using mid assms(2,3) by (simp add: last_conv_nth nth_eq_iff_index_eq)
    then have "t_next m' (ts ! i) = t_next m (ts ! i)" using mid by (intro assms(6)) simp_all
    then show ?thesis using mid assms(1) by (simp add: ring_ok_def nth_append)
  next
    case tail
    then have "ts ! i = last ts" using assms(2) by (metis diff_Suc_1 last_conv_nth)
    then show ?thesis using tail assms(4) by (simp add: nth_append)
  next
    case new
    then show ?thesis using assms(2,5) by (simp add: nth_append hd_conv_nth)
  qed
qed

text \<open>The context a task starts with: cleared registers, \<open>rip\<close> at its entry, an aligned stack.\<close>

definition first_context :: "u64 \<Rightarrow> u64 \<Rightarrow> context_view" where
  "first_context entry stack_top = \<lparr>c_rbp = 0, c_rbx = 0, c_r12 = 0, c_r13 = 0, c_r14 = 0, c_r15 = 0,
     c_rip = entry, c_rsp = stack_top - 8\<rparr>"

lemma push_frame_above: "load64 (push_frame m r c) (r + 56) = load64 m (r + 56)"
  by (simp add: push_frame_def off_frame)

lemma forge_stack_frame:
  "forge_stack tp entry s =
     s\<lparr>mem := push_frame (store64 (mem s) (tp - 8) (task_trampoline s)) (tp - 64) (first_context entry tp)\<rparr>"
  by (simp add: forge_stack_def Let_def put64_def push_frame_def first_context_def)

lemma stack_aligned: "aligned 4 a \<Longrightarrow> (a + KERNEL_STACK_SIZE) AND NOT 0xF = a + 16384"
proof -
  assume "aligned 4 a"
  then have "aligned 4 (a + 16384)" by (rule aligned_add) (simp add: aligned_def)
  then have "bit (a + 16384) i \<Longrightarrow> 4 \<le> i" for i using aligned_bit not_le by blast
  moreover have m: "(0xF :: u64) = mask 4" by (simp add: mask_eq_exp_minus_1)
  ultimately show ?thesis unfolding KERNEL_STACK_SIZE_def m by (intro bit_word_eqI) (force simp: bit_simps)
qed

subsection \<open>Creation\<close>

text \<open>The memory once the new structure \<open>t\<close> and its stack at \<open>a\<close> are filled in, before the splice.\<close>

definition task_mem :: "u64 \<Rightarrow> u64 \<Rightarrow> u64 \<Rightarrow> 'a sched_scheme \<Rightarrow> memory" where
  "task_mem entry t a s =
     (let m = push_frame (store64 (mem s) (a + 16376) (task_trampoline s)) (a + 16320) (first_context entry (a + 16384))
      in store32 (store32 (store64 (store64 m t (a + 16320)) (t + 8) a) (t + 16) (next_id s)) (t + 20) TASK_READY)"

lemma task_mem_other:
  assumes "x \<notin> bytes t 32" and "x \<notin> bytes a 16384"
  shows "task_mem entry t a s x = mem s x"
proof -
  have "x \<notin> bytes (a + 16376) 8" "x \<notin> bytes (a + 16320) 56"
    using assms(2) bytes_sub [of 16376 8 16384 a] bytes_sub [of 16320 56 16384 a] by auto
  then show ?thesis using assms(1) by (simp add: task_mem_def Let_def task_store_other push_frame_other store64_bytes)
qed

lemma task_mem_fields:
  assumes "bytes a 16384 \<inter> bytes t 32 = {}"
  shows "t_rsp (task_mem entry t a s) t = a + 16320" and "t_state (task_mem entry t a s) t = TASK_READY"
    and "t_id (task_mem entry t a s) t = next_id s" and "t_stack_base (task_mem entry t a s) t = a"
    and "saved_context (task_mem entry t a s) (a + 16320) = first_context entry (a + 16384)"
    and "load64 (task_mem entry t a s) (a + 16376) = task_trampoline s"
proof -
  show "t_rsp (task_mem entry t a s) t = a + 16320" "t_state (task_mem entry t a s) t = TASK_READY"
    "t_id (task_mem entry t a s) t = next_id s" "t_stack_base (task_mem entry t a s) t = a"
    by (simp_all add: task_mem_def Let_def t_rsp_def t_state_def t_id_def t_stack_base_def off_frame)
  let ?m = "push_frame (store64 (mem s) (a + 16376) (task_trampoline s)) (a + 16320) (first_context entry (a + 16384))"
  have eq: "task_mem entry t a s x = ?m x" if "x \<in> bytes a 16384" for x
  proof -
    have "x \<notin> bytes t 32" using that assms by blast
    then show ?thesis by (simp add: task_mem_def Let_def task_store_other)
  qed
  have "saved_context (task_mem entry t a s) (a + 16320) = saved_context ?m (a + 16320)"
    using bytes_sub [of 16320 56 16384 a] by (intro saved_context_cong eq) auto
  also have "\<dots> = first_context entry (a + 16384)" by (rule push_frame_context) (simp add: first_context_def)
  finally show "saved_context (task_mem entry t a s) (a + 16320) = first_context entry (a + 16384)" .
  have "load64 (task_mem entry t a s) (a + 16376) = load64 ?m (a + 16376)"
    using bytes_sub [of 16376 8 16384 a] by (intro load64_bytes eq) auto
  moreover have "load64 ?m (a + 16376) = load64 (store64 (mem s) (a + 16376) (task_trampoline s)) (a + 16376)"
    using push_frame_above [of _ "a + 16320"] by (simp add: add.assoc)
  ultimately show "load64 (task_mem entry t a s) (a + 16376) = task_trampoline s" by (simp add: off_frame)
qed

lemma task_create_run:
  fixes entry :: u64
  assumes k: "kmalloc sizeof_task s = Some (t, s1)" "t \<noteq> 0" "kmalloc KERNEL_STACK_SIZE s1 = Some (a, s2)" "a \<noteq> 0"
    and al: "aligned 4 a" and c: "current s2 \<noteq> 0"
  defines "s3 \<equiv> s2\<lparr>mem := task_mem entry t a s2, next_id := next_id s2 + 1\<rparr>"
  assumes tail: "ring_tail (current s3) s3 = Some u"
  shows "task_create entry s = Some (Inr (t, s3\<lparr>mem := store64 (store64 (mem s3) (u + 24) t) (t + 24) (current s3)\<rparr>))"
proof -
  define s3' where "s3' = (let s = forge_stack (a + 16384) entry s2; s = put64 t (a + 16384 - 64) s; s = put64 (t + 8) a s;
      s = put32 (t + 16) (next_id s) s; s = s\<lparr>next_id := next_id s + 1\<rparr> in put32 (t + 20) TASK_READY s)"
  have eq: "s3' = s3"
    by (rule sched.equality) (simp_all add: s3'_def s3_def Let_def forge_stack_frame task_mem_def put64_def put32_def add.commute [of a])
  have "task_create entry s = (if current s3' = 0 then Some (Inl (NullDeref, s3')) else map_option (\<lambda>tail.
      let s = put64 (tail + 24) t s3'; s = put64 (t + 24) (current s) s in Inr (t, s)) (ring_tail (current s3') s3'))"
    using k unfolding task_create_def by (simp add: stack_aligned [OF al, simplified] s3'_def Let_def)
  moreover have "current s3 = current s2" by (simp add: s3_def)
  ultimately show ?thesis using c tail unfolding eq by (simp add: Let_def put64_def)
qed

text \<open>A new object meets no task structure and no stack.\<close>

lemma new_object_apart:
  assumes inv: "sched_inv N F L R s" and heap: "heap_inv N F (insert ob L') t" and new: "ob \<notin> L" "L \<subseteq> L'"
    and h: "slab_hhdm t = slab_hhdm s" and u: "(u, Z) \<in> set R" and x: "x \<in> bytes (fst ob) (snd ob)"
  shows "x \<notin> bytes u 32" and "x \<notin> Z"
proof -
  have apart: "x \<notin> bytes (fst ob') (snd ob')" if "ob' \<in> L" for ob'
    using heap_apart [OF heap, of ob ob'] that new x by auto
  obtain c where c: "32 \<le> c" "(u, c) \<in> L" using sched_invD(6) [OF inv u] by blast
  show "x \<notin> bytes u 32" using apart [OF c(2)] bytes_mono [OF c(1), of u] by auto
  have "dm_frame (slab_hhdm s) x \<in> F" using heap_object_frame [OF heap, of ob x] x h by simp
  then show "x \<notin> Z" using sched_invD(7) [OF inv u] apart unfolding client_area_def by blast
qed

lemma areas_apart_append:
  assumes "areas_apart R" and "\<And>u Z x. (u, Z) \<in> set R \<Longrightarrow> x \<in> bytes t 32 \<union> A \<Longrightarrow> x \<notin> bytes u 32 \<and> x \<notin> Z"
    and "A \<inter> bytes t 32 = {}"
  shows "areas_apart (R @ [(t, A)])"
  unfolding areas_apart_def
proof (intro ballI, clarify)
  fix u X u' X' assume u: "(u, X) \<in> set (R @ [(t, A)])" and u': "(u', X') \<in> set (R @ [(t, A)])"
  show "X \<inter> bytes u' 32 = {} \<and> (u \<noteq> u' \<longrightarrow> X \<inter> X' = {} \<and> bytes u 32 \<inter> bytes u' 32 = {})"
  proof (cases "(u, X) \<in> set R")
    case old: True
    then show ?thesis
      using u' areas_apartD [OF assms(1) old, of u' X'] assms(2) [OF old] by auto
  next
    case new: False
    then have "u = t" "X = A" using u by auto
    then show ?thesis using u' assms(2) [of u' X'] assms(3) by auto
  qed
qed

text \<open>Linking a task \<^term>\<open>t\<close> behind the task \<^term>\<open>u\<close> of the ring writes the two links and nothing else.\<close>

lemma splice_fields:
  fixes m :: memory and c :: u64
  assumes apart: "areas_apart R" and u: "(u, U) \<in> set R"
    and off: "\<forall>(v, Z) \<in> set R. bytes t 32 \<inter> bytes v 32 = {}"
  defines "m' \<equiv> store64 (store64 m (u + 24) t) (t + 24) c"
  shows "x \<notin> bytes u 32 \<Longrightarrow> x \<notin> bytes t 32 \<Longrightarrow> m' x = m x"
    and "(v, Z) \<in> set R \<Longrightarrow> t_rsp m' v = t_rsp m v" and "(v, Z) \<in> set R \<Longrightarrow> t_state m' v = t_state m v"
    and "(v, Z) \<in> set R \<Longrightarrow> t_next m' v = (if v = u then t else t_next m v)"
    and "t_rsp m' t = t_rsp m t" and "t_state m' t = t_state m t" and "t_next m' t = c"
    and "t_id m' t = t_id m t" and "t_stack_base m' t = t_stack_base m t"
proof -
  define m4 where "m4 = store64 m (u + 24) t"
  have t: "x \<notin> bytes v 32" if "(v, Z) \<in> set R" "x \<in> bytes t 32" for v Z x using that off by blast
  show "m' x = m x" if "x \<notin> bytes u 32" "x \<notin> bytes t 32" using that by (simp add: m'_def task_store_other)
  show "t_rsp m' v = t_rsp m v" "t_state m' v = t_state m v" "t_next m' v = (if v = u then t else t_next m v)" if v: "(v, Z) \<in> set R"
  proof -
    have "t_rsp m' v = t_rsp m4 v" "t_state m' v = t_state m4 v" "t_next m' v = t_next m4 v"
      using t [OF v] by (auto simp: m'_def m4_def intro!: task_fields_cong task_store_other)
    moreover have "t_rsp m4 v = t_rsp m v" "t_state m4 v = t_state m v" "t_next m4 v = t_next m v" if "v \<noteq> u"
      using areas_apartD(3) [OF apart v u that] by (auto simp: m4_def intro!: task_fields_cong task_store_other)
    moreover have "t_rsp m4 u = t_rsp m u" "t_state m4 u = t_state m u" "t_next m4 u = t" by (simp_all add: m4_def task_store)
    ultimately show "t_rsp m' v = t_rsp m v" "t_state m' v = t_state m v" "t_next m' v = (if v = u then t else t_next m v)"
      by (cases "v = u"; simp)+
  qed
  have "store64 m (u + 24) t x = m x" if "x \<in> bytes t 32" for x using t [OF u that] by (intro task_store_other)
  note c = task_fields_cong [OF this]
  show "t_rsp m' t = t_rsp m t" "t_state m' t = t_state m t" "t_next m' t = c" "t_id m' t = t_id m t"
    using c by (simp_all add: m'_def task_store)
  show "t_stack_base m' t = t_stack_base m t" using c by (simp add: m'_def t_stack_base_def off_frame)
qed

text \<open>Filling in the new task and its stack, before it is linked.\<close>

lemma task_mem_inv:
  fixes entry :: u64
  assumes inv: "sched_inv N F L R s" and t: "(t, ct) \<in> L" "32 \<le> ct" and a: "(a, ca) \<in> L" "16384 \<le> ca"
    and apart: "\<And>u Z x. (u, Z) \<in> set R \<Longrightarrow> x \<in> bytes t 32 \<union> bytes a 16384 \<Longrightarrow> x \<notin> bytes u 32 \<and> x \<notin> Z"
  defines "s3 \<equiv> s\<lparr>mem := task_mem entry t a s, next_id := next_id s + 1\<rparr>"
  shows "sched_inv N F L R s3" and "waiting R (mem s3) = waiting R (mem s)"
proof -
  have bt: "bytes t 32 \<subseteq> bytes t ct" and ba: "bytes a 16384 \<subseteq> bytes a ca" using bytes_mono t(2) a(2) by blast+
  have st3: "current s3 = current s" "slab_hhdm s3 = slab_hhdm s" "mem s3 = task_mem entry t a s" by (simp_all add: s3_def)
  have "heap_inv N F L s3"
  proof (rule client_write [OF sched_invD(1) [OF inv]])
    show "s3 = s\<lparr>mem := task_mem entry t a s, rsp := rsp s, rbp := rbp s, rbx := rbx s, r12 := r12 s, r13 := r13 s, r14 := r14 s,
        r15 := r15 s, rip := rip s, current := current s, next_id := next_id s + 1\<rparr>" by (simp add: s3_def)
    fix x assume "task_mem entry t a s x \<noteq> mem s x"
    then have "x \<in> bytes t 32 \<or> x \<in> bytes a 16384" using task_mem_other by blast
    then show "dm_frame (slab_hhdm s) x \<notin> F \<or> (\<exists>ob \<in> L. x \<in> bytes (fst ob) (snd ob))"
      using bt ba t(1) a(1) by fastforce
  qed
  moreover have "mem s3 x = mem s x" if "(v, Z) \<in> set R" "x \<in> bytes v 32 \<union> Z" for v Z x
    unfolding st3 using apart [OF that(1), of x] that(2) by (intro task_mem_other) auto
  ultimately show "sched_inv N F L R s3" and "waiting R (mem s3) = waiting R (mem s)"
    using sched_inv_cong [OF inv _ subset_refl st3(1,2)] by blast+
qed

lemma task_create_splice:
  fixes entry :: u64
  assumes inv: "sched_inv N F L R s" and t: "t \<noteq> 0" "(t, ct) \<in> L" "32 \<le> ct" and a: "(a, ca) \<in> L" "16384 \<le> ca"
    and apart: "\<And>u Z x. (u, Z) \<in> set R \<Longrightarrow> x \<in> bytes t 32 \<union> bytes a 16384 \<Longrightarrow> x \<notin> bytes u 32 \<and> x \<notin> Z"
      "bytes a 16384 \<inter> bytes t 32 = {}"
  defines "s3 \<equiv> s\<lparr>mem := task_mem entry t a s, next_id := next_id s + 1\<rparr>" and "u \<equiv> last (map fst R)"
  defines "m \<equiv> store64 (store64 (mem s3) (u + 24) t) (t + 24) (current s3)"
  shows "ring_tail (current s3) s3 = Some u" and "sched_inv N F L (R @ [(t, bytes a 16384)]) (s3\<lparr>mem := m\<rparr>)"
    and "waiting (R @ [(t, bytes a 16384)]) m = waiting R (mem s) @ [first_context entry (a + 16384)]"
    and "load64 m (a + 16376) = task_trampoline s" and "t_id m t = next_id s" and "t_stack_base m t = a"
proof -
  have bt: "bytes t 32 \<subseteq> bytes t ct" and ba: "bytes a 16384 \<subseteq> bytes a ca" using bytes_mono t(3) a(2) by blast+
  have st3: "current s3 = current s" "slab_hhdm s3 = slab_hhdm s" "mem s3 = task_mem entry t a s" by (simp_all add: s3_def)
  have inv3: "sched_inv N F L R s3" and w3: "waiting R (mem s3) = waiting R (mem s)"
    unfolding s3_def using apart(1) by (blast intro: task_mem_inv [OF inv t(2,3) a])+
  note I = sched_invD [OF inv3]
  have ne: "map fst R \<noteq> []" using I(2) by simp
  have hd: "current s3 = hd (map fst R)" using I(2,3) by (simp add: hd_map)
  show "ring_tail (current s3) s3 = Some u"
    using ring_tail_last [OF I(8,4) ne hd, of 0] ne hd by (simp add: u_def hd_conv_nth)
  have uR: "\<exists>Z. (u, Z) \<in> set R" using last_in_set [OF ne] by (auto simp: u_def)
  have tR: "t \<noteq> v" "x \<in> bytes t 32 \<Longrightarrow> x \<notin> bytes v 32" if "(v, Z) \<in> set R" for v Z x
    using apart(1) [OF that, of t] apart(1) [OF that, of x] bytes_first [of 32 t] bytes_first [of 32 v] by auto
  obtain U where U: "(u, U) \<in> set R" using uR by blast
  have "\<forall>(v, Z) \<in> set R. bytes t 32 \<inter> bytes v 32 = {}" using tR(2) by blast
  note splice = splice_fields [OF I(9) U this, where m = "mem s3" and c = "current s3", folded m_def]
  note m_other = splice(1) and old = splice(2,3,4)
  have new: "t_rsp m t = a + 16320" "t_state m t = TASK_READY" "t_next m t = current s3"
    using splice(5-7) task_mem_fields [OF apart(2)] by (simp_all add: st3)
  show "t_id m t = next_id s" "t_stack_base m t = a"
    using splice(8,9) task_mem_fields [OF apart(2)] by (simp_all add: st3)
  have area: "m x = mem s3 x" if "(v, Z) \<in> set R" "x \<in> Z" for v Z x
    using uR areas_apartD(1) [OF I(9) that(1)] apart(1) [OF that(1), of x] that(2) by (intro m_other) blast+
  have stack: "m x = mem s3 x" if "x \<in> bytes a 16384" for x
    using uR apart(1) [of u _ x] apart(2) that by (intro m_other) blast+
  have frame: "saved_context m (a + 16320) = first_context entry (a + 16384)"
  proof -
    have "saved_context m (a + 16320) = saved_context (mem s3) (a + 16320)"
      using bytes_sub [of 16320 56 16384 a] by (intro saved_context_cong stack) auto
    then show ?thesis using task_mem_fields(5) [OF apart(2)] by (simp add: st3)
  qed
  show "load64 m (a + 16376) = task_trampoline s"
  proof -
    have "load64 m (a + 16376) = load64 (mem s3) (a + 16376)"
      using bytes_sub [of 16376 8 16384 a] by (intro load64_bytes stack) auto
    then show ?thesis using task_mem_fields(6) [OF apart(2)] by (simp add: st3)
  qed
  have tl: "tl (R @ [q]) = tl R @ [q]" for q using I(2) by simp
  have tlR: "(v, Z) \<in> set R" if "(v, Z) \<in> set (tl R)" for v Z using that I(2) by (cases R) auto
  have susp: "suspended m q" if q: "q \<in> set (tl (R @ [(t, bytes a 16384)]))" for q
  proof (cases "q \<in> set (tl R)")
    case True
    then show ?thesis using I(11) [of q] old(1,2) [of "fst q" "snd q"] tlR [of "fst q" "snd q"] by (auto simp: suspended_def split: prod.splits)
  next
    case False
    then have "q = (t, bytes a 16384)" using q unfolding tl by simp
    then show ?thesis using new bytes_sub [of 16320 56 16384 a] by (simp add: suspended_def)
  qed
  have "saved_context m (t_rsp m v) = saved_context (mem s3) (t_rsp (mem s3) v)" if q: "(v, Z) \<in> set (tl R)" for v Z
    unfolding old(1) [OF tlR [OF q]] using I(11) [OF q] area [OF tlR [OF q]]
    by (intro saved_context_cong) (auto simp: suspended_def)
  then have "waiting (R @ [(t, bytes a 16384)]) m = waiting R (mem s3) @ [first_context entry (a + 16384)]"
    unfolding waiting_def tl by (auto simp: new frame)
  then show "waiting (R @ [(t, bytes a 16384)]) m = waiting R (mem s) @ [first_context entry (a + 16384)]" by (simp add: w3)
  have dist: "distinct (map fst R @ [t])" using I(4) by (auto dest: tR(1))
  have "ring_ok m (map fst R @ [t])"
  proof (rule ring_ok_append [OF I(8) ne dist])
    show "t_next m (last (map fst R)) = t" using old(3) [OF U] by (simp add: u_def)
    show "t_next m t = hd (map fst R)" using new(3) hd by simp
    show "t_next m v = t_next (mem s3) v" if "v \<in> set (map fst R)" "v \<noteq> last (map fst R)" for v
      using that old(3) [of v] by (auto simp: u_def)
  qed
  moreover have "areas_apart (R @ [(t, bytes a 16384)])" by (rule areas_apart_append [OF I(9) apart])
  moreover have "distinct (map fst (R @ [(t, bytes a 16384)]))" using dist by simp
  moreover have "heap_inv N F L (s3\<lparr>mem := m\<rparr>)"
  proof (rule client_write [OF I(1)])
    show "s3\<lparr>mem := m\<rparr> = s3\<lparr>mem := m, rsp := rsp s3, rbp := rbp s3, rbx := rbx s3, r12 := r12 s3, r13 := r13 s3, r14 := r14 s3,
        r15 := r15 s3, rip := rip s3, current := current s3, next_id := next_id s3\<rparr>" by simp
    obtain Z c where "(u, Z) \<in> set R" "32 \<le> c" "(u, c) \<in> L" using uR I(6) by blast
    fix x assume "m x \<noteq> mem s3 x"
    then have "x \<in> bytes u c \<or> x \<in> bytes t ct" using m_other bt bytes_mono [OF \<open>32 \<le> c\<close>, of u] by blast
    then show "dm_frame (slab_hhdm s3) x \<notin> F \<or> (\<exists>ob \<in> L. x \<in> bytes (fst ob) (snd ob))"
      using \<open>(u, c) \<in> L\<close> t(2) by fastforce
  qed
  moreover have "t_state m (current s3) = TASK_RUNNING" using old(2) [of "fst (hd R)" "snd (hd R)"] I(2,3,10) by simp
  moreover have "client_area F L (slab_hhdm s3) (bytes a 16384)" using a(1) ba unfolding client_area_def by fastforce
  then have "\<forall>(v, X) \<in> set (R @ [(t, bytes a 16384)]). v \<noteq> 0 \<and> (\<exists>c \<ge> 32. (v, c) \<in> L) \<and> client_area F L (slab_hhdm s3) X"
    using I(5-7) t by auto
  ultimately show "sched_inv N F L (R @ [(t, bytes a 16384)]) (s3\<lparr>mem := m\<rparr>)"
    using susp I(2,3) unfolding sched_inv_def by simp
qed

text \<open>No memory for the stack: the structure is given back and nothing has happened.\<close>

lemma task_create_no_stack:
  assumes inv: "sched_inv N F L R s" and k1: "kmalloc sizeof_task s = Some (t, s1)" and nz: "t \<noteq> 0"
    and ct: "(t, ct) \<notin> L" "heap_inv N F (insert (t, ct) L) s1" "same_bytes L (mem s) (mem s1)" and st1: "slab_step F s s1"
    and k2: "kmalloc KERNEL_STACK_SIZE s1 = Some (0, s1)"
  shows "\<exists>s'. task_create entry s = Some (Inr (0, s')) \<and> cpu_context s' = cpu_context s \<and>
    sched_inv N F L R s' \<and> waiting R (mem s') = waiting R (mem s) \<and> next_id s' = next_id s"
proof -
  obtain s3 where s3: "kfree t s1 = Some s3" "heap_inv N F (insert (t, ct) L - {(t, ct)}) s3"
    "same_bytes (insert (t, ct) L - {(t, ct)}) (mem s1) (mem s3)"
    using heap.free_law [OF ct(2), of t ct] by auto
  have L: "insert (t, ct) L - {(t, ct)} = L" using ct(1) by simp
  have st: "slab_step F s s3" using heap_step_kfree [OF ct(2) _ s3(1), of ct] by (intro slab_step_trans [OF st1]) simp
  have "same_bytes L (mem s) (mem s3)" using ct(3) s3(3) unfolding L by (simp add: same_bytes_def)
  note r = sched_inv_heap [OF inv s3(2) [unfolded L] subset_refl st this] slab_step_regs [OF st]
  have "task_create entry s = Some (Inr (0, s3))" using k1 k2 nz s3(1) by (simp add: task_create_def)
  then show ?thesis using r by simp
qed

lemma task_create_spec:
  assumes inv: "sched_inv N F L R s"
  shows "\<exists>t s'. task_create entry s = Some (Inr (t, s')) \<and> cpu_context s' = cpu_context s \<and>
    (if t = 0 then sched_inv N F L R s' \<and> waiting R (mem s') = waiting R (mem s) \<and> next_id s' = next_id s
     else next_id s' = next_id s + 1 \<and> t_id (mem s') t = next_id s \<and>
       (\<exists>ct a ca. (t, ct) \<notin> L \<and> (a, ca) \<notin> L \<and> aligned 4 a \<and> t_stack_base (mem s') t = a \<and>
          sched_inv N F (L \<union> {(t, ct), (a, ca)}) (R @ [(t, bytes a 16384)]) s' \<and>
          waiting (R @ [(t, bytes a 16384)]) (mem s') = waiting R (mem s) @ [first_context entry (a + 16384)] \<and>
          load64 (mem s') (a + 16376) = task_trampoline s))"
proof -
  note I = sched_invD [OF inv]
  have sz: "unat sizeof_task + 16 \<le> 2 ^ 63" "unat KERNEL_STACK_SIZE + 16 \<le> 2 ^ 63" by (simp_all add: sizeof_task_def KERNEL_STACK_SIZE_def)
  obtain t s1 where k1: "kmalloc sizeof_task s = Some (t, s1)" and z1: "t = 0 \<Longrightarrow> s1 = s"
    using heap.malloc_law [OF I(1) sz(1)] by blast
  show ?thesis
  proof (cases "t = 0")
    case True
    then show ?thesis using k1 z1 inv by (simp add: task_create_def)
  next
    case nz: False
    obtain ct where ct: "unat sizeof_task \<le> ct" "(t, ct) \<notin> L" "heap_inv N F (insert (t, ct) L) s1" "same_bytes L (mem s) (mem s1)"
      using heap.malloc_some [OF I(1) sz(1) k1 nz] by metis
    note st1 = heap_step_kmalloc [OF I(1) sz(1) k1]
    obtain a s2 where k2: "kmalloc KERNEL_STACK_SIZE s1 = Some (a, s2)" and z2: "a = 0 \<Longrightarrow> s2 = s1" and al: "a \<noteq> 0 \<Longrightarrow> aligned 4 a"
      using heap.malloc_law [OF ct(3) sz(2)] by blast
    show ?thesis
    proof (cases "a = 0")
      case True
      then show ?thesis using task_create_no_stack [OF inv k1 nz ct(2-4) st1, of entry] k2 z2 by auto
    next
      case nza: False
      obtain ca where ca: "unat KERNEL_STACK_SIZE \<le> ca" "(a, ca) \<notin> insert (t, ct) L" "heap_inv N F (insert (a, ca) (insert (t, ct) L)) s2"
        "same_bytes (insert (t, ct) L) (mem s1) (mem s2)"
        using heap.malloc_some [OF ct(3) sz(2) k2 nza] by metis
      have st: "slab_step F s s2" by (rule slab_step_trans [OF st1 heap_step_kmalloc [OF ct(3) sz(2) k2]])
      let ?L = "insert (a, ca) (insert (t, ct) L)"
      have "same_bytes L (mem s) (mem s2)" using ct(4) ca(4) by (simp add: same_bytes_def)
      then have inv2: "sched_inv N F ?L R s2" and w2: "waiting R (mem s2) = waiting R (mem s)"
        using sched_inv_heap [OF inv ca(3) _ st] by blast+
      have c: "32 \<le> ct" "16384 \<le> ca" using ct(1) ca(1) by (simp_all add: sizeof_task_def KERNEL_STACK_SIZE_def)
      have bt: "bytes t 32 \<subseteq> bytes t ct" "bytes a 16384 \<subseteq> bytes a ca" using bytes_mono c by blast+
      have ap: "x \<notin> bytes u 32 \<and> x \<notin> Z" if "(u, Z) \<in> set R" "x \<in> bytes t 32 \<union> bytes a 16384" for u Z x
        using that(2) bt new_object_apart [OF inv ct(3,2) subset_refl slab_stepD(1) [OF st1] that(1), of x]
          new_object_apart [OF inv ca(3) _ _ slab_stepD(1) [OF st] that(1), of x] ca(2) by auto
      have ta: "bytes a 16384 \<inter> bytes t 32 = {}" using heap_apart [OF ca(3), of "(a, ca)" "(t, ct)"] ca(2) bt by auto
      note sp = task_create_splice [OF inv2 nz _ c(1) _ c(2) ap ta, of entry]
      have cur: "current s2 \<noteq> 0" using sched_invD(2,3,5) [OF inv2] by (metis list.set_sel(1) prod.collapse)
      note run = task_create_run [OF k1 nz k2 nza al [OF nza] cur sp(1)]
      note r = slab_step_regs [OF st]
      let ?s = "s2\<lparr>mem := task_mem entry t a s2, next_id := next_id s2 + 1\<rparr>"
      let ?m = "store64 (store64 (mem ?s) (last (map fst R) + 24) t) (t + 24) (current ?s)"
      have L: "L \<union> {(t, ct), (a, ca)} = ?L" by auto
      define s' where "s' = ?s\<lparr>mem := ?m\<rparr>"
      have m: "mem s' = ?m" and n: "next_id s' = next_id s + 1" "cpu_context s' = cpu_context s"
        using r(1,2) by (simp_all add: s'_def cpu_context_def)
      have *: "task_create entry s = Some (Inr (t, s'))" "sched_inv N F (L \<union> {(t, ct), (a, ca)}) (R @ [(t, bytes a 16384)]) s'"
        using run sp(2) unfolding L s'_def by simp_all
      have **: "waiting (R @ [(t, bytes a 16384)]) (mem s') = waiting R (mem s) @ [first_context entry (a + 16384)]"
        "load64 (mem s') (a + 16376) = task_trampoline s" "t_id (mem s') t = next_id s" "t_stack_base (mem s') t = a"
        using sp(3-6) w2 r(2,4) unfolding m by simp_all
      have "(a, ca) \<notin> L" using ca(2) by simp
      then show ?thesis
        using nz * ** n ct(2) al [OF nza] by (intro exI [of _ t] exI [of _ s']) (simp; blast)
    qed
  qed
qed

text \<open>When it is null.\<close>

lemma task_create_null:
  assumes inv: "sched_inv N F L R s" and r: "task_create entry s = Some (Inr (t, s'))"
  shows "t = 0 \<longleftrightarrow> no_room 32 s \<or> (\<exists>t1 s1. kmalloc 32 s = Some (t1, s1) \<and> no_room 16384 s1)"
proof -
  note I = sched_invD [OF inv]
  have sz: "unat (32 :: u64) + 16 \<le> 2 ^ 63" "unat (16384 :: u64) + 16 \<le> 2 ^ 63" by simp_all
  obtain t1 s1 where k1: "kmalloc 32 s = Some (t1, s1)" using heap.malloc_law [OF I(1) sz(1)] by blast
  have n1: "t1 = 0 \<longleftrightarrow> no_room 32 s" using heap_kmalloc_null [OF I(1) sz(1) k1] by simp
  have null: "t = 0" if "t1 = 0" using r k1 that by (simp add: task_create_def sizeof_task_def)
  show ?thesis
  proof (cases "t1 = 0")
    case True
    then show ?thesis using n1 null by blast
  next
    case False
    obtain c where heap: "heap_inv N F (insert (t1, c) L) s1" using heap.malloc_some [OF I(1) sz(1) k1 False] by metis
    obtain a s2 where k2: "kmalloc 16384 s1 = Some (a, s2)" using heap.malloc_law [OF heap sz(2)] by blast
    have n2: "a = 0 \<longleftrightarrow> no_room 16384 s1" using heap_kmalloc_null [OF heap sz(2) k2] by simp
    have "t = (if a = 0 then 0 else t1)"
      using r k1 k2 False by (auto simp: task_create_def sizeof_task_def KERNEL_STACK_SIZE_def Let_def split: if_splits)
    then show ?thesis using False n1 n2 k1 by auto
  qed
qed

subsection \<open>Adoption of the boot flow\<close>

text \<open>\<open>X\<close> is the boot stack: memory the heap does not manage, or that lies in live objects.\<close>

lemma sched_init_spec:
  assumes heap: "heap_inv N F L s" and X: "client_area F L (slab_hhdm s) X"
  shows "sched_init s = Some (Inl (NullDeref, s)) \<and> kmalloc sizeof_task s = Some (0, s) \<or>
    (\<exists>t c s'. sched_init s = Some (Inr s') \<and> (t, c) \<notin> L \<and> sched_inv N F (insert (t, c) L) [(t, X)] s' \<and>
       cpu_context s' = cpu_context s \<and> t_id (mem s') t = next_id s \<and> next_id s' = next_id s + 1 \<and> current s' = t)"
proof -
  have sz: "unat sizeof_task + 16 \<le> 2 ^ 63" by (simp add: sizeof_task_def)
  obtain t s1 where k: "kmalloc sizeof_task s = Some (t, s1)" and z: "t = 0 \<Longrightarrow> s1 = s" using heap.malloc_law [OF heap sz] by blast
  show ?thesis
  proof (cases "t = 0")
    case True
    then show ?thesis using k z by (simp add: sched_init_def)
  next
    case nz: False
    obtain c where c: "unat sizeof_task \<le> c" "(t, c) \<notin> L" "heap_inv N F (insert (t, c) L) s1"
      using heap.malloc_some [OF heap sz k nz] by metis
    have c32: "32 \<le> c" using c(1) by (simp add: sizeof_task_def)
    have bt: "bytes t 32 \<subseteq> bytes t c" using bytes_mono [OF c32] .
    note st = heap_step_kmalloc [OF heap sz k] and r = slab_step_regs [OF heap_step_kmalloc [OF heap sz k]]
    define m where "m = store64 (store32 (store32 (store64 (store64 (mem s1) t 0) (t + 8) 0) (t + 16) (next_id s1)) (t + 20) TASK_RUNNING) (t + 24) t"
    define s' where "s' = s1\<lparr>next_id := next_id s1 + 1, mem := m, current := t\<rparr>"
    have run: "sched_init s = Some (Inr s')"
      using k nz by (simp add: sched_init_def Let_def put64_def put32_def s'_def m_def)
    have f: "t_state m t = TASK_RUNNING" "t_next m t = t" "t_id m t = next_id s1" by (simp_all add: m_def task_store)
    have "heap_inv N F (insert (t, c) L) s'"
    proof (rule client_write [OF c(3)])
      show "s' = s1\<lparr>mem := m, rsp := rsp s1, rbp := rbp s1, rbx := rbx s1, r12 := r12 s1, r13 := r13 s1, r14 := r14 s1,
        r15 := r15 s1, rip := rip s1, current := t, next_id := next_id s1 + 1\<rparr>"
        by (rule sched.equality) (simp_all add: s'_def)
      have "m x = mem s1 x" if "x \<notin> bytes t 32" for x using that by (simp add: m_def task_store_other)
      moreover fix x assume "m x \<noteq> mem s1 x"
      ultimately have "x \<in> bytes t 32" by blast
      then show "dm_frame (slab_hhdm s1) x \<notin> F \<or> (\<exists>ob \<in> insert (t, c) L. x \<in> bytes (fst ob) (snd ob))" using bt by auto
    qed
    moreover have "client_area F (insert (t, c) L) (slab_hhdm s') X"
      using X slab_stepD(1) [OF st] unfolding client_area_def by (simp add: s'_def)
    moreover have "X \<inter> bytes t 32 = {}"
    proof -
      have "x \<notin> X" if x: "x \<in> bytes t c" for x
      proof -
        have "dm_frame (slab_hhdm s) x \<in> F" using heap_object_frame [OF c(3), of "(t, c)" x] x slab_stepD(1) [OF st] by simp
        moreover have "x \<notin> bytes (fst ob) (snd ob)" if "ob \<in> L" for ob
          using heap_apart [OF c(3), of "(t, c)" ob] that c(2) x by auto
        ultimately show ?thesis using X unfolding client_area_def by blast
      qed
      then show ?thesis using bt by blast
    qed
    ultimately have "sched_inv N F (insert (t, c) L) [(t, X)] s'"
      using nz c32 f by (auto simp: sched_inv_def ring_ok_def areas_apart_def s'_def)
    moreover have "cpu_context s' = cpu_context s" "t_id (mem s') t = next_id s" "next_id s' = next_id s + 1" "current s' = t"
      using r f by (simp_all add: s'_def cpu_context_def)
    ultimately show ?thesis using run c(2) by blast
  qed
qed

subsection \<open>Runs\<close>

text \<open>The abstract scheduler: the context on the processor and the queue of the others.\<close>

definition tasks :: "ring \<Rightarrow> 'a sched_scheme \<Rightarrow> context_view \<times> context_view list" where
  "tasks R s = (cpu_context s, waiting R (mem s))"

fun yield_spec :: "u64 \<Rightarrow> context_view \<times> context_view list \<Rightarrow> context_view \<times> context_view list" where
  "yield_spec ret (c, []) = (c, [])"
| "yield_spec ret (c, d # ds) = (d, ds @ [c\<lparr>c_rip := ret\<rparr>])"

lemma yield_refines:
  assumes inv: "sched_inv N F L R s" and room: "bytes (rsp s - 56) 56 \<subseteq> snd (hd R)"
  shows "\<exists>s'. sched_yield s = Inr s' \<and> sched_inv N F L (rotate1 R) s' \<and> tasks (rotate1 R) s' = yield_spec (yield_return s) (tasks R s) \<and>
    yield_return s' = yield_return s \<and> (\<forall>(u, Z) \<in> set (tl R). \<forall>x \<in> Z. mem s' x = mem s x) \<and>
    (\<forall>x \<in> snd (hd R) - bytes (rsp s - 56) 56. mem s' x = mem s x)"
proof -
  note I = sched_invD [OF inv]
  obtain p X rest where R: "R = (p, X) # rest" using I(2) by (cases R) auto
  show ?thesis
  proof (cases rest)
    case Nil
    have "current s = p" "p \<noteq> 0" "t_next (mem s) p = p"
      using I(3) I(5) [of p X] ring_next [of "mem s" p "[]"] I(8) by (simp_all add: R Nil)
    then have "sched_yield s = Inr s" by (simp add: sched_yield_def)
    then show ?thesis using inv by (simp add: R Nil tasks_def waiting_def)
  next
    case (Cons q rest')
    obtain v Y where q: "q = (v, Y)" by (cases q)
    have R2: "R = (p, X) # (v, Y) # rest'" by (simp add: R Cons q)
    have room': "bytes (rsp s - 56) 56 \<subseteq> X" using room by (simp add: R)
    note y = yield_inv [OF inv R2 room']
    let ?m = "yield_mem p v s"
    let ?s = "switched (saved_context ?m (t_rsp (mem s) v)) ?m (s\<lparr>current := v\<rparr>)"
    have m: "mem ?s = ?m" "yield_return ?s = yield_return s" by (simp_all add: switched_def)
    have "waiting R (mem s) \<noteq> []" by (simp add: waiting_def R Cons)
    then have "tasks (rotate1 R) ?s = yield_spec (yield_return s) (tasks R s)"
      using y(2,3) unfolding tasks_def m by (cases "waiting R (mem s)") simp_all
    moreover have "?m x = mem s x" if u: "(u, Z) \<in> set (tl R)" and x: "x \<in> Z" for u Z x
    proof -
      have uR: "(u, Z) \<in> set R" "u \<noteq> p" using u I(4) by (auto simp: R image_iff)
      note A = areas_apartD [OF I(9) uR(1), of p X] areas_apartD(1) [OF I(9) uR(1), of v Y]
      show ?thesis using A x uR(2) room' by (intro yield_mem_other) (auto simp: R2)
    qed
    moreover have "?m x = mem s x" if "x \<in> X - bytes (rsp s - 56) 56" for x
      using that areas_apartD(1) [OF I(9), of p X p X] areas_apartD(1) [OF I(9), of p X v Y] by (intro yield_mem_other) (auto simp: R2)
    ultimately show ?thesis using sched_yield_switch [OF inv R2] y(1) m by (intro exI [of _ ?s]) (auto simp: R)
  qed
qed

text \<open>
  A run between yields: the task at the head may use its registers and the memory of its area as it
  likes; a yield with room for a frame on its stack passes the processor on.
\<close>

definition works :: "u64 set \<Rightarrow> 'a sched_scheme \<Rightarrow> 'a sched_scheme \<Rightarrow> bool" where
  "works X s s' \<longleftrightarrow> (\<exists>m a1 a2 a3 a4 a5 a6 a7 a8. s' = s\<lparr>mem := m, rsp := a1, rbp := a2, rbx := a3, r12 := a4, r13 := a5, r14 := a6,
     r15 := a7, rip := a8\<rparr>) \<and> (\<forall>x. x \<notin> X \<longrightarrow> mem s' x = mem s x)"

inductive run :: "ring \<Rightarrow> 'a sched_scheme \<Rightarrow> nat \<Rightarrow> ring \<Rightarrow> 'a sched_scheme \<Rightarrow> bool" for R s where
  run_start: "run R s 0 R s"
| run_work: "run R s k R' s' \<Longrightarrow> works (snd (hd R')) s' s'' \<Longrightarrow> run R s k R' s''"
| run_yield: "run R s k R' s' \<Longrightarrow> bytes (rsp s' - 56) 56 \<subseteq> snd (hd R') \<Longrightarrow> sched_yield s' = Inr s'' \<Longrightarrow>
    run R s (Suc k) (rotate1 R') s''"

lemma works_inv:
  assumes inv: "sched_inv N F L R s" and w: "works (snd (hd R)) s s'"
  shows "sched_inv N F L R s'" and "waiting R (mem s') = waiting R (mem s)" and "yield_return s' = yield_return s"
    and "(u, Z) \<in> set (tl R) \<Longrightarrow> x \<in> Z \<Longrightarrow> mem s' x = mem s x"
proof -
  note I = sched_invD [OF inv]
  obtain p X rest where R: "R = (p, X) # rest" using I(2) by (cases R) auto
  obtain m a1 a2 a3 a4 a5 a6 a7 a8 where s': "s' = s\<lparr>mem := m, rsp := a1, rbp := a2, rbx := a3, r12 := a4, r13 := a5, r14 := a6,
     r15 := a7, rip := a8\<rparr>" and mx: "\<And>x. x \<notin> X \<Longrightarrow> mem s' x = mem s x"
    using w unfolding works_def R by auto
  show "yield_return s' = yield_return s" by (simp add: s')
  have strct: "mem s' x = mem s x" if "(u, Z) \<in> set R" "x \<in> bytes u 32" for u Z x
    using areas_apartD(1) [OF I(9), of p X u Z] that by (intro mx) (auto simp: R)
  show area: "mem s' x = mem s x" if "(u, Z) \<in> set (tl R)" "x \<in> Z" for u Z x
  proof -
    have "(u, Z) \<in> set R" "u \<noteq> p" using that I(4) by (auto simp: R image_iff)
    then show ?thesis using areas_apartD(2) [OF I(9), of u Z p X] that(2) by (intro mx) (auto simp: R)
  qed
  have heap: "heap_inv N F L s'"
  proof (rule client_write [OF I(1)])
    show "s' = s\<lparr>mem := m, rsp := a1, rbp := a2, rbx := a3, r12 := a4, r13 := a5, r14 := a6, r15 := a7, rip := a8,
        current := current s, next_id := next_id s\<rparr>" by (simp add: s')
    fix x assume "m x \<noteq> mem s x"
    then have "x \<in> X" using mx [of x] by (auto simp: s')
    then show "dm_frame (slab_hhdm s) x \<notin> F \<or> (\<exists>ob \<in> L. x \<in> bytes (fst ob) (snd ob))"
      using I(7) [of p X] by (simp add: R client_area_def)
  qed
  have fields: "t_rsp (mem s') u = t_rsp (mem s) u" "t_state (mem s') u = t_state (mem s) u" "t_next (mem s') u = t_next (mem s) u"
    if "(u, Z) \<in> set R" for u Z
    using task_fields_cong [of u "mem s'" "mem s"] strct [OF that] by auto
  have "ring_ok (mem s') (map fst R) = ring_ok (mem s) (map fst R)" by (rule ring_ok_cong) (use fields in auto)
  moreover have "suspended (mem s') q" if "q \<in> set (tl R)" for q
    using I(11) [OF that] fields [of "fst q" "snd q"] that by (auto simp: R suspended_def split: prod.splits)
  moreover have "t_state (mem s') (current s) = TASK_RUNNING" using fields(2) [of p X] I(3,10) by (simp add: R)
  moreover have "current s' = current s" "slab_hhdm s' = slab_hhdm s" by (simp_all add: s')
  moreover have "\<forall>(t, Z) \<in> set R. t \<noteq> 0 \<and> (\<exists>c \<ge> 32. (t, c) \<in> L) \<and> client_area F L (slab_hhdm s) Z" using I(5-7) by blast
  ultimately show "sched_inv N F L R s'" unfolding sched_inv_def using heap I(2-4,8,9) by simp
  have "saved_context (mem s') (t_rsp (mem s') u) = saved_context (mem s) (t_rsp (mem s) u)" if q: "(u, Z) \<in> set (tl R)" for u Z
  proof -
    have "(u, Z) \<in> set R" using q by (simp add: R)
    then show ?thesis
      unfolding fields(1) [OF \<open>(u, Z) \<in> set R\<close>] using I(11) [OF q] area [OF q] by (intro saved_context_cong) (auto simp: suspended_def)
  qed
  then show "waiting R (mem s') = waiting R (mem s)" by (auto simp: waiting_def)
qed

lemma rotated_tl:
  assumes "k < length rest"
  shows "q \<in> set (tl (rotate k (rest @ [q])))"
  using assms by (simp add: rotate_drop_take tl_append split: list.split)

lemma run_queue:
  assumes "run R s k R' s'" and "sched_inv N F L R s"
  shows "sched_inv N F L R' s' \<and> R' = rotate k R \<and> yield_return s' = yield_return s \<and>
    (k \<le> length (waiting R (mem s)) \<longrightarrow> (\<exists>V. waiting R' (mem s') = drop k (waiting R (mem s)) @ V))"
  using assms
proof (induction rule: run.induct)
  case (run_work k R' s' s'')
  note w = works_inv(1-3) [OF conjunct1 [OF run_work.IH [OF run_work.prems]] run_work.hyps(2)]
  show ?case using run_work.IH [OF run_work.prems] w by auto
next
  case (run_yield k R' s' s'')
  then obtain u where u: "sched_yield s' = Inr u" "sched_inv N F L (rotate1 R') u"
    "tasks (rotate1 R') u = yield_spec (yield_return s') (tasks R' s')" "yield_return u = yield_return s'"
    using yield_refines [of N F L R' s'] by blast
  have "s'' = u" using u(1) run_yield.hyps by simp
  moreover have "\<exists>V. waiting (rotate1 R') (mem u) = drop (Suc k) (waiting R (mem s)) @ V" if k: "Suc k \<le> length (waiting R (mem s))"
  proof -
    let ?W = "waiting R (mem s)"
    obtain V where V: "waiting R' (mem s') = drop k ?W @ V" using run_yield k by auto
    have "drop k ?W = ?W ! k # drop (Suc k) ?W" using k by (simp add: Cons_nth_drop_Suc)
    then show ?thesis using V u(3) by (simp add: tasks_def)
  qed
  ultimately show ?case using u run_yield by simp
qed auto

text \<open>Until its turn comes again, nothing of a task's stack area changes.\<close>

lemma run_sleep:
  assumes "run (rest @ [(p, X)]) s k R' s'" and "sched_inv N F L (rest @ [(p, X)]) s" and "k < length rest" and "x \<in> X"
  shows "mem s' x = mem s x"
  using assms
proof (induction rule: run.induct)
  case (run_work k R' s' s'')
  note q = run_queue [OF run_work.hyps(1) run_work.prems(1)]
  have "(p, X) \<in> set (tl R')" using q rotated_tl [of k rest "(p, X)"] run_work.prems by simp
  from works_inv(4) [OF conjunct1 [OF q] run_work.hyps(2) this] show ?case using run_work by simp
next
  case (run_yield k R' s' s'')
  note q = run_queue [OF run_yield.hyps(1) run_yield.prems(1)]
  obtain u where "sched_yield s' = Inr u" "\<forall>(u', Z) \<in> set (tl R'). \<forall>x \<in> Z. mem u x = mem s' x"
    using yield_refines [of N F L R' s'] q run_yield.hyps by blast
  moreover have "(p, X) \<in> set (tl R')" using q rotated_tl [of k rest "(p, X)"] run_yield.prems by simp
  ultimately show ?case using run_yield by auto
qed simp

end
