(* ===== verification/Sched_Contract.thy ===== *)
theory Sched_Contract
  imports Sched_Tasks
begin

text \<open>
  What the scheduler promises the rest of the kernel, with a machine of two tasks on which the
  promises are applied.
\<close>

subsection \<open>A machine for the witnesses\<close>

text \<open>
  The heap holds three live blocks and nothing else: two for the task structures and one for the
  second task's stack. The first task runs on a boot stack outside the memory of the heap.
\<close>

definition cold_sched :: sched where
  "cold_sched = \<lparr>mem = (\<lambda>_. 0), io_trace = [], device = demo_uart, cr2 = 0, cr3 = 0, rsp = 0xffffffff80021000,
     tlb_flushes = [], bitmap = 0, bitmap_bytes = 0, total_frames = 0, usable_frames = 0,
     free_frames = 0, next_hint = 0, paging_hhdm = demo_hhdm, kernel_pml4 = 0, free_list = replicate 11 0,
     free_count = replicate 11 0, buddy_hhdm = demo_hhdm, caches = [], slab_hhdm = 0, caches_addr = 0xffffffff80010000,
     rbp = 1, rbx = 2, r12 = 3, r13 = 4, r14 = 5, r15 = 6, rip = 7, current = 0, next_id = 0,
     task_trampoline = 0xffffffff80001000, yield_return = 0xffffffff80002000\<rparr>"

definition boot_stack :: "u64 set" where "boot_stack = bytes 0xffffffff80020000 4096"

definition task0 :: u64 where "task0 = 0x4000 + demo_hhdm + 16"
definition task1 :: u64 where "task1 = 0x5000 + demo_hhdm + 16"
definition stack1 :: u64 where "stack1 = 0x8000 + demo_hhdm + 16"

definition add_large :: "nat \<Rightarrow> u64 \<Rightarrow> 'a slab_scheme \<Rightarrow> 'a slab_scheme" where
  "add_large ord p s = s\<lparr>mem := store32 (store64 (mem s) (p + slab_hhdm s) LARGE_MAGIC) (p + slab_hhdm s + 8) (of_nat ord)\<rparr>"

definition heap3 :: sched where
  "heap3 = add_large 3 0x8000 (add_large 0 0x5000 (add_large 0 0x4000 (slab_init demo_hhdm cold_sched)))"

definition objects3 :: "(u64 \<times> nat) set" where
  "objects3 = {(task0, 4080), (task1, 4080), (stack1, 32752)}"

lemma boot_stack_frame:
  assumes "x \<in> boot_stack"
  shows "32 \<le> dm_frame demo_hhdm x"
proof -
  obtain d where d: "d < 4096" "x = 0xffffffff80020000 + of_nat d" using assms by (auto simp: boot_stack_def bytes_def)
  have "x - demo_hhdm = of_nat (0x7fff80020000 + d)" using d(2) by (simp add: demo_hhdm_def)
  then have "unat (x - demo_hhdm) = 0x7fff80020000 + d" using d(1) by (simp only: unat_of_nat) simp
  then show ?thesis by (simp add: dm_frame_def)
qed

lemma heap3_inv: "heap_inv 32 {4, 5, 8, 9, 10, 11, 12, 13, 14, 15} objects3 heap3" and heap3_hhdm: "slab_hhdm heap3 = demo_hhdm"
proof -
  have blk: "blk 0 0x4000 = {4}" "blk 0 0x5000 = {5}" "blk 3 0x8000 = {8..<16}" by (auto simp: blk_def)
  have ok: "block_ok 32 0 0x4000" "block_ok 32 0 0x5000" "block_ok 32 3 0x8000" by (auto simp: block_ok_def aligned_def blk)
  define s0 where "s0 = slab_init demo_hhdm cold_sched"
  have h0: "slab_hhdm s0 = demo_hhdm" by (simp add: s0_def slab_init_def)
  have "buddy_inv 32 {} cold_sched" by (rule buddy_inv_empty) (simp_all add: cold_sched_def demo_direct_map)
  moreover have "buddy_hhdm cold_sched = demo_hhdm" by (simp add: cold_sched_def)
  ultimately have i0: "slab_inv 32 {} empty_view s0" using slab_init_inv(1) [of 32 "{}" cold_sched] by (simp add: s0_def)
  have o0: "owned empty_view = {}" by (simp add: owned_def pages_def empty_view_def)
  define G1 where "G1 = with_large empty_view 0 0x4000"
  define G2 where "G2 = with_large G1 0 0x5000"
  define G3 where "G3 = with_large G2 3 0x8000"
  have o: "owned G1 = {(0, 0x4000)}" "owned G2 = {(0, 0x5000), (0, 0x4000)}" "owned G3 = {(3, 0x8000), (0, 0x5000), (0, 0x4000)}"
    by (simp_all add: G1_def G2_def G3_def o0)
  have wf: "wf_blocks 32 {(3, 0x8000), (0, 0x5000), (0, 0x4000)}" using ok by (auto simp: wf_blocks_def blk)
  have cust: "custody 32 {} Q" if "Q \<subseteq> {(3, 0x8000), (0, 0x5000), (0, 0x4000)}" for Q
    using wf_blocks_mono [OF wf that] by (simp add: custody_def)
  define s1 where "s1 = add_large 0 0x4000 s0"
  define s2 where "s2 = add_large 0 0x5000 s1"
  have h: "slab_hhdm s1 = demo_hhdm" "slab_hhdm s2 = demo_hhdm" by (simp_all add: s1_def s2_def add_large_def h0)
  have i1: "slab_inv 32 {} G1 s1" unfolding G1_def s1_def add_large_def
    by (rule slab_inv_large [OF i0]) (simp_all add: o0 cust aligned_def)
  have i2: "slab_inv 32 {} G2 s2" unfolding G2_def s2_def add_large_def
    by (rule slab_inv_large [OF i1]) (simp_all add: o cust aligned_def blk)
  have e3: "heap3 = add_large 3 0x8000 s2" by (simp add: heap3_def s2_def s1_def s0_def)
  have i3: "slab_inv 32 {} G3 heap3" unfolding G3_def e3 add_large_def
    by (rule slab_inv_large [OF i2]) (simp_all add: o cust aligned_def blk)
  show h3: "slab_hhdm heap3 = demo_hhdm" by (simp add: heap3_def add_large_def slab_init_def)
  have "live G3 demo_hhdm = objects3"
    unfolding G3_def G2_def G1_def live_large slab_init_inv(2) [OF \<open>buddy_inv 32 {} cold_sched\<close>]
    by (auto simp: objects3_def large_obj_def task0_def task1_def stack1_def)
  moreover have "managed {} G3 = {4, 5, 8, 9, 10, 11, 12, 13, 14, 15}" by (auto simp: managed_def o blk)
  ultimately show "heap_inv 32 {4, 5, 8, 9, 10, 11, 12, 13, 14, 15} objects3 heap3" using i3 h3 unfolding heap_inv_def by metis
qed

text \<open>The boot flow as the only task, and then a second one spliced in.\<close>

definition boot_task :: "sched \<Rightarrow> sched" where
  "boot_task s = s\<lparr>mem := store64 (store32 (mem s) (task0 + 20) TASK_RUNNING) (task0 + 24) task0, current := task0\<rparr>"

definition one_task :: sched where "one_task = boot_task heap3"

definition two_tasks :: sched where
  "two_tasks = (let s = one_task\<lparr>mem := task_mem 0xffffffff80003000 task1 stack1 one_task, next_id := next_id one_task + 1\<rparr>
     in s\<lparr>mem := store64 (store64 (mem s) (task0 + 24) task1) (task1 + 24) (current s)\<rparr>)"

lemma boot_task_inv:
  assumes inv: "heap_inv 32 F L s" and h: "slab_hhdm s = demo_hhdm" and ob: "(task0, 4080) \<in> L" and F: "F \<subseteq> {..<32}"
  shows "sched_inv 32 F L [(task0, boot_stack)] (boot_task s)"
proof -
  let ?m = "store64 (store32 (mem s) (task0 + 20) TASK_RUNNING) (task0 + 24) task0"
  have eq: "mem (boot_task s) = ?m" "current (boot_task s) = task0" "slab_hhdm (boot_task s) = demo_hhdm"
    by (simp_all add: boot_task_def h)
  have sub: "x \<in> bytes task0 4080" if "x \<in> bytes task0 32" for x using that bytes_mono [of 32 4080 task0] by auto
  have "heap_inv 32 F L (boot_task s)"
  proof (rule client_write [OF inv])
    show "boot_task s = s\<lparr>mem := ?m, rsp := rsp s, rbp := rbp s, rbx := rbx s, r12 := r12 s, r13 := r13 s,
      r14 := r14 s, r15 := r15 s, rip := rip s, current := task0, next_id := next_id s\<rparr>" by (simp add: boot_task_def)
    have "?m x = mem s x" if "x \<notin> bytes task0 32" for x using that by (simp add: task_store_other)
    moreover fix x assume "?m x \<noteq> mem s x"
    ultimately have "x \<in> bytes task0 4080" using sub by blast
    then show "dm_frame (slab_hhdm s) x \<notin> F \<or> (\<exists>ob \<in> L. x \<in> bytes (fst ob) (snd ob))" using ob by fastforce
  qed
  moreover have f: "t_state ?m task0 = TASK_RUNNING" "t_next ?m task0 = task0" by (simp_all add: task_store)
  moreover have far: "dm_frame demo_hhdm x \<notin> F" if "x \<in> boot_stack" for x using boot_stack_frame [OF that] F by auto
  moreover have "x \<notin> bytes task0 32" if "x \<in> boot_stack" for x
    using far [OF that] heap_object_frame [OF inv ob, of x] sub [of x] by (auto simp: h)
  moreover have "task0 \<noteq> 0" by (simp add: task0_def demo_hhdm_def)
  moreover have "\<exists>c \<ge> 32. (task0, c) \<in> L" using ob by (intro exI [of _ 4080]) simp
  moreover have "client_area F L demo_hhdm boot_stack" unfolding client_area_def using far by blast
  ultimately show ?thesis by (auto simp: sched_inv_def eq ring_ok_def areas_apart_def)
qed

lemma one_task_inv: "sched_inv 32 {4, 5, 8, 9, 10, 11, 12, 13, 14, 15} objects3 [(task0, boot_stack)] one_task"
  unfolding one_task_def by (rule boot_task_inv [OF heap3_inv heap3_hhdm]) (auto simp: objects3_def)

lemma two_tasks_inv:
  "sched_inv 32 {4, 5, 8, 9, 10, 11, 12, 13, 14, 15} objects3 [(task0, boot_stack), (task1, bytes stack1 16384)] two_tasks"
  "waiting [(task0, boot_stack), (task1, bytes stack1 16384)] (mem two_tasks) = [first_context 0xffffffff80003000 (stack1 + 16384)]"
proof -
  have ob: "(task1, 4080) \<in> objects3" "(stack1, 32752) \<in> objects3" "(task0, 4080) \<in> objects3" by (simp_all add: objects3_def)
  have ne: "task0 \<noteq> task1" "task0 \<noteq> stack1" "stack1 \<noteq> task1" by (simp_all add: task0_def task1_def stack1_def)
  note ap = heap_apart [OF heap3_inv]
  have sub: "bytes task1 32 \<subseteq> bytes task1 4080" "bytes stack1 16384 \<subseteq> bytes stack1 32752" "bytes task0 32 \<subseteq> bytes task0 4080"
    by (simp_all add: bytes_mono)
  have a1: "bytes stack1 16384 \<inter> bytes task1 32 = {}" using ap [OF ob(2,1)] ne(3) sub by auto
  have a2: "x \<notin> bytes u 32 \<and> x \<notin> Z" if u: "(u, Z) \<in> set [(task0, boot_stack)]" and x: "x \<in> bytes task1 32 \<union> bytes stack1 16384" for u Z x
  proof -
    have "dm_frame demo_hhdm x \<in> {4, 5, 8, 9, 10, 11, 12, 13, 14, 15}"
      using heap_object_frame [OF heap3_inv ob(1), of x] heap_object_frame [OF heap3_inv ob(2), of x] x sub by (auto simp: heap3_hhdm)
    then have "x \<notin> boot_stack" using boot_stack_frame [of x] by auto
    moreover have "x \<notin> bytes task0 32" using ap [OF ob(3,1)] ap [OF ob(3,2)] ne x sub by auto
    ultimately show ?thesis using u by simp
  qed
  have nz: "task1 \<noteq> 0" by (simp add: task1_def demo_hhdm_def)
  note sp = task_create_splice(2,3) [OF one_task_inv nz ob(1) _ ob(2) _ a2 a1, of "0xffffffff80003000"]
  have w: "waiting [(task0, boot_stack)] m = []" for m by (simp add: waiting_def)
  show "sched_inv 32 {4, 5, 8, 9, 10, 11, 12, 13, 14, 15} objects3 [(task0, boot_stack), (task1, bytes stack1 16384)] two_tasks"
    using sp(1) by (simp add: two_tasks_def Let_def)
  show "waiting [(task0, boot_stack), (task1, bytes stack1 16384)] (mem two_tasks) = [first_context 0xffffffff80003000 (stack1 + 16384)]"
    using sp(2) by (simp add: two_tasks_def Let_def w)
qed

lemma two_tasks_room: "bytes (rsp two_tasks - 56) 56 \<subseteq> boot_stack"
proof -
  have "rsp two_tasks - 56 = 0xffffffff80020000 + 4040"
    by (simp add: two_tasks_def Let_def one_task_def boot_task_def heap3_def add_large_def slab_init_def cold_sched_def)
  then show ?thesis unfolding boot_stack_def using bytes_sub [of 4040 56 4096 "0xffffffff80020000"] by simp
qed

definition demo_sched :: sched where "demo_sched = slab_init demo_hhdm (list_push 2 0x4000 cold_sched)"

lemma demo_sched_inv: "slab_inv 8 {(2, 0x4000)} empty_view demo_sched" "heap_inv 8 {4..<8} {} demo_sched" "slab_hhdm demo_sched = demo_hhdm"
proof -
  have "buddy_inv 8 {} cold_sched" by (rule buddy_inv_empty) (simp_all add: cold_sched_def demo_direct_map)
  moreover have "block_ok 8 2 0x4000" by (auto simp: block_ok_def aligned_def demo_blk)
  ultimately have p: "buddy_inv 8 {(2, 0x4000)} (list_push 2 0x4000 cold_sched)" "heap_step (blk 2 0x4000) cold_sched (list_push 2 0x4000 cold_sched)"
    using inv_push [of 8 "{}" cold_sched 2 "0x4000"] by simp_all
  have h: "buddy_hhdm (list_push 2 0x4000 cold_sched) = demo_hhdm" using heap_step_fields(1) [OF p(2)] by (simp add: cold_sched_def)
  show "slab_inv 8 {(2, 0x4000)} empty_view demo_sched" "heap_inv 8 {4..<8} {} demo_sched"
    using slab_init_inv(1) [OF p(1)] heap_slab_init [OF p(1)] unfolding demo_sched_def h by (simp_all add: demo_blk)
  show "slab_hhdm demo_sched = demo_hhdm" by (simp add: demo_sched_def slab_init_def)
qed

text \<open>The boot flow alone on a heap that has a page and a block of eight pages left.\<close>

definition free_blocks :: sched where
  "free_blocks = list_push 3 0x8000 (list_push 0 0x5000 cold_sched)"

definition roomy :: sched where
  "roomy = boot_task (add_large 0 0x4000 (slab_init demo_hhdm free_blocks))"

lemma roomy_inv: "sched_inv 32 {4, 5, 8, 9, 10, 11, 12, 13, 14, 15} {(task0, 4080)} [(task0, boot_stack)] roomy"
proof -
  have blk: "blk 0 0x4000 = {4}" "blk 0 0x5000 = {5}" "blk 3 0x8000 = {8..<16}" by (auto simp: blk_def)
  have ok: "block_ok 32 0 0x4000" "block_ok 32 0 0x5000" "block_ok 32 3 0x8000" by (auto simp: block_ok_def aligned_def blk)
  let ?B = "{(3, 0x8000), (0, 0x5000)}"
  have "buddy_inv 32 {} cold_sched" by (rule buddy_inv_empty) (simp_all add: cold_sched_def demo_direct_map)
  from inv_push [OF this ok(2)] have p1: "buddy_inv 32 {(0, 0x5000)} (list_push 0 0x5000 cold_sched)"
    and h1: "buddy_hhdm (list_push 0 0x5000 cold_sched) = demo_hhdm" using heap_step_fields(1) by (auto simp: cold_sched_def)
  from inv_push [OF p1 ok(3)] have p2: "buddy_inv 32 ?B free_blocks" and h2: "buddy_hhdm free_blocks = demo_hhdm"
    using heap_step_fields(1) h1 by (auto simp: free_blocks_def blk)
  define s0 where "s0 = slab_init demo_hhdm free_blocks"
  have h0: "slab_hhdm s0 = demo_hhdm" by (simp add: s0_def slab_init_def)
  have i0: "slab_inv 32 ?B empty_view s0" using slab_init_inv(1) [OF p2] unfolding h2 s0_def by simp
  have o0: "owned empty_view = {}" by (simp add: owned_def pages_def empty_view_def)
  have cust: "custody 32 ?B {(0, 0x4000)}" using ok by (simp add: custody_def wf_blocks_def blk)
  have "slab_inv 32 ?B (with_large empty_view 0 0x4000) (add_large 0 0x4000 s0)"
    unfolding add_large_def by (rule slab_inv_large [OF i0]) (simp_all add: o0 cust aligned_def)
  moreover have "slab_hhdm (add_large 0 0x4000 s0) = demo_hhdm" by (simp add: add_large_def h0)
  moreover have "live (with_large empty_view 0 0x4000) demo_hhdm = {(task0, 4080)}"
    unfolding live_large slab_init_inv(2) [OF p2] by (simp add: large_obj_def task0_def)
  moreover have "managed ?B (with_large empty_view 0 0x4000) = {4, 5, 8, 9, 10, 11, 12, 13, 14, 15}"
    by (auto simp: managed_def o0 blk)
  ultimately have "heap_inv 32 {4, 5, 8, 9, 10, 11, 12, 13, 14, 15} {(task0, 4080)} (add_large 0 0x4000 s0)" "slab_hhdm (add_large 0 0x4000 s0) = demo_hhdm"
    unfolding heap_inv_def by metis+
  from boot_task_inv [OF this] show ?thesis unfolding roomy_def s0_def by auto
qed

text \<open>A task structure is carved out of the page, so the block is still there for the stack.\<close>

lemma roomy_lists: "free_list roomy = (replicate 11 0)[0 := 0x5000 + demo_hhdm, 3 := 0x8000 + demo_hhdm]" "buddy_hhdm roomy = demo_hhdm"
  by (simp_all add: roomy_def boot_task_def add_large_def slab_init_def free_blocks_def list_push_def set_prev_def set_next_def node_at_def
      cold_sched_def Let_def demo_hhdm_def)

lemma kmalloc_lists:
  assumes "kmalloc 32 s = Some (t, s1)" and "free_list s ! 0 \<noteq> 0"
  shows "free_list s1 ! 3 = free_list s ! 3" and "buddy_hhdm s1 = buddy_hhdm s"
proof -
  have c: "find_class 0 class_sizes 32 = Some 1" by (simp add: class_sizes_def)
  have b: "free_list (snd (buddy_alloc 0 s)) ! 3 = free_list s ! 3" "buddy_hhdm (snd (buddy_alloc 0 s)) = buddy_hhdm s"
    using assms(2) by (simp_all add: buddy_alloc_def find_order.simps [of 0] split_down.simps [of 0] list_remove_def set_prev_def set_next_def Let_def)
  have th: "free_list (thread_slots i n b z u) = free_list u" "buddy_hhdm (thread_slots i n b z u) = buddy_hhdm u" for i n b z and u :: "'a slab_scheme"
    by (induction i n b z u rule: thread_slots.induct; subst thread_slots.simps; simp add: Let_def put64_def)+
  have g: "free_list u ! 3 = free_list s ! 3 \<and> buddy_hhdm u = buddy_hhdm s" if "cache_grow 1 s = Some (p, u)" for p u
    using that b by (auto simp: cache_grow_def Let_def th put64_def put32_def set_cache_def split: prod.splits if_splits)
  have p: "free_list (snd (pop_slot 1 p u)) = free_list u" "buddy_hhdm (snd (pop_slot 1 p u)) = buddy_hhdm u" for p and u :: "'a slab_scheme"
    by (simp_all add: pop_slot_def Let_def put64_def put32_def set_cache_def)
  show "free_list s1 ! 3 = free_list s ! 3" "buddy_hhdm s1 = buddy_hhdm s"
    using assms(1) g p [of _ s] p by (auto simp: kmalloc_def c split: bind_splits prod.splits if_splits) (metis snd_conv)+
qed

lemma roomy_room: "\<not> no_room 32 roomy" "kmalloc 32 roomy = Some (t, s1) \<Longrightarrow> \<not> no_room 16384 s1"
proof -
  have n: "0x5000 + demo_hhdm \<noteq> 0" "0x8000 + demo_hhdm \<noteq> 0" by (simp_all add: demo_hhdm_def)
  then have "fst (buddy_alloc 0 roomy) \<noteq> 0"
    by (simp add: buddy_alloc_def find_order.simps [of 0] roomy_lists list_remove_def phys_of_def set_prev_def set_next_def Let_def)
  then show "\<not> no_room 32 roomy" by (simp add: no_room_def)
  assume "kmalloc 32 roomy = Some (t, s1)"
  then have l: "free_list s1 ! 3 = 0x8000 + demo_hhdm" "buddy_hhdm s1 = demo_hhdm" using kmalloc_lists [of roomy t s1] n by (simp_all add: roomy_lists)
  then have "fst (buddy_alloc 3 s1) \<noteq> 0"
    using n(2) by (simp add: buddy_alloc_def find_order.simps [of 3] list_remove_def phys_of_def set_prev_def set_next_def Let_def)
  moreover have "unat (16384 :: u64) + 16 \<le> 4096 * 2 ^ 3" "\<not> unat (16384 :: u64) \<le> 2048" by simp_all
  ultimately show "\<not> no_room 16384 s1" unfolding no_room_def by meson
qed

subsection \<open>The properties of the scheduler\<close>

text \<open>C20 (functional): \<open>sched_init\<close> either finds no memory for a task structure, and then writes through
  the null pointer \<open>kmalloc\<close> gave it, or leaves a ring of one: the boot flow is the running task 0,
  its structure is a new heap object, the heap is sound and the registers are untouched.\<close>

theorem sched_init_correct:
  assumes "heap_inv N F L s" and "client_area F L (slab_hhdm s) X"
  shows "if kmalloc sizeof_task s = Some (0, s) then sched_init s = Some (Inl (NullDeref, s))
    else \<exists>t c s'. sched_init s = Some (Inr s') \<and> (t, c) \<notin> L \<and> sched_inv N F (insert (t, c) L) [(t, X)] s' \<and>
      cpu_context s' = cpu_context s \<and> t_id (mem s') t = next_id s \<and> next_id s' = next_id s + 1 \<and> current s' = t"
  using sched_init_spec [OF assms] by (auto simp: sched_init_def)

theorem sched_init_correct_witness:
  "\<exists>t c s'. sched_init demo_sched = Some (Inr s') \<and> sched_inv 8 {4..<8} {(t, c)} [(t, boot_stack)] s'"
proof -
  have X: "client_area {4..<8} {} (slab_hhdm demo_sched) boot_stack"
    using boot_stack_frame by (force simp: client_area_def demo_sched_inv(3))
  have "kmalloc sizeof_task demo_sched \<noteq> Some (0, demo_sched)"
    using kmalloc_spec [OF demo_sched_inv(1), of sizeof_task] by (auto simp: sizeof_task_def object_ok_def)
  then show ?thesis using sched_init_correct [OF demo_sched_inv(2) X] by (simp split: if_splits) blast
qed

text \<open>C18 (functional): \<open>task_create\<close> returns. Exactly when there is no room for the 32 bytes of the structure, or
  after it none for the 16384 bytes of the stack, it
  returns null, having given back what it took: the same live objects, the same tasks, the same
  waiting contexts. Otherwise the new task is last in the ring with the next id; it will start at its entry
  with cleared registers, on a stack whose pointer is 8 below a 16-byte boundary and whose top word is
  the trampoline's address; the tasks that were there, and the caller's registers, are as before.\<close>

theorem task_create_correct:
  assumes "sched_inv N F L R s"
  shows "\<exists>t s'. task_create entry s = Some (Inr (t, s')) \<and> cpu_context s' = cpu_context s \<and>
    (t = 0 \<longleftrightarrow> no_room 32 s \<or> (\<exists>t1 s1. kmalloc 32 s = Some (t1, s1) \<and> no_room 16384 s1)) \<and>
    (if t = 0 then sched_inv N F L R s' \<and> waiting R (mem s') = waiting R (mem s) \<and> next_id s' = next_id s
     else next_id s' = next_id s + 1 \<and> t_id (mem s') t = next_id s \<and>
       (\<exists>ct a ca. (t, ct) \<notin> L \<and> (a, ca) \<notin> L \<and> aligned 4 a \<and> t_stack_base (mem s') t = a \<and>
          sched_inv N F (L \<union> {(t, ct), (a, ca)}) (R @ [(t, bytes a 16384)]) s' \<and>
          waiting (R @ [(t, bytes a 16384)]) (mem s') = waiting R (mem s) @ [first_context entry (a + 16384)] \<and>
          load64 (mem s') (a + 16376) = task_trampoline s))"
proof -
  obtain t s' where r: "task_create entry s = Some (Inr (t, s'))" using task_create_spec [OF assms] by metis
  show ?thesis using task_create_spec [OF assms, of entry] task_create_null [OF assms r] r by auto
qed

theorem task_create_correct_witness:
  "\<exists>t s'. task_create 0xffffffff80003000 roomy = Some (Inr (t, s')) \<and> t \<noteq> 0 \<and> t_id (mem s') t = next_id roomy \<and>
    (\<exists>a. waiting [(task0, boot_stack), (t, bytes a 16384)] (mem s') = [first_context 0xffffffff80003000 (a + 16384)])"
proof -
  have "waiting [(task0, boot_stack)] (mem roomy) = []" by (simp add: waiting_def)
  then show ?thesis using task_create_correct [OF roomy_inv, of "0xffffffff80003000"] roomy_room by (auto split: if_splits)
qed

text \<open>C12 (refinement): a yield by a task with room for a frame on its stack refines the abstract
  queue: the processor takes the first waiting context exactly as it was saved, the caller's context,
  set to continue after the call, goes to the end, and all others keep their order and contents. Alone, a
  task just returns. The ring and the heap stay sound, and no other task's stack area changes.\<close>

theorem sched_yield_refines:
  assumes "sched_inv N F L R s" and "bytes (rsp s - 56) 56 \<subseteq> snd (hd R)"
  shows "\<exists>s'. sched_yield s = Inr s' \<and> sched_inv N F L (rotate1 R) s' \<and>
    tasks (rotate1 R) s' = yield_spec (yield_return s) (tasks R s) \<and>
    (\<forall>(u, Z) \<in> set (tl R). \<forall>x \<in> Z. mem s' x = mem s x)"
  using yield_refines [OF assms] by blast

theorem sched_yield_refines_witness:
  "\<exists>s'. sched_yield two_tasks = Inr s' \<and> rip s' = 0xffffffff80003000 \<and> current s' = task1"
proof -
  obtain s' where s': "sched_yield two_tasks = Inr s'"
    "sched_inv 32 {4, 5, 8, 9, 10, 11, 12, 13, 14, 15} objects3 [(task1, bytes stack1 16384), (task0, boot_stack)] s'"
    "tasks [(task1, bytes stack1 16384), (task0, boot_stack)] s' =
       yield_spec (yield_return two_tasks) (tasks [(task0, boot_stack), (task1, bytes stack1 16384)] two_tasks)"
    using sched_yield_refines [OF two_tasks_inv(1)] two_tasks_room by auto
  have "cpu_context s' = first_context 0xffffffff80003000 (stack1 + 16384)" using s'(3) by (simp add: tasks_def two_tasks_inv(2))
  then have "rip s' = 0xffffffff80003000" by (simp add: cpu_context_def first_context_def)
  then show ?thesis using s'(1) sched_invD(3) [OF s'(2)] by auto
qed

text \<open>C19 (liveness): the schedule is fair. In a ring of \<open>n \<ge> 2\<close> tasks, when a task has yielded, the
  others have worked on their own stacks as they like and yielded \<open>n - 2\<close> times, the next yield gives the
  processor back to it: with every register as it left it, continuing after its call of \<open>sched_yield\<close>, and
  with its stack memory unchanged but for the frame below its stack pointer.\<close>

theorem sched_round_robin:
  assumes "sched_inv N F L ((p, X) # R) s" and "R \<noteq> []" and "bytes (rsp s - 56) 56 \<subseteq> X" and "sched_yield s = Inr s1"
    and "run (R @ [(p, X)]) s1 (length R - 1) R' s2" and "bytes (rsp s2 - 56) 56 \<subseteq> snd (hd R')" and "sched_yield s2 = Inr s3"
  shows "current s3 = p \<and> cpu_context s3 = (cpu_context s)\<lparr>c_rip := yield_return s\<rparr> \<and>
    (\<forall>x \<in> X - bytes (rsp s - 56) 56. mem s3 x = mem s x)"
proof -
  let ?R = "R @ [(p, X)]" and ?c = "(cpu_context s)\<lparr>c_rip := yield_return s\<rparr>"
  have one: "sched_inv N F L ?R s1" "tasks ?R s1 = yield_spec (yield_return s) (tasks ((p, X) # R) s)"
    "\<And>x. x \<in> X - bytes (rsp s - 56) 56 \<Longrightarrow> mem s1 x = mem s x"
    using yield_refines [OF assms(1)] assms(3,4) by simp_all
  have "waiting ((p, X) # R) (mem s) \<noteq> []" and len: "length (waiting ?R (mem s1)) = length R" using assms(2) by (simp_all add: waiting_def)
  then obtain d ds where "waiting ((p, X) # R) (mem s) = d # ds" by (cases "waiting ((p, X) # R) (mem s)") auto
  then have w1: "waiting ?R (mem s1) = ds @ [?c]" using one(2) by (simp add: tasks_def)
  then have ds: "length ds = length R - 1" using len by simp
  note q = run_queue [OF assms(5) one(1)]
  obtain V where V: "waiting R' (mem s2) = ?c # V" using q len w1 ds by auto
  have R': "R' = rotate (length R - 1) ?R" and inv2: "sched_inv N F L R' s2" using q by blast+
  have lt: "length R - 1 < length R" and "Suc (length R - 1) = length R" using assms(2) by (cases R; simp)+
  then have "rotate1 R' = rotate (length R) ?R" unfolding R' by (metis rotate_Suc)
  then have full: "rotate1 R' = (p, X) # R" by (simp only: rotate_append append.simps)
  have two: "sched_inv N F L (rotate1 R') s3" "tasks (rotate1 R') s3 = yield_spec (yield_return s2) (tasks R' s2)"
    "\<And>u Z x. (u, Z) \<in> set (tl R') \<Longrightarrow> x \<in> Z \<Longrightarrow> mem s3 x = mem s2 x"
    using yield_refines [OF inv2 assms(6)] assms(7) by auto
  have "current s3 = p" using sched_invD(3) [OF two(1)] by (simp add: full)
  moreover have "cpu_context s3 = ?c" using two(2) by (simp add: tasks_def V)
  moreover have "mem s3 x = mem s x" if "x \<in> X - bytes (rsp s - 56) 56" for x
    using two(3) [of p X x] rotated_tl [OF lt, of "(p, X)"] R' run_sleep [OF assms(5) one(1) lt, of x] one(3) [OF that] that by simp
  ultimately show ?thesis by blast
qed

theorem sched_round_robin_witness:
  "\<exists>s1 s3. sched_yield two_tasks = Inr s1 \<and> sched_yield s1 = Inr s3 \<and> current s3 = task0 \<and>
     rbp s3 = 1 \<and> rsp s3 = 0xffffffff80021000 \<and> rip s3 = 0xffffffff80002000"
proof -
  let ?R = "[(task0, boot_stack), (task1, bytes stack1 16384)]"
  obtain s1 where s1: "sched_yield two_tasks = Inr s1" "tasks (rotate1 ?R) s1 = yield_spec (yield_return two_tasks) (tasks ?R two_tasks)"
    "sched_inv 32 {4, 5, 8, 9, 10, 11, 12, 13, 14, 15} objects3 (rotate1 ?R) s1"
    using yield_refines [OF two_tasks_inv(1)] two_tasks_room by auto
  have "cpu_context s1 = first_context 0xffffffff80003000 (stack1 + 16384)" using s1(2) by (simp add: tasks_def two_tasks_inv(2))
  then have "rsp s1 - 56 = stack1 + 16320" by (simp add: cpu_context_def first_context_def)
  then have room: "bytes (rsp s1 - 56) 56 \<subseteq> snd (hd (rotate1 ?R))" using bytes_sub [of 16320 56 16384 stack1] by (simp only:) simp
  obtain s3 where s3: "sched_yield s1 = Inr s3" using yield_refines [OF s1(3) room] by blast
  have "current s3 = task0 \<and> cpu_context s3 = (cpu_context two_tasks)\<lparr>c_rip := yield_return two_tasks\<rparr>"
    using sched_round_robin [OF two_tasks_inv(1) _ two_tasks_room s1(1) _ room s3] run_start [of "rotate1 ?R" s1] by simp
  moreover have "rbp two_tasks = 1" "rsp two_tasks = 0xffffffff80021000" "yield_return two_tasks = 0xffffffff80002000"
    by (simp_all add: two_tasks_def Let_def one_task_def boot_task_def heap3_def add_large_def slab_init_def cold_sched_def)
  ultimately show ?thesis using s1(1) s3 by (auto simp: cpu_context_def)
qed

end
