(* ===== verification/Arch.thy ===== *)
theory Arch
  imports Slab
begin

text \<open>
  The x86_64 layer: segment and interrupt descriptor tables (\<^verbatim>\<open>gdt.c\<close>, \<^verbatim>\<open>idt.c\<close>), the gates for
  exceptions and hardware interrupts (\<^verbatim>\<open>isr_init\<close>, \<^verbatim>\<open>irq.c\<close>), the 8259 interrupt controllers
  (\<^verbatim>\<open>pic.c\<close>) and the bring-up order (\<^verbatim>\<open>arch.c\<close>). The controllers are hardware: what the port
  writes mean to them is stated by an interpreter of the bus history, \<open>pic_view\<close>, after the 8259A
  data sheet, and the theorems speak of the state it computes.
\<close>

subsection \<open>State\<close>

text \<open>
  One gate of the interrupt descriptor table; the handlers a line can have (the source's function
  pointers, null being \<open>None\<close>); the CPU registers these files load; and the link-time addresses of
  the tables, the entry stubs and the far-return label.
\<close>

record idt_entry =
  offset_low :: u16
  selector :: u16
  ist :: u8
  type_attr :: u8
  offset_mid :: u16
  offset_high :: u32
  zero_field :: u32

datatype irq_handler_t = Timer_irq | Keyboard_irq

record arch = slab +
  gdt :: "u64 list"
  gdtr_limit :: u16
  gdtr_base :: u64
  idt :: "idt_entry list"
  idtr_limit :: u16
  idtr_base :: u64
  cpu_gdtr :: "u16 \<times> u64"
  cpu_idtr :: "u16 \<times> u64"
  seg_cs :: u16
  seg_ds :: u16
  seg_es :: u16
  seg_ss :: u16
  seg_fs :: u16
  seg_gs :: u16
  apic_base :: u64
  if_flag :: bool
  handlers :: "irq_handler_t option list"
  isr_stub_table :: "u64 list"
  irq_stub_table :: "u64 list"
  gdt_addr :: u64
  idt_addr :: u64
  gdt_label :: u64

subsection \<open>Segments\<close>

definition GDT_KERNEL_CODE_SELECTOR :: u16 where "GDT_KERNEL_CODE_SELECTOR = 0x08"
definition GDT_KERNEL_DATA_SELECTOR :: u16 where "GDT_KERNEL_DATA_SELECTOR = 0x10"

definition gdt_descriptor :: "u8 \<Rightarrow> u8 \<Rightarrow> u64" where
  "gdt_descriptor access flags =
     (let desc = 0 :: u64;
          desc = desc OR 0xFFFF;
          desc = desc OR push_bit 40 (ucast access);
          desc = desc OR push_bit 48 0xF;
          desc = desc OR push_bit 52 (ucast (flags AND 0xF))
      in desc)"

text \<open>The far return pops the label and the code selector that were just pushed below \<open>rsp\<close>.\<close>

definition gdt_load :: "'a arch_scheme \<Rightarrow> 'a arch_scheme" where
  "gdt_load s =
     (let s = s\<lparr>cpu_gdtr := (gdtr_limit s, gdtr_base s)\<rparr>;
          s = put64 (rsp s - 8) (ucast GDT_KERNEL_CODE_SELECTOR) s;
          s = put64 (rsp s - 16) (gdt_label s) s;
          s = s\<lparr>seg_cs := ucast (load64 (mem s) (rsp s - 8))\<rparr>
      in s\<lparr>seg_ds := GDT_KERNEL_DATA_SELECTOR, seg_es := GDT_KERNEL_DATA_SELECTOR, seg_ss := GDT_KERNEL_DATA_SELECTOR,
           seg_fs := GDT_KERNEL_DATA_SELECTOR, seg_gs := GDT_KERNEL_DATA_SELECTOR\<rparr>)"

definition gdt_init :: "'a arch_scheme \<Rightarrow> 'a arch_scheme" where
  "gdt_init s =
     (let s = s\<lparr>gdt := (gdt s)[0 := 0]\<rparr>;
          s = s\<lparr>gdt := (gdt s)[1 := gdt_descriptor 0x9A 0xA]\<rparr>;
          s = s\<lparr>gdt := (gdt s)[2 := gdt_descriptor 0x92 0xA]\<rparr>;
          s = s\<lparr>gdtr_limit := 3 * 8 - 1\<rparr>;
          s = s\<lparr>gdtr_base := gdt_addr s\<rparr>
      in gdt_load s)"

subsection \<open>Gates\<close>

definition IDT_GATE_INTERRUPT :: u8 where "IDT_GATE_INTERRUPT = 0x8E"

definition idt_set_gate :: "u8 \<Rightarrow> u64 \<Rightarrow> u8 \<Rightarrow> 'a arch_scheme \<Rightarrow> 'a arch_scheme" where
  "idt_set_gate vector addr flags s =
     s\<lparr>idt := (idt s)[unat vector :=
       \<lparr>offset_low = ucast (addr AND 0xFFFF), selector = GDT_KERNEL_CODE_SELECTOR, ist = 0, type_attr = flags,
        offset_mid = ucast (drop_bit 16 addr AND 0xFFFF), offset_high = ucast (drop_bit 32 addr), zero_field = 0\<rparr>]\<rparr>"

definition idt_init :: "'a arch_scheme \<Rightarrow> 'a arch_scheme" where
  "idt_init s =
     (let s = s\<lparr>idtr_limit := 256 * 16 - 1\<rparr>;
          s = s\<lparr>idtr_base := idt_addr s\<rparr>
      in s\<lparr>cpu_idtr := (idtr_limit s, idtr_base s)\<rparr>)"

definition isr_init :: "'a arch_scheme \<Rightarrow> 'a arch_scheme" where
  "isr_init s = fold (\<lambda>v s. idt_set_gate (of_nat v) (isr_stub_table s ! v) IDT_GATE_INTERRUPT s) [0..<32] s"

subsection \<open>The interrupt controllers\<close>

definition PIC1_CMD :: u16 where "PIC1_CMD = 0x20"
definition PIC1_DATA :: u16 where "PIC1_DATA = 0x21"
definition PIC2_CMD :: u16 where "PIC2_CMD = 0xA0"
definition PIC2_DATA :: u16 where "PIC2_DATA = 0xA1"
definition ICW1_INIT :: u8 where "ICW1_INIT = 0x10"
definition ICW1_ICW4 :: u8 where "ICW1_ICW4 = 0x01"
definition ICW4_8086 :: u8 where "ICW4_8086 = 0x01"
definition PIC_EOI :: u8 where "PIC_EOI = 0x20"

definition pic_remap :: "'a machine_scheme \<Rightarrow> 'a machine_scheme" where
  "pic_remap s =
     (let s = outb PIC1_CMD (ICW1_INIT OR ICW1_ICW4) s; s = io_wait s;
          s = outb PIC2_CMD (ICW1_INIT OR ICW1_ICW4) s; s = io_wait s;
          s = outb PIC1_DATA 0x20 s; s = io_wait s;
          s = outb PIC2_DATA 0x28 s; s = io_wait s;
          s = outb PIC1_DATA 0x04 s; s = io_wait s;
          s = outb PIC2_DATA 0x02 s; s = io_wait s;
          s = outb PIC1_DATA ICW4_8086 s; s = io_wait s;
          s = outb PIC2_DATA ICW4_8086 s; s = io_wait s;
          s = outb PIC1_DATA 0xFF s
      in outb PIC2_DATA 0xFF s)"

definition pic_send_eoi :: "u8 \<Rightarrow> 'a machine_scheme \<Rightarrow> 'a machine_scheme" where
  "pic_send_eoi irq s =
     (let s = (if irq \<ge> 8 then outb PIC2_CMD PIC_EOI s else s)
      in outb PIC1_CMD PIC_EOI s)"

text \<open>The shift is of a 32-bit 1, so a line above 39 gives a zero bit (undefined in C).\<close>

definition pic_unmask_irq :: "u8 \<Rightarrow> 'a machine_scheme \<Rightarrow> 'a machine_scheme" where
  "pic_unmask_irq irq s =
     (let port = (if irq < 8 then PIC1_DATA else PIC2_DATA);
          irq = (if irq < 8 then irq else irq - 8);
          (v, s) = inb port s;
          m = v AND NOT (ucast (push_bit (unat irq) (1 :: u32)))
      in outb port m s)"

subsection \<open>Hardware interrupts\<close>

definition IRQ_COUNT :: nat where [simp]: "IRQ_COUNT = 16"
definition IRQ_VECTOR_BASE :: nat where [simp]: "IRQ_VECTOR_BASE = 32"

definition irq_init :: "'a arch_scheme \<Rightarrow> 'a arch_scheme" where
  "irq_init s =
     fold (\<lambda>i s. idt_set_gate (of_nat (IRQ_VECTOR_BASE + i)) (irq_stub_table s ! i) IDT_GATE_INTERRUPT s) [0..<IRQ_COUNT] s"

definition irq_install_handler :: "u8 \<Rightarrow> irq_handler_t option \<Rightarrow> 'a arch_scheme \<Rightarrow> 'a arch_scheme" where
  "irq_install_handler irq handler s =
     (if unat irq < IRQ_COUNT then s\<lparr>handlers := (handlers s)[unat irq := handler]\<rparr> else s)"

text \<open>
  The frame is read where the entry stub left it: \<open>vector\<close> follows fifteen registers. The handlers
  are those of the drivers, \<open>run\<close>; \<open>None\<close> is a handler that does not return.
\<close>

definition f_vector :: "memory \<Rightarrow> u64 \<Rightarrow> u64" where "f_vector m f = load64 m (f + 120)"

definition irq_dispatch ::
    "(irq_handler_t \<Rightarrow> 'a arch_scheme \<Rightarrow> 'a arch_scheme option) \<Rightarrow> u64 \<Rightarrow> 'a arch_scheme \<Rightarrow> 'a arch_scheme option" where
  "irq_dispatch run f s =
     (let irq = (ucast (f_vector (mem s) f - of_nat IRQ_VECTOR_BASE) :: u8);
          h = (if unat irq < IRQ_COUNT then handlers s ! unat irq else None)
      in map_option (pic_send_eoi irq) (case h of None \<Rightarrow> Some s | Some g \<Rightarrow> run g s))"

subsection \<open>Bring-up\<close>

definition APIC_BASE_ENABLE :: u32 where "APIC_BASE_ENABLE = push_bit 11 1"

definition lapic_disable :: "'a arch_scheme \<Rightarrow> 'a arch_scheme" where
  "lapic_disable s =
     (let lo = (ucast (apic_base s) :: u32); hi = (ucast (drop_bit 32 (apic_base s)) :: u32);
          lo = lo AND NOT APIC_BASE_ENABLE
      in s\<lparr>apic_base := push_bit 32 (ucast hi) OR ucast lo\<rparr>)"

definition arch_init :: "'a arch_scheme \<Rightarrow> 'a arch_scheme" where
  "arch_init s =
     (let s = gdt_init s;
          s = idt_init s;
          s = isr_init s;
          s = lapic_disable s;
          s = pic_remap s
      in irq_init s)"

definition arch_enable_irqs :: "'a arch_scheme \<Rightarrow> 'a arch_scheme" where
  "arch_enable_irqs s =
     (let s = pic_unmask_irq 0 s;
          s = pic_unmask_irq 1 s
      in s\<lparr>if_flag := True\<rparr>)"

subsection \<open>What the controllers make of the bus history\<close>

text \<open>
  One 8259A. Writing a command with bit 4 set starts initialisation: the mask is cleared and the
  next data writes are ICW2, ICW3 (unless bit 1 said single) and ICW4 (if bit 0 asked for it);
  afterwards a data write is the interrupt mask. A command \<open>0x20\<close> is a non-specific end of interrupt.
\<close>

datatype pic_phase = Idle | ICW2 | ICW3 | ICW4

record pic_chip =
  phase :: pic_phase
  icw1 :: u8
  vector_base :: u8
  cascade :: u8
  icw4 :: u8
  imr :: u8
  eois :: nat

definition chip_cmd :: "u8 \<Rightarrow> pic_chip \<Rightarrow> pic_chip" where
  "chip_cmd v c = (if bit v 4 then c\<lparr>phase := ICW2, icw1 := v, imr := 0, icw4 := 0\<rparr>
     else if v = 0x20 then c\<lparr>eois := Suc (eois c)\<rparr> else c)"

definition chip_data :: "u8 \<Rightarrow> pic_chip \<Rightarrow> pic_chip" where
  "chip_data v c = (case phase c of
     Idle \<Rightarrow> c\<lparr>imr := v\<rparr>
   | ICW2 \<Rightarrow> c\<lparr>vector_base := v, phase := if bit (icw1 c) 1 then if bit (icw1 c) 0 then ICW4 else Idle else ICW3\<rparr>
   | ICW3 \<Rightarrow> c\<lparr>cascade := v, phase := if bit (icw1 c) 0 then ICW4 else Idle\<rparr>
   | ICW4 \<Rightarrow> c\<lparr>icw4 := v, phase := Idle\<rparr>)"

fun pic_event :: "io_event \<Rightarrow> pic_chip \<times> pic_chip \<Rightarrow> pic_chip \<times> pic_chip" where
  "pic_event (Inb p v) cc = cc"
| "pic_event (Outb p v) (c1, c2) =
     (if p = 0x20 then (chip_cmd v c1, c2) else if p = 0x21 then (chip_data v c1, c2)
      else if p = 0xA0 then (c1, chip_cmd v c2) else if p = 0xA1 then (c1, chip_data v c2) else (c1, c2))"

definition reset_chip :: pic_chip where
  "reset_chip = \<lparr>phase = Idle, icw1 = 0, vector_base = 8, cascade = 0, icw4 = 0, imr = 0, eois = 0\<rparr>"

definition pic_view :: "io_event list \<Rightarrow> pic_chip \<times> pic_chip" where
  "pic_view tr = foldl (\<lambda>cc e. pic_event e cc) (reset_chip, reset_chip) tr"

lemma pic_view_append: "pic_view (tr @ es) = foldl (\<lambda>cc e. pic_event e cc) (pic_view tr) es"
  by (simp add: pic_view_def)

text \<open>A controller that is not being initialised answers a read of its data port with the mask.\<close>

definition pic_device :: "(io_event list \<Rightarrow> u16 \<Rightarrow> u8) \<Rightarrow> bool" where
  "pic_device dev \<longleftrightarrow> (\<forall>tr. dev tr PIC1_DATA = imr (fst (pic_view tr)) \<and> dev tr PIC2_DATA = imr (snd (pic_view tr)))"

lemmas pic_ports = PIC1_CMD_def PIC1_DATA_def PIC2_CMD_def PIC2_DATA_def ICW1_INIT_def ICW1_ICW4_def ICW4_8086_def PIC_EOI_def

definition remap_events :: "io_event list" where
  "remap_events = [Outb 0x20 0x11, Outb 0x80 0, Outb 0xA0 0x11, Outb 0x80 0, Outb 0x21 0x20, Outb 0x80 0, Outb 0xA1 0x28, Outb 0x80 0,
     Outb 0x21 0x04, Outb 0x80 0, Outb 0xA1 0x02, Outb 0x80 0, Outb 0x21 1, Outb 0x80 0, Outb 0xA1 1, Outb 0x80 0,
     Outb 0x21 0xFF, Outb 0xA1 0xFF]"

lemma pic_remap_trace: "pic_remap s = s\<lparr>io_trace := io_trace s @ remap_events\<rparr>"
  by (simp add: pic_remap_def Let_def outb_def io_wait_def pic_ports remap_events_def)

lemma remap_view:
  "foldl (\<lambda>cc e. pic_event e cc) (c1, c2) remap_events =
     (c1\<lparr>phase := Idle, icw1 := 0x11, vector_base := 0x20, cascade := 4, icw4 := 1, imr := 0xFF\<rparr>,
      c2\<lparr>phase := Idle, icw1 := 0x11, vector_base := 0x28, cascade := 2, icw4 := 1, imr := 0xFF\<rparr>)"
proof -
  have b: "bit (0x11 :: u8) 4" "\<not> bit (0x11 :: u8) (Suc 0)" "bit (0x11 :: u8) 0" by (simp_all add: bit_numeral_rec)
  have s: "chip_cmd 0x11 c = c\<lparr>phase := ICW2, icw1 := 0x11, imr := 0, icw4 := 0\<rparr>" for c by (simp add: chip_cmd_def b)
  have d: "phase c = ICW2 \<Longrightarrow> icw1 c = 0x11 \<Longrightarrow> chip_data v c = c\<lparr>vector_base := v, phase := ICW3\<rparr>"
    "phase c = ICW3 \<Longrightarrow> icw1 c = 0x11 \<Longrightarrow> chip_data v c = c\<lparr>cascade := v, phase := ICW4\<rparr>"
    "phase c = ICW4 \<Longrightarrow> chip_data v c = c\<lparr>icw4 := v, phase := Idle\<rparr>"
    "phase c = Idle \<Longrightarrow> chip_data v c = c\<lparr>imr := v\<rparr>" for c v
    by (simp_all add: chip_data_def b)
  show ?thesis unfolding remap_events_def by (simp add: s d)
qed

lemma eoi_trace:
  "pic_send_eoi irq s = s\<lparr>io_trace := io_trace s @ (if irq \<ge> 8 then [Outb 0xA0 0x20] else []) @ [Outb 0x20 0x20]\<rparr>"
  by (simp add: pic_send_eoi_def outb_def Let_def pic_ports)

lemma eoi_view:
  "foldl (\<lambda>cc e. pic_event e cc) (c1, c2) ((if b then [Outb 0xA0 0x20] else []) @ [Outb 0x20 0x20]) =
     (c1\<lparr>eois := Suc (eois c1)\<rparr>, if b then c2\<lparr>eois := Suc (eois c2)\<rparr> else c2)"
proof -
  have "\<not> bit (0x20 :: u8) 4" by (simp add: bit_numeral_rec)
  then show ?thesis by (simp add: chip_cmd_def)
qed

lemma unmask_bit:
  assumes "irq < 8"
  shows "ucast (push_bit (unat irq) (1 :: u32)) = (push_bit (unat irq) 1 :: u8)"
  using assms by (intro bit_word_eqI) (auto simp: bit_simps word_less_nat_alt)

text \<open>Clearing one mask bit of the chip a line belongs to.\<close>

definition unmask :: "nat \<Rightarrow> pic_chip \<times> pic_chip \<Rightarrow> pic_chip \<times> pic_chip" where
  "unmask irq = (\<lambda>(c1, c2). if irq < 8 then (c1\<lparr>imr := unset_bit irq (imr c1)\<rparr>, c2)
     else (c1, c2\<lparr>imr := unset_bit (irq - 8) (imr c2)\<rparr>))"

lemma unset_bit_and: "unset_bit n (v :: u8) = v AND NOT (push_bit n 1)"
  by (intro bit_word_eqI) (auto simp: bit_simps)

lemma pic_unmask_trace:
  assumes dev: "pic_device (device s)" and irq: "irq < 16"
    and idle: "phase (fst (pic_view (io_trace s))) = Idle" "phase (snd (pic_view (io_trace s))) = Idle"
  shows "\<exists>es. pic_unmask_irq irq s = s\<lparr>io_trace := io_trace s @ es\<rparr> \<and>
    pic_view (io_trace s @ es) = unmask (unat irq) (pic_view (io_trace s))"
proof -
  obtain c1 c2 where v: "pic_view (io_trace s) = (c1, c2)" by fastforce
  let ?port = "if irq < 8 then PIC1_DATA else PIC2_DATA" and ?k = "unat (if irq < 8 then irq else irq - 8)"
  let ?old = "imr (if irq < 8 then c1 else c2)"
  have d: "device s (io_trace s) ?port = ?old" using dev v by (simp add: pic_device_def)
  have k: "(if irq < 8 then irq else irq - 8) < 8" "?k = (if irq < 8 then unat irq else unat irq - 8)"
    using irq by (auto simp: word_less_nat_alt unat_sub word_le_nat_alt not_less)
  have m: "?old AND NOT (ucast (push_bit ?k (1 :: u32))) = unset_bit ?k ?old"
    unfolding unset_bit_and unmask_bit [OF k(1)] ..
  let ?es = "[Inb ?port ?old, Outb ?port (unset_bit ?k ?old)]"
  have "pic_unmask_irq irq s = s\<lparr>io_trace := io_trace s @ ?es\<rparr>"
    using d m by (simp add: pic_unmask_irq_def inb_def outb_def Let_def)
  moreover have "pic_view (io_trace s @ ?es) = unmask (unat irq) (c1, c2)"
    using idle k(2) unfolding pic_view_append v
    by (cases "irq < 8") (auto simp: pic_ports chip_data_def unmask_def word_less_nat_alt)
  ultimately show ?thesis using v by metis
qed

subsection \<open>What a gate points at\<close>

definition gate :: "u64 \<Rightarrow> u8 \<Rightarrow> idt_entry" where
  "gate addr flags = \<lparr>offset_low = ucast (addr AND 0xFFFF), selector = GDT_KERNEL_CODE_SELECTOR, ist = 0, type_attr = flags,
     offset_mid = ucast (drop_bit 16 addr AND 0xFFFF), offset_high = ucast (drop_bit 32 addr), zero_field = 0\<rparr>"

text \<open>The CPU's view of an entry: the handler's address put together again, the present bit.\<close>

definition gate_target :: "idt_entry \<Rightarrow> u64" where
  "gate_target e = ucast (offset_low e) OR push_bit 16 (ucast (offset_mid e)) OR push_bit 32 (ucast (offset_high e))"

definition gate_present :: "idt_entry \<Rightarrow> bool" where
  "gate_present e \<longleftrightarrow> bit (type_attr e) 7"

lemma gate_target_gate: "gate_target (gate addr flags) = addr"
proof -
  have m: "(0xFFFF :: u64) = mask 16" by (simp add: mask_eq_exp_minus_1)
  show ?thesis
    unfolding gate_target_def gate_def idt_entry.simps m
  proof (rule bit_word_eqI)
    fix n assume "n < LENGTH(64)"
    then show "bit (ucast (ucast (addr AND mask 16) :: u16) OR push_bit 16 (ucast (ucast (drop_bit 16 addr AND mask 16) :: u16)) OR
        push_bit 32 (ucast (ucast (drop_bit 32 addr) :: u32)) :: u64) n = bit addr n"
      by (cases "n < 32") (auto simp: bit_simps)
  qed
qed

lemma set_gates:
  assumes "b + n \<le> 256" and "\<And>t s. tab (s\<lparr>idt := t\<rparr>) = tab s"
  shows "fold (\<lambda>v s. idt_set_gate (of_nat (b + v)) (tab s ! v) fl s) [0..<n] s =
    s\<lparr>idt := map (\<lambda>k. if b \<le> k \<and> k < b + n then gate (tab s ! (k - b)) fl else idt s ! k) [0..<length (idt s)]\<rparr>"
  using assms(1)
proof (induction n)
  case 0
  have "map ((!) (idt s)) [0..<length (idt s)] = idt s" by (rule map_nth)
  moreover have "(\<lambda>k. if b \<le> k \<and> k < b + 0 then gate (tab s ! (k - b)) fl else idt s ! k) = (!) (idt s)" by (rule ext) auto
  ultimately show ?case by simp
next
  case (Suc n)
  have u: "unat (of_nat (b + n) :: u8) = b + n" using Suc.prems by (simp only: unat_of_nat) simp
  define T where "T k = map (\<lambda>j. if b \<le> j \<and> j < b + k then gate (tab s ! (j - b)) fl else idt s ! j) [0..<length (idt s)]" for k
  have step: "(T n)[b + n := gate (tab s ! n) fl] = T (Suc n)"
  proof (rule nth_equalityI)
    fix i assume "i < length ((T n)[b + n := gate (tab s ! n) fl])"
    then show "(T n)[b + n := gate (tab s ! n) fl] ! i = T (Suc n) ! i" by (cases "i = b + n") (auto simp: T_def)
  qed (simp add: T_def)
  have "fold (\<lambda>v s. idt_set_gate (of_nat (b + v)) (tab s ! v) fl s) [0..<Suc n] s =
      idt_set_gate (of_nat (b + n)) (tab s ! n) fl (s\<lparr>idt := T n\<rparr>)"
    using Suc by (simp add: T_def assms(2))
  also have "\<dots> = s\<lparr>idt := T (Suc n)\<rparr>"
    unfolding idt_set_gate_def u gate_def [symmetric] by (simp add: step)
  finally show ?case by (simp only: T_def)
qed

lemma isr_init_gates:
  "isr_init s = s\<lparr>idt := map (\<lambda>k. if k < 32 then gate (isr_stub_table s ! k) IDT_GATE_INTERRUPT else idt s ! k) [0..<length (idt s)]\<rparr>"
  using set_gates [of 0 32 isr_stub_table IDT_GATE_INTERRUPT s] by (simp add: isr_init_def)

lemma irq_init_gates:
  "irq_init s = s\<lparr>idt := map (\<lambda>k. if 32 \<le> k \<and> k < 48 then gate (irq_stub_table s ! (k - 32)) IDT_GATE_INTERRUPT else idt s ! k)
     [0..<length (idt s)]\<rparr>"
  using set_gates [of 32 16 irq_stub_table IDT_GATE_INTERRUPT s] by (simp add: irq_init_def)

text \<open>The tables as the linker places them: zero-filled static memory, one stub per vector.\<close>

definition arch_cold :: "'a arch_scheme \<Rightarrow> bool" where
  "arch_cold s \<longleftrightarrow> length (gdt s) = 3 \<and> length (idt s) = 256 \<and> (\<forall>e \<in> set (idt s). type_attr e = 0) \<and>
     handlers s = replicate 16 None"

text \<open>A flat 64-bit ring-0 segment: present, not a system segment, and, for code, executable in long mode.\<close>

definition long_code_segment :: "u64 \<Rightarrow> bool" where
  "long_code_segment d \<longleftrightarrow> bit d 47 \<and> \<not> bit d 46 \<and> \<not> bit d 45 \<and> bit d 44 \<and> bit d 43 \<and> bit d 53 \<and> \<not> bit d 54"

definition writable_data_segment :: "u64 \<Rightarrow> bool" where
  "writable_data_segment d \<longleftrightarrow> bit d 47 \<and> \<not> bit d 46 \<and> \<not> bit d 45 \<and> bit d 44 \<and> \<not> bit d 43 \<and> bit d 41"

lemma descriptors:
  "long_code_segment (gdt_descriptor 0x9A 0xA)" "writable_data_segment (gdt_descriptor 0x92 0xA)"
  by (simp_all add: long_code_segment_def writable_data_segment_def gdt_descriptor_def bit_simps bit_numeral_rec)

lemma lapic_disable_bit: "apic_base (lapic_disable s) = unset_bit 11 (apic_base s)"
proof (rule bit_word_eqI)
  have e: "bit APIC_BASE_ENABLE n \<longleftrightarrow> n = 11" for n
    unfolding APIC_BASE_ENABLE_def by (auto simp only: bit_push_bit_iff bit_1_iff) (auto simp: bit_simps)
  fix n assume "n < LENGTH(64)"
  then show "bit (apic_base (lapic_disable s)) n = bit (unset_bit 11 (apic_base s)) n"
    by (cases "n < 32") (auto simp: lapic_disable_def Let_def e bit_simps)
qed

lemma gdt_init_fields:
  "cpu_gdtr (gdt_init s) = (23, gdt_addr s)" "seg_cs (gdt_init s) = 8" "seg_ds (gdt_init s) = 16" "seg_es (gdt_init s) = 16"
  "seg_ss (gdt_init s) = 16" "seg_fs (gdt_init s) = 16" "seg_gs (gdt_init s) = 16" "idt (gdt_init s) = idt s"
  "handlers (gdt_init s) = handlers s" "io_trace (gdt_init s) = io_trace s" "apic_base (gdt_init s) = apic_base s"
  "if_flag (gdt_init s) = if_flag s" "isr_stub_table (gdt_init s) = isr_stub_table s" "irq_stub_table (gdt_init s) = irq_stub_table s"
  "idt_addr (gdt_init s) = idt_addr s"
proof -
  have "load64 (store64 m (r - 16) l) (r - 8) = load64 m (r - 8)" for m r l
    unfolding load64_def store64_def by (rule load_store_apart) simp_all
  then show "seg_cs (gdt_init s) = 8"
    by (simp add: gdt_init_def gdt_load_def Let_def put64_def GDT_KERNEL_CODE_SELECTOR_def)
qed (simp_all add: gdt_init_def gdt_load_def Let_def put64_def GDT_KERNEL_DATA_SELECTOR_def)

lemma gdt_init_table: "length (gdt s) = 3 \<Longrightarrow> gdt (gdt_init s) = [0, gdt_descriptor 0x9A 0xA, gdt_descriptor 0x92 0xA]"
  by (auto simp: gdt_init_def gdt_load_def Let_def put64_def numeral_3_eq_3 length_Suc_conv)

text \<open>What bringing the layer up leaves alone: in memory, all but the two words the far return uses.\<close>

lemma gdt_load_mem: "16 \<le> unat (x - (rsp s - 16)) \<Longrightarrow> mem (gdt_init s) x = mem s x"
proof -
  assume x: "16 \<le> unat (x - (rsp s - 16))"
  have "\<not> unat (x - (rsp s - 16)) < 8" using x by simp
  moreover have "\<not> unat (x - (rsp s - 8)) < 8"
  proof
    assume a: "unat (x - (rsp s - 8)) < 8"
    have "unat (x - (rsp s - 8) + 8) = unat (x - (rsp s - 8)) + 8" using a by (subst unat_add_exact) simp_all
    moreover have "x - (rsp s - 8) + 8 = x - (rsp s - 16)" by simp
    ultimately have "unat (x - (rsp s - 16)) < 16" using a by (simp only:)
    then show False using x by simp
  qed
  ultimately show ?thesis
    by (simp add: gdt_init_def gdt_load_def Let_def put64_def store64_def store_le_other)
qed

lemmas arch_init_unfold = arch_init_def Let_def irq_init_gates pic_remap_trace lapic_disable_def isr_init_gates idt_init_def

lemma arch_init_keeps:
  "io_trace (arch_init s) = io_trace s @ remap_events" "device (arch_init s) = device s" "rsp (arch_init s) = rsp s"
  "handlers (arch_init s) = handlers s" "if_flag (arch_init s) = if_flag s" "arch.more (arch_init s) = arch.more s"
  "mem (arch_init s) = mem (gdt_init s)" "caches_addr (arch_init s) = caches_addr s"
  by (simp_all add: arch_init_unfold gdt_init_def gdt_load_def put64_def)

lemma serial_only_pic:
  assumes "serial_only tr tr'"
  shows "pic_view tr' = pic_view tr"
proof -
  have quiet: "foldl (\<lambda>cc e. pic_event e cc) v es = v" if "list_all (\<lambda>e. case e of Inb p x \<Rightarrow> True | Outb p x \<Rightarrow> p = COM1) es" for v es
    using that by (induction es arbitrary: v) (auto simp: COM1_def split: io_event.splits)
  obtain cs bs where "tr' = tr @ concat bs" and bs: "list_all2 burst cs bs" using assms by (auto simp: serial_only_def)
  moreover have "list_all (\<lambda>e. case e of Inb p x \<Rightarrow> True | Outb p x \<Rightarrow> p = COM1) (concat bs)"
    using bs by (induction rule: list_all2_induct) (fastforce simp: burst_def busy_poll_def list_all_iff)+
  ultimately show ?thesis by (simp add: pic_view_append quiet)
qed

subsection \<open>The properties of the x86_64 layer\<close>

definition cold_arch :: arch where
  "cold_arch = \<lparr>mem = (\<lambda>_. 0), io_trace = [], device = (\<lambda>tr p. if p = PIC1_DATA then imr (fst (pic_view tr)) else imr (snd (pic_view tr))),
     cr2 = 0, cr3 = 0, rsp = 0xffffffff80021000,
     tlb_flushes = [], bitmap = 0, bitmap_bytes = 0, total_frames = 0, usable_frames = 0,
     free_frames = 0, next_hint = 0, paging_hhdm = 0, kernel_pml4 = 0, free_list = replicate 11 0,
     free_count = replicate 11 0, buddy_hhdm = 0, caches = [], slab_hhdm = 0, caches_addr = 0xffffffff80010000,
     gdt = [0, 0, 0], gdtr_limit = 0, gdtr_base = 0,
     idt = replicate 256 \<lparr>offset_low = 0, selector = 0, ist = 0, type_attr = 0, offset_mid = 0, offset_high = 0, zero_field = 0\<rparr>,
     idtr_limit = 0, idtr_base = 0, cpu_gdtr = (0, 0), cpu_idtr = (0, 0), seg_cs = 0x28, seg_ds = 0x30, seg_es = 0x30, seg_ss = 0x30,
     seg_fs = 0x30, seg_gs = 0x30, apic_base = 0xfee00900, if_flag = False, handlers = replicate 16 None,
     isr_stub_table = map (\<lambda>i. 0xffffffff80001000 + of_nat i * 16) [0..<32],
     irq_stub_table = map (\<lambda>i. 0xffffffff80002000 + of_nat i * 16) [0..<16],
     gdt_addr = 0xffffffff80011000, idt_addr = 0xffffffff80012000, gdt_label = 0xffffffff80003000\<rparr>"

lemma cold_arch_cold: "arch_cold cold_arch" and cold_arch_device: "pic_device (device cold_arch)"
  by (simp_all add: arch_cold_def cold_arch_def pic_device_def pic_ports)

text \<open>C21 (functional): after \<open>arch_init\<close> every exception and every hardware interrupt has a present
  gate through the kernel code segment whose three offset fields make up its stub's address, and the
  vectors from 48 on have none; the tables are the ones the CPU uses, with a 64-bit code segment and a
  writable data segment loaded in all segment registers; the controllers are initialised with the lines at vectors
  32 to 47, cascaded on line 2, and every line masked; the local APIC's enable bit, and no other, is
  cleared; interrupts are not enabled.\<close>

theorem arch_init_correct:
  assumes "arch_cold s"
  defines "s' \<equiv> arch_init s"
  shows "(\<forall>v < 48. let e = idt s' ! v in gate_present e \<and> selector e = GDT_KERNEL_CODE_SELECTOR \<and> ist e = 0 \<and>
        gate_target e = (if v < 32 then isr_stub_table s ! v else irq_stub_table s ! (v - 32))) \<and>
    (\<forall>v. 48 \<le> v \<and> v < 256 \<longrightarrow> \<not> gate_present (idt s' ! v)) \<and>
    cpu_idtr s' = (4095, idt_addr s) \<and> cpu_gdtr s' = (23, gdt_addr s) \<and>
    gdt s' ! 0 = 0 \<and> long_code_segment (gdt s' ! 1) \<and> writable_data_segment (gdt s' ! 2) \<and>
    seg_cs s' = 8 \<and> seg_ds s' = 16 \<and> seg_es s' = 16 \<and> seg_ss s' = 16 \<and> seg_fs s' = 16 \<and> seg_gs s' = 16 \<and>
    (let (c1, c2) = pic_view (io_trace s') in phase c1 = Idle \<and> phase c2 = Idle \<and> vector_base c1 = 32 \<and> vector_base c2 = 40 \<and>
       cascade c1 = 4 \<and> cascade c2 = 2 \<and> imr c1 = 0xFF \<and> imr c2 = 0xFF) \<and>
    apic_base s' = unset_bit 11 (apic_base s) \<and> if_flag s' = if_flag s \<and> handlers s' = handlers s"
proof -
  define s1 where "s1 = idt_init (gdt_init s)"
  define s2 where "s2 = pic_remap (lapic_disable (isr_init s1))"
  note g = gdt_init_fields [of s]
  have len: "length (gdt s) = 3" "length (idt s) = 256" "\<And>v. v < 256 \<Longrightarrow> type_attr (idt s ! v) = 0"
    using assms(1) by (auto simp: arch_cold_def)
  have f1: "idt s1 = idt s" "isr_stub_table s1 = isr_stub_table s" "irq_stub_table s1 = irq_stub_table s" "gdt s1 = gdt (gdt_init s)"
    "cpu_gdtr s1 = (23, gdt_addr s)" "cpu_idtr s1 = (4095, idt_addr s)" "io_trace s1 = io_trace s" "apic_base s1 = apic_base s"
    "if_flag s1 = if_flag s" "handlers s1 = handlers s" "seg_cs s1 = 8" "seg_ds s1 = 16" "seg_es s1 = 16" "seg_ss s1 = 16" "seg_fs s1 = 16" "seg_gs s1 = 16"
    using g by (simp_all add: s1_def idt_init_def Let_def)
  have s2: "s2 = (isr_init s1)\<lparr>apic_base := unset_bit 11 (apic_base s), io_trace := io_trace s @ remap_events\<rparr>"
    using lapic_disable_bit [of "isr_init s1"] f1
    by (intro arch.equality) (simp_all add: s2_def pic_remap_trace lapic_disable_def isr_init_gates Let_def)
  have s': "s' = irq_init s2" by (simp add: s'_def arch_init_def Let_def s2_def s1_def)
  have idt: "idt s' ! v = (if v < 32 then gate (isr_stub_table s ! v) IDT_GATE_INTERRUPT
      else if v < 48 then gate (irq_stub_table s ! (v - 32)) IDT_GATE_INTERRUPT else idt s ! v)" if "v < 256" for v
    using that len(2) f1 by (simp add: s' irq_init_gates s2 isr_init_gates)
  have pr: "gate_present (gate a IDT_GATE_INTERRUPT)" for a by (simp add: gate_present_def gate_def IDT_GATE_INTERRUPT_def bit_numeral_rec)
  have sel: "selector (gate a fl) = GDT_KERNEL_CODE_SELECTOR" "ist (gate a fl) = 0" for a fl by (simp_all add: gate_def)
  have f: "gdt s' = gdt (gdt_init s)" "cpu_gdtr s' = (23, gdt_addr s)" "cpu_idtr s' = (4095, idt_addr s)"
    "io_trace s' = io_trace s @ remap_events" "apic_base s' = unset_bit 11 (apic_base s)" "if_flag s' = if_flag s" "handlers s' = handlers s"
    "seg_cs s' = 8" "seg_ds s' = 16" "seg_es s' = 16" "seg_ss s' = 16" "seg_fs s' = 16" "seg_gs s' = 16"
    using f1 by (simp_all add: s' irq_init_gates s2 isr_init_gates)
  obtain c1 c2 where v: "pic_view (io_trace s) = (c1, c2)" by fastforce
  have view: "pic_view (io_trace s') = (c1\<lparr>phase := Idle, icw1 := 0x11, vector_base := 0x20, cascade := 4, icw4 := 1, imr := 0xFF\<rparr>,
      c2\<lparr>phase := Idle, icw1 := 0x11, vector_base := 0x28, cascade := 2, icw4 := 1, imr := 0xFF\<rparr>)"
    unfolding f pic_view_append v by (rule remap_view)
  have none: "\<not> gate_present (idt s' ! v)" if "48 \<le> v" "v < 256" for v
    using that idt [of v] len(3) [of v] by (simp add: gate_present_def)
  show ?thesis
    using f gdt_init_table [OF len(1)] descriptors none by (simp add: view view [unfolded f(4)] idt pr sel gate_target_gate Let_def)
qed

theorem arch_init_correct_witness:
  "let s' = arch_init cold_arch in gate_target (idt s' ! 33) = 0xffffffff80002010 \<and> \<not> gate_present (idt s' ! 200) \<and>
     imr (fst (pic_view (io_trace s'))) = 0xFF \<and> apic_base s' = 0xfee00100"
proof -
  note c = arch_init_correct [OF cold_arch_cold]
  have "unset_bit 11 (0xfee00900 :: u64) = 0xfee00100" by (simp add: unset_bit_eq_and_not)
  then have "apic_base (arch_init cold_arch) = 0xfee00100" using c by (simp add: cold_arch_def)
  moreover have "gate_target (idt (arch_init cold_arch) ! 33) = irq_stub_table cold_arch ! 1" using c by (simp add: Let_def)
  moreover have "irq_stub_table cold_arch ! 1 = 0xffffffff80002010" by (simp add: cold_arch_def)
  ultimately show ?thesis using c by (simp add: Let_def case_prod_beta)
qed

lemma irq_dispatch_run:
  assumes "f_vector (mem s) f = of_nat (32 + n)" and "n < 16"
    and "case handlers s ! n of None \<Rightarrow> t = s | Some g \<Rightarrow> run g s = Some t"
  shows "irq_dispatch run f s = Some (pic_send_eoi (of_nat n) t)"
proof -
  have "f_vector (mem s) f - of_nat IRQ_VECTOR_BASE = of_nat n" by (simp add: assms(1))
  then have "(ucast (f_vector (mem s) f - of_nat IRQ_VECTOR_BASE) :: u8) = of_nat n" using assms(2) by (simp add: word_unat_eq_iff unsigned_ucast_eq take_bit_nat_def unat_of_nat)
  moreover have "unat (of_nat n :: u8) = n" using assms(2) by (simp add: unat_of_nat)
  ultimately show ?thesis using assms(2,3) by (auto simp: irq_dispatch_def Let_def split: option.splits)
qed

lemma eoi_sent:
  assumes "n < 16" and "pic_view (io_trace t) = (c1, c2)"
  shows "\<exists>es. pic_send_eoi (of_nat n) t = t\<lparr>io_trace := io_trace t @ es\<rparr> \<and> es = (if 8 \<le> n then [Outb 0xA0 0x20] else []) @ [Outb 0x20 0x20] \<and>
    pic_view (io_trace t @ es) = (c1\<lparr>eois := Suc (eois c1)\<rparr>, if 8 \<le> n then c2\<lparr>eois := Suc (eois c2)\<rparr> else c2)"
proof -
  have "8 \<le> (of_nat n :: u8) \<longleftrightarrow> 8 \<le> n" using assms(1) by (simp add: word_le_nat_alt unat_of_nat)
  then have "pic_send_eoi (of_nat n) t = t\<lparr>io_trace := io_trace t @ (if 8 \<le> n then [Outb 0xA0 0x20] else []) @ [Outb 0x20 0x20]\<rparr>"
    unfolding eoi_trace by simp
  moreover have "pic_view (io_trace t @ (if 8 \<le> n then [Outb 0xA0 0x20] else []) @ [Outb 0x20 0x20]) =
      (c1\<lparr>eois := Suc (eois c1)\<rparr>, if 8 \<le> n then c2\<lparr>eois := Suc (eois c2)\<rparr> else c2)"
    unfolding pic_view_append assms(2) by (rule eoi_view)
  ultimately show ?thesis by blast
qed

text \<open>C22 (functional): an interrupt on line \<open>n\<close> runs that line's handler, if one is installed, and nothing
  else, and is then acknowledged: the master controller gets one end-of-interrupt, the slave one exactly
  for the lines it raised, also when no handler is installed.\<close>

theorem irq_dispatch_correct:
  assumes "f_vector (mem s) f = of_nat (32 + n)" and "n < 16"
    and "case handlers s ! n of None \<Rightarrow> t = s | Some g \<Rightarrow> run g s = Some t"
  shows "\<exists>u. irq_dispatch run f s = Some u \<and> u = t\<lparr>io_trace := io_trace u\<rparr> \<and>
    (let (c1, c2) = pic_view (io_trace t)
     in pic_view (io_trace u) = (c1\<lparr>eois := Suc (eois c1)\<rparr>, if 8 \<le> n then c2\<lparr>eois := Suc (eois c2)\<rparr> else c2))"
proof -
  obtain c1 c2 where v: "pic_view (io_trace t) = (c1, c2)" by fastforce
  show ?thesis using irq_dispatch_run [where run = run, OF assms] eoi_sent [OF assms(2) v] v by auto
qed

theorem irq_dispatch_correct_witness:
  "\<exists>u. irq_dispatch (\<lambda>g s. Some s) 0x1000 (cold_arch\<lparr>mem := store64 (\<lambda>_. 0) (0x1000 + 120) 44\<rparr>) = Some u \<and>
     eois (fst (pic_view (io_trace u))) = 1 \<and> eois (snd (pic_view (io_trace u))) = 1"
proof -
  let ?s = "cold_arch\<lparr>mem := store64 (\<lambda>_. 0) (0x1000 + 120) 44\<rparr>"
  have v: "f_vector (mem ?s) 0x1000 = of_nat (32 + 12)" by (simp add: f_vector_def)
  have h: "case handlers ?s ! 12 of None \<Rightarrow> ?s = ?s | Some g \<Rightarrow> (\<lambda>g s. Some s) g ?s = Some ?s" by (simp add: cold_arch_def)
  have e: "pic_view (io_trace cold_arch) = (reset_chip, reset_chip)" by (simp add: cold_arch_def pic_view_def)
  show ?thesis using irq_dispatch_correct [where run = "\<lambda>g s. Some s" and n = 12 and t = ?s, OF v _ h] by (auto simp: e reset_chip_def)
qed

lemma arch_enable_spec:
  assumes "pic_device (device s)" and "phase (fst (pic_view (io_trace s))) = Idle" and "phase (snd (pic_view (io_trace s))) = Idle"
  shows "\<exists>es. arch_enable_irqs s = s\<lparr>io_trace := io_trace s @ es, if_flag := True\<rparr> \<and>
    (let (c1, c2) = pic_view (io_trace s); (d1, d2) = pic_view (io_trace s @ es)
     in d1 = c1\<lparr>imr := imr c1 AND 0xFC\<rparr> \<and> d2 = c2)"
proof -
  obtain c1 c2 where v: "pic_view (io_trace s) = (c1, c2)" by fastforce
  obtain e1 where e1: "pic_unmask_irq 0 s = s\<lparr>io_trace := io_trace s @ e1\<rparr>" "pic_view (io_trace s @ e1) = unmask 0 (c1, c2)"
    using pic_unmask_trace [OF assms(1) _ assms(2,3), of 0] v by auto
  define s1 where "s1 = s\<lparr>io_trace := io_trace s @ e1\<rparr>"
  have "pic_device (device s1)" "phase (fst (pic_view (io_trace s1))) = Idle" "phase (snd (pic_view (io_trace s1))) = Idle"
    using assms e1(2) v by (simp_all add: s1_def unmask_def)
  from pic_unmask_trace [OF this(1) _ this(2,3), of 1] obtain e2 where e2: "pic_unmask_irq 1 s1 = s1\<lparr>io_trace := io_trace s1 @ e2\<rparr>"
    "pic_view (io_trace s1 @ e2) = unmask 1 (unmask 0 (c1, c2))"
    using e1(2) by (auto simp: s1_def)
  have m: "unset_bit (Suc 0) (unset_bit 0 x) = x AND 0xFC" for x :: u8
  proof -
    have "NOT (push_bit 0 1) AND NOT (push_bit (Suc 0) 1) = (0xFC :: u8)" by (simp add: push_bit_eq_mult)
    then show ?thesis unfolding unset_bit_and by (simp only: and.assoc)
  qed
  have "arch_enable_irqs s = s\<lparr>io_trace := io_trace s @ e1 @ e2, if_flag := True\<rparr>"
    using e1(1) e2(1) by (simp add: arch_enable_irqs_def Let_def s1_def)
  moreover have "pic_view (io_trace s @ e1 @ e2) = (c1\<lparr>imr := imr c1 AND 0xFC\<rparr>, c2)"
    using e2(2) by (simp add: s1_def unmask_def m)
  ultimately show ?thesis using v by auto
qed

text \<open>\<open>arch_enable_irqs\<close> clears the mask bits of the timer's and the keyboard's line and no
  other, reading the masks back from the controllers, and then, last, enables interrupts.\<close>

theorem arch_enable_irqs_correct:
  assumes "pic_device (device s)" and "phase (fst (pic_view (io_trace s))) = Idle" and "phase (snd (pic_view (io_trace s))) = Idle"
  shows "\<exists>es. arch_enable_irqs s = s\<lparr>io_trace := io_trace s @ es, if_flag := True\<rparr> \<and>
    (let (c1, c2) = pic_view (io_trace s); (d1, d2) = pic_view (io_trace s @ es)
     in d1 = c1\<lparr>imr := imr c1 AND 0xFC\<rparr> \<and> d2 = c2)"
  by (rule arch_enable_spec [OF assms])

theorem arch_enable_irqs_correct_witness:
  "\<exists>s. s = arch_enable_irqs (arch_init cold_arch) \<and> if_flag s \<and> imr (fst (pic_view (io_trace s))) = 0xFC \<and>
     imr (snd (pic_view (io_trace s))) = 0xFF"
proof -
  let ?s = "arch_init cold_arch"
  have t: "io_trace ?s = remap_events" "device ?s = device cold_arch"
    by (simp_all add: arch_init_def Let_def irq_init_gates pic_remap_trace lapic_disable_def isr_init_gates idt_init_def gdt_init_def
        gdt_load_def put64_def cold_arch_def)
  have v: "pic_view (io_trace ?s) = (reset_chip\<lparr>phase := Idle, icw1 := 0x11, vector_base := 0x20, cascade := 4, icw4 := 1, imr := 0xFF\<rparr>,
      reset_chip\<lparr>phase := Idle, icw1 := 0x11, vector_base := 0x28, cascade := 2, icw4 := 1, imr := 0xFF\<rparr>)"
    unfolding t pic_view_def by (rule remap_view)
  have "pic_device (device ?s)" using cold_arch_device t(2) by simp
  from arch_enable_irqs_correct [OF this] v show ?thesis by auto
qed

end
