(* ===== verification/Print.thy ===== *)
theory Print
  imports Serial
begin

text \<open>
  Sequences of prints. \<open>f\<close> \<open>prints\<close> a text when, on a live UART, it returns having sent exactly that
  text and changed nothing else; the reports of \<^verbatim>\<open>isr.c\<close>, \<^verbatim>\<open>timer.c\<close> and \<^verbatim>\<open>kernel.c\<close> are sequences of
  such operations, and what they print is read off by composition.
\<close>

definition nl :: string where "nl = [CHR 0x0A]"

fun run_all :: "('s \<Rightarrow> 's option) list \<Rightarrow> 's \<Rightarrow> 's option" where
  "run_all [] s = Some s"
| "run_all (f # fs) s = Option.bind (f s) (run_all fs)"

definition prints :: "('a machine_scheme \<Rightarrow> 'a machine_scheme option) \<Rightarrow> string \<Rightarrow> bool" where
  "prints f txt \<longleftrightarrow> (\<forall>s. uart_live (device s) \<longrightarrow> (\<exists>s'. f s = Some s' \<and> sends txt s s'))"

named_theorems prints_intros

text \<open>The decimal and the fixed-width hexadecimal text of a number.\<close>

definition dec_text :: "u64 \<Rightarrow> string" where "dec_text v = (if v = 0 then ''0'' else rev (dec_digits v))"
definition hex64_text :: "u64 \<Rightarrow> string" where "hex64_text v = ''0x'' @ hex64_digits 16 v []"

lemma prints_write [prints_intros]: "prints (serial_write cs) (crlf cs)"
  unfolding prints_def using serial_write_sends by blast

lemma prints_putc [prints_intros]: "prints (serial_putc c) [c]"
  unfolding prints_def using serial_putc_sends by blast

lemma prints_dec [prints_intros]: "prints (put_dec v) (dec_text v)"
  unfolding prints_def put_dec_def dec_text_def using serial_putc_sends putc_all_sends by (auto simp del: putc_all.simps)

lemma prints_hex64 [prints_intros]: "prints (put_hex64 v) (hex64_text v)"
  unfolding prints_def put_hex64_def hex64_text_def using putc_all_sends [of _ "CHR 0x30 # CHR ''x'' # hex64_digits 16 v []"] by (simp only: append.simps) blast

lemma prints_skip [prints_intros]: "prints Some []"
  by (simp add: prints_def)

lemma prints_nil [prints_intros]: "prints (run_all []) []"
  by (simp add: prints_def)

lemma prints_cons [prints_intros]:
  assumes "prints f x" and "prints (run_all fs) y"
  shows "prints (run_all (f # fs)) (x @ y)"
  unfolding prints_def
proof (intro allI impI)
  fix s :: "'a machine_scheme" assume u: "uart_live (device s)"
  obtain t where t: "f s = Some t" "sends x s t" using assms(1) u unfolding prints_def by blast
  then have "uart_live (device t)" using u by simp
  then obtain v where "run_all fs t = Some v" "sends y t v" using assms(2) unfolding prints_def by blast
  then show "\<exists>s'. run_all (f # fs) s = Some s' \<and> sends (x @ y) s s'" using t sends_append [OF t(2)] by auto
qed

lemma printsD: "prints f x \<Longrightarrow> uart_live (device s) \<Longrightarrow> \<exists>s'. f s = Some s' \<and> sends x s s'"
  by (simp add: prints_def)

lemma run_all_append: "run_all (fs @ gs) s = Option.bind (run_all fs s) (run_all gs)"
  by (induction fs arbitrary: s) (auto split: bind_split)

text \<open>An operation whose text depends on a part of the state that printing leaves alone.\<close>

lemma prints_middle:
  assumes "prints (run_all fs) x" and "\<And>t. sends x s t \<Longrightarrow> g t = h t" and "prints h y" and "prints (run_all gs) z" and "uart_live (device s)"
  shows "\<exists>s'. run_all (fs @ g # gs) s = Some s' \<and> sends (x @ y @ z) s s'"
proof -
  obtain t where t: "run_all fs s = Some t" "sends x s t" using printsD [OF assms(1,5)] by blast
  have "prints (run_all (h # gs)) (y @ z)" using assms(3,4) by (rule prints_cons)
  moreover have "uart_live (device t)" using t(2) assms(5) by simp
  ultimately obtain s' where "run_all (h # gs) t = Some s'" "sends (y @ z) t s'" using printsD by blast
  then show ?thesis using t assms(2) [OF t(2)] sends_append [OF t(2)] by (auto simp: run_all_append)
qed

lemma prints_if [prints_intros]: "prints f x \<Longrightarrow> prints g y \<Longrightarrow> prints (if b then f else g) (if b then x else y)"
  by simp

lemma prints_cong: "prints f x \<Longrightarrow> x = y \<Longrightarrow> prints f y" by simp

subsection \<open>Line ends\<close>

lemma crlf_append [simp]: "crlf (x @ y) = crlf x @ crlf y"
  by (induction x) auto

lemma crlf_id: "CHR 0x0A \<notin> set x \<Longrightarrow> crlf x = x"
  by (induction x) auto

lemma digit_not_nl: "unat d < 10 \<Longrightarrow> digit_char d \<noteq> CHR 0x0A"
proof -
  assume d: "unat d < 10"
  then have "unat (0x30 + d) = 48 + unat d" by (subst unat_add_exact) simp_all
  then have "of_char (digit_char d) = 48 + unat d" using d by (simp add: digit_char_def)
  then show ?thesis by auto
qed

lemma dec_digits_no_nl: "CHR 0x0A \<notin> set (dec_digits v)"
proof (induction v rule: dec_digits.induct)
  case (1 v)
  have "unat (v mod 10) < 10" by (simp add: unat_mod)
  then show ?case using 1 digit_not_nl [of "v mod 10"] by (subst dec_digits.simps) auto
qed

lemma hex64_digits_no_nl: "CHR 0x0A \<notin> set buf \<Longrightarrow> CHR 0x0A \<notin> set (hex64_digits i v buf)"
proof (induction i arbitrary: v buf)
  case (Suc i)
  have "unat (v AND 0xF) < length ''0123456789abcdef''" by (simp add: nibble_mod)
  then have "''0123456789abcdef'' ! unat (v AND 0xF) \<in> set ''0123456789abcdef''" by (rule nth_mem)
  then have "''0123456789abcdef'' ! unat (v AND 0xF) \<noteq> CHR 0x0A" by auto
  then show ?case using Suc by simp
qed simp

lemma crlf_numbers [simp]: "crlf (dec_text v) = dec_text v" "crlf (hex64_text v) = hex64_text v"
  using dec_digits_no_nl [of v] hex64_digits_no_nl [of "[]" 16 v]
  by (auto simp: dec_text_def hex64_text_def crlf_id simp del: crlf.simps)

lemma crlf_nl: "crlf nl = [CHR 0x0D, CHR 0x0A]"
  by (simp add: nl_def)

end
