(* ===== verification/Isr.thy ===== *)
theory Isr
  imports Arch Print
begin

text \<open>
  The crash screen of \<^verbatim>\<open>arch/x86_64/isr.c\<close>: every CPU exception ends here, with a report on the serial
  line and a halted machine.
\<close>

subsection \<open>The frame\<close>

text \<open>\<^verbatim>\<open>struct interrupt_frame\<close>, packed: twenty-two 64-bit words from the address the stub passes.\<close>

record interrupt_frame =
  i_rax :: u64
  i_rbx :: u64
  i_rcx :: u64
  i_rdx :: u64
  i_rsi :: u64
  i_rdi :: u64
  i_rbp :: u64
  i_r8 :: u64
  i_r9 :: u64
  i_r10 :: u64
  i_r11 :: u64
  i_r12 :: u64
  i_r13 :: u64
  i_r14 :: u64
  i_r15 :: u64
  i_vector :: u64
  i_error_code :: u64
  i_rip :: u64
  i_cs :: u64
  i_rflags :: u64
  i_rsp :: u64
  i_ss :: u64

definition read_frame :: "memory \<Rightarrow> u64 \<Rightarrow> interrupt_frame" where
  "read_frame m f = \<lparr>i_rax = load64 m f, i_rbx = load64 m (f + 8), i_rcx = load64 m (f + 16), i_rdx = load64 m (f + 24),
     i_rsi = load64 m (f + 32), i_rdi = load64 m (f + 40), i_rbp = load64 m (f + 48), i_r8 = load64 m (f + 56),
     i_r9 = load64 m (f + 64), i_r10 = load64 m (f + 72), i_r11 = load64 m (f + 80), i_r12 = load64 m (f + 88),
     i_r13 = load64 m (f + 96), i_r14 = load64 m (f + 104), i_r15 = load64 m (f + 112), i_vector = load64 m (f + 120),
     i_error_code = load64 m (f + 128), i_rip = load64 m (f + 136), i_cs = load64 m (f + 144), i_rflags = load64 m (f + 152),
     i_rsp = load64 m (f + 160), i_ss = load64 m (f + 168)\<rparr>"

definition exception_names :: "string list" where
  "exception_names = [
    ''#DE Divide Error'',
    ''#DB Debug'',
    ''NMI Non-Maskable Interrupt'',
    ''#BP Breakpoint'',
    ''#OF Overflow'',
    ''#BR BOUND Range Exceeded'',
    ''#UD Invalid Opcode'',
    ''#NM Device Not Available'',
    ''#DF Double Fault'',
    ''Coprocessor Segment Overrun'',
    ''#TS Invalid TSS'',
    ''#NP Segment Not Present'',
    ''#SS Stack-Segment Fault'',
    ''#GP General Protection Fault'',
    ''#PF Page Fault'',
    ''(reserved)'',
    ''#MF x87 FPU Floating-Point Error'',
    ''#AC Alignment Check'',
    ''#MC Machine Check'',
    ''#XM SIMD Floating-Point Exception'',
    ''#VE Virtualization Exception'',
    ''#CP Control Protection Exception'',
    ''(reserved)'', ''(reserved)'', ''(reserved)'', ''(reserved)'',
    ''(reserved)'', ''(reserved)'', ''(reserved)'',
    ''#VC VMM Communication Exception'',
    ''#SX Security Exception'',
    ''(reserved)'']"

subsection \<open>The report\<close>

definition dump_pair :: "string \<Rightarrow> u64 \<Rightarrow> string \<Rightarrow> u64 \<Rightarrow> 'a machine_scheme \<Rightarrow> 'a machine_scheme option" where
  "dump_pair na a nb b = run_all
     [serial_write ''  '',
      serial_write na, serial_putc (CHR '' ''), put_hex64 a,
      serial_write ''   '',
      serial_write nb, serial_putc (CHR '' ''), put_hex64 b,
      serial_write nl]"

definition page_fault_report :: "u64 \<Rightarrow> 'a machine_scheme \<Rightarrow> 'a machine_scheme option" where
  "page_fault_report ec s = (let cr2 = paging_read_cr2 s in run_all
     [serial_write (''  -- page fault --'' @ nl),
      serial_write ''  cr2 (faulting addr) '',
      put_hex64 cr2,
      serial_write nl,
      serial_write ''  cause: '',
      serial_write (if ec AND push_bit 0 1 \<noteq> 0 then ''protection-violation'' else ''page-not-present''),
      serial_write '', '',
      serial_write (if ec AND push_bit 1 1 \<noteq> 0 then ''write'' else ''read''),
      serial_write '', '',
      serial_write (if ec AND push_bit 2 1 \<noteq> 0 then ''user'' else ''supervisor''),
      if ec AND push_bit 3 1 \<noteq> 0 then serial_write '', reserved-bit-set'' else Some,
      if ec AND push_bit 4 1 \<noteq> 0 then serial_write '', instruction-fetch'' else Some,
      serial_write nl] s)"

text \<open>The handler never returns: the result is the reason of the halt and the final state.\<close>

definition isr_handler :: "u64 \<Rightarrow> 'a arch_scheme \<Rightarrow> (halt \<times> 'a arch_scheme) option" where
  "isr_handler p s =
     (let f = read_frame (mem s) p;
          name = (if i_vector f < 32 then exception_names ! unat (i_vector f) else ''(unknown)'')
      in map_option (\<lambda>s. (CpuException (i_vector f), s\<lparr>if_flag := False\<rparr>)) (run_all
        [serial_write nl,
         serial_write (''================= CPU EXCEPTION ================='' @ nl),
         serial_write ''  vector '',
         put_hex64 (i_vector f),
         serial_write ''  '',
         serial_write name,
         serial_write nl,
         serial_write ''  error  '',
         put_hex64 (i_error_code f),
         serial_write nl,
         serial_write (''  -- registers --'' @ nl),
         dump_pair ''rax'' (i_rax f) ''rbx'' (i_rbx f),
         dump_pair ''rcx'' (i_rcx f) ''rdx'' (i_rdx f),
         dump_pair ''rsi'' (i_rsi f) ''rdi'' (i_rdi f),
         dump_pair ''rbp'' (i_rbp f) ''rsp'' (i_rsp f),
         dump_pair ''r8 '' (i_r8 f) ''r9 '' (i_r9 f),
         dump_pair ''r10'' (i_r10 f) ''r11'' (i_r11 f),
         dump_pair ''r12'' (i_r12 f) ''r13'' (i_r13 f),
         dump_pair ''r14'' (i_r14 f) ''r15'' (i_r15 f),
         serial_write (''  -- fault frame --'' @ nl),
         dump_pair ''rip'' (i_rip f) ''cs '' (i_cs f),
         dump_pair ''rfl'' (i_rflags f) ''ss '' (i_ss f),
         if i_vector f = 14 then page_fault_report (i_error_code f) else Some,
         serial_write (''  system halted.'' @ nl),
         serial_write (''================================================'' @ nl)] s))"

subsection \<open>What it says\<close>

definition pair_text :: "string \<times> u64 \<Rightarrow> string \<times> u64 \<Rightarrow> string" where
  "pair_text a b = ''  '' @ fst a @ '' '' @ hex64_text (snd a) @ ''   '' @ fst b @ '' '' @ hex64_text (snd b) @ nl"

text \<open>The cause of a page fault, from the bits of the error code.\<close>

definition fault_cause :: "u64 \<Rightarrow> string" where
  "fault_cause ec = (if bit ec 0 then ''protection-violation'' else ''page-not-present'') @ '', '' @
     (if bit ec 1 then ''write'' else ''read'') @ '', '' @ (if bit ec 2 then ''user'' else ''supervisor'') @
     (if bit ec 3 then '', reserved-bit-set'' else []) @ (if bit ec 4 then '', instruction-fetch'' else [])"

definition page_fault_text :: "u64 \<Rightarrow> u64 \<Rightarrow> string" where
  "page_fault_text ec addr = ''  -- page fault --'' @ nl @ ''  cr2 (faulting addr) '' @ hex64_text addr @ nl @
     ''  cause: '' @ fault_cause ec @ nl"

definition crash_text :: "interrupt_frame \<Rightarrow> u64 \<Rightarrow> string" where
  "crash_text f fault_addr =
     nl @ ''================= CPU EXCEPTION ================='' @ nl @
     ''  vector '' @ hex64_text (i_vector f) @ ''  '' @
       (if i_vector f < 32 then exception_names ! unat (i_vector f) else ''(unknown)'') @ nl @
     ''  error  '' @ hex64_text (i_error_code f) @ nl @
     ''  -- registers --'' @ nl @
     concat (map (\<lambda>(a, b). pair_text a b)
       [((''rax'', i_rax f), (''rbx'', i_rbx f)), ((''rcx'', i_rcx f), (''rdx'', i_rdx f)), ((''rsi'', i_rsi f), (''rdi'', i_rdi f)),
        ((''rbp'', i_rbp f), (''rsp'', i_rsp f)), ((''r8 '', i_r8 f), (''r9 '', i_r9 f)), ((''r10'', i_r10 f), (''r11'', i_r11 f)),
        ((''r12'', i_r12 f), (''r13'', i_r13 f)), ((''r14'', i_r14 f), (''r15'', i_r15 f))]) @
     ''  -- fault frame --'' @ nl @
     concat (map (\<lambda>(a, b). pair_text a b) [((''rip'', i_rip f), (''cs '', i_cs f)), ((''rfl'', i_rflags f), (''ss '', i_ss f))]) @
     (if i_vector f = 14 then page_fault_text (i_error_code f) fault_addr else []) @
     ''  system halted.'' @ nl @ ''================================================'' @ nl"

lemma prints_dump_pair [prints_intros]: "prints (dump_pair na a nb b) (crlf (pair_text (na, a) (nb, b)))"
  unfolding dump_pair_def
  by (rule prints_cong, (rule prints_intros)+) (simp add: pair_text_def)

lemma bit_test: "(ec AND push_bit n 1 \<noteq> 0) = bit ec n" for ec :: u64
  by (simp only: bit_iff_and_push_bit_not_eq_0)

lemma page_fault_prints:
  "\<exists>h. (\<forall>s. cr2 s = addr \<longrightarrow> page_fault_report ec s = h s) \<and> prints h (crlf (page_fault_text ec addr))"
proof (intro exI conjI allI impI)
  let ?h = "run_all
     [serial_write (''  -- page fault --'' @ nl),
      serial_write ''  cr2 (faulting addr) '',
      put_hex64 addr,
      serial_write nl,
      serial_write ''  cause: '',
      serial_write (if bit ec 0 then ''protection-violation'' else ''page-not-present''),
      serial_write '', '',
      serial_write (if bit ec 1 then ''write'' else ''read''),
      serial_write '', '',
      serial_write (if bit ec 2 then ''user'' else ''supervisor''),
      if bit ec 3 then serial_write '', reserved-bit-set'' else Some,
      if bit ec 4 then serial_write '', instruction-fetch'' else Some,
      serial_write nl]"
  show "page_fault_report ec s = ?h s" if "cr2 s = addr" for s
    unfolding page_fault_report_def Let_def paging_read_cr2_def that bit_test ..
  show "prints ?h (crlf (page_fault_text ec addr))"
    by (rule prints_cong, (rule prints_intros)+) (simp add: page_fault_text_def fault_cause_def)
qed

text \<open>The report before and after the page-fault part.\<close>

lemma isr_handler_prints:
  fixes s :: "'a arch_scheme"
  assumes "uart_live (device s)"
  shows "\<exists>s'. isr_handler p s = Some (CpuException (i_vector (read_frame (mem s) p)), s'\<lparr>if_flag := False\<rparr>) \<and>
    sends (crlf (crash_text (read_frame (mem s) p) (cr2 s))) s s'"
proof -
  define f where "f = read_frame (mem s) p"
  define name where "name = (if i_vector f < 32 then exception_names ! unat (i_vector f) else ''(unknown)'')"
  obtain h :: "'a arch_scheme \<Rightarrow> 'a arch_scheme option" where h: "\<And>t. cr2 t = cr2 s \<Longrightarrow> page_fault_report (i_error_code f) t = h t"
    "prints h (crlf (page_fault_text (i_error_code f) (cr2 s)))"
    using page_fault_prints [of "cr2 s" "i_error_code f"] by blast
  let ?A = "[serial_write nl, serial_write (''================= CPU EXCEPTION ================='' @ nl), serial_write ''  vector '',
     put_hex64 (i_vector f), serial_write ''  '', serial_write name, serial_write nl, serial_write ''  error  '',
     put_hex64 (i_error_code f), serial_write nl, serial_write (''  -- registers --'' @ nl),
     dump_pair ''rax'' (i_rax f) ''rbx'' (i_rbx f), dump_pair ''rcx'' (i_rcx f) ''rdx'' (i_rdx f),
     dump_pair ''rsi'' (i_rsi f) ''rdi'' (i_rdi f), dump_pair ''rbp'' (i_rbp f) ''rsp'' (i_rsp f),
     dump_pair ''r8 '' (i_r8 f) ''r9 '' (i_r9 f), dump_pair ''r10'' (i_r10 f) ''r11'' (i_r11 f),
     dump_pair ''r12'' (i_r12 f) ''r13'' (i_r13 f), dump_pair ''r14'' (i_r14 f) ''r15'' (i_r15 f),
     serial_write (''  -- fault frame --'' @ nl), dump_pair ''rip'' (i_rip f) ''cs '' (i_cs f),
     dump_pair ''rfl'' (i_rflags f) ''ss '' (i_ss f)] :: ('a arch_scheme \<Rightarrow> 'a arch_scheme option) list"
  let ?B = "[serial_write (''  system halted.'' @ nl), serial_write (''================================================'' @ nl)] :: ('a arch_scheme \<Rightarrow> 'a arch_scheme option) list"
  let ?g = "if i_vector f = 14 then page_fault_report (i_error_code f) else Some"
  let ?h = "if i_vector f = 14 then h else Some"
  obtain x where x: "prints (run_all ?A) x" and z: "x @ (if i_vector f = 14 then crlf (page_fault_text (i_error_code f) (cr2 s)) else []) @
      crlf (''  system halted.'' @ nl) @ crlf (''================================================'' @ nl) @ [] = crlf (crash_text f (cr2 s))"
    by (rule that, (rule prints_intros)+)
      (simp only: crash_text_def name_def [symmetric] crlf_append crlf_numbers append_assoc append_Nil append_Nil2 list.map concat.simps
        prod.case if_distrib [of crlf] crlf.simps(1))
  have B: "prints (run_all ?B) (crlf (''  system halted.'' @ nl) @ crlf (''================================================'' @ nl) @ [])"
    by (rule prints_intros)+
  have g: "?g t = ?h t" if "sends x s t" for t
    using h(1) [of t] that by (auto simp: sends_def)
  have p: "prints ?h (if i_vector f = 14 then crlf (page_fault_text (i_error_code f) (cr2 s)) else [])"
    using h(2) by (simp add: prints_skip)
  obtain s' where s': "run_all (?A @ ?g # ?B) s = Some s'" "sends (crlf (crash_text f (cr2 s))) s s'"
    using prints_middle [OF x g p B assms] unfolding z by blast
  have "isr_handler p s = map_option (\<lambda>s. (CpuException (i_vector f), s\<lparr>if_flag := False\<rparr>)) (run_all (?A @ ?g # ?B) s)"
    unfolding isr_handler_def f_def [symmetric] Let_def name_def [symmetric] append.simps ..
  then have "isr_handler p s = Some (CpuException (i_vector f), s'\<lparr>if_flag := False\<rparr>)" unfolding s'(1) option.map .
  then show ?thesis using s'(2) unfolding f_def by blast
qed

text \<open>C23 (equivalence): an exception is always reported, and the machine then stops with interrupts off. On
  a UART that drains, exactly the text of the report goes out, line ends expanded: vector and name, error code,
  all registers of the frame the stub left, and for a page fault the address from \<open>cr2\<close> and the cause the error
  code's bits name. Nothing else of the machine changes.\<close>

theorem isr_handler_correct:
  assumes "uart_live (device s)"
  shows "\<exists>s'. isr_handler p s = Some (CpuException (i_vector (read_frame (mem s) p)), s'\<lparr>if_flag := False\<rparr>) \<and>
    sends (crlf (crash_text (read_frame (mem s) p) (cr2 s))) s s'"
  by (rule isr_handler_prints [OF assms])

theorem isr_handler_correct_witness:
  "\<exists>s'. isr_handler 0x1000 (cold_arch\<lparr>device := demo_uart, mem := store64 (\<lambda>_. 0) (0x1000 + 120) 14, cr2 := 0xdead\<rparr>) =
      Some (CpuException 14, s') \<and> \<not> if_flag s'"
proof -
  let ?s = "cold_arch\<lparr>device := demo_uart, mem := store64 (\<lambda>_. 0) (0x1000 + 120) 14, cr2 := 0xdead\<rparr>"
  have "uart_live (device ?s)" using demo_uart_live by simp
  from isr_handler_correct [OF this, where p = "0x1000"] show ?thesis by (auto simp: read_frame_def)
qed

end
