(* ===== verification/Console.thy ===== *)
theory Console
  imports Arch Print Cstring
begin

text \<open>
  The framebuffer text console of \<^verbatim>\<open>drivers/console.c\<close>: a bitmap font drawn into linear memory, a
  cursor, wrapping and scrolling. The font is the byte array of \<^verbatim>\<open>font_psf.h\<close>, which is generated; the
  model reads it in memory at its link-time address, whatever it holds.
\<close>

subsection \<open>State\<close>

record console = arch +
  fb_base :: u64
  fb_width :: u32
  fb_height :: u32
  fb_pitch :: u32
  fb_bytes_pp :: u32
  glyph_data :: u64
  glyph_count :: u32
  glyph_w :: u32
  glyph_h :: u32
  glyph_bytes :: u32
  gw_bytes :: u32
  cols :: u32
  rows :: u32
  cur_col :: u32
  cur_row :: u32
  ready :: bool
  font_psf :: u64

text \<open>\<^verbatim>\<open>struct psf2_header\<close>: eight little-endian words.\<close>

definition psf_magic :: "memory \<Rightarrow> u64 \<Rightarrow> u32" where "psf_magic m h = load32 m h"
definition psf_headersize :: "memory \<Rightarrow> u64 \<Rightarrow> u32" where "psf_headersize m h = load32 m (h + 8)"
definition psf_length :: "memory \<Rightarrow> u64 \<Rightarrow> u32" where "psf_length m h = load32 m (h + 16)"
definition psf_charsize :: "memory \<Rightarrow> u64 \<Rightarrow> u32" where "psf_charsize m h = load32 m (h + 20)"
definition psf_height :: "memory \<Rightarrow> u64 \<Rightarrow> u32" where "psf_height m h = load32 m (h + 24)"
definition psf_width :: "memory \<Rightarrow> u64 \<Rightarrow> u32" where "psf_width m h = load32 m (h + 28)"

definition PSF2_MAGIC :: u32 where "PSF2_MAGIC = 0x864ab572"
definition fg :: u32 where "fg = 0x00c8f0c8"
definition bg :: u32 where "bg = 0x00060f0a"

subsection \<open>Operations\<close>

text \<open>The values of a counter: \<^verbatim>\<open>for (uint32_t i = a; i < b; i++)\<close>.\<close>

definition counter :: "u32 \<Rightarrow> u32 \<Rightarrow> u32 list" where
  "counter a b = map of_nat [unat a..<unat b]"

definition put_pixel :: "u32 \<Rightarrow> u32 \<Rightarrow> u32 \<Rightarrow> 'a console_scheme \<Rightarrow> 'a console_scheme" where
  "put_pixel x y colour s =
     put32 (fb_base s + ucast y * ucast (fb_pitch s) + ucast x * ucast (fb_bytes_pp s)) colour s"

definition glyph_bit :: "u64 \<Rightarrow> u32 \<Rightarrow> u32 \<Rightarrow> 'a console_scheme \<Rightarrow> u32" where
  "glyph_bit g r cx s =
     (let byte = mem s (g + ucast (r * gw_bytes s + drop_bit 3 cx))
      in drop_bit (unat (7 - (cx AND 7))) (ucast byte) AND 1)"

definition draw_cell :: "u8 \<Rightarrow> u32 \<Rightarrow> u32 \<Rightarrow> 'a console_scheme \<Rightarrow> 'a console_scheme" where
  "draw_cell ch col row s =
     (let ch = (if ucast ch \<ge> glyph_count s then 0 else ch);
          g = glyph_data s + ucast (ucast ch * glyph_bytes s :: u32);
          px0 = col * glyph_w s;
          py0 = row * glyph_h s
      in fold (\<lambda>r s. fold (\<lambda>cx s. put_pixel (px0 + cx) (py0 + r) (if glyph_bit g r cx s \<noteq> 0 then fg else bg) s)
              (counter 0 (glyph_w s)) s)
           (counter 0 (glyph_h s)) s)"

definition clear_cell :: "u32 \<Rightarrow> u32 \<Rightarrow> 'a console_scheme \<Rightarrow> 'a console_scheme" where
  "clear_cell col row s = draw_cell 0 col row s"

definition paint_cursor :: "u32 \<Rightarrow> 'a console_scheme \<Rightarrow> 'a console_scheme" where
  "paint_cursor colour s =
     (let y = cur_row s * glyph_h s + (glyph_h s - 1);
          x0 = cur_col s * glyph_w s
      in fold (\<lambda>x. put_pixel (x0 + x) y colour) (counter 0 (glyph_w s)) s)"

definition draw_cursor :: "'a console_scheme \<Rightarrow> 'a console_scheme" where "draw_cursor s = paint_cursor fg s"
definition erase_cursor :: "'a console_scheme \<Rightarrow> 'a console_scheme" where "erase_cursor s = paint_cursor bg s"

definition fill_rows :: "u32 \<Rightarrow> u32 \<Rightarrow> 'a console_scheme \<Rightarrow> 'a console_scheme" where
  "fill_rows y0 y1 s =
     fold (\<lambda>y s. fold (\<lambda>x. put_pixel x y bg) (counter 0 (fb_width s)) s) (counter y0 y1) s"

definition scroll :: "'a console_scheme \<Rightarrow> 'a console_scheme" where
  "scroll s =
     (let row_px = glyph_h s;
          move_bytes = (ucast (fb_height s - row_px) :: u64) * ucast (fb_pitch s);
          s = s\<lparr>mem := snd (memmove (fb_base s) (fb_base s + ucast row_px * ucast (fb_pitch s)) move_bytes (mem s))\<rparr>
      in fill_rows ((rows s - 1) * glyph_h s) (fb_height s) s)"

definition newline :: "'a console_scheme \<Rightarrow> 'a console_scheme" where
  "newline s =
     (let s = s\<lparr>cur_col := 0\<rparr>;
          s = s\<lparr>cur_row := cur_row s + 1\<rparr>
      in if cur_row s \<ge> rows s then (let s = scroll s in s\<lparr>cur_row := rows s - 1\<rparr>) else s)"

text \<open>The message has an em dash, three bytes in the source.\<close>

definition console_init :: "u64 \<Rightarrow> u32 \<Rightarrow> u32 \<Rightarrow> u32 \<Rightarrow> u16 \<Rightarrow> 'a console_scheme \<Rightarrow> 'a console_scheme option" where
  "console_init base width height pitch bpp s =
     (let h = font_psf s
      in if psf_magic (mem s) h \<noteq> PSF2_MAGIC \<or> psf_width (mem s) h = 0 \<or> psf_height (mem s) h = 0
         then map_option (\<lambda>s. s\<lparr>ready := False\<rparr>)
           (serial_write (''console: bad PSF2 font magic/geometry '' @ [CHR 0xE2, CHR 0x80, CHR 0x94] @ '' console disabled'' @ nl) s)
         else
           let s = s\<lparr>fb_base := base, fb_width := width, fb_height := height, fb_pitch := pitch, fb_bytes_pp := ucast (bpp div 8)\<rparr>;
               s = s\<lparr>glyph_data := h + ucast (psf_headersize (mem s) h), glyph_count := psf_length (mem s) h,
                     glyph_w := psf_width (mem s) h, glyph_h := psf_height (mem s) h, glyph_bytes := psf_charsize (mem s) h\<rparr>;
               s = s\<lparr>gw_bytes := (glyph_w s + 7) div 8\<rparr>;
               s = s\<lparr>cols := fb_width s div glyph_w s, rows := fb_height s div glyph_h s\<rparr>;
               s = s\<lparr>cur_col := 0, cur_row := 0\<rparr>;
               s = fill_rows 0 (fb_height s) s;
               s = s\<lparr>ready := True\<rparr>
           in Some (draw_cursor s))"

text \<open>The tab loop ends because drawing leaves the cursor alone.\<close>

lemma fold_keeps: "(\<And>x t. obs (g x t) = obs t) \<Longrightarrow> obs (fold g xs s) = obs s"
  by (induction xs arbitrary: s) simp_all

lemma clear_cell_cur_col: "cur_col (clear_cell col row s) = cur_col s"
  unfolding clear_cell_def draw_cell_def Let_def by (intro fold_keeps) (simp add: put_pixel_def put32_def)

function tab_loop :: "u32 \<Rightarrow> 'a console_scheme \<Rightarrow> 'a console_scheme" where
  "tab_loop target s =
     (if cur_col s < target
      then let s = clear_cell (cur_col s) (cur_row s) s;
               s = s\<lparr>cur_col := cur_col s + 1\<rparr>
           in if cur_col s \<ge> cols s then newline s else tab_loop target s
      else s)"
  by pat_completeness auto
termination
  by (relation "measure (\<lambda>(target, s). unat (target - cur_col s))") (auto simp: clear_cell_cur_col word_loop_decr)

declare tab_loop.simps [simp del]

definition console_putc :: "char \<Rightarrow> 'a console_scheme \<Rightarrow> 'a console_scheme" where
  "console_putc c s =
     (if \<not> ready s then s
      else
        let s = erase_cursor s;
            s = (if c = CHR 0x0A then newline s
                 else if c = CHR 0x0D then s\<lparr>cur_col := 0\<rparr>
                 else if c = CHR 0x08 then
                   let s = (if cur_col s > 0 then s\<lparr>cur_col := cur_col s - 1\<rparr>
                            else if cur_row s > 0 then
                              let s = s\<lparr>cur_row := cur_row s - 1\<rparr> in s\<lparr>cur_col := cols s - 1\<rparr>
                            else s)
                   in clear_cell (cur_col s) (cur_row s) s
                 else if c = CHR 0x09 then tab_loop ((cur_col s AND NOT 7) + 8) s
                 else if (of_char c :: u8) \<ge> 0x20 then
                   let s = draw_cell (of_char c) (cur_col s) (cur_row s) s;
                       s = s\<lparr>cur_col := cur_col s + 1\<rparr>
                   in if cur_col s \<ge> cols s then newline s else s
                 else s)
        in draw_cursor s)"

fun console_write :: "string \<Rightarrow> 'a console_scheme \<Rightarrow> 'a console_scheme" where
  "console_write [] s = s"
| "console_write (c # cs) s = console_write cs (console_putc c s)"

end
