(* ===== verification/Console_Draw.thy ===== *)
theory Console_Draw
  imports Console
begin

text \<open>
  The framebuffer as a grid of pixels. The locale \<open>raster\<close> is the interface the drawing code relies
  on, a grid one can write a point of; what its loops paint is proved there once, and the
  framebuffer of \<^verbatim>\<open>console.c\<close>, four bytes a pixel and \<open>pitch\<close> bytes a row, is its instance.
\<close>

subsection \<open>Grids of pixels\<close>

locale raster =
  fixes get :: "'s \<Rightarrow> nat \<Rightarrow> nat \<Rightarrow> u32"
    and put :: "nat \<Rightarrow> nat \<Rightarrow> u32 \<Rightarrow> 's \<Rightarrow> 's"
    and ok :: "'s \<Rightarrow> bool"
    and w :: nat and h :: nat
  assumes ok_put: "ok s \<Longrightarrow> x < w \<Longrightarrow> y < h \<Longrightarrow> ok (put x y c s)"
    and get_put: "ok s \<Longrightarrow> x < w \<Longrightarrow> y < h \<Longrightarrow> x' < w \<Longrightarrow> y' < h \<Longrightarrow>
      get (put x y c s) x' y' = (if x' = x \<and> y' = y then c else get s x' y')"
begin

text \<open>A row and a rectangle painted point by point, in colours that drawing does not change.\<close>

lemma paint_row:
  assumes "ok s" and "x0 + n \<le> w" and "y < h" and "\<And>i t. ok t \<Longrightarrow> i < n \<Longrightarrow> col i t = f i"
  shows "ok (fold (\<lambda>i t. put (x0 + i) y (col i t) t) [0..<n] s) \<and>
    (\<forall>x' < w. \<forall>y' < h. get (fold (\<lambda>i t. put (x0 + i) y (col i t) t) [0..<n] s) x' y' =
      (if y' = y \<and> x0 \<le> x' \<and> x' < x0 + n then f (x' - x0) else get s x' y'))"
  using assms(2,4)
proof (induction n)
  case 0
  then show ?case using assms(1) by auto
next
  case (Suc n)
  let ?t = "fold (\<lambda>i t. put (x0 + i) y (col i t) t) [0..<n] s"
  have IH: "ok ?t" "\<And>x' y'. x' < w \<Longrightarrow> y' < h \<Longrightarrow> get ?t x' y' = (if y' = y \<and> x0 \<le> x' \<and> x' < x0 + n then f (x' - x0) else get s x' y')"
    using Suc by auto
  have c: "col n ?t = f n" using Suc.prems(2) [OF IH(1), of n] by simp
  have "ok (put (x0 + n) y (f n) ?t)" using Suc.prems(1) assms(3) by (intro ok_put [OF IH(1)]) auto
  moreover have "get (put (x0 + n) y (f n) ?t) x' y' =
      (if y' = y \<and> x0 \<le> x' \<and> x' < x0 + Suc n then f (x' - x0) else get s x' y')" if "x' < w" "y' < h" for x' y'
    using get_put [OF IH(1), of "x0 + n" y x' y' "f n"] IH(2) [OF that] that Suc.prems(1) assms(3) by auto
  ultimately show ?case by (simp add: c)
qed

lemma paint_rect:
  assumes "ok s" and "x0 + n \<le> w" and "y0 + k \<le> h" and "\<And>r i t. ok t \<Longrightarrow> r < k \<Longrightarrow> i < n \<Longrightarrow> col r i t = f r i"
  shows "ok (fold (\<lambda>r t. fold (\<lambda>i t. put (x0 + i) (y0 + r) (col r i t) t) [0..<n] t) [0..<k] s) \<and>
    (\<forall>x' < w. \<forall>y' < h. get (fold (\<lambda>r t. fold (\<lambda>i t. put (x0 + i) (y0 + r) (col r i t) t) [0..<n] t) [0..<k] s) x' y' =
      (if y0 \<le> y' \<and> y' < y0 + k \<and> x0 \<le> x' \<and> x' < x0 + n then f (y' - y0) (x' - x0) else get s x' y'))"
  using assms(3,4)
proof (induction k)
  case 0
  then show ?case using assms(1) by auto
next
  case (Suc k)
  let ?t = "fold (\<lambda>r t. fold (\<lambda>i t. put (x0 + i) (y0 + r) (col r i t) t) [0..<n] t) [0..<k] s"
  have IH: "ok ?t" "\<And>x' y'. x' < w \<Longrightarrow> y' < h \<Longrightarrow> get ?t x' y' =
      (if y0 \<le> y' \<and> y' < y0 + k \<and> x0 \<le> x' \<and> x' < x0 + n then f (y' - y0) (x' - x0) else get s x' y')"
    using Suc by auto
  have "ok (fold (\<lambda>i t. put (x0 + i) (y0 + k) (col k i t) t) [0..<n] ?t) \<and>
    (\<forall>x' < w. \<forall>y' < h. get (fold (\<lambda>i t. put (x0 + i) (y0 + k) (col k i t) t) [0..<n] ?t) x' y' =
      (if y' = y0 + k \<and> x0 \<le> x' \<and> x' < x0 + n then f k (x' - x0) else get ?t x' y'))"
    using Suc.prems by (intro paint_row [OF IH(1) assms(2)]) auto
  then show ?case using IH(2) by (auto simp: less_Suc_eq)
qed

end

subsection \<open>The framebuffer\<close>

text \<open>
  What \<open>console_init\<close> is given by the boot loader and the font: 32 bits a pixel, rows that fit their
  pitch, memory that does not wrap, room for at least one character; and that the font lies outside.
\<close>

definition fb_bytes :: "'a console_scheme \<Rightarrow> u64 set" where
  "fb_bytes s = {a. unat (a - fb_base s) < unat (fb_height s) * unat (fb_pitch s)}"

definition glyph_addr :: "'a console_scheme \<Rightarrow> u8 \<Rightarrow> u32 \<Rightarrow> u32 \<Rightarrow> u64" where
  "glyph_addr s ch r cx = glyph_data s + ucast (ucast ch * glyph_bytes s :: u32) + ucast (r * gw_bytes s + drop_bit 3 cx)"

text \<open>A code the font does not have is drawn as glyph 0.\<close>

definition glyph_code :: "'a console_scheme \<Rightarrow> u8 \<Rightarrow> u8" where
  "glyph_code s ch = (if ucast ch \<ge> glyph_count s then 0 else ch)"

definition fb_ok :: "'a console_scheme \<Rightarrow> bool" where
  "fb_ok s \<longleftrightarrow> fb_bytes_pp s = 4 \<and> 4 * unat (fb_width s) \<le> unat (fb_pitch s) \<and>
     unat (fb_base s) + unat (fb_height s) * unat (fb_pitch s) \<le> 2 ^ 64 \<and>
     0 < unat (glyph_w s) \<and> 0 < unat (glyph_h s) \<and>
     unat (cols s) = unat (fb_width s) div unat (glyph_w s) \<and> unat (rows s) = unat (fb_height s) div unat (glyph_h s) \<and>
     0 < unat (cols s) \<and> 0 < unat (rows s) \<and>
     (\<forall>ch r cx. unat r < unat (glyph_h s) \<and> unat cx < unat (glyph_w s) \<longrightarrow> glyph_addr s (glyph_code s ch) r cx \<notin> fb_bytes s)"

lemma fb_okD:
  assumes "fb_ok s"
  shows "fb_bytes_pp s = 4" and "4 * unat (fb_width s) \<le> unat (fb_pitch s)"
    and "unat (fb_base s) + unat (fb_height s) * unat (fb_pitch s) \<le> 2 ^ 64"
    and "0 < unat (glyph_w s)" and "0 < unat (glyph_h s)"
    and "unat (cols s) * unat (glyph_w s) \<le> unat (fb_width s)" and "unat (rows s) * unat (glyph_h s) \<le> unat (fb_height s)"
    and "0 < unat (cols s)" and "0 < unat (rows s)"
    and "unat r < unat (glyph_h s) \<Longrightarrow> unat cx < unat (glyph_w s) \<Longrightarrow> glyph_addr s (glyph_code s ch) r cx \<notin> fb_bytes s"
  using assms unfolding fb_ok_def by (simp_all add: div_times_less_eq_dividend)

definition pixel_addr :: "'a console_scheme \<Rightarrow> nat \<Rightarrow> nat \<Rightarrow> u64" where
  "pixel_addr s x y = fb_base s + of_nat (y * unat (fb_pitch s) + 4 * x)"

definition pixel :: "'a console_scheme \<Rightarrow> nat \<Rightarrow> nat \<Rightarrow> u32" where
  "pixel s x y = load32 (mem s) (pixel_addr s x y)"

definition plot :: "nat \<Rightarrow> nat \<Rightarrow> u32 \<Rightarrow> 'a console_scheme \<Rightarrow> 'a console_scheme" where
  "plot x y c s = s\<lparr>mem := store32 (mem s) (pixel_addr s x y) c\<rparr>"

lemma put_pixel_plot:
  assumes "fb_bytes_pp s = 4"
  shows "put_pixel x y c s = plot (unat x) (unat y) c s"
proof -
  have "(ucast y :: u64) = of_nat (unat y)" "(ucast (fb_pitch s) :: u64) = of_nat (unat (fb_pitch s))" "(ucast x :: u64) = of_nat (unat x)"
    by simp_all
  then show ?thesis
    by (simp add: put_pixel_def plot_def put32_def pixel_addr_def assms mult.commute add.assoc)
qed

lemma pixel_offset:
  assumes "fb_ok s" and "x < unat (fb_width s)" and "y < unat (fb_height s)"
  shows "y * unat (fb_pitch s) + 4 * x + 4 \<le> unat (fb_height s) * unat (fb_pitch s)"
proof -
  have "4 * x + 4 \<le> unat (fb_pitch s)" using fb_okD(2) [OF assms(1)] assms(2) by simp
  then have "y * unat (fb_pitch s) + 4 * x + 4 \<le> Suc y * unat (fb_pitch s)" by simp
  also have "\<dots> \<le> unat (fb_height s) * unat (fb_pitch s)" using assms(3) by (intro mult_le_mono1) simp
  finally show ?thesis .
qed

lemma pixel_bytes:
  assumes "fb_ok s" and "x < unat (fb_width s)" and "y < unat (fb_height s)" and "unat (a - pixel_addr s x y) < 4"
  shows "a \<in> fb_bytes s"
proof -
  let ?o = "y * unat (fb_pitch s) + 4 * x"
  note lt = pixel_offset [OF assms(1-3)] and sz = fb_okD(3) [OF assms(1)]
  have "?o < 2 ^ 64" using lt sz by linarith
  then have "unat (of_nat ?o :: u64) = ?o" by (simp only: unat_of_nat) simp
  then have "unat (of_nat ?o + (a - pixel_addr s x y)) = ?o + unat (a - pixel_addr s x y)"
    using assms(4) lt sz by (intro trans [OF unat_add_exact]) auto
  moreover have "of_nat ?o + (a - pixel_addr s x y) = a - fb_base s" by (simp add: pixel_addr_def)
  ultimately have "unat (a - fb_base s) = ?o + unat (a - pixel_addr s x y)" by (simp only:)
  then show ?thesis using assms(4) lt unfolding fb_bytes_def by simp
qed

lemma of_nat_diff_ge:
  assumes "k + 4 \<le> j" and "j + 4 \<le> 2 ^ 64"
  shows "4 \<le> unat (of_nat j - of_nat k :: u64)" and "4 \<le> unat (of_nat k - of_nat j :: u64)"
proof -
  have d: "of_nat j - of_nat k = (of_nat (j - k) :: u64)" using assms(1) by simp
  then have u: "unat (of_nat j - of_nat k :: u64) = j - k" using assms by (simp only: unat_of_nat) simp
  then show "4 \<le> unat (of_nat j - of_nat k :: u64)" using assms by simp
  have "(of_nat k - of_nat j :: u64) = - (of_nat j - of_nat k)" by simp
  moreover have "(of_nat j - of_nat k :: u64) \<noteq> 0" using u assms by auto
  ultimately have "unat (of_nat k - of_nat j :: u64) = 2 ^ 64 - (j - k)" using unat_neg [of "of_nat j - of_nat k"] u by simp
  then show "4 \<le> unat (of_nat k - of_nat j :: u64)" using assms by simp
qed

lemma pixels_apart:
  assumes ok: "fb_ok s" and p: "x < unat (fb_width s)" "y < unat (fb_height s)" and q: "x' < unat (fb_width s)" "y' < unat (fb_height s)"
    and ne: "(x, y) \<noteq> (x', y')"
  shows "load32 (store32 m (pixel_addr s x y) c) (pixel_addr s x' y') = load32 m (pixel_addr s x' y')"
proof -
  let ?k = "y * unat (fb_pitch s) + 4 * x" and ?j = "y' * unat (fb_pitch s) + 4 * x'"
  have row: "a * unat (fb_pitch s) + 4 * b + 4 \<le> a' * unat (fb_pitch s) + 4 * b'" if "a < a'" "b < unat (fb_width s)" for a b a' b'
  proof -
    have "4 * b + 4 \<le> unat (fb_pitch s)" using fb_okD(2) [OF ok] that(2) by simp
    then have "a * unat (fb_pitch s) + 4 * b + 4 \<le> Suc a * unat (fb_pitch s)" by simp
    also have "\<dots> \<le> a' * unat (fb_pitch s)" using that(1) by (intro mult_le_mono1) simp
    finally show ?thesis by simp
  qed
  have "?k + 4 \<le> ?j \<or> ?j + 4 \<le> ?k" using row [of y y' x x'] row [of y' y x' x] ne p q by (cases y y' rule: linorder_cases) auto
  moreover have "?k + 4 \<le> 2 ^ 64" "?j + 4 \<le> 2 ^ 64"
    using pixel_offset [OF ok p] pixel_offset [OF ok q] fb_okD(3) [OF ok] by linarith+
  ultimately have "4 \<le> unat (of_nat ?j - of_nat ?k :: u64)" "4 \<le> unat (of_nat ?k - of_nat ?j :: u64)"
    using of_nat_diff_ge [of ?k ?j] of_nat_diff_ge [of ?j ?k] by blast+
  moreover have "pixel_addr s x' y' - pixel_addr s x y = of_nat ?j - of_nat ?k" "pixel_addr s x y - pixel_addr s x' y' = of_nat ?k - of_nat ?j"
    unfolding pixel_addr_def by (simp_all only: add_diff_cancel_left)
  ultimately show ?thesis unfolding load32_def store32_def by (intro load_store_apart) simp_all
qed

text \<open>What drawing on the screen of \<open>s\<close> can lead to: other memory inside the framebuffer.\<close>

definition drawn :: "'a console_scheme \<Rightarrow> 'a console_scheme \<Rightarrow> bool" where
  "drawn s t \<longleftrightarrow> fb_ok s \<and> (\<exists>m. t = s\<lparr>mem := m\<rparr> \<and> (\<forall>a. a \<notin> fb_bytes s \<longrightarrow> m a = mem s a))"

lemma drawn_refl: "fb_ok s \<Longrightarrow> drawn s s"
  unfolding drawn_def by (intro conjI exI [of _ "mem s"]) simp_all

lemma drawn_fields:
  assumes "drawn s t"
  shows "fb_base t = fb_base s" "fb_width t = fb_width s" "fb_height t = fb_height s" "fb_pitch t = fb_pitch s"
    "fb_bytes_pp t = fb_bytes_pp s" "glyph_data t = glyph_data s" "glyph_count t = glyph_count s" "glyph_w t = glyph_w s"
    "glyph_h t = glyph_h s" "glyph_bytes t = glyph_bytes s" "gw_bytes t = gw_bytes s" "cols t = cols s" "rows t = rows s"
    "cur_col t = cur_col s" "cur_row t = cur_row s" "ready t = ready s" "fb_bytes t = fb_bytes s" "glyph_addr t = glyph_addr s"
    "pixel_addr t = pixel_addr s" "glyph_code t = glyph_code s"
  using assms by (auto simp: drawn_def fb_bytes_def glyph_addr_def pixel_addr_def glyph_code_def intro!: ext)

lemma drawn_ok: "drawn s t \<Longrightarrow> fb_ok t"
  using drawn_fields [of s t] unfolding drawn_def fb_ok_def by metis

lemma drawn_mem: "drawn s t \<Longrightarrow> a \<notin> fb_bytes s \<Longrightarrow> mem t a = mem s a"
  by (auto simp: drawn_def)

lemma drawn_trans:
  assumes "drawn s t" and "drawn t u"
  shows "drawn s u"
proof -
  obtain m where "u = t\<lparr>mem := m\<rparr>" using assms(2) by (auto simp: drawn_def)
  moreover obtain m' where "t = s\<lparr>mem := m'\<rparr>" using assms(1) by (auto simp: drawn_def)
  ultimately have u: "u = s\<lparr>mem := m\<rparr>" by simp
  moreover have "m a = mem s a" if "a \<notin> fb_bytes s" for a
    using that drawn_mem [OF assms(1) that] drawn_mem [OF assms(2), of a] drawn_fields(17) [OF assms(1)] by (simp add: u)
  ultimately show ?thesis using assms(1) unfolding drawn_def by blast
qed

interpretation screen: raster pixel plot "drawn s" "unat (fb_width s)" "unat (fb_height s)" for s :: "'a console_scheme"
proof
  fix t x y c x' y' assume t: "drawn s t" and xy: "x < unat (fb_width s)" "y < unat (fb_height s)"
  note ok = drawn_ok [OF t] and f = drawn_fields [OF t]
  have "drawn t (plot x y c t)"
    unfolding drawn_def plot_def
  proof (intro conjI exI allI impI)
    fix a assume a: "a \<notin> fb_bytes t"
    show "store32 (mem t) (pixel_addr t x y) c a = mem t a"
      using pixel_bytes [OF ok, of x y a] a xy f(2,3) unfolding store32_def by (intro store_le_other) fastforce
  qed (use ok in simp_all)
  then show "drawn s (plot x y c t)" by (rule drawn_trans [OF t])
  show "pixel (plot x y c t) x' y' = (if x' = x \<and> y' = y then c else pixel t x' y')" if "x' < unat (fb_width s)" "y' < unat (fb_height s)"
  proof (cases "x' = x \<and> y' = y")
    case True
    then show ?thesis by (simp add: pixel_def plot_def pixel_addr_def)
  next
    case False
    then show ?thesis using pixels_apart [OF ok, of x y x' y'] xy that f(2,3) by (auto simp: pixel_def plot_def pixel_addr_def)
  qed
qed

subsection \<open>The loops of the source on the grid\<close>

lemma fold_counter: "fold g (counter a b) s = fold (\<lambda>i. g (of_nat i)) [unat a..<unat b] s"
  unfolding counter_def by (simp add: fold_map o_def)

lemma fold_shift: "a \<le> b \<Longrightarrow> fold g [a..<b] s = fold (\<lambda>i. g (a + i)) [0..<b - a] s"
proof -
  assume "a \<le> b"
  then have "[a..<b] = map (\<lambda>i. i + a) [0..<b - a]" by (simp add: map_add_upt)
  then show ?thesis by (simp only: fold_map o_def add.commute [of _ a])
qed

lemma fold_same:
  assumes "ok s" and "\<And>x t. x \<in> set xs \<Longrightarrow> ok t \<Longrightarrow> g x t = g' x t \<and> ok (g' x t)"
  shows "fold g xs s = fold g' xs s"
  using assms
proof (induction xs arbitrary: s)
  case (Cons x xs)
  then have "g x s = g' x s" "ok (g' x s)" by auto
  then show ?case using Cons.IH [of "g' x s"] Cons.prems by simp
qed simp

lemma plot_row:
  assumes t: "drawn s t" and n: "unat x0 + unat n \<le> unat (fb_width s)" and y: "unat y < unat (fb_height s)"
  shows "fold (\<lambda>cx t. put_pixel (x0 + cx) y (col cx t) t) (counter 0 n) t =
    fold (\<lambda>i t. plot (unat x0 + i) (unat y) (col (of_nat i) t) t) [0..<unat n] t"
  unfolding fold_counter unat_0
proof (rule fold_same [where ok = "drawn s", OF t])
  fix i u assume i: "i \<in> set [0..<unat n]" and u: "drawn s u"
  have lt: "i < 2 ^ 32" using i unat_lt2p [of n] by simp
  then have "unat (of_nat i :: u32) = i" by (simp only: unat_of_nat) simp
  then have "unat (x0 + of_nat i) = unat x0 + i" using i n unat_lt2p [of "fb_width s"] by (simp add: unat_add_exact)
  moreover have "fb_bytes_pp u = 4" using fb_okD(1) [OF drawn_ok [OF u]] .
  ultimately show "put_pixel (x0 + of_nat i) y (col (of_nat i) u) u = plot (unat x0 + i) (unat y) (col (of_nat i) u) u \<and>
      drawn s (plot (unat x0 + i) (unat y) (col (of_nat i) u) u)"
    using screen.ok_put [OF u, of "unat x0 + i" "unat y"] i n y by (simp add: put_pixel_plot)
qed

text \<open>A rectangle whose rows \<open>G i\<close> are each drawn by such a loop.\<close>

lemma draw_rect:
  assumes ok: "fb_ok s" and n: "unat x0 + unat n \<le> unat (fb_width s)" and k: "y0 + k \<le> unat (fb_height s)"
    and G: "\<And>i t. i < k \<Longrightarrow> drawn s t \<Longrightarrow> \<exists>y. unat y = y0 + i \<and>
      G i t = fold (\<lambda>cx t. put_pixel (x0 + cx) y (col i cx t) t) (counter 0 n) t"
    and col: "\<And>i j t. drawn s t \<Longrightarrow> i < k \<Longrightarrow> j < unat n \<Longrightarrow> col i (of_nat j) t = f i j"
  shows "drawn s (fold G [0..<k] s)"
    and "x < unat (fb_width s) \<Longrightarrow> y < unat (fb_height s) \<Longrightarrow> pixel (fold G [0..<k] s) x y =
      (if y0 \<le> y \<and> y < y0 + k \<and> unat x0 \<le> x \<and> x < unat x0 + unat n then f (y - y0) (x - unat x0) else pixel s x y)"
proof -
  let ?row = "\<lambda>r t. fold (\<lambda>i t. plot (unat x0 + i) (y0 + r) (col r (of_nat i) t) t) [0..<unat n] t"
  have "fold G [0..<k] s = fold ?row [0..<k] s"
  proof (rule fold_same [where ok = "drawn s", OF drawn_refl [OF ok]])
    fix r t assume r: "r \<in> set [0..<k]" and t: "drawn s t"
    then obtain y where y: "unat y = y0 + r" "G r t = fold (\<lambda>cx t. put_pixel (x0 + cx) y (col r cx t) t) (counter 0 n) t"
      using G [of r t] by auto
    have "unat y < unat (fb_height s)" using y(1) r k by simp
    from plot_row [OF t n this, of "col r"] have "G r t = ?row r t" unfolding y by simp
    moreover have "drawn s (?row r t)"
      using screen.paint_row [OF t n, of "y0 + r" "\<lambda>i. col r (of_nat i)" "f r"] r k col [of _ r] by simp
    ultimately show "G r t = ?row r t \<and> drawn s (?row r t)" by simp
  qed
  moreover note screen.paint_rect [OF drawn_refl [OF ok] n k, of "\<lambda>r i. col r (of_nat i)" f]
  ultimately show "drawn s (fold G [0..<k] s)"
    and "x < unat (fb_width s) \<Longrightarrow> y < unat (fb_height s) \<Longrightarrow> pixel (fold G [0..<k] s) x y =
      (if y0 \<le> y \<and> y < y0 + k \<and> unat x0 \<le> x \<and> x < unat x0 + unat n then f (y - y0) (x - unat x0) else pixel s x y)"
    using col by auto
qed

subsection \<open>Cells, the cursor, rows\<close>

text \<open>The picture of a character.\<close>

definition glyph_pix :: "'a console_scheme \<Rightarrow> u8 \<Rightarrow> nat \<Rightarrow> nat \<Rightarrow> u32" where
  "glyph_pix s ch r cx =
     (if glyph_bit (glyph_data s + ucast (ucast (glyph_code s ch) * glyph_bytes s :: u32)) (of_nat r) (of_nat cx) s \<noteq> 0 then fg else bg)"

lemma unat_mult_exact: "unat a * unat b < 2 ^ 32 \<Longrightarrow> unat (a * b :: u32) = unat a * unat b"
  by (simp add: unat_word_ariths(2))

lemma cell_fits:
  assumes "fb_ok s" and "unat col < unat (cols s)" and "unat row < unat (rows s)"
  shows "unat (col * glyph_w s) = unat col * unat (glyph_w s)" and "unat (row * glyph_h s) = unat row * unat (glyph_h s)"
    and "unat col * unat (glyph_w s) + unat (glyph_w s) \<le> unat (fb_width s)"
    and "unat row * unat (glyph_h s) + unat (glyph_h s) \<le> unat (fb_height s)"
proof -
  note ok = fb_okD [OF assms(1)]
  have "Suc (unat col) * unat (glyph_w s) \<le> unat (cols s) * unat (glyph_w s)" using assms(2) by (intro mult_le_mono1) simp
  then show w: "unat col * unat (glyph_w s) + unat (glyph_w s) \<le> unat (fb_width s)" using ok(6) by simp
  have "Suc (unat row) * unat (glyph_h s) \<le> unat (rows s) * unat (glyph_h s)" using assms(3) by (intro mult_le_mono1) simp
  then show h: "unat row * unat (glyph_h s) + unat (glyph_h s) \<le> unat (fb_height s)" using ok(7) by simp
  show "unat (col * glyph_w s) = unat col * unat (glyph_w s)" "unat (row * glyph_h s) = unat row * unat (glyph_h s)"
    using w h unat_lt2p [of "fb_width s"] unat_lt2p [of "fb_height s"] by (auto intro!: unat_mult_exact)
qed

lemma unat_small32: "i < unat (n :: u32) \<Longrightarrow> unat (of_nat i :: u32) = i"
  using unat_lt2p [of n] by (simp only: unat_of_nat) simp

lemma glyph_bit_drawn:
  fixes ch :: u8
  assumes "drawn s t" and "i < unat (glyph_h s)" and "j < unat (glyph_w s)"
  shows "glyph_bit (glyph_data s + ucast (ucast (glyph_code s ch) * glyph_bytes s :: u32)) (of_nat i) (of_nat j) t =
    glyph_bit (glyph_data s + ucast (ucast (glyph_code s ch) * glyph_bytes s :: u32)) (of_nat i) (of_nat j) s"
proof -
  have "fb_ok s" using assms(1) by (simp add: drawn_def)
  then have "glyph_addr s (glyph_code s ch) (of_nat i) (of_nat j) \<notin> fb_bytes s"
    by (rule fb_okD(10)) (simp_all only: unat_small32 [OF assms(2)] unat_small32 [OF assms(3)] assms(2,3))
  from drawn_mem [OF assms(1) this] drawn_fields(11) [OF assms(1)] show ?thesis by (simp add: glyph_bit_def glyph_addr_def)
qed

lemma draw_cell_spec:
  assumes ok: "fb_ok s" and c: "unat col < unat (cols s)" and r: "unat row < unat (rows s)"
  shows "drawn s (draw_cell ch col row s)"
    and "x < unat (fb_width s) \<Longrightarrow> y < unat (fb_height s) \<Longrightarrow> pixel (draw_cell ch col row s) x y =
      (if unat row * unat (glyph_h s) \<le> y \<and> y < unat row * unat (glyph_h s) + unat (glyph_h s) \<and>
          unat col * unat (glyph_w s) \<le> x \<and> x < unat col * unat (glyph_w s) + unat (glyph_w s)
       then glyph_pix s ch (y - unat row * unat (glyph_h s)) (x - unat col * unat (glyph_w s)) else pixel s x y)"
proof -
  note fit = cell_fits [OF ok c r]
  let ?g = "glyph_data s + ucast (ucast (glyph_code s ch) * glyph_bytes s :: u32)"
  let ?G = "\<lambda>i t. fold (\<lambda>cx t. put_pixel (col * glyph_w s + cx) (row * glyph_h s + of_nat i) (if glyph_bit ?g (of_nat i) cx t \<noteq> 0 then fg else bg) t)
      (counter 0 (glyph_w t)) t"
  have eq: "draw_cell ch col row s = fold ?G [0..<unat (glyph_h s)] s"
    by (simp add: draw_cell_def Let_def fold_counter glyph_code_def [symmetric])
  have G: "\<exists>y. unat y = unat row * unat (glyph_h s) + i \<and> ?G i t =
      fold (\<lambda>cx t. put_pixel (col * glyph_w s + cx) y (if glyph_bit ?g (of_nat i) cx t \<noteq> 0 then fg else bg) t) (counter 0 (glyph_w s)) t"
    if "i < unat (glyph_h s)" "drawn s t" for i t
  proof -
    have "unat (row * glyph_h s + of_nat i) = unat row * unat (glyph_h s) + i"
      using fit(2,4) unat_small32 [OF that(1)] that(1) unat_lt2p [of "fb_height s"] by (simp add: unat_add_exact)
    then show ?thesis using drawn_fields(8) [OF that(2)] by (intro exI [of _ "row * glyph_h s + of_nat i"]) simp
  qed
  have w: "unat (col * glyph_w s) + unat (glyph_w s) \<le> unat (fb_width s)" using fit(1,3) by simp
  have colour: "(if glyph_bit ?g (of_nat i) (of_nat j) t \<noteq> 0 then fg else bg) = glyph_pix s ch i j"
    if "drawn s t" "i < unat (glyph_h s)" "j < unat (glyph_w s)" for i j t
    using glyph_bit_drawn [OF that, of ch] by (simp add: glyph_pix_def)
  note R = draw_rect [OF ok w fit(4), of ?G "\<lambda>i cx t. if glyph_bit ?g (of_nat i) cx t \<noteq> 0 then fg else bg" "glyph_pix s ch"]
  show "drawn s (draw_cell ch col row s)" unfolding eq by (rule R(1)) (fact G, fact colour)
  show "pixel (draw_cell ch col row s) x y =
      (if unat row * unat (glyph_h s) \<le> y \<and> y < unat row * unat (glyph_h s) + unat (glyph_h s) \<and>
          unat col * unat (glyph_w s) \<le> x \<and> x < unat col * unat (glyph_w s) + unat (glyph_w s)
       then glyph_pix s ch (y - unat row * unat (glyph_h s)) (x - unat col * unat (glyph_w s)) else pixel s x y)"
    if "x < unat (fb_width s)" "y < unat (fb_height s)"
    unfolding eq fit(1) [symmetric] by (rule R(2)) (fact G, fact colour, fact that(1), fact that(2))
qed

lemma paint_cursor_spec:
  assumes ok: "fb_ok s" and c: "unat (cur_col s) < unat (cols s)" and r: "unat (cur_row s) < unat (rows s)"
  shows "drawn s (paint_cursor colour s)"
    and "x < unat (fb_width s) \<Longrightarrow> y < unat (fb_height s) \<Longrightarrow> pixel (paint_cursor colour s) x y =
      (if y = unat (cur_row s) * unat (glyph_h s) + (unat (glyph_h s) - 1) \<and>
          unat (cur_col s) * unat (glyph_w s) \<le> x \<and> x < unat (cur_col s) * unat (glyph_w s) + unat (glyph_w s)
       then colour else pixel s x y)"
proof -
  note fit = cell_fits [OF ok c r] and h = fb_okD(5) [OF ok]
  let ?yw = "cur_row s * glyph_h s + (glyph_h s - 1)" and ?bot = "unat (cur_row s) * unat (glyph_h s) + (unat (glyph_h s) - 1)"
  have "unat (glyph_h s - 1) = unat (glyph_h s) - 1" using h by (intro unat_minus_one) auto
  then have y: "unat ?yw = ?bot" using fit(2,4) h unat_lt2p [of "fb_height s"] by (simp add: unat_add_exact)
  let ?G = "\<lambda>i :: nat. fold (\<lambda>x. put_pixel (cur_col s * glyph_w s + x) ?yw colour) (counter 0 (glyph_w s))"
  have eq: "paint_cursor colour s = fold ?G [0..<1] s" by (simp add: paint_cursor_def Let_def)
  have w: "unat (cur_col s * glyph_w s) + unat (glyph_w s) \<le> unat (fb_width s)" using fit(1,3) by simp
  have k: "?bot + 1 \<le> unat (fb_height s)" using fit(4) h by simp
  note R = draw_rect [OF ok w k, of ?G "\<lambda>_ _ _. colour" "\<lambda>_ _. colour"]
  have G: "\<exists>y. unat y = ?bot + i \<and> ?G i t = fold (\<lambda>cx. put_pixel (cur_col s * glyph_w s + cx) y colour) (counter 0 (glyph_w s)) t"
    if "i < 1" for i t
    using that y by auto
  show "drawn s (paint_cursor colour s)" unfolding eq by (rule R(1)) (use G in auto)
  show "pixel (paint_cursor colour s) x y = (if y = ?bot \<and> unat (cur_col s) * unat (glyph_w s) \<le> x \<and>
      x < unat (cur_col s) * unat (glyph_w s) + unat (glyph_w s) then colour else pixel s x y)"
    if "x < unat (fb_width s)" "y < unat (fb_height s)"
  proof -
    have "pixel (fold ?G [0..<1] s) x y = (if ?bot \<le> y \<and> y < ?bot + 1 \<and> unat (cur_col s * glyph_w s) \<le> x \<and>
        x < unat (cur_col s * glyph_w s) + unat (glyph_w s) then colour else pixel s x y)"
      by (rule R(2)) (use G that in auto)
    then show ?thesis unfolding eq fit(1) by auto
  qed
qed

lemma fill_rows_spec:
  assumes ok: "fb_ok s" and y: "unat y0 \<le> unat y1" "unat y1 \<le> unat (fb_height s)"
  shows "drawn s (fill_rows y0 y1 s)"
    and "x < unat (fb_width s) \<Longrightarrow> y < unat (fb_height s) \<Longrightarrow>
      pixel (fill_rows y0 y1 s) x y = (if unat y0 \<le> y \<and> y < unat y1 then bg else pixel s x y)"
proof -
  let ?G = "\<lambda>i t. fold (\<lambda>x. put_pixel (0 + x) (of_nat (unat y0 + i)) bg) (counter 0 (fb_width t)) t"
  have eq: "fill_rows y0 y1 s = fold ?G [0..<unat y1 - unat y0] s"
    unfolding fill_rows_def fold_counter [of _ y0] fold_shift [OF y(1)] by simp
  have w: "unat (0 :: u32) + unat (fb_width s) \<le> unat (fb_width s)" by simp
  have k: "unat y0 + (unat y1 - unat y0) \<le> unat (fb_height s)" using y by simp
  note R = draw_rect [OF ok w k, of ?G "\<lambda>_ _ _. bg" "\<lambda>_ _. bg"]
  have G: "\<exists>y. unat y = unat y0 + i \<and> ?G i t = fold (\<lambda>cx. put_pixel (0 + cx) y bg) (counter 0 (fb_width s)) t"
    if "i < unat y1 - unat y0" "drawn s t" for i t
  proof -
    have "unat y0 + i < unat y1" using that(1) by simp
    from unat_small32 [OF this] show ?thesis using drawn_fields(2) [OF that(2)] by metis
  qed
  show "drawn s (fill_rows y0 y1 s)" unfolding eq by (rule R(1)) (use G in auto)
  show "pixel (fill_rows y0 y1 s) x y = (if unat y0 \<le> y \<and> y < unat y1 then bg else pixel s x y)"
    if "x < unat (fb_width s)" "y < unat (fb_height s)"
  proof -
    have "pixel (fold ?G [0..<unat y1 - unat y0] s) x y = (if unat y0 \<le> y \<and> y < unat y0 + (unat y1 - unat y0) \<and> unat (0 :: u32) \<le> x \<and>
        x < unat (0 :: u32) + unat (fb_width s) then bg else pixel s x y)"
      by (rule R(2)) (use G that in auto)
    then show ?thesis unfolding eq using that y(1) by auto
  qed
qed

lemma unat_of_nat64: "k < 2 ^ 64 \<Longrightarrow> unat (of_nat k :: u64) = k"
  by (simp only: unat_of_nat) simp

lemma load_le_shift:
  assumes "\<And>i. i < n \<Longrightarrow> m (a + of_nat i) = m' (b + of_nat i)"
  shows "load_le n m a = (load_le n m' b :: 'b::len word)"
  using assms
proof (induction n arbitrary: a b)
  case (Suc n)
  have "load_le n m (a + 1) = (load_le n m' (b + 1) :: 'b word)"
  proof (rule Suc.IH)
    fix i assume "i < n"
    then show "m (a + 1 + of_nat i) = m' (b + 1 + of_nat i)" using Suc.prems [of "Suc i"] by (simp add: add.assoc)
  qed
  moreover have "m a = m' b" using Suc.prems [of 0] by simp
  ultimately show ?case by simp
qed simp

subsection \<open>Scrolling\<close>

lemma move_up_spec:
  assumes ok: "fb_ok s" and g: "unat (glyph_h s) \<le> unat (fb_height s)"
  defines "src \<equiv> fb_base s + ucast (glyph_h s) * ucast (fb_pitch s)" and "n \<equiv> (ucast (fb_height s - glyph_h s) :: u64) * ucast (fb_pitch s)"
  defines "t \<equiv> s\<lparr>mem := snd (memmove (fb_base s) src n (mem s))\<rparr>"
  shows "drawn s t"
    and "x < unat (fb_width s) \<Longrightarrow> y + unat (glyph_h s) < unat (fb_height s) \<Longrightarrow> pixel t x y = pixel s x (y + unat (glyph_h s))"
proof -
  let ?H = "unat (fb_height s)" and ?P = "unat (fb_pitch s)" and ?g = "unat (glyph_h s)"
  note sz = fb_okD(3) [OF ok]
  have hp: "?H * ?P \<le> 2 ^ 64" using sz by simp
  have uh: "unat (fb_height s - glyph_h s) = ?H - ?g" using unat_sub [of "glyph_h s" "fb_height s"] g by (simp add: word_le_nat_alt)
  have u: "ucast v = (of_nat (unat v) :: u64)" for v :: u32 by simp
  have n: "n = of_nat ((?H - ?g) * ?P)" unfolding n_def u uh by (rule of_nat_mult [symmetric])
  have src: "src = fb_base s + of_nat (?g * ?P)" unfolding src_def by simp
  have pos: "0 < ?P" using fb_okD(2,4,6,8) [OF ok] by (metis div_by_0 le_zero_eq mult_is_0 not_gr_zero zero_neq_numeral)
  have split: "(?H - ?g) * ?P + ?g * ?P = ?H * ?P" using g by (simp add: add_mult_distrib [symmetric])
  have gp: "0 < ?g * ?P" using pos fb_okD(5) [OF ok] by simp
  have lt: "(?H - ?g) * ?P < 2 ^ 64" using split gp hp by linarith
  then have un: "unat n = (?H - ?g) * ?P" unfolding n by (simp only: unat_of_nat) simp
  have nw: "no_wrap (fb_base s) n" using sz un split by (simp add: no_wrap_def)
  have nw': "no_wrap src n"
  proof (cases "unat (fb_base s) + ?g * ?P < 2 ^ 64")
    case True
    then have "unat (of_nat (?g * ?P) :: u64) = ?g * ?P" by (simp only: unat_of_nat) simp
    then have "unat src = unat (fb_base s) + ?g * ?P" using True unfolding src by (subst unat_add_exact) simp_all
    then show ?thesis using sz un split by (simp add: no_wrap_def)
  next
    case False
    then have "unat n = 0" using un sz split by linarith
    then show ?thesis using unat_lt2p [of src] by (simp add: no_wrap_def)
  qed
  note byte = memmove_byte [OF nw nw', of "mem s"]
  have off: "snd (memmove (fb_base s) src n (mem s)) a = mem s a" if "a \<notin> fb_bytes s" for a
    using that byte [of a] un split by (simp add: fb_bytes_def word_less_nat_alt)
  then show dt: "drawn s t" unfolding drawn_def t_def using ok by blast
  show "pixel t x y = pixel s x (y + ?g)" if x: "x < unat (fb_width s)" and y: "y + ?g < ?H"
  proof -
    have row: "y * ?P + 4 * x + 4 \<le> (?H - ?g) * ?P"
    proof -
      have "4 * x + 4 \<le> ?P" using fb_okD(2) [OF ok] x by simp
      then have "y * ?P + 4 * x + 4 \<le> Suc y * ?P" by simp
      also have "\<dots> \<le> (?H - ?g) * ?P" using y by (intro mult_le_mono1) simp
      finally show ?thesis .
    qed
    have "snd (memmove (fb_base s) src n (mem s)) (pixel_addr s x y + of_nat i) = mem s (pixel_addr s x (y + ?g) + of_nat i)" if "i < 4" for i
    proof -
      let ?o = "y * ?P + 4 * x + i"
      have o: "pixel_addr s x y + of_nat i - fb_base s = of_nat ?o" by (simp add: pixel_addr_def)
      have "?o < (?H - ?g) * ?P" using row that by linarith
      moreover from this have "unat (of_nat ?o :: u64) = ?o" using lt by (intro unat_of_nat64) linarith
      ultimately have "of_nat ?o < n" by (simp only: word_less_nat_alt un)
      moreover have "src + of_nat ?o = pixel_addr s x (y + ?g) + of_nat i" unfolding src pixel_addr_def by (simp add: algebra_simps)
      ultimately show ?thesis unfolding byte o by (simp only: if_True)
    qed
    then have "load32 (snd (memmove (fb_base s) src n (mem s))) (pixel_addr s x y) = load32 (mem s) (pixel_addr s x (y + ?g))"
      unfolding load32_def by (rule load_le_shift)
    moreover have "mem t = snd (memmove (fb_base s) src n (mem s))" by (simp add: t_def)
    ultimately show ?thesis unfolding pixel_def drawn_fields(19) [OF dt] by simp
  qed
qed

lemma scroll_spec:
  assumes ok: "fb_ok s"
  shows "drawn s (scroll s)"
    and "x < unat (fb_width s) \<Longrightarrow> y < unat (fb_height s) \<Longrightarrow> pixel (scroll s) x y =
      (if (unat (rows s) - 1) * unat (glyph_h s) \<le> y then bg else pixel s x (y + unat (glyph_h s)))"
proof -
  note D = fb_okD [OF ok]
  have split: "(unat (rows s) - 1) * unat (glyph_h s) + unat (glyph_h s) = unat (rows s) * unat (glyph_h s)"
    using D(9) by (cases "unat (rows s)") simp_all
  have g: "unat (glyph_h s) \<le> unat (fb_height s)" using split D(7) by linarith
  let ?t = "s\<lparr>mem := snd (memmove (fb_base s) (fb_base s + ucast (glyph_h s) * ucast (fb_pitch s))
      ((ucast (fb_height s - glyph_h s) :: u64) * ucast (fb_pitch s)) (mem s))\<rparr>"
  note m = move_up_spec [OF ok g]
  note f = drawn_fields [OF m(1)] and okt = drawn_ok [OF m(1)]
  have eq: "scroll s = fill_rows ((rows s - 1) * glyph_h s) (fb_height s) ?t" by (simp add: scroll_def Let_def)
  have "unat (rows s - 1) = unat (rows s) - 1" using D(9) by (intro unat_minus_one) auto
  then have y0: "unat ((rows s - 1) * glyph_h s) = (unat (rows s) - 1) * unat (glyph_h s)"
    using split D(7) unat_lt2p [of "fb_height s"] by (subst unat_mult_exact) simp_all
  have le: "unat ((rows s - 1) * glyph_h s) \<le> unat (fb_height s)" unfolding y0 using split D(7) by linarith
  have fit: "unat (fb_height s) \<le> unat (fb_height ?t)" by simp
  note F = fill_rows_spec [OF okt le fit]
  show "drawn s (scroll s)" unfolding eq by (rule drawn_trans [OF m(1) F(1)])
  show "pixel (scroll s) x y = (if (unat (rows s) - 1) * unat (glyph_h s) \<le> y then bg else pixel s x (y + unat (glyph_h s)))"
    if x: "x < unat (fb_width s)" and y: "y < unat (fb_height s)"
  proof -
    have "y + unat (glyph_h s) < unat (fb_height s)" if "\<not> (unat (rows s) - 1) * unat (glyph_h s) \<le> y" using that split D(7) by linarith
    then show ?thesis unfolding eq using F(2) [of x y] m(2) [OF x, of y] x y by (simp add: y0)
  qed
qed

end
