(* ===== verification/Terminal.thy ===== *)
theory Terminal
  imports Console_Draw
begin

text \<open>
  The terminal the console implements: a grid of characters with a cursor. The framebuffer is shown
  to hold, after every character, exactly the picture of that grid with the underline cursor in it.
  The cursor leaves a mark: taking it down paints the bottom pixel row of its cell in the background
  colour, so a cell the cursor has stood on since it was drawn has lost that row (\<open>True\<close> in
  \<open>cell\<close>). The source's comment takes such cells to be empty; after a carriage return they are not.
\<close>

subsection \<open>The abstract terminal\<close>

record terminal =
  t_cols :: nat
  t_rows :: nat
  t_col :: nat
  t_row :: nat
  cell :: "nat \<Rightarrow> nat \<Rightarrow> u8 \<times> bool"

definition set_cell :: "nat \<Rightarrow> nat \<Rightarrow> u8 \<times> bool \<Rightarrow> terminal \<Rightarrow> terminal" where
  "set_cell r c v T = T\<lparr>cell := (cell T)(r := (cell T r)(c := v))\<rparr>"

definition mark :: "terminal \<Rightarrow> terminal" where
  "mark T = set_cell (t_row T) (t_col T) (fst (cell T (t_row T) (t_col T)), True) T"

definition term_newline :: "terminal \<Rightarrow> terminal" where
  "term_newline T =
     (if Suc (t_row T) < t_rows T then T\<lparr>t_col := 0, t_row := Suc (t_row T)\<rparr>
      else T\<lparr>cell := (\<lambda>r. if Suc r < t_rows T then cell T (Suc r) else (\<lambda>c. (0, False))), t_col := 0\<rparr>)"

definition advance :: "terminal \<Rightarrow> terminal" where
  "advance T = (if Suc (t_col T) < t_cols T then T\<lparr>t_col := Suc (t_col T)\<rparr> else term_newline T)"

text \<open>Blanks up to the next tab stop, or to the end of the line and on to the next one.\<close>

definition tab_to :: "nat \<Rightarrow> terminal \<Rightarrow> terminal" where
  "tab_to stop T =
     (let T' = T\<lparr>cell := (cell T)(t_row T := (\<lambda>c. if t_col T \<le> c \<and> c < min stop (t_cols T) then (0, False) else cell T (t_row T) c))\<rparr>
      in if stop < t_cols T then T'\<lparr>t_col := stop\<rparr> else term_newline T')"

definition term_tab :: "terminal \<Rightarrow> terminal" where
  "term_tab T = tab_to (8 * (t_col T div 8) + 8) T"

definition term_back :: "terminal \<Rightarrow> terminal" where
  "term_back T =
     (let T = (if 0 < t_col T then T\<lparr>t_col := t_col T - 1\<rparr>
               else if 0 < t_row T then T\<lparr>t_row := t_row T - 1, t_col := t_cols T - 1\<rparr> else T)
      in set_cell (t_row T) (t_col T) (0, False) T)"

definition term_putc :: "char \<Rightarrow> terminal \<Rightarrow> terminal" where
  "term_putc c T =
     (let T = mark T
      in if c = CHR 0x0A then term_newline T
         else if c = CHR 0x0D then T\<lparr>t_col := 0\<rparr>
         else if c = CHR 0x08 then term_back T
         else if c = CHR 0x09 then term_tab T
         else if (of_char c :: u8) \<ge> 0x20 then advance (set_cell (t_row T) (t_col T) (of_char c, False) T)
         else T)"

definition term_write :: "string \<Rightarrow> terminal \<Rightarrow> terminal" where
  "term_write cs T = fold term_putc cs T"

subsection \<open>What the screen shows\<close>

definition cell_pix :: "'a console_scheme \<Rightarrow> u8 \<times> bool \<Rightarrow> nat \<Rightarrow> nat \<Rightarrow> u32" where
  "cell_pix s v i j = (if snd v \<and> i = unat (glyph_h s) - 1 then bg else glyph_pix s (fst v) i j)"

definition blank_font :: "'a console_scheme \<Rightarrow> bool" where
  "blank_font s \<longleftrightarrow> (\<forall>i < unat (glyph_h s). \<forall>j < unat (glyph_w s). glyph_pix s 0 i j = bg)"

text \<open>The picture of the grid without the cursor; where the cursor is; and the whole screen.\<close>

definition pictures :: "'a console_scheme \<Rightarrow> terminal \<Rightarrow> bool" where
  "pictures s T \<longleftrightarrow> fb_ok s \<and> blank_font s \<and> t_cols T = unat (cols s) \<and> t_rows T = unat (rows s) \<and>
     (\<forall>r < t_rows T. \<forall>c < t_cols T. \<forall>i < unat (glyph_h s). \<forall>j < unat (glyph_w s).
        pixel s (c * unat (glyph_w s) + j) (r * unat (glyph_h s) + i) = cell_pix s (cell T r c) i j)"

definition cursor_at :: "'a console_scheme \<Rightarrow> terminal \<Rightarrow> bool" where
  "cursor_at s T \<longleftrightarrow> t_col T = unat (cur_col s) \<and> t_row T = unat (cur_row s) \<and> t_col T < t_cols T \<and> t_row T < t_rows T"

definition displays :: "'a console_scheme \<Rightarrow> terminal \<Rightarrow> bool" where
  "displays s T \<longleftrightarrow> fb_ok s \<and> blank_font s \<and> t_cols T = unat (cols s) \<and> t_rows T = unat (rows s) \<and> cursor_at s T \<and> ready s \<and>
     (\<forall>r < t_rows T. \<forall>c < t_cols T. \<forall>i < unat (glyph_h s). \<forall>j < unat (glyph_w s).
        pixel s (c * unat (glyph_w s) + j) (r * unat (glyph_h s) + i) =
        (if r = t_row T \<and> c = t_col T \<and> i = unat (glyph_h s) - 1 then fg else cell_pix s (cell T r c) i j))"

text \<open>What the console may change of the machine: the framebuffer and its cursor.\<close>

definition touches :: "'a console_scheme \<Rightarrow> 'a console_scheme \<Rightarrow> bool" where
  "touches s t \<longleftrightarrow> (\<exists>m c r. t = s\<lparr>mem := m, cur_col := c, cur_row := r\<rparr> \<and> (\<forall>a. a \<notin> fb_bytes s \<longrightarrow> m a = mem s a))"

definition paints :: "'a console_scheme \<Rightarrow> 'a console_scheme \<Rightarrow> terminal \<Rightarrow> bool" where
  "paints s0 s T \<longleftrightarrow> touches s0 s \<and> pictures s T"

lemma touches_refl: "touches s s"
  unfolding touches_def by (intro exI [of _ "mem s"] exI [of _ "cur_col s"] exI [of _ "cur_row s"]) simp

lemma touches_drawn:
  assumes "touches s t" and "drawn t u"
  shows "touches s u"
proof -
  obtain m c r where t: "t = s\<lparr>mem := m, cur_col := c, cur_row := r\<rparr>" "\<And>a. a \<notin> fb_bytes s \<Longrightarrow> m a = mem s a"
    using assms(1) by (auto simp: touches_def)
  moreover have "fb_bytes t = fb_bytes s" by (simp add: t fb_bytes_def)
  moreover obtain m' where "u = t\<lparr>mem := m'\<rparr>" "\<And>a. a \<notin> fb_bytes t \<Longrightarrow> m' a = mem t a"
    using assms(2) by (auto simp: drawn_def)
  ultimately show ?thesis
    unfolding touches_def by (intro exI [of _ m'] exI [of _ c] exI [of _ r]) simp
qed

lemma touches_cursor:
  assumes "touches s t"
  shows "touches s (t\<lparr>cur_col := c\<rparr>)" and "touches s (t\<lparr>cur_row := r\<rparr>)"
proof -
  obtain m c' r' where t: "t = s\<lparr>mem := m, cur_col := c', cur_row := r'\<rparr>" "\<And>a. a \<notin> fb_bytes s \<Longrightarrow> m a = mem s a"
    using assms by (auto simp: touches_def)
  show "touches s (t\<lparr>cur_col := c\<rparr>)" unfolding touches_def using t by (intro exI [of _ m] exI [of _ c] exI [of _ r']) simp
  show "touches s (t\<lparr>cur_row := r\<rparr>)" unfolding touches_def using t by (intro exI [of _ m] exI [of _ c'] exI [of _ r]) simp
qed

lemma touches_fields: "touches s t \<Longrightarrow> ready t = ready s \<and> cols t = cols s \<and> rows t = rows s"
  by (auto simp: touches_def)

lemma in_cell: "j < w \<Longrightarrow> c' * w \<le> c * w + j \<and> c * w + j < c' * w + w \<longleftrightarrow> c = (c' :: nat)"
proof
  assume j: "j < w" and *: "c' * w \<le> c * w + j \<and> c * w + j < c' * w + w"
  have "(c * w + j) div w = c" using j by simp
  moreover have "(c * w + j) div w = c'" using * by (intro div_nat_eqI) (simp_all add: mult.commute)
  ultimately show "c = c'" by simp
qed auto

lemma row_bottom:
  assumes "i < h"
  shows "r * h + i = r' * h + (h - 1) \<longleftrightarrow> r = r' \<and> i = h - (1 :: nat)"
proof
  assume *: "r * h + i = r' * h + (h - 1)"
  then have "r = r'" using in_cell [OF assms, of r' r] assms by linarith
  then show "r = r' \<and> i = h - 1" using * by simp
qed simp

lemma cell_inside:
  assumes "fb_ok s" and "r < unat (rows s)" and "c < unat (cols s)" and "i < unat (glyph_h s)" and "j < unat (glyph_w s)"
  shows "c * unat (glyph_w s) + j < unat (fb_width s)" and "r * unat (glyph_h s) + i < unat (fb_height s)"
proof -
  have "Suc c * unat (glyph_w s) \<le> unat (cols s) * unat (glyph_w s)" using assms(3) by (intro mult_le_mono1) simp
  then show "c * unat (glyph_w s) + j < unat (fb_width s)" using fb_okD(6) [OF assms(1)] assms(5) by simp
  have "Suc r * unat (glyph_h s) \<le> unat (rows s) * unat (glyph_h s)" using assms(2) by (intro mult_le_mono1) simp
  then show "r * unat (glyph_h s) + i < unat (fb_height s)" using fb_okD(7) [OF assms(1)] assms(4) by simp
qed

lemma glyph_pix_drawn:
  "drawn s t \<Longrightarrow> i < unat (glyph_h s) \<Longrightarrow> j < unat (glyph_w s) \<Longrightarrow> glyph_pix t ch i j = glyph_pix s ch i j"
  using glyph_bit_drawn [of s t i j ch] drawn_fields [of s t] by (simp add: glyph_pix_def glyph_code_def)

lemma cell_pix_drawn:
  "drawn s t \<Longrightarrow> i < unat (glyph_h s) \<Longrightarrow> j < unat (glyph_w s) \<Longrightarrow> cell_pix t v i j = cell_pix s v i j"
  using glyph_pix_drawn [of s t i j] drawn_fields [of s t] by (simp add: cell_pix_def)

lemma blank_font_drawn: "drawn s t \<Longrightarrow> blank_font t = blank_font s"
  using glyph_pix_drawn [of s t] drawn_fields [of s t] by (auto simp: blank_font_def)

text \<open>Moving the cursor on either side leaves the picture alone.\<close>

lemma cursor_move_frame:
  "fb_ok (s\<lparr>cur_col := c\<rparr>) = fb_ok s" "fb_ok (s\<lparr>cur_row := r\<rparr>) = fb_ok s"
  "pixel (s\<lparr>cur_col := c\<rparr>) = pixel s" "pixel (s\<lparr>cur_row := r\<rparr>) = pixel s"
  "cell_pix (s\<lparr>cur_col := c\<rparr>) = cell_pix s" "cell_pix (s\<lparr>cur_row := r\<rparr>) = cell_pix s"
  "blank_font (s\<lparr>cur_col := c\<rparr>) = blank_font s" "blank_font (s\<lparr>cur_row := r\<rparr>) = blank_font s"
  by (auto simp: fb_ok_def fb_bytes_def glyph_addr_def pixel_def pixel_addr_def cell_pix_def glyph_pix_def glyph_bit_def glyph_code_def
      blank_font_def fun_eq_iff)

lemma paints_cursor [simp]:
  "paints s0 s T \<Longrightarrow> paints s0 (s\<lparr>cur_col := c\<rparr>) T" "paints s0 s T \<Longrightarrow> paints s0 (s\<lparr>cur_row := r\<rparr>) T"
  "paints s0 s (T\<lparr>t_col := i\<rparr>) = paints s0 s T" "paints s0 s (T\<lparr>t_row := j\<rparr>) = paints s0 s T"
  by (auto simp: paints_def touches_cursor pictures_def cursor_move_frame)

text \<open>A drawing step, judged by the picture alone.\<close>

lemma paints_drawn:
  assumes "paints s0 s T" and d: "drawn s t" and T': "t_cols T' = t_cols T" "t_rows T' = t_rows T"
    and pix: "\<And>r c i j. r < unat (rows s) \<Longrightarrow> c < unat (cols s) \<Longrightarrow> i < unat (glyph_h s) \<Longrightarrow> j < unat (glyph_w s) \<Longrightarrow>
      pixel t (c * unat (glyph_w s) + j) (r * unat (glyph_h s) + i) = cell_pix s (cell T' r c) i j"
  shows "paints s0 t T'"
proof -
  have "touches s0 t" using assms(1) touches_drawn [OF _ d] by (auto simp: paints_def)
  moreover have "pictures t T'"
    using assms(1) drawn_ok [OF d] blank_font_drawn [OF d] pix
    by (simp add: paints_def pictures_def T' drawn_fields [OF d] cell_pix_drawn [OF d])
  ultimately show ?thesis by (simp add: paints_def)
qed

lemma paintsD:
  assumes "paints s0 s T"
  shows "fb_ok s" and "blank_font s" and "t_cols T = unat (cols s)" and "t_rows T = unat (rows s)" and "touches s0 s"
    and "r < unat (rows s) \<Longrightarrow> c < unat (cols s) \<Longrightarrow> i < unat (glyph_h s) \<Longrightarrow> j < unat (glyph_w s) \<Longrightarrow>
      pixel s (c * unat (glyph_w s) + j) (r * unat (glyph_h s) + i) = cell_pix s (cell T r c) i j"
  using assms by (auto simp: paints_def pictures_def)

subsection \<open>The steps of a character\<close>

lemma paints_draw_cell:
  assumes P: "paints s0 s T" and col: "unat col < unat (cols s)" and row: "unat row < unat (rows s)"
  shows "paints s0 (draw_cell ch col row s) (set_cell (unat row) (unat col) (ch, False) T)"
proof (rule paints_drawn [OF P])
  note D = draw_cell_spec [OF paintsD(1) [OF P] col row]
  show "drawn s (draw_cell ch col row s)" by (rule D(1))
  fix r c i j assume rc: "r < unat (rows s)" "c < unat (cols s)" and ij: "i < unat (glyph_h s)" "j < unat (glyph_w s)"
  show "pixel (draw_cell ch col row s) (c * unat (glyph_w s) + j) (r * unat (glyph_h s) + i) =
      cell_pix s (cell (set_cell (unat row) (unat col) (ch, False) T) r c) i j"
    unfolding D(2) [OF cell_inside [OF paintsD(1) [OF P] rc ij]] conj_assoc [symmetric] in_cell [OF ij(1)]
    unfolding conj_assoc in_cell [OF ij(2)] using paintsD(6) [OF P rc ij]
    by (cases "r = unat row"; cases "c = unat col") (simp_all add: set_cell_def cell_pix_def)
qed (simp_all add: set_cell_def)

lemma paints_scroll:
  assumes P: "paints s0 s T"
  shows "paints s0 (scroll s) (T\<lparr>cell := (\<lambda>r. if Suc r < t_rows T then cell T (Suc r) else (\<lambda>c. (0, False)))\<rparr>)" (is "paints s0 _ ?T")
proof (rule paints_drawn [OF P])
  note D = scroll_spec [OF paintsD(1) [OF P]]
  show "drawn s (scroll s)" by (rule D(1))
  fix r c i j assume rc: "r < unat (rows s)" "c < unat (cols s)" and ij: "i < unat (glyph_h s)" "j < unat (glyph_w s)"
  have low: "(unat (rows s) - 1) * unat (glyph_h s) \<le> r * unat (glyph_h s) + i \<longleftrightarrow> \<not> Suc r < unat (rows s)"
  proof (cases "Suc r < unat (rows s)")
    case True
    then have "Suc r * unat (glyph_h s) \<le> (unat (rows s) - 1) * unat (glyph_h s)" by (intro mult_le_mono1) simp
    then show ?thesis using True ij(1) by simp
  next
    case False
    then have "unat (rows s) = Suc r" using rc(1) by simp
    then show ?thesis by simp
  qed
  have up: "pixel s (c * unat (glyph_w s) + j) (r * unat (glyph_h s) + i + unat (glyph_h s)) = cell_pix s (cell T (Suc r) c) i j"
    if "Suc r < unat (rows s)"
    using paintsD(6) [OF P that rc(2) ij] by (simp add: algebra_simps)
  have "glyph_pix s 0 i j = bg" using paintsD(2) [OF P] ij by (simp add: blank_font_def)
  then show "pixel (scroll s) (c * unat (glyph_w s) + j) (r * unat (glyph_h s) + i) = cell_pix s (cell ?T r c) i j"
    unfolding D(2) [OF cell_inside [OF paintsD(1) [OF P] rc ij]] low using up paintsD(4) [OF P]
    by (cases "Suc r < unat (rows s)") (simp, simp add: cell_pix_def)
qed simp_all

lemma paints_erase:
  assumes "displays s T"
  shows "paints s (erase_cursor s) (mark T)"
proof -
  have ok: "fb_ok s" and cr: "unat (cur_col s) < unat (cols s)" "unat (cur_row s) < unat (rows s)"
    and cur: "t_col T = unat (cur_col s)" "t_row T = unat (cur_row s)" and dim: "t_cols T = unat (cols s)" "t_rows T = unat (rows s)"
    and bf: "blank_font s" using assms by (auto simp: displays_def cursor_at_def)
  note D = paint_cursor_spec [OF ok cr, where colour = bg, folded erase_cursor_def]
  have "pixel (erase_cursor s) (c * unat (glyph_w s) + j) (r * unat (glyph_h s) + i) = cell_pix s (cell (mark T) r c) i j"
    if rc: "r < unat (rows s)" "c < unat (cols s)" and ij: "i < unat (glyph_h s)" "j < unat (glyph_w s)" for r c i j
  proof -
    have "pixel s (c * unat (glyph_w s) + j) (r * unat (glyph_h s) + i) =
        (if r = t_row T \<and> c = t_col T \<and> i = unat (glyph_h s) - 1 then fg else cell_pix s (cell T r c) i j)"
      using assms rc ij dim by (simp add: displays_def)
    moreover have "r * unat (glyph_h s) + i = unat (cur_row s) * unat (glyph_h s) + (unat (glyph_h s) - 1) \<longleftrightarrow>
        r = unat (cur_row s) \<and> i = unat (glyph_h s) - 1"
      by (rule row_bottom [OF ij(1)])
    moreover have "cell (mark T) r c = (if r = t_row T \<and> c = t_col T then (fst (cell T r c), True) else cell T r c)"
      by (simp add: mark_def set_cell_def)
    ultimately show ?thesis
      unfolding D(2) [OF cell_inside [OF ok rc ij]] in_cell [OF ij(2)] cur
      by (cases "i = unat (glyph_h s) - 1"; cases "r = unat (cur_row s) \<and> c = unat (cur_col s)") (simp_all add: cell_pix_def, blast)
  qed
  moreover have "touches s (erase_cursor s)" by (rule touches_drawn [OF touches_refl D(1)])
  ultimately show ?thesis
    using drawn_ok [OF D(1)] blank_font_drawn [OF D(1)] bf dim
    by (simp add: paints_def pictures_def drawn_fields [OF D(1)] cell_pix_drawn [OF D(1)] mark_def set_cell_def)
qed

lemma displays_draw_cursor:
  assumes P: "paints s0 s T" and C: "cursor_at s T" and "ready s0"
  shows "displays (draw_cursor s) T" and "touches s0 (draw_cursor s)"
proof -
  note ok = paintsD(1) [OF P] and dim = paintsD(3,4) [OF P]
  have cr: "unat (cur_col s) < unat (cols s)" "unat (cur_row s) < unat (rows s)" and cur: "t_col T = unat (cur_col s)" "t_row T = unat (cur_row s)"
    using C dim by (auto simp: cursor_at_def)
  note D = paint_cursor_spec [OF ok cr, where colour = fg, folded draw_cursor_def]
  show "touches s0 (draw_cursor s)" by (rule touches_drawn [OF paintsD(5) [OF P] D(1)])
  have "pixel (draw_cursor s) (c * unat (glyph_w s) + j) (r * unat (glyph_h s) + i) =
      (if r = t_row T \<and> c = t_col T \<and> i = unat (glyph_h s) - 1 then fg else cell_pix s (cell T r c) i j)"
    if rc: "r < unat (rows s)" "c < unat (cols s)" and ij: "i < unat (glyph_h s)" "j < unat (glyph_w s)" for r c i j
    using D(2) [OF cell_inside [OF ok rc ij]] in_cell [OF ij(2), of "unat (cur_col s)" c] row_bottom [OF ij(1), of r "unat (cur_row s)"]
      paintsD(6) [OF P rc ij] cur by auto
  moreover have "ready s" using touches_fields [OF paintsD(5) [OF P]] assms(3) by simp
  ultimately show "displays (draw_cursor s) T"
    using drawn_ok [OF D(1)] blank_font_drawn [OF D(1)] paintsD(2) [OF P] dim C
    by (simp add: displays_def cursor_at_def drawn_fields [OF D(1)] cell_pix_drawn [OF D(1)])
qed

text \<open>The next line; the blanks of a tab, up to any stop.\<close>

lemma paints_newline:
  assumes P: "paints s0 s T" and C: "cursor_at s T"
  shows "paints s0 (newline s) (term_newline T)" and "cursor_at (newline s) (term_newline T)"
proof -
  have dim: "t_cols T = unat (cols s)" "t_rows T = unat (rows s)" and C: "unat (cur_row s) < unat (rows s)" "unat (cur_col s) < unat (cols s)"
    and cur: "t_row T = unat (cur_row s)"
    using paintsD(3,4) [OF P] C by (auto simp: cursor_at_def)
  have suc: "unat (cur_row s + 1) = Suc (unat (cur_row s))" using C(1) unat_Suc_less [of "cur_row s" "rows s"] by (simp add: word_less_nat_alt)
  let ?s = "s\<lparr>cur_col := 0, cur_row := cur_row s + 1\<rparr>"
  have P': "paints s0 ?s T" using P by simp
  note S = paints_scroll [OF P'] and f = drawn_fields [OF scroll_spec(1) [OF paintsD(1) [OF P']]]
  have "unat (rows s - 1) = unat (rows s) - 1" using C(1) by (intro unat_minus_one) auto
  then show "cursor_at (newline s) (term_newline T)"
    using C suc cur dim f by (auto simp: newline_def term_newline_def cursor_at_def Let_def word_le_nat_alt)
  show "paints s0 (newline s) (term_newline T)"
    using P' S suc cur dim by (auto simp: newline_def term_newline_def Let_def word_le_nat_alt)
qed

lemma paints_tab:
  assumes "paints s0 s T" and "cursor_at s T" and "t_col T < unat target"
  shows "paints s0 (tab_loop target s) (tab_to (unat target) T) \<and> cursor_at (tab_loop target s) (tab_to (unat target) T)"
  using assms
proof (induction target s arbitrary: T rule: tab_loop.induct)
  case (1 target s)
  note P = "1.prems"(1) and C = "1.prems"(2)
  have cr: "unat (cur_col s) < unat (cols s)" "unat (cur_row s) < unat (rows s)" and cur: "t_col T = unat (cur_col s)" "t_row T = unat (cur_row s)"
    and dim: "t_cols T = unat (cols s)" "t_rows T = unat (rows s)"
    using C paintsD(3,4) [OF P] by (auto simp: cursor_at_def)
  have lt: "cur_col s < target" using "1.prems"(3) cur by (simp add: word_less_nat_alt)
  have suc: "unat (cur_col s + 1) = Suc (unat (cur_col s))" using cr(1) unat_Suc_less [of "cur_col s" "cols s"] by (simp add: word_less_nat_alt)
  let ?u = "clear_cell (cur_col s) (cur_row s) s" let ?s = "?u\<lparr>cur_col := cur_col s + 1\<rparr>"
  let ?T = "set_cell (t_row T) (t_col T) (0, False) T"
  note f = drawn_fields [OF draw_cell_spec(1) [OF paintsD(1) [OF P] cr, of 0], folded clear_cell_def]
  have Pu: "paints s0 ?u ?T" using paints_draw_cell [OF P cr, of 0] cur by (simp add: clear_cell_def)
  have Cu: "cursor_at ?u ?T" using C f by (simp add: cursor_at_def set_cell_def)
  show ?case
  proof (cases "cur_col s + 1 \<ge> cols s")
    case True
    have nl: "tab_loop target s = newline ?s" using lt True f by (subst tab_loop.simps) (simp add: Let_def)
    moreover have "newline ?s = newline ?u" by (simp add: newline_def)
    moreover have "tab_to (unat target) T = term_newline ?T"
      using True suc lt cur dim cr by (auto simp: tab_to_def Let_def set_cell_def word_le_nat_alt word_less_nat_alt fun_eq_iff term_newline_def)
    ultimately show ?thesis using paints_newline [OF Pu Cu] by simp
  next
    case False
    have go: "tab_loop target s = tab_loop target ?s" using lt False f by (subst tab_loop.simps) (simp add: Let_def)
    let ?T' = "?T\<lparr>t_col := Suc (t_col T)\<rparr>"
    have P': "paints s0 ?s ?T'" using Pu by simp
    have C': "cursor_at ?s ?T'" using Cu False suc cur dim f by (auto simp: cursor_at_def set_cell_def word_le_nat_alt)
    show ?thesis
    proof (cases "Suc (t_col T) < unat target")
      case True
      have "tab_to (unat target) ?T' = tab_to (unat target) T"
        using True False suc cur dim by (auto simp: tab_to_def Let_def set_cell_def word_le_nat_alt fun_eq_iff term_newline_def)
      moreover have "paints s0 (tab_loop target ?s) (tab_to (unat target) ?T') \<and> cursor_at (tab_loop target ?s) (tab_to (unat target) ?T')"
        using lt False f True by (intro "1.IH" [OF _ refl]) (simp_all add: P' C' del: paints_cursor)
      ultimately show ?thesis unfolding go by simp
    next
      case at: False
      then have "unat target = Suc (t_col T)" using "1.prems"(3) by simp
      then have "tab_to (unat target) T = ?T'"
        using False suc cur dim f by (auto simp: tab_to_def Let_def set_cell_def word_le_nat_alt fun_eq_iff less_Suc_eq intro!: terminal.equality)
      moreover have "tab_loop target ?s = ?s" using at suc cur by (subst tab_loop.simps) (simp add: word_less_nat_alt)
      ultimately show ?thesis using P' C' go by simp
    qed
  qed
qed

lemma paints_back:
  assumes P: "paints s0 s T" and C: "cursor_at s T"
  defines "s' \<equiv> (if cur_col s > 0 then s\<lparr>cur_col := cur_col s - 1\<rparr>
      else if cur_row s > 0 then let s = s\<lparr>cur_row := cur_row s - 1\<rparr> in s\<lparr>cur_col := cols s - 1\<rparr> else s)"
  shows "paints s0 (clear_cell (cur_col s') (cur_row s') s') (term_back T)" and "cursor_at (clear_cell (cur_col s') (cur_row s') s') (term_back T)"
proof -
  define T' where "T' = (if 0 < t_col T then T\<lparr>t_col := t_col T - 1\<rparr>
      else if 0 < t_row T then T\<lparr>t_row := t_row T - 1, t_col := t_cols T - 1\<rparr> else T)"
  have cr: "unat (cur_col s) < unat (cols s)" "unat (cur_row s) < unat (rows s)" and cur: "t_col T = unat (cur_col s)" "t_row T = unat (cur_row s)"
    and dim: "t_cols T = unat (cols s)" "t_rows T = unat (rows s)"
    using C paintsD(3,4) [OF P] by (auto simp: cursor_at_def)
  have pos: "0 < w \<longleftrightarrow> 0 < unat w" "0 < w \<Longrightarrow> unat (w - 1) = unat w - 1" for w :: u32
    by (simp add: word_less_nat_alt, intro unat_minus_one, auto)
  have cols: "unat (cols s - 1) = unat (cols s) - 1" using cr(1) by (intro unat_minus_one) auto
  have P': "paints s0 s' T'" using P by (simp add: s'_def T'_def Let_def)
  have C': "cursor_at s' T'" using cr cur dim cols pos by (auto simp: s'_def T'_def cursor_at_def Let_def)
  have cr': "unat (cur_col s') < unat (cols s')" "unat (cur_row s') < unat (rows s')" using C' paintsD(3,4) [OF P'] by (auto simp: cursor_at_def)
  have bk: "term_back T = set_cell (unat (cur_row s')) (unat (cur_col s')) (0, False) T'"
    using C' by (simp add: term_back_def T'_def [symmetric] cursor_at_def)
  show "paints s0 (clear_cell (cur_col s') (cur_row s') s') (term_back T)"
    unfolding bk clear_cell_def by (rule paints_draw_cell [OF P' cr'])
  show "cursor_at (clear_cell (cur_col s') (cur_row s') s') (term_back T)"
    using C' drawn_fields [OF draw_cell_spec(1) [OF paintsD(1) [OF P'] cr', of 0]] unfolding bk
    by (simp add: clear_cell_def cursor_at_def set_cell_def)
qed

lemma paints_glyph:
  fixes ch :: u8
  assumes P: "paints s0 s T" and C: "cursor_at s T"
  defines "s' \<equiv> draw_cell ch (cur_col s) (cur_row s) s"
  defines "u \<equiv> s'\<lparr>cur_col := cur_col s' + 1\<rparr>"
  defines "T' \<equiv> set_cell (t_row T) (t_col T) (ch, False) T"
  shows "paints s0 (if cur_col u \<ge> cols u then newline u else u) (advance T')" and "cursor_at (if cur_col u \<ge> cols u then newline u else u) (advance T')"
proof -
  have cr: "unat (cur_col s) < unat (cols s)" "unat (cur_row s) < unat (rows s)" and cur: "t_col T = unat (cur_col s)" "t_row T = unat (cur_row s)"
    and dim: "t_cols T = unat (cols s)" "t_rows T = unat (rows s)"
    using C paintsD(3,4) [OF P] by (auto simp: cursor_at_def)
  note f = drawn_fields [OF draw_cell_spec(1) [OF paintsD(1) [OF P] cr, of ch], folded s'_def]
  have P': "paints s0 s' T'" using paints_draw_cell [OF P cr, of ch] cur by (simp add: s'_def T'_def)
  have C': "cursor_at s' T'" using C f by (simp add: cursor_at_def T'_def set_cell_def)
  have suc: "unat (cur_col s' + 1) = Suc (t_col T')" using cr(1) unat_Suc_less [of "cur_col s" "cols s"] cur f by (simp add: word_less_nat_alt T'_def set_cell_def)
  have "cur_col u \<ge> cols u \<longleftrightarrow> \<not> Suc (t_col T') < t_cols T'" using suc dim f by (simp add: u_def T'_def set_cell_def word_le_nat_alt not_less)
  moreover have "newline u = newline s'" by (simp add: u_def newline_def)
  ultimately show "paints s0 (if cur_col u \<ge> cols u then newline u else u) (advance T')" and "cursor_at (if cur_col u \<ge> cols u then newline u else u) (advance T')"
    using paints_newline [OF P' C'] P' C' suc by (auto simp: advance_def u_def cursor_at_def)
qed

end
