(* ===== verification/Terminal_Contract.thy ===== *)
theory Terminal_Contract
  imports Terminal
begin

text \<open>
  The contract of the console: whatever is written, the screen shows what the abstract terminal
  shows, and nothing but the framebuffer and the cursor has changed; \<open>console_init\<close> starts it on a
  blank screen.
\<close>

lemma cursor_at_drawn: "drawn s t \<Longrightarrow> cursor_at s T \<Longrightarrow> cursor_at t T"
  by (simp add: cursor_at_def drawn_fields)

lemma erase_cursor_step:
  assumes "displays s T"
  shows "paints s (erase_cursor s) (mark T)" and "cursor_at (erase_cursor s) (mark T)"
proof -
  have "fb_ok s" "cursor_at s T" "t_cols T = unat (cols s)" "t_rows T = unat (rows s)" using assms by (auto simp: displays_def)
  then have "drawn s (erase_cursor s)" unfolding erase_cursor_def by (intro paint_cursor_spec(1)) (auto simp: cursor_at_def)
  then show "cursor_at (erase_cursor s) (mark T)"
    using cursor_at_drawn \<open>cursor_at s T\<close> by (fastforce simp: mark_def set_cell_def cursor_at_def)
qed (rule paints_erase [OF assms])

text \<open>The next tab stop: no overflow, as a row of pixels has at most $2^{30}$ of them.\<close>

lemma tab_stop:
  assumes "fb_ok s" and "unat (cur_col s) < unat (cols s)"
  shows "unat ((cur_col s AND NOT 7) + 8) = 8 * (unat (cur_col s) div 8) + 8"
proof -
  have "unat (cols s) \<le> unat (fb_width s)" using fb_okD(4,6) [OF assms(1)] by (metis Suc_leI dual_order.trans mult.right_neutral mult_le_mono2 One_nat_def)
  moreover have "4 * unat (fb_width s) < 2 ^ 32" using fb_okD(2) [OF assms(1)] unat_lt2p [of "fb_pitch s"] by simp
  ultimately have lt: "unat (cur_col s) < 2 ^ 30" using assms(2) by simp
  have "cur_col s AND NOT (mask 3) = push_bit 3 (drop_bit 3 (cur_col s))"
    by (rule bit_word_eqI) (auto simp: bit_simps)
  moreover have "mask 3 = (7 :: u32)" by (simp add: mask_eq_exp_minus_1)
  ultimately have "cur_col s AND NOT 7 = push_bit 3 (drop_bit 3 (cur_col s))" by simp
  then have "unat (cur_col s AND NOT 7) = 8 * (unat (cur_col s) div 8)" using lt
    by (simp add: unat_drop_bit_eq drop_bit_eq_div push_bit_eq_mult unat_word_ariths)
  then show ?thesis using lt by (simp add: unat_word_ariths)
qed

lemma console_putc_step:
  assumes D: "displays s T"
  shows "displays (console_putc c s) (term_putc c T) \<and> touches s (console_putc c s)"
proof -
  let ?s = "erase_cursor s" and ?T = "mark T"
  note E = erase_cursor_step [OF D]
  have rdy: "ready s" using D by (simp add: displays_def)
  have cr: "unat (cur_col ?s) < unat (cols ?s)" "unat (cur_row ?s) < unat (rows ?s)" and cur: "t_col ?T = unat (cur_col ?s)" "t_row ?T = unat (cur_row ?s)"
    using E(2) paintsD(3,4) [OF E(1)] by (auto simp: cursor_at_def)
  let ?mid = "\<lambda>u. console_putc c s = draw_cursor u \<and> paints s u (term_putc c T) \<and> cursor_at u (term_putc c T)"
  have "\<exists>u. ?mid u"
  proof -
    consider "c = CHR 0x0A" | "c = CHR 0x0D" | "c = CHR 0x08" | "c = CHR 0x09"
      | "c \<notin> {CHR 0x0A, CHR 0x0D, CHR 0x08, CHR 0x09}" "(of_char c :: u8) \<ge> 0x20"
      | "c \<notin> {CHR 0x0A, CHR 0x0D, CHR 0x08, CHR 0x09}" "\<not> (of_char c :: u8) \<ge> 0x20" by blast
    then show ?thesis
    proof cases
      case 1
      then show ?thesis using rdy paints_newline [OF E] by (auto simp: console_putc_def term_putc_def Let_def)
    next
      case 2
      moreover have "cursor_at (?s\<lparr>cur_col := 0\<rparr>) (?T\<lparr>t_col := 0\<rparr>)" using E(2) cr by (auto simp: cursor_at_def)
      ultimately show ?thesis using rdy E(1) by (intro exI [of _ "?s\<lparr>cur_col := 0\<rparr>"]) (simp add: console_putc_def term_putc_def Let_def)
    next
      case 3
      then show ?thesis using rdy paints_back [OF E] by (auto simp: console_putc_def term_putc_def Let_def)
    next
      case 4
      have "t_col ?T < unat ((cur_col ?s AND NOT 7) + 8)" unfolding tab_stop [OF paintsD(1) [OF E(1)] cr(1)] cur by simp
      from paints_tab [OF E this] show ?thesis
        using 4 rdy unfolding tab_stop [OF paintsD(1) [OF E(1)] cr(1)] by (auto simp: console_putc_def term_putc_def term_tab_def Let_def cur)
    next
      case 5
      then show ?thesis using rdy paints_glyph [OF E, of "of_char c"] by (intro exI) (simp add: console_putc_def term_putc_def Let_def)
    next
      case 6
      then show ?thesis using rdy E by (auto simp: console_putc_def term_putc_def Let_def)
    qed
  qed
  then show ?thesis using displays_draw_cursor [OF _ _ rdy] by metis
qed

lemma touches_trans:
  assumes "touches s t" and "touches t u"
  shows "touches s u"
proof -
  obtain m c r where t: "t = s\<lparr>mem := m, cur_col := c, cur_row := r\<rparr>" "\<And>a. a \<notin> fb_bytes s \<Longrightarrow> m a = mem s a"
    using assms(1) by (auto simp: touches_def)
  moreover have "fb_bytes t = fb_bytes s" by (simp add: t fb_bytes_def)
  moreover obtain m' c' r' where "u = t\<lparr>mem := m', cur_col := c', cur_row := r'\<rparr>" "\<And>a. a \<notin> fb_bytes t \<Longrightarrow> m' a = mem t a"
    using assms(2) by (auto simp: touches_def)
  ultimately show ?thesis
    unfolding touches_def by (intro exI [of _ m'] exI [of _ c'] exI [of _ r']) simp
qed

lemma console_write_step:
  assumes "displays s T"
  shows "displays (console_write cs s) (term_write cs T) \<and> touches s (console_write cs s)"
  using assms
proof (induction cs arbitrary: s T)
  case (Cons c cs)
  note P = console_putc_step [OF Cons.prems, of c]
  show ?case using Cons.IH [of "console_putc c s" "term_putc c T"] P touches_trans [of s "console_putc c s"] by (simp add: term_write_def)
qed (simp add: term_write_def touches_refl)

lemma touchesD:
  assumes "touches s t"
  shows "fb_bytes t = fb_bytes s" "glyph_h t = glyph_h s" "glyph_w t = glyph_w s" "cols t = cols s" "rows t = rows s" "ready t = ready s"
    "a \<notin> fb_bytes s \<Longrightarrow> mem t a = mem s a"
  using assms by (auto simp: touches_def fb_bytes_def)

lemma cell_pix_touches:
  assumes "fb_ok s" and "touches s t" and "i < unat (glyph_h s)" and "j < unat (glyph_w s)"
  shows "cell_pix t v i j = cell_pix s v i j"
proof -
  obtain m c r where t: "t = s\<lparr>mem := m, cur_col := c, cur_row := r\<rparr>" "\<And>a. a \<notin> fb_bytes s \<Longrightarrow> m a = mem s a"
    using assms(2) by (auto simp: touches_def)
  then have "drawn s (s\<lparr>mem := m\<rparr>)" using assms(1) unfolding drawn_def by blast
  then have "cell_pix (s\<lparr>mem := m\<rparr>) v i j = cell_pix s v i j" using assms(3,4) by (rule cell_pix_drawn)
  then show ?thesis using cursor_move_frame(5,6) unfolding t by metis
qed

text \<open>A line of printable characters that fits on the row, on the abstract terminal.\<close>

lemma term_write_line:
  assumes "\<And>c. c \<in> set cs \<Longrightarrow> (of_char c :: u8) \<ge> 0x20" and "t_col T + length cs < t_cols T"
  shows "t_col (term_write cs T) = t_col T + length cs \<and> t_row (term_write cs T) = t_row T \<and>
    (\<forall>i < length cs. cell (term_write cs T) (t_row T) (t_col T + i) = (of_char (cs ! i), False)) \<and>
    (\<forall>r c. r \<noteq> t_row T \<or> c < t_col T \<longrightarrow> cell (term_write cs T) r c = cell T r c)"
  using assms
proof (induction cs arbitrary: T)
  case (Cons c cs)
  define T' where "T' = term_putc c T"
  have "(of_char c :: u8) \<ge> 0x20" using Cons.prems(1) by simp
  moreover from this have "c \<noteq> CHR 0x0A" "c \<noteq> CHR 0x0D" "c \<noteq> CHR 0x08" "c \<noteq> CHR 0x09" by auto
  moreover have "Suc (t_col T) < t_cols T" using Cons.prems(2) by simp
  ultimately have T': "t_col T' = Suc (t_col T)" "t_row T' = t_row T" "t_cols T' = t_cols T"
    "\<And>r k. cell T' r k = (if r = t_row T \<and> k = t_col T then (of_char c, False) else cell T r k)"
    by (simp_all add: T'_def term_putc_def advance_def mark_def set_cell_def Let_def)
  have IH: "t_col (term_write cs T') = t_col T' + length cs \<and> t_row (term_write cs T') = t_row T' \<and>
    (\<forall>i < length cs. cell (term_write cs T') (t_row T') (t_col T' + i) = (of_char (cs ! i), False)) \<and>
    (\<forall>r c. r \<noteq> t_row T' \<or> c < t_col T' \<longrightarrow> cell (term_write cs T') r c = cell T' r c)"
    by (rule Cons.IH) (use Cons.prems in \<open>simp_all add: T'\<close>)
  have w: "term_write (c # cs) T = term_write cs T'" by (simp add: term_write_def T'_def)
  have "cell (term_write cs T') (t_row T) (t_col T + i) = (of_char ((c # cs) ! i), False)" if "i < Suc (length cs)" for i
    using IH that T' by (cases i) simp_all
  moreover have "cell (term_write cs T') r k = cell T r k" if "r \<noteq> t_row T \<or> k < t_col T" for r k using IH T' that by auto
  ultimately show ?case unfolding w using IH T' by simp
qed (simp add: term_write_def)

subsection \<open>Starting the console\<close>

definition blank_terminal :: "nat \<Rightarrow> nat \<Rightarrow> terminal" where
  "blank_terminal c r = \<lparr>t_cols = c, t_rows = r, t_col = 0, t_row = 0, cell = (\<lambda>_ _. (0, False))\<rparr>"

text \<open>The geometry \<open>console_init\<close> works out from its arguments and the font's header.\<close>

definition geometry :: "u64 \<Rightarrow> u32 \<Rightarrow> u32 \<Rightarrow> u32 \<Rightarrow> u16 \<Rightarrow> 'a console_scheme \<Rightarrow> 'a console_scheme" where
  "geometry base width height pitch bpp s =
     (let h = font_psf s; m = mem s
      in s\<lparr>fb_base := base, fb_width := width, fb_height := height, fb_pitch := pitch, fb_bytes_pp := ucast (bpp div 8),
           glyph_data := h + ucast (psf_headersize m h), glyph_count := psf_length m h, glyph_w := psf_width m h, glyph_h := psf_height m h,
           glyph_bytes := psf_charsize m h, gw_bytes := (psf_width m h + 7) div 8,
           cols := width div psf_width m h, rows := height div psf_height m h, cur_col := 0, cur_row := 0, ready := True\<rparr>)"

definition good_font :: "'a console_scheme \<Rightarrow> bool" where
  "good_font s \<longleftrightarrow> psf_magic (mem s) (font_psf s) = PSF2_MAGIC \<and> psf_width (mem s) (font_psf s) \<noteq> 0 \<and> psf_height (mem s) (font_psf s) \<noteq> 0"

lemma put_pixel_ready: "(put_pixel x y c s)\<lparr>ready := b\<rparr> = put_pixel x y c (s\<lparr>ready := b\<rparr>)"
  by (simp add: put_pixel_def put32_def)

lemma fold_commute: "(\<And>x t. f (g x t) = g x (f t)) \<Longrightarrow> f (fold g xs s) = fold g xs (f s)"
  by (induction xs arbitrary: s) simp_all

lemma fill_rows_ready: "(fill_rows y0 y1 s)\<lparr>ready := b\<rparr> = fill_rows y0 y1 (s\<lparr>ready := b\<rparr>)"
proof -
  have "(fold (\<lambda>x. put_pixel x y bg) xs t)\<lparr>ready := b\<rparr> = fold (\<lambda>x. put_pixel x y bg) xs (t\<lparr>ready := b\<rparr>)" for y xs and t :: "'a console_scheme"
    by (rule fold_commute) (rule put_pixel_ready)
  then show ?thesis unfolding fill_rows_def by (intro fold_commute) simp
qed

lemma console_init_good:
  assumes "good_font s"
  shows "console_init base width height pitch bpp s = Some (draw_cursor (fill_rows 0 height (geometry base width height pitch bpp s)))"
  using assms by (simp add: console_init_def good_font_def geometry_def Let_def fill_rows_ready)

lemma paints_blank:
  assumes "fb_ok s" and "blank_font s" and "s0 = s"
  shows "paints s0 (fill_rows 0 (fb_height s) s) (blank_terminal (unat (cols s)) (unat (rows s)))"
proof -
  note F = fill_rows_spec [OF assms(1), of 0 "fb_height s", simplified]
  have "pixel (fill_rows 0 (fb_height s) s) (c * unat (glyph_w s) + j) (r * unat (glyph_h s) + i) = cell_pix s (0, False) i j"
    if "r < unat (rows s)" "c < unat (cols s)" "i < unat (glyph_h s)" "j < unat (glyph_w s)" for r c i j
    using F(2) [OF cell_inside [OF assms(1) that]] cell_inside [OF assms(1) that] assms(2) that by (simp add: cell_pix_def blank_font_def)
  moreover have "touches s0 (fill_rows 0 (fb_height s) s)" using touches_drawn [OF touches_refl F(1)] assms(3) by simp
  ultimately show ?thesis
    using drawn_ok [OF F(1)] blank_font_drawn [OF F(1)] assms(2)
    by (simp add: paints_def pictures_def blank_terminal_def drawn_fields [OF F(1)] cell_pix_drawn [OF F(1)])
qed

lemma console_init_displays:
  fixes base :: u64 and width height pitch :: u32 and bpp :: u16
  assumes "good_font s"
  defines "g \<equiv> geometry base width height pitch bpp s"
  assumes "fb_ok g" and "blank_font g"
  shows "\<exists>s'. console_init base width height pitch bpp s = Some s' \<and> displays s' (blank_terminal (unat (cols g)) (unat (rows g))) \<and> touches g s'"
proof -
  have h: "fb_height g = height" "ready g" "cur_col g = 0" "cur_row g = 0" by (simp_all add: g_def geometry_def Let_def)
  let ?s = "fill_rows 0 height g" and ?T = "blank_terminal (unat (cols g)) (unat (rows g))"
  have P: "paints g ?s ?T" using paints_blank [OF assms(3,4) refl] h by simp
  have "cursor_at g ?T" using h fb_okD(8,9) [OF assms(3)] by (simp add: cursor_at_def blank_terminal_def)
  moreover have "drawn g ?s" using fill_rows_spec(1) [OF assms(3), of 0 "fb_height g"] h by simp
  ultimately have "cursor_at ?s ?T" using cursor_at_drawn by blast
  from displays_draw_cursor [OF P this h(2)] show ?thesis
    using console_init_good [OF assms(1), of base width height pitch bpp, folded g_def] by blast
qed

subsection \<open>The picture on the framebuffer\<close>

text \<open>
  What a viewer sees, without the console's variables: the framebuffer is given by what the boot loader
  says of it, the glyphs by the PSF2 file \<open>f\<close> in the memory \<open>m\<close>. \<open>on_screen\<close> says that the memory \<open>m'\<close>
  holds the picture of the terminal \<open>T\<close> there.
\<close>

definition font_pix :: "memory \<Rightarrow> u64 \<Rightarrow> u8 \<Rightarrow> nat \<Rightarrow> nat \<Rightarrow> u32" where
  "font_pix m f ch i j =
     (let g = (if psf_length m f \<le> ucast ch then 0 else ch);
          glyph = f + ucast (psf_headersize m f) + ucast (ucast g * psf_charsize m f :: u32);
          byte = m (glyph + ucast (of_nat i * ((psf_width m f + 7) div 8) + of_nat (j div 8) :: u32))
      in if bit byte (7 - j mod 8) then fg else bg)"

definition on_screen :: "u64 \<Rightarrow> u32 \<Rightarrow> u32 \<Rightarrow> u32 \<Rightarrow> u16 \<Rightarrow> memory \<Rightarrow> u64 \<Rightarrow> memory \<Rightarrow> terminal \<Rightarrow> bool" where
  "on_screen base width height pitch bpp m f m' T \<longleftrightarrow>
     (let w = unat (psf_width m f); h = unat (psf_height m f)
      in t_cols T = unat width div w \<and> t_rows T = unat height div h \<and>
        (\<forall>r < t_rows T. \<forall>c < t_cols T. \<forall>i < h. \<forall>j < w.
           load32 m' (base + of_nat ((r * h + i) * unat pitch + (c * w + j) * (unat bpp div 8))) =
           (if r = t_row T \<and> c = t_col T \<and> i = h - 1 then fg
            else if snd (cell T r c) \<and> i = h - 1 then bg
            else font_pix m f (fst (cell T r c)) i j)))"

text \<open>The console still draws on the same screen with the same glyphs.\<close>

definition screen_kept :: "'a console_scheme \<Rightarrow> 'a console_scheme \<Rightarrow> bool" where
  "screen_kept s t \<longleftrightarrow> fb_base t = fb_base s \<and> fb_width t = fb_width s \<and> fb_height t = fb_height s \<and> fb_pitch t = fb_pitch s \<and>
     fb_bytes_pp t = fb_bytes_pp s \<and> glyph_data t = glyph_data s \<and> glyph_count t = glyph_count s \<and> glyph_w t = glyph_w s \<and>
     glyph_h t = glyph_h s \<and> glyph_bytes t = glyph_bytes s \<and> gw_bytes t = gw_bytes s \<and>
     (\<forall>ch r cx. unat r < unat (glyph_h s) \<longrightarrow> unat cx < unat (glyph_w s) \<longrightarrow>
        mem t (glyph_addr s (glyph_code s ch) r cx) = mem s (glyph_addr s (glyph_code s ch) r cx))"

lemma screen_kept_fields:
  assumes "screen_kept s t"
  shows "glyph_addr t = glyph_addr s" and "glyph_code t = glyph_code s" and "pixel_addr t = pixel_addr s" and "fb_bytes t = fb_bytes s"
  using assms by (auto simp: screen_kept_def glyph_addr_def glyph_code_def pixel_addr_def fb_bytes_def fun_eq_iff)

lemma screen_kept_refl [simp]: "screen_kept s s"
  by (simp add: screen_kept_def)

lemma screen_kept_trans:
  assumes "screen_kept s t" and "screen_kept t u"
  shows "screen_kept s u"
proof -
  have "mem u (glyph_addr s (glyph_code s ch) r cx) = mem s (glyph_addr s (glyph_code s ch) r cx)"
    if "unat r < unat (glyph_h s)" "unat cx < unat (glyph_w s)" for ch r cx
    using assms that screen_kept_fields(1,2) [OF assms(1)] by (simp add: screen_kept_def)
  then show ?thesis using assms by (simp add: screen_kept_def)
qed

lemma screen_kept_touches:
  assumes "fb_ok s" and "touches s t"
  shows "screen_kept s t"
proof -
  obtain m c r where t: "t = s\<lparr>mem := m, cur_col := c, cur_row := r\<rparr>" "\<And>a. a \<notin> fb_bytes s \<Longrightarrow> m a = mem s a"
    using assms(2) by (auto simp: touches_def)
  then show ?thesis using fb_okD(10) [OF assms(1)] by (simp add: screen_kept_def)
qed

lemma glyph_pix_font:
  assumes kept: "screen_kept (geometry base width height pitch bpp s) u"
    and "i < unat (psf_height (mem s) (font_psf s))" and "j < unat (psf_width (mem s) (font_psf s))"
  shows "glyph_pix u ch i j = font_pix (mem s) (font_psf s) ch i j"
proof -
  let ?g = "geometry base width height pitch bpp s"
  note f = screen_kept_fields [OF kept]
  let ?c = "glyph_code ?g ch" and ?a = "glyph_addr ?g (glyph_code ?g ch) (of_nat i) (of_nat j)"
  have g: "glyph_h ?g = psf_height (mem s) (font_psf s)" "glyph_w ?g = psf_width (mem s) (font_psf s)" "mem ?g = mem s"
    "glyph_data ?g = font_psf s + ucast (psf_headersize (mem s) (font_psf s))" "glyph_count ?g = psf_length (mem s) (font_psf s)"
    "glyph_bytes ?g = psf_charsize (mem s) (font_psf s)" "gw_bytes ?g = (psf_width (mem s) (font_psf s) + 7) div 8"
    by (simp_all add: geometry_def Let_def)
  have u: "glyph_data u = glyph_data ?g" "glyph_bytes u = glyph_bytes ?g" "gw_bytes u = gw_bytes ?g" using kept by (simp_all add: screen_kept_def)
  have ij: "unat (of_nat i :: u32) = i" "unat (of_nat j :: u32) = j" using unat_small32 [OF assms(2)] unat_small32 [OF assms(3)] by simp_all
  have m: "mem u ?a = mem s ?a" using kept assms(2,3) ij by (simp add: screen_kept_def g)
  have d: "drop_bit 3 (of_nat j :: u32) = of_nat (j div 8)"
    by (rule word_unat_eq_iff [THEN iffD2]) (use ij(2) unat_small32 [OF le_less_trans [OF div_le_dividend assms(3)]] in \<open>simp add: drop_bit_eq_div unat_div\<close>)
  have a: "?a = font_psf s + ucast (psf_headersize (mem s) (font_psf s)) + ucast (ucast ?c * psf_charsize (mem s) (font_psf s) :: u32) +
      ucast (of_nat i * ((psf_width (mem s) (font_psf s) + 7) div 8) + of_nat (j div 8) :: u32)"
    by (simp add: glyph_addr_def g d)
  have "of_nat j AND (7 :: u32) = of_nat (j mod 8)"
  proof -
    have "of_nat j AND (7 :: u32) = take_bit 3 (of_nat j)" by (simp add: take_bit_eq_mask mask_eq_exp_minus_1)
    also have "\<dots> = of_nat (j mod 8)" using ij(2) by (simp add: take_bit_eq_mod word_unat_eq_iff unat_mod unat_of_nat)
    finally show ?thesis .
  qed
  then have sh: "unat (7 - (of_nat j AND (7 :: u32))) = 7 - j mod 8"
  proof -
    have "unat (7 - of_nat k :: u32) = 7 - k" if "k \<le> 7" for k
      using that by (simp add: unat_sub word_le_nat_alt unat_of_nat)
    from this [of "j mod 8"] show ?thesis using \<open>of_nat j AND 7 = of_nat (j mod 8)\<close> by simp
  qed
  have "drop_bit k (ucast b :: u32) AND 1 \<noteq> 0 \<longleftrightarrow> bit b k" if "k < 8" for k and b :: u8
    using that by (simp add: and_one_eq odd_iff_mod_2_eq_one [symmetric] bit_iff_odd_drop_bit [symmetric] bit_unsigned_iff flip: bit_iff_odd_drop_bit)
  from this [of "7 - j mod 8" "mem u ?a"]
  have "glyph_bit (glyph_data u + ucast (ucast (glyph_code u ch) * glyph_bytes u :: u32)) (of_nat i) (of_nat j) u \<noteq> 0 \<longleftrightarrow> bit (mem u ?a) (7 - j mod 8)"
    by (simp add: glyph_bit_def Let_def sh glyph_addr_def u f(2))
  then have "glyph_pix u ch i j = (if bit (mem s ?a) (7 - j mod 8) then fg else bg)"
    unfolding glyph_pix_def m by simp
  also have "\<dots> = font_pix (mem s) (font_psf s) ch i j"
    unfolding a by (simp add: font_pix_def Let_def glyph_code_def g)
  finally show ?thesis .
qed

lemma displays_on_screen:
  assumes kept: "screen_kept (geometry base width height pitch bpp s) u" and D: "displays u T"
  shows "on_screen base width height pitch bpp (mem s) (font_psf s) (mem u) T"
proof -
  have f: "fb_base u = base" "fb_width u = width" "fb_height u = height" "fb_pitch u = pitch" "fb_bytes_pp u = ucast (bpp div 8)"
    "glyph_w u = psf_width (mem s) (font_psf s)" "glyph_h u = psf_height (mem s) (font_psf s)"
    using kept by (simp_all add: screen_kept_def geometry_def Let_def)
  have ok: "fb_ok u" using D by (simp add: displays_def)
  have "unat (ucast (bpp div 8) :: u32) = unat bpp div 8"
    using unat_lt2p [of "bpp div 8"] by (simp add: unsigned_ucast_eq take_bit_nat_def unat_div)
  then have four: "unat bpp div 8 = 4" using fb_okD(1) [OF ok] f(5) by simp
  have dims: "t_cols T = unat width div unat (psf_width (mem s) (font_psf s))" "t_rows T = unat height div unat (psf_height (mem s) (font_psf s))"
    using D ok by (simp_all add: displays_def fb_ok_def f)
  show ?thesis
    unfolding on_screen_def Let_def
  proof (intro conjI allI impI)
    fix r c i j assume *: "r < t_rows T" "c < t_cols T" "i < unat (psf_height (mem s) (font_psf s))" "j < unat (psf_width (mem s) (font_psf s))"
    then have "pixel u (c * unat (glyph_w u) + j) (r * unat (glyph_h u) + i) =
        (if r = t_row T \<and> c = t_col T \<and> i = unat (glyph_h u) - 1 then fg else cell_pix u (cell T r c) i j)"
      using D by (simp add: displays_def f)
    then show "load32 (mem u) (base + of_nat ((r * unat (psf_height (mem s) (font_psf s)) + i) * unat pitch +
        (c * unat (psf_width (mem s) (font_psf s)) + j) * (unat bpp div 8))) =
      (if r = t_row T \<and> c = t_col T \<and> i = unat (psf_height (mem s) (font_psf s)) - 1 then fg
       else if snd (cell T r c) \<and> i = unat (psf_height (mem s) (font_psf s)) - 1 then bg
       else font_pix (mem s) (font_psf s) (fst (cell T r c)) i j)"
      by (simp add: pixel_def pixel_addr_def f four cell_pix_def glyph_pix_font [OF kept *(3,4)] mult.commute [of _ 4])
  qed (rule dims)+
qed

subsection \<open>A small screen\<close>

text \<open>A font of 66 glyphs, 8 by 2 pixels, all blank but the letter A; a screen of 16 by 4 pixels.\<close>

definition demo_font :: memory where
  "demo_font =
     (\<lambda>_. 0)(0x10000 := 0x72, 0x10001 := 0xb5, 0x10002 := 0x4a, 0x10003 := 0x86, 0x10008 := 32, 0x10010 := 66, 0x10014 := 2,
             0x10018 := 2, 0x1001c := 8, 0x100a2 := 0x18, 0x100a3 := 0xFF)"

definition demo_console :: console where
  "demo_console = arch.extend (cold_arch\<lparr>mem := demo_font\<rparr>) (console.fields 0 0 0 0 0 0 0 0 0 0 0 0 0 0 0 False 0x10000)"

definition demo_screen :: console where
  "demo_screen = the (console_init 0x10000000000 16 4 64 32 demo_console)"

lemma load32_word: "load32 m a = ucast (m a) OR push_bit 8 (ucast (m (a + 1)) OR push_bit 8 (ucast (m (a + 2)) OR push_bit 8 (ucast (m (a + 3)))))"
proof -
  have "load_le (Suc (Suc (Suc (Suc 0)))) m a = ucast (m a) OR push_bit 8 (ucast (m (a + 1)) OR push_bit 8 (ucast (m (a + 2)) OR push_bit 8 (ucast (m (a + 3)) :: u32)))"
    by (simp only: load_le.simps add.assoc one_add_one) simp
  moreover have "Suc (Suc (Suc (Suc 0))) = 4" by simp
  ultimately show ?thesis unfolding load32_def by (simp only:)
qed

lemma demo_header:
  "psf_magic demo_font 0x10000 = PSF2_MAGIC" "psf_headersize demo_font 0x10000 = 32" "psf_length demo_font 0x10000 = 66"
  "psf_charsize demo_font 0x10000 = 2" "psf_height demo_font 0x10000 = 2" "psf_width demo_font 0x10000 = 8"
  by (simp_all add: psf_magic_def psf_headersize_def psf_length_def psf_charsize_def psf_height_def psf_width_def PSF2_MAGIC_def
      demo_font_def load32_word)

abbreviation demo_geometry :: console where
  "demo_geometry \<equiv> geometry 0x10000000000 16 4 64 32 demo_console"

lemma demo_fields [simp]:
  "mem demo_console = demo_font" "font_psf demo_console = 0x10000"
  "fb_base demo_geometry = 0x10000000000" "fb_width demo_geometry = 16" "fb_height demo_geometry = 4" "fb_pitch demo_geometry = 64"
  "fb_bytes_pp demo_geometry = 4" "glyph_data demo_geometry = 0x10020" "glyph_count demo_geometry = 66" "glyph_w demo_geometry = 8"
  "glyph_h demo_geometry = 2" "glyph_bytes demo_geometry = 2" "gw_bytes demo_geometry = 1" "cols demo_geometry = 2" "rows demo_geometry = 2"
  "mem demo_geometry = demo_font"
  by (simp_all add: geometry_def demo_console_def Let_def arch.defs console.defs demo_header)

lemma far_below: "unat a < unat b \<Longrightarrow> unat b + n \<le> 2 ^ 64 \<Longrightarrow> \<not> unat (a - b :: u64) < n"
  by (simp add: unat_sub_if' word_less_nat_alt)

lemma demo_fb_ok: "fb_ok demo_geometry"
proof -
  have "glyph_addr demo_geometry ch r cx \<notin> fb_bytes demo_geometry" for ch r cx
  proof -
    let ?x = "ucast (ucast ch * 2 :: u32) :: u64" and ?y = "ucast (r + drop_bit 3 cx) :: u64"
    have "unat (ucast v :: u64) < 2 ^ 32" for v :: u32 using unat_lt2p [of v] by (simp add: unsigned_ucast_eq take_bit_nat_def)
    then have "unat ?x < 2 ^ 32" "unat ?y < 2 ^ 32" by blast+
    then have "unat (0x10020 + ?x + ?y) < 0x10000000000" by (simp add: unat_word_ariths)
    then have "\<not> unat (0x10020 + ?x + ?y - 0x10000000000) < 256" by (intro far_below) simp_all
    then show ?thesis by (simp add: glyph_addr_def fb_bytes_def)
  qed
  then show ?thesis by (simp add: fb_ok_def)
qed

lemma demo_blank: "blank_font demo_geometry"
proof -
  have "glyph_pix demo_geometry 0 i j = bg" if "i < 2" "j < 8" for i j
  proof -
    have "drop_bit 3 (of_nat j :: u32) = 0" by (rule word_unat_eq_iff [THEN iffD2]) (use that(2) in \<open>simp add: drop_bit_eq_div unat_div unat_of_nat\<close>)
    moreover have "demo_font (0x10020 + ucast (of_nat i :: u32)) = 0" using that(1) by (auto simp: demo_font_def less_2_cases_iff)
    ultimately show ?thesis by (simp add: glyph_pix_def glyph_bit_def glyph_code_def Let_def)
  qed
  then show ?thesis by (simp add: blank_font_def)
qed

lemma demo_good: "good_font demo_console"
  by (simp add: good_font_def demo_header)

lemma demo_displays: "displays demo_screen (blank_terminal 2 2)" and demo_touches: "touches demo_geometry demo_screen"
  using console_init_displays [OF demo_good demo_fb_ok demo_blank] by (auto simp: demo_screen_def)

subsection \<open>Properties\<close>

text \<open>C29 (functional): with a PSF2 font in place and a 32-bit framebuffer of at least one character, \<open>console_init\<close>
  draws on the framebuffer it is given an empty terminal of as many rows and columns as fit, the cursor in its top left corner,
  and sets its variables to the framebuffer's geometry and the font's; it writes to no other variable, and to no memory
  but the framebuffer.\<close>

theorem console_init_correct:
  assumes "good_font s" and "fb_ok (geometry base width height pitch bpp s)" and "blank_font (geometry base width height pitch bpp s)"
  shows "\<exists>s' T. console_init base width height pitch bpp s = Some s' \<and>
    T = blank_terminal (unat (width div psf_width (mem s) (font_psf s))) (unat (height div psf_height (mem s) (font_psf s))) \<and>
    displays s' T \<and> on_screen base width height pitch bpp (mem s) (font_psf s) (mem s') T \<and>
    (\<forall>a. unat height * unat pitch \<le> unat (a - base) \<longrightarrow> mem s' a = mem s a) \<and>
    (let f = font_psf s; m = mem s
     in s' = s\<lparr>mem := mem s', fb_base := base, fb_width := width, fb_height := height, fb_pitch := pitch, fb_bytes_pp := 4,
          glyph_data := f + ucast (psf_headersize m f), glyph_count := psf_length m f, glyph_w := psf_width m f, glyph_h := psf_height m f,
          glyph_bytes := psf_charsize m f, gw_bytes := (psf_width m f + 7) div 8,
          cols := width div psf_width m f, rows := height div psf_height m f, cur_col := 0, cur_row := 0, ready := True\<rparr>)"
proof -
  let ?g = "geometry base width height pitch bpp s"
  obtain s' where s': "console_init base width height pitch bpp s = Some s'" "displays s' (blank_terminal (unat (cols ?g)) (unat (rows ?g)))"
    "touches ?g s'"
    using console_init_displays [OF assms] by blast
  have on: "on_screen base width height pitch bpp (mem s) (font_psf s) (mem s') (blank_terminal (unat (cols ?g)) (unat (rows ?g)))"
    by (rule displays_on_screen [OF screen_kept_touches [OF assms(2) s'(3)] s'(2)])
  obtain m c r where t: "s' = ?g\<lparr>mem := m, cur_col := c, cur_row := r\<rparr>" "\<And>a. a \<notin> fb_bytes ?g \<Longrightarrow> m a = mem s a"
    using s'(3) by (auto simp: touches_def geometry_def Let_def)
  have "unat c = 0" "unat r = 0" using s'(2) by (simp_all add: displays_def cursor_at_def blank_terminal_def t)
  then have cr: "c = 0" "r = 0" by (simp_all add: unat_eq_zero)
  have "mem s' a = mem s a" if "unat height * unat pitch \<le> unat (a - base)" for a
    using t that by (simp add: fb_bytes_def geometry_def Let_def)
  moreover have "ucast (bpp div 8) = (4 :: u32)" using fb_okD(1) [OF assms(2)] by (simp add: geometry_def Let_def)
  ultimately show ?thesis using s'(1,2) on t(1) by (simp add: geometry_def Let_def cr)
qed

theorem console_init_correct_witness:
  "\<exists>s'. console_init 0x10000000000 16 4 64 32 demo_console = Some s' \<and>
     on_screen 0x10000000000 16 4 64 32 demo_font 0x10000 (mem s') (blank_terminal 2 2)"
  using console_init_correct [OF demo_good demo_fb_ok demo_blank] by (auto simp: demo_header)

text \<open>C13 (refinement): writing a string on the screen refines writing it on the abstract terminal, whose cells change as
  a character terminal's do: printable characters, line feed and the scroll at the bottom, carriage return,
  backspace across the line boundary, tabs to the next stop of eight, other control bytes ignored.\<close>

theorem console_write_refines:
  assumes "displays s T"
  shows "displays (console_write cs s) (term_write cs T)"
  using console_write_step [OF assms] by simp

theorem console_write_refines_witness:
  "displays (console_write (''A'' @ [CHR 0x0A, CHR 0x09]) demo_screen) (term_write (''A'' @ [CHR 0x0A, CHR 0x09]) (blank_terminal 2 2))"
  by (rule console_write_refines [OF demo_displays])

text \<open>C30 (safety): whatever is written, scrolling included, the console changes no memory outside the
  framebuffer and no other variable than its cursor, and the cursor stays inside the grid.\<close>

theorem console_write_safe:
  assumes "displays s T"
  shows "let s' = console_write cs s
    in s' = s\<lparr>mem := mem s', cur_col := cur_col s', cur_row := cur_row s'\<rparr> \<and>
       (\<forall>a. a \<notin> fb_bytes s \<longrightarrow> mem s' a = mem s a) \<and> cur_col s' < cols s \<and> cur_row s' < rows s"
proof -
  define s' where "s' = console_write cs s"
  have d: "displays s' (term_write cs T)" and "touches s s'" unfolding s'_def using console_write_step [OF assms(1)] by auto
  then obtain m c r where s': "s' = s\<lparr>mem := m, cur_col := c, cur_row := r\<rparr>" "\<And>a. a \<notin> fb_bytes s \<Longrightarrow> m a = mem s a"
    by (auto simp: touches_def)
  then have "s' = s\<lparr>mem := mem s', cur_col := cur_col s', cur_row := cur_row s'\<rparr>" "\<forall>a. a \<notin> fb_bytes s \<longrightarrow> mem s' a = mem s a" by simp_all
  moreover have "cols s' = cols s" "rows s' = rows s" using s'(1) by simp_all
  then have "cur_col s' < cols s \<and> cur_row s' < rows s" using d by (simp add: displays_def cursor_at_def word_less_nat_alt)
  ultimately show ?thesis unfolding s'_def [symmetric] Let_def by blast
qed

theorem console_write_safe_witness:
  "mem (console_write ''A'' demo_screen) 0x10000 = 0x72 \<and> cur_col (console_write ''A'' demo_screen) < cols demo_screen"
proof -
  have "unat (0x10000 - 0x10000000000 :: u64) = 2 ^ 64 - 0x10000000000 + 0x10000" by simp
  then have "0x10000 \<notin> fb_bytes demo_geometry" by (simp add: fb_bytes_def)
  moreover have "fb_bytes demo_screen = fb_bytes demo_geometry" "\<And>a. a \<notin> fb_bytes demo_geometry \<Longrightarrow> mem demo_screen a = demo_font a"
    using touchesD [OF demo_touches] by simp_all
  ultimately show ?thesis
    using console_write_safe [OF demo_displays, of "''A''"] by (simp add: Let_def demo_font_def)
qed

text \<open>Printable text that fits on the current line appears there, glyph by glyph, from
  the cursor on, and the text already on the screen stays.\<close>

theorem console_write_text:
  assumes "displays s T" and "list_all (\<lambda>c. (of_char c :: u8) \<ge> 0x20) cs" and "t_col T + length cs < t_cols T"
    and "i < unat (glyph_h s)" and "j < unat (glyph_w s)"
  shows "(\<forall>k < length cs. pixel (console_write cs s) ((t_col T + k) * unat (glyph_w s) + j) (t_row T * unat (glyph_h s) + i) =
      glyph_pix s (of_char (cs ! k)) i j) \<and>
    (\<forall>r < t_rows T. \<forall>c < t_cols T. r \<noteq> t_row T \<or> c < t_col T \<longrightarrow>
      pixel (console_write cs s) (c * unat (glyph_w s) + j) (r * unat (glyph_h s) + i) = pixel s (c * unat (glyph_w s) + j) (r * unat (glyph_h s) + i))"
proof -
  define s' where "s' = console_write cs s"
  let ?T = "term_write cs T"
  note L = term_write_line [of cs T, OF _ assms(3)]
  have L: "t_col ?T = t_col T + length cs" "t_row ?T = t_row T" "\<And>k. k < length cs \<Longrightarrow> cell ?T (t_row T) (t_col T + k) = (of_char (cs ! k), False)"
    "\<And>r c. r \<noteq> t_row T \<or> c < t_col T \<Longrightarrow> cell ?T r c = cell T r c"
    using L assms(2) by (auto simp: list_all_iff)
  have d: "displays s' ?T" and tch: "touches s s'" unfolding s'_def using console_write_step [OF assms(1)] by auto
  have ok: "fb_ok s" using assms(1) by (simp add: displays_def)
  have f: "glyph_h s' = glyph_h s" "glyph_w s' = glyph_w s" "cols s' = cols s" "rows s' = rows s" using touchesD [OF tch] by simp_all
  have pix: "cell_pix s' v i j = cell_pix s v i j" for v by (rule cell_pix_touches [OF ok tch assms(4,5)])
  have dim: "t_cols ?T = t_cols T" "t_rows ?T = t_rows T" "t_row T < t_rows T" using d assms(1) f by (simp_all add: displays_def cursor_at_def)
  have D: "pixel s' (c * unat (glyph_w s) + j) (r * unat (glyph_h s) + i) =
      (if r = t_row T \<and> c = t_col T + length cs \<and> i = unat (glyph_h s) - 1 then fg else cell_pix s (cell ?T r c) i j)"
    if "r < t_rows T" "c < t_cols T" for r c
    using d that assms(4,5) by (simp add: displays_def dim f pix L(1,2))
  have txt_pix: "pixel s' ((t_col T + k) * unat (glyph_w s) + j) (t_row T * unat (glyph_h s) + i) = glyph_pix s (of_char (cs ! k)) i j" if "k < length cs" for k
    using D [of "t_row T" "t_col T + k"] L(3) [OF that] dim that assms(3) by (simp add: cell_pix_def)
  have rest: "pixel s' (c * unat (glyph_w s) + j) (r * unat (glyph_h s) + i) = pixel s (c * unat (glyph_w s) + j) (r * unat (glyph_h s) + i)"
    if "r < t_rows T" "c < t_cols T" "r \<noteq> t_row T \<or> c < t_col T" for r c
  proof -
    have "pixel s (c * unat (glyph_w s) + j) (r * unat (glyph_h s) + i) = cell_pix s (cell T r c) i j"
      using assms(1,4,5) that unfolding displays_def by auto
    then show ?thesis using D [OF that(1,2)] L(4) [OF that(3)] that(3) by auto
  qed
  show ?thesis using txt_pix rest unfolding s'_def by blast
qed

theorem console_write_text_witness:
  "pixel (console_write ''A'' demo_screen) 5 1 = fg \<and> pixel (console_write ''A'' demo_screen) 0 0 = bg"
proof -
  have g: "glyph_h demo_screen = 2" "glyph_w demo_screen = 8" using touchesD [OF demo_touches] by simp_all
  have p: "glyph_pix demo_screen 65 i j = glyph_pix demo_geometry 65 i j" if "i < 2" "j < 8" for i j
    using cell_pix_touches [OF demo_fb_ok demo_touches, of i j "(65, False)"] that by (simp add: cell_pix_def)
  have "glyph_pix demo_geometry 65 1 5 = fg" "glyph_pix demo_geometry 65 0 0 = bg"
    by (simp_all add: glyph_pix_def glyph_bit_def glyph_code_def demo_font_def Let_def)
  moreover have "pixel (console_write ''A'' demo_screen) 5 1 = glyph_pix demo_screen 65 1 5" "pixel (console_write ''A'' demo_screen) 0 0 = glyph_pix demo_screen 65 0 0"
    using console_write_text [OF demo_displays, of "''A''" 1 5] console_write_text [OF demo_displays, of "''A''" 0 0]
    by (simp_all add: g blank_terminal_def)
  ultimately show ?thesis using p by simp
qed

lemma console_write_not_ready: "\<not> ready s \<Longrightarrow> console_write cs s = s"
  by (induction cs arbitrary: s) (simp_all add: console_putc_def)

text \<open>C31 (error): without a usable font \<open>console_init\<close> says so on the serial line, touches nothing else, and leaves a
  console on which every later write is a no-op.\<close>

theorem console_init_bad_font:
  assumes "\<not> good_font s" and "uart_live (device s)"
  shows "\<exists>t. console_init base width height pitch bpp s = Some (t\<lparr>ready := False\<rparr>) \<and>
    sends (''console: bad PSF2 font magic/geometry '' @ [CHR 0xE2, CHR 0x80, CHR 0x94] @ '' console disabled'' @ [CHR 0x0D, CHR 0x0A]) s t \<and>
    (\<forall>cs. console_write cs (t\<lparr>ready := False\<rparr>) = t\<lparr>ready := False\<rparr>)"
proof -
  let ?msg = "''console: bad PSF2 font magic/geometry '' @ [CHR 0xE2, CHR 0x80, CHR 0x94] @ '' console disabled''"
  obtain t where t: "serial_write (?msg @ nl) s = Some t" "sends (crlf (?msg @ nl)) s t"
    using printsD [OF prints_write assms(2)] by blast
  moreover have "crlf (?msg @ nl) = ?msg @ [CHR 0x0D, CHR 0x0A]"
    by (simp only: crlf_append crlf_nl) (simp add: crlf_id)
  moreover have "console_init base width height pitch bpp s = map_option (\<lambda>s. s\<lparr>ready := False\<rparr>) (serial_write (?msg @ nl) s)"
    using assms(1) unfolding console_init_def good_font_def Let_def by (simp only: append_assoc) auto
  ultimately show ?thesis by (auto simp: console_write_not_ready)
qed

theorem console_init_bad_font_witness:
  "\<exists>t. console_init 0 640 480 2560 32 (demo_console\<lparr>mem := (\<lambda>_. 0), device := demo_uart\<rparr>) = Some (t\<lparr>ready := False\<rparr>)"
proof -
  let ?s = "demo_console\<lparr>mem := (\<lambda>_. 0), device := demo_uart\<rparr>"
  have "\<not> good_font ?s" by (simp add: good_font_def psf_magic_def load32_word PSF2_MAGIC_def)
  moreover have "uart_live (device ?s)" by (simp add: demo_uart_live)
  ultimately show ?thesis using console_init_bad_font [of ?s] by blast
qed

end
