(* ===== verification/Font.thy ===== *)
theory Font
  imports Terminal_Contract
begin

text \<open>
  The font of \<^verbatim>\<open>drivers/font_psf.h\<close>: a complete PSF2 file, 32 bytes of header and 128 glyphs of 8
  bytes. The console's contract asks for a good header, a blank glyph 0 and glyph bytes outside the
  framebuffer; here the shipped bytes are shown to meet it, every read inside the array.
\<close>

definition font_psf_bytes :: "u8 list" where
  "font_psf_bytes =
     [0x72, 0xb5, 0x4a, 0x86, 0, 0, 0, 0, 0x20, 0, 0, 0,
      0, 0, 0, 0, 0x80, 0, 0, 0, 0x08, 0, 0, 0,
      0x08, 0, 0, 0, 0x08, 0, 0, 0, 0, 0, 0, 0,
      0, 0, 0, 0, 0, 0, 0, 0, 0, 0, 0, 0,
      0, 0, 0, 0, 0, 0, 0, 0, 0, 0, 0, 0,
      0, 0, 0, 0, 0, 0, 0, 0, 0, 0, 0, 0,
      0, 0, 0, 0, 0, 0, 0, 0, 0, 0, 0, 0,
      0, 0, 0, 0, 0, 0, 0, 0, 0, 0, 0, 0,
      0, 0, 0, 0, 0, 0, 0, 0, 0, 0, 0, 0,
      0, 0, 0, 0, 0, 0, 0, 0, 0, 0, 0, 0,
      0, 0, 0, 0, 0, 0, 0, 0, 0, 0, 0, 0,
      0, 0, 0, 0, 0, 0, 0, 0, 0, 0, 0, 0,
      0, 0, 0, 0, 0, 0, 0, 0, 0, 0, 0, 0,
      0, 0, 0, 0, 0, 0, 0, 0, 0, 0, 0, 0,
      0, 0, 0, 0, 0, 0, 0, 0, 0, 0, 0, 0,
      0, 0, 0, 0, 0, 0, 0, 0, 0, 0, 0, 0,
      0, 0, 0, 0, 0, 0, 0, 0, 0, 0, 0, 0,
      0, 0, 0, 0, 0, 0, 0, 0, 0, 0, 0, 0,
      0, 0, 0, 0, 0, 0, 0, 0, 0, 0, 0, 0,
      0, 0, 0, 0, 0, 0, 0, 0, 0, 0, 0, 0,
      0, 0, 0, 0, 0, 0, 0, 0, 0, 0, 0, 0,
      0, 0, 0, 0, 0, 0, 0, 0, 0, 0, 0, 0,
      0, 0, 0, 0, 0, 0, 0, 0, 0, 0, 0, 0,
      0, 0, 0, 0, 0, 0, 0, 0, 0, 0, 0, 0,
      0, 0, 0, 0, 0, 0, 0, 0, 0x18, 0x3c, 0x3c, 0x18,
      0x18, 0, 0x18, 0, 0x6c, 0x6c, 0, 0, 0, 0, 0, 0,
      0x6c, 0x6c, 0xfe, 0x6c, 0xfe, 0x6c, 0x6c, 0, 0x30, 0x7c, 0xc0, 0x78,
      0x0c, 0xf8, 0x30, 0, 0, 0xc6, 0xcc, 0x18, 0x30, 0x66, 0xc6, 0,
      0x38, 0x6c, 0x38, 0x76, 0xdc, 0xcc, 0x76, 0, 0x60, 0x60, 0xc0, 0,
      0, 0, 0, 0, 0x18, 0x30, 0x60, 0x60, 0x60, 0x30, 0x18, 0,
      0x60, 0x30, 0x18, 0x18, 0x18, 0x30, 0x60, 0, 0, 0x66, 0x3c, 0xff,
      0x3c, 0x66, 0, 0, 0, 0x30, 0x30, 0xfc, 0x30, 0x30, 0, 0,
      0, 0, 0, 0, 0, 0x30, 0x30, 0x60, 0, 0, 0, 0xfc,
      0, 0, 0, 0, 0, 0, 0, 0, 0, 0x30, 0x30, 0,
      0x06, 0x0c, 0x18, 0x30, 0x60, 0xc0, 0x80, 0, 0x7c, 0xc6, 0xce, 0xde,
      0xf6, 0xe6, 0x7c, 0, 0x30, 0x70, 0x30, 0x30, 0x30, 0x30, 0xfc, 0,
      0x78, 0xcc, 0x0c, 0x38, 0x60, 0xcc, 0xfc, 0, 0x78, 0xcc, 0x0c, 0x38,
      0x0c, 0xcc, 0x78, 0, 0x1c, 0x3c, 0x6c, 0xcc, 0xfe, 0x0c, 0x1e, 0,
      0xfc, 0xc0, 0xf8, 0x0c, 0x0c, 0xcc, 0x78, 0, 0x38, 0x60, 0xc0, 0xf8,
      0xcc, 0xcc, 0x78, 0, 0xfc, 0xcc, 0x0c, 0x18, 0x30, 0x30, 0x30, 0,
      0x78, 0xcc, 0xcc, 0x78, 0xcc, 0xcc, 0x78, 0, 0x78, 0xcc, 0xcc, 0x7c,
      0x0c, 0x18, 0x70, 0, 0, 0x30, 0x30, 0, 0, 0x30, 0x30, 0,
      0, 0x30, 0x30, 0, 0, 0x30, 0x30, 0x60, 0x18, 0x30, 0x60, 0xc0,
      0x60, 0x30, 0x18, 0, 0, 0, 0xfc, 0, 0, 0xfc, 0, 0,
      0x60, 0x30, 0x18, 0x0c, 0x18, 0x30, 0x60, 0, 0x78, 0xcc, 0x0c, 0x18,
      0x30, 0, 0x30, 0, 0x7c, 0xc6, 0xde, 0xde, 0xde, 0xc0, 0x78, 0,
      0x30, 0x78, 0xcc, 0xcc, 0xfc, 0xcc, 0xcc, 0, 0xfc, 0x66, 0x66, 0x7c,
      0x66, 0x66, 0xfc, 0, 0x3c, 0x66, 0xc0, 0xc0, 0xc0, 0x66, 0x3c, 0,
      0xf8, 0x6c, 0x66, 0x66, 0x66, 0x6c, 0xf8, 0, 0xfe, 0x62, 0x68, 0x78,
      0x68, 0x62, 0xfe, 0, 0xfe, 0x62, 0x68, 0x78, 0x68, 0x60, 0xf0, 0,
      0x3c, 0x66, 0xc0, 0xc0, 0xce, 0x66, 0x3e, 0, 0xcc, 0xcc, 0xcc, 0xfc,
      0xcc, 0xcc, 0xcc, 0, 0x78, 0x30, 0x30, 0x30, 0x30, 0x30, 0x78, 0,
      0x1e, 0x0c, 0x0c, 0x0c, 0xcc, 0xcc, 0x78, 0, 0xe6, 0x66, 0x6c, 0x78,
      0x6c, 0x66, 0xe6, 0, 0xf0, 0x60, 0x60, 0x60, 0x62, 0x66, 0xfe, 0,
      0xc6, 0xee, 0xfe, 0xfe, 0xd6, 0xc6, 0xc6, 0, 0xc6, 0xe6, 0xf6, 0xde,
      0xce, 0xc6, 0xc6, 0, 0x38, 0x6c, 0xc6, 0xc6, 0xc6, 0x6c, 0x38, 0,
      0xfc, 0x66, 0x66, 0x7c, 0x60, 0x60, 0xf0, 0, 0x78, 0xcc, 0xcc, 0xcc,
      0xdc, 0x78, 0x1c, 0, 0xfc, 0x66, 0x66, 0x7c, 0x6c, 0x66, 0xe6, 0,
      0x78, 0xcc, 0xe0, 0x70, 0x1c, 0xcc, 0x78, 0, 0xfc, 0xb4, 0x30, 0x30,
      0x30, 0x30, 0x78, 0, 0xcc, 0xcc, 0xcc, 0xcc, 0xcc, 0xcc, 0xfc, 0,
      0xcc, 0xcc, 0xcc, 0xcc, 0xcc, 0x78, 0x30, 0, 0xc6, 0xc6, 0xc6, 0xd6,
      0xfe, 0xee, 0xc6, 0, 0xc6, 0xc6, 0x6c, 0x38, 0x38, 0x6c, 0xc6, 0,
      0xcc, 0xcc, 0xcc, 0x78, 0x30, 0x30, 0x78, 0, 0xfe, 0xc6, 0x8c, 0x18,
      0x32, 0x66, 0xfe, 0, 0x78, 0x60, 0x60, 0x60, 0x60, 0x60, 0x78, 0,
      0xc0, 0x60, 0x30, 0x18, 0x0c, 0x06, 0x02, 0, 0x78, 0x18, 0x18, 0x18,
      0x18, 0x18, 0x78, 0, 0x10, 0x38, 0x6c, 0xc6, 0, 0, 0, 0,
      0, 0, 0, 0, 0, 0, 0, 0xff, 0x30, 0x30, 0x18, 0,
      0, 0, 0, 0, 0, 0, 0x78, 0x0c, 0x7c, 0xcc, 0x76, 0,
      0xe0, 0x60, 0x60, 0x7c, 0x66, 0x66, 0xdc, 0, 0, 0, 0x78, 0xcc,
      0xc0, 0xcc, 0x78, 0, 0x1c, 0x0c, 0x0c, 0x7c, 0xcc, 0xcc, 0x76, 0,
      0, 0, 0x78, 0xcc, 0xfc, 0xc0, 0x78, 0, 0x38, 0x6c, 0x60, 0xf0,
      0x60, 0x60, 0xf0, 0, 0, 0, 0x76, 0xcc, 0xcc, 0x7c, 0x0c, 0xf8,
      0xe0, 0x60, 0x6c, 0x76, 0x66, 0x66, 0xe6, 0, 0x30, 0, 0x70, 0x30,
      0x30, 0x30, 0x78, 0, 0x0c, 0, 0x0c, 0x0c, 0x0c, 0xcc, 0xcc, 0x78,
      0xe0, 0x60, 0x66, 0x6c, 0x78, 0x6c, 0xe6, 0, 0x70, 0x30, 0x30, 0x30,
      0x30, 0x30, 0x78, 0, 0, 0, 0xcc, 0xfe, 0xfe, 0xd6, 0xc6, 0,
      0, 0, 0xf8, 0xcc, 0xcc, 0xcc, 0xcc, 0, 0, 0, 0x78, 0xcc,
      0xcc, 0xcc, 0x78, 0, 0, 0, 0xdc, 0x66, 0x66, 0x7c, 0x60, 0xf0,
      0, 0, 0x76, 0xcc, 0xcc, 0x7c, 0x0c, 0x1e, 0, 0, 0xdc, 0x76,
      0x66, 0x60, 0xf0, 0, 0, 0, 0x7c, 0xc0, 0x78, 0x0c, 0xf8, 0,
      0x10, 0x30, 0x7c, 0x30, 0x30, 0x34, 0x18, 0, 0, 0, 0xcc, 0xcc,
      0xcc, 0xcc, 0x76, 0, 0, 0, 0xcc, 0xcc, 0xcc, 0x78, 0x30, 0,
      0, 0, 0xc6, 0xd6, 0xfe, 0xfe, 0x6c, 0, 0, 0, 0xc6, 0x6c,
      0x38, 0x6c, 0xc6, 0, 0, 0, 0xcc, 0xcc, 0xcc, 0x7c, 0x0c, 0xf8,
      0, 0, 0xfc, 0x98, 0x30, 0x64, 0xfc, 0, 0x1c, 0x30, 0x30, 0xe0,
      0x30, 0x30, 0x1c, 0, 0x18, 0x18, 0x18, 0, 0x18, 0x18, 0x18, 0,
      0xe0, 0x30, 0x30, 0x1c, 0x30, 0x30, 0xe0, 0, 0x76, 0xdc, 0, 0,
      0, 0, 0, 0, 0, 0, 0, 0, 0, 0, 0, 0]"

lemma font_length: "length font_psf_bytes = 1056"
  by (simp add: font_psf_bytes_def)

lemma font_head:
  "take 40 font_psf_bytes = [0x72, 0xb5, 0x4a, 0x86, 0, 0, 0, 0, 32, 0, 0, 0, 0, 0, 0, 0, 128, 0, 0, 0, 8, 0, 0, 0, 8, 0, 0, 0, 8, 0, 0, 0,
     0, 0, 0, 0, 0, 0, 0, 0]"
  by (simp add: font_psf_bytes_def)

definition font_in_memory :: "'a console_scheme \<Rightarrow> bool" where
  "font_in_memory s \<longleftrightarrow> (\<forall>i < 1056. mem s (font_psf s + of_nat i) = font_psf_bytes ! i)"

lemma font_byte: "font_in_memory s \<Longrightarrow> i < 40 \<Longrightarrow> mem s (font_psf s + of_nat i) = take 40 font_psf_bytes ! i"
  by (simp add: font_in_memory_def)

lemma font_word:
  assumes "font_in_memory s" and "k + 4 \<le> 40"
  shows "load32 (mem s) (font_psf s + of_nat k) = ucast (take 40 font_psf_bytes ! k) OR push_bit 8 (ucast (take 40 font_psf_bytes ! (k + 1)) OR
    push_bit 8 (ucast (take 40 font_psf_bytes ! (k + 2)) OR push_bit 8 (ucast (take 40 font_psf_bytes ! (k + 3)))))"
proof -
  have "mem s (font_psf s + of_nat k + 1) = take 40 font_psf_bytes ! (k + 1)" "mem s (font_psf s + of_nat k + 2) = take 40 font_psf_bytes ! (k + 2)"
    "mem s (font_psf s + of_nat k + 3) = take 40 font_psf_bytes ! (k + 3)"
    using font_byte [OF assms(1), of "k + 1"] font_byte [OF assms(1), of "k + 2"] font_byte [OF assms(1), of "k + 3"] assms(2)
    by (simp_all add: ac_simps)
  moreover have "mem s (font_psf s + of_nat k) = take 40 font_psf_bytes ! k" using font_byte [OF assms(1)] assms(2) by simp
  ultimately show ?thesis unfolding load32_word by (simp only:)
qed

lemma font_fields:
  assumes "font_in_memory s"
  shows "psf_magic (mem s) (font_psf s) = PSF2_MAGIC" "psf_headersize (mem s) (font_psf s) = 32" "psf_length (mem s) (font_psf s) = 128"
    "psf_charsize (mem s) (font_psf s) = 8" "psf_height (mem s) (font_psf s) = 8" "psf_width (mem s) (font_psf s) = 8"
  using font_word [OF assms, of 0] font_word [OF assms, of 8] font_word [OF assms, of 16] font_word [OF assms, of 20]
    font_word [OF assms, of 24] font_word [OF assms, of 28]
  by (simp_all add: psf_magic_def psf_headersize_def psf_length_def psf_charsize_def psf_height_def psf_width_def PSF2_MAGIC_def font_head)

text \<open>Where the bits of a character are.\<close>

lemma font_geometry:
  fixes base :: u64 and width height pitch :: u32 and bpp :: u16
  assumes "font_in_memory s"
  defines "g \<equiv> geometry base width height pitch bpp s"
  shows "glyph_data g = font_psf s + 32" "glyph_count g = 128" "glyph_w g = 8" "glyph_h g = 8" "glyph_bytes g = 8" "gw_bytes g = 1"
    "cols g = width div 8" "rows g = height div 8" "mem g = mem s"
  by (simp_all add: g_def geometry_def Let_def font_fields [OF assms(1)])

lemma font_glyph_addr:
  fixes base :: u64 and width height pitch :: u32 and bpp :: u16
  assumes "font_in_memory s" and "unat r < 8" and "unat cx < 8"
  defines "g \<equiv> geometry base width height pitch bpp s"
  shows "glyph_addr g (glyph_code g ch) r cx = font_psf s + of_nat (32 + 8 * unat (glyph_code g ch) + unat r)"
    and "unat (glyph_code g ch) < 128"
proof -
  note f = font_geometry [OF assms(1), of base width height pitch bpp, folded g_def]
  let ?c = "glyph_code g ch"
  have "unat (ucast ch :: u32) = unat ch" using unat_lt2p [of ch] by (simp add: unsigned_ucast_eq take_bit_nat_def)
  then show c: "unat ?c < 128" by (simp add: glyph_code_def f word_le_nat_alt)
  have "drop_bit 3 cx = 0" using assms(3) by (simp add: drop_bit_eq_div unat_div word_unat_eq_iff)
  moreover have "ucast ?c * 8 = (of_nat (8 * unat ?c) :: u32)" by simp
  moreover have "unat (of_nat (8 * unat ?c) :: u32) = 8 * unat ?c" using c by (simp only: unat_of_nat) simp
  then have "(ucast (of_nat (8 * unat ?c) :: u32) :: u64) = of_nat (8 * unat ?c)" by (metis of_nat_unat)
  ultimately show "glyph_addr g ?c r cx = font_psf s + of_nat (32 + 8 * unat ?c + unat r)"
    unfolding glyph_addr_def f by (simp add: mult.commute)
qed

text \<open>The shapes, eight rows of eight pixels each, and that no two printable ones are the same.\<close>

fun glyph_rows :: "u8 list \<Rightarrow> u8 list list" where
  "glyph_rows (a # b # c # d # e # f # g # h # xs) = [a, b, c, d, e, f, g, h] # glyph_rows xs"
| "glyph_rows _ = []"

lemma glyph_rows_nth: "8 * k + 8 \<le> length xs \<Longrightarrow> k < length (glyph_rows xs) \<and> glyph_rows xs ! k = take 8 (drop (8 * k) xs)"
proof (induction xs arbitrary: k rule: glyph_rows.induct)
  case (1 a b c d e f g h xs)
  then show ?case
  proof (cases k)
    case (Suc k')
    have "drop (8 * k) (a # b # c # d # e # f # g # h # xs) = drop (8 * k') (drop 8 (a # b # c # d # e # f # g # h # xs))"
      unfolding drop_drop Suc by (simp add: add.commute)
    then show ?thesis using 1 Suc by simp
  qed simp
qed simp_all

lemma printable_distinct: "distinct (drop 32 (take 127 (glyph_rows (drop 32 font_psf_bytes))))"
  by code_simp

lemma printable_row:
  assumes "32 \<le> k" and "k < 127" and "32 \<le> l" and "l < 127" and "k \<noteq> l"
  shows "\<exists>i < 8. font_psf_bytes ! (32 + 8 * k + i) \<noteq> font_psf_bytes ! (32 + 8 * l + i)"
proof (rule ccontr)
  assume same: "\<not> ?thesis"
  let ?G = "glyph_rows (drop 32 font_psf_bytes)"
  have G: "m < length ?G" "?G ! m = take 8 (drop (8 * m) (drop 32 font_psf_bytes))" if "m < 127" for m
    using glyph_rows_nth [of m "drop 32 font_psf_bytes"] that by (simp_all add: font_length)
  have "?G ! k = ?G ! l"
    unfolding G(2) [OF assms(2)] G(2) [OF assms(4)]
    by (rule nth_equalityI) (use same assms in \<open>auto simp: font_length ac_simps\<close>)
  moreover have "length (drop 32 (take 127 ?G)) = 95" using G(1) [of 126] by simp
  moreover have "drop 32 (take 127 ?G) ! (m - 32) = ?G ! m" if "32 \<le> m" "m < 127" for m
    using that G(1) [of 126] by simp
  ultimately have "k - 32 = l - 32"
    using nth_eq_iff_index_eq [OF printable_distinct, of "k - 32" "l - 32"] assms by simp
  then show False using assms by simp
qed

lemma font_pix_bytes:
  assumes "font_in_memory s" and "i < 8" and "j < 8"
  shows "font_pix (mem s) (font_psf s) ch i j =
    (if bit (font_psf_bytes ! (32 + 8 * (if ch < 128 then unat ch else 0) + i)) (7 - j) then fg else bg)"
proof -
  define G where "G = (if (128 :: u32) \<le> ucast ch then 0 else ch)"
  have G: "unat G = (if ch < 128 then unat ch else 0)"
    using unat_lt2p [of ch] by (simp add: G_def word_le_nat_alt word_less_nat_alt unsigned_ucast_eq take_bit_nat_def)
  have "unat G < 128" unfolding G by (simp add: word_less_nat_alt)
  then have "unat (of_nat (8 * unat G) :: u32) = 8 * unat G" by (simp only: unat_of_nat) simp
  then have "(ucast (of_nat (8 * unat G) :: u32) :: u64) = of_nat (8 * unat G)" by (metis of_nat_unat)
  then have g: "(ucast (ucast G * 8 :: u32) :: u64) = 8 * ucast G" by (simp add: mult.commute)
  have "unat (of_nat i :: u32) = i" using assms(2) by (simp add: unat_of_nat)
  then have i: "(ucast (of_nat i :: u32) :: u64) = of_nat i" by (metis of_nat_unat)
  have "32 + 8 * unat G + i < 1056" using \<open>unat G < 128\<close> assms(2) by simp
  then have "mem s (font_psf s + of_nat (32 + 8 * unat G + i)) = font_psf_bytes ! (32 + 8 * unat G + i)"
    using assms(1) unfolding font_in_memory_def by blast
  then have byte: "mem s (font_psf s + 32 + 8 * ucast G + of_nat i) = font_psf_bytes ! (32 + 8 * unat G + i)"
    by (simp add: add.assoc)
  show ?thesis unfolding G [symmetric] font_pix_def font_fields [OF assms(1)] G_def [symmetric] Let_def
    using assms(3) by (simp add: g i byte)
qed

text \<open>C32 (bounds): the shipped font is a PSF2 font of 128 glyphs of 8 by 8 pixels, one byte a row, with a blank glyph 0: on
  any 32-bit framebuffer of at least 8 by 8 pixels that does not overlap the array the console's requirements hold,
  every byte it reads for any of the 256 character codes lies inside the array, the picture of a code below 128 is that of its
  own eight bytes, most significant bit to the left, and of any other code that of glyph 0, and no two printable
  characters have the same picture.\<close>

theorem font_psf_correct:
  assumes "font_in_memory s" and "bpp div 8 = 4" and "4 * unat width \<le> unat pitch" and "unat base + unat height * unat pitch \<le> 2 ^ 64"
    and "8 \<le> width" and "8 \<le> height" and "\<forall>i < 1056. \<not> unat (font_psf s + of_nat i - base) < unat height * unat pitch"
  shows "let g = geometry base width height pitch bpp s
    in good_font s \<and> fb_ok g \<and> blank_font g \<and>
       glyph_count g = 128 \<and> glyph_w g = 8 \<and> glyph_h g = 8 \<and> glyph_bytes g = 8 \<and> gw_bytes g = 1 \<and>
       (\<forall>ch r cx. unat r < 8 \<and> unat cx < 8 \<longrightarrow> (\<exists>i < 1056. glyph_addr g (glyph_code g ch) r cx = font_psf s + of_nat i)) \<and>
       (\<forall>ch. \<forall>i < 8. \<forall>j < 8. glyph_pix g ch i j =
          (if bit (font_psf_bytes ! (32 + 8 * (if ch < 128 then unat ch else 0) + i)) (7 - j) then fg else bg)) \<and>
       (\<forall>ch ch'. 32 \<le> ch \<and> ch < 127 \<and> 32 \<le> ch' \<and> ch' < 127 \<and> ch \<noteq> ch' \<longrightarrow> (\<exists>i < 8. \<exists>j < 8. glyph_pix g ch i j \<noteq> glyph_pix g ch' i j))"
proof -
  define g where "g = geometry base width height pitch bpp s"
  note f = font_geometry [OF assms(1), of base width height pitch bpp, folded g_def]
    and a = font_glyph_addr [OF assms(1), where base = base and width = width and height = height and pitch = pitch and bpp = bpp, folded g_def]
  have dims: "fb_base g = base" "fb_width g = width" "fb_height g = height" "fb_pitch g = pitch" "fb_bytes_pp g = 4"
    using assms(2) by (simp_all add: g_def geometry_def Let_def)
  have inside: "\<exists>i < 1056. glyph_addr g (glyph_code g ch) r cx = font_psf s + of_nat i" if "unat r < 8" "unat cx < 8" for ch r cx
    using a(1) [OF that, of ch] a(2) [OF that, of ch] that by (intro exI [of _ "32 + 8 * unat (glyph_code g ch) + unat r"]) auto
  have apart: "glyph_addr g (glyph_code g ch) r cx \<notin> fb_bytes g" if "unat r < 8" "unat cx < 8" for ch r cx
  proof -
    note in_font = inside [OF that, of ch]
    obtain i where "i < 1056" "glyph_addr g (glyph_code g ch) r cx = font_psf s + of_nat i" using in_font by blast
    then show ?thesis using assms(7) by (simp add: fb_bytes_def dims)
  qed
  have "8 \<le> unat width" "8 \<le> unat height" using assms(5,6) by (simp_all add: word_le_nat_alt)
  then have "0 < unat width div 8" "0 < unat height div 8" by (simp_all add: div_greater_zero_iff)
  then have ok: "fb_ok g" using assms(3,4) apart by (simp add: fb_ok_def dims f unat_div)
  have pix: "glyph_pix g ch i j = (if bit (font_psf_bytes ! (32 + 8 * (if ch < 128 then unat ch else 0) + i)) (7 - j) then fg else bg)"
    if "i < 8" "j < 8" for ch i j
    using glyph_pix_font [OF screen_kept_refl, of i s j base width height pitch bpp ch, folded g_def] font_pix_bytes [OF assms(1) that, of ch] that
    by (simp add: font_fields [OF assms(1)])
  have differ: "\<exists>i < 8. \<exists>j < 8. glyph_pix g ch i j \<noteq> glyph_pix g ch' i j"
    if "32 \<le> ch" "ch < 127" "32 \<le> ch'" "ch' < 127" "ch \<noteq> ch'" for ch ch'
  proof -
    have u: "32 \<le> unat ch" "unat ch < 127" "32 \<le> unat ch'" "unat ch' < 127" "ch < 128" "ch' < 128" "unat ch \<noteq> unat ch'"
      using that by (simp_all add: word_le_nat_alt word_less_nat_alt word_unat_eq_iff)
    obtain i where i: "i < 8" "font_psf_bytes ! (32 + 8 * unat ch + i) \<noteq> font_psf_bytes ! (32 + 8 * unat ch' + i)"
      using printable_row [OF u(1-4,7)] by blast
    then obtain k where k: "k < 8" "bit (font_psf_bytes ! (32 + 8 * unat ch + i)) k \<noteq> bit (font_psf_bytes ! (32 + 8 * unat ch' + i)) k"
      by (auto simp: bit_eq_iff)
    then have "glyph_pix g ch i (7 - k) \<noteq> glyph_pix g ch' i (7 - k)"
      using pix [of i "7 - k" ch] pix [of i "7 - k" ch'] i(1) u(5,6) by (auto simp: fg_def bg_def)
    moreover have "7 - k < 8" by simp
    ultimately show ?thesis using i(1) by blast
  qed
  have "glyph_pix g 0 i j = bg" if "i < 8" "j < 8" for i j
  proof -
    have "take 40 font_psf_bytes ! (32 + i) = 0" using that(1) unfolding font_head by (auto simp: less_Suc_eq eval_nat_numeral)
    then have "font_psf_bytes ! (32 + i) = 0" using that(1) by simp
    then show ?thesis using pix [OF that, of 0] by simp
  qed
  then have "blank_font g" by (simp add: blank_font_def f)
  moreover have "good_font s" by (simp add: good_font_def font_fields [OF assms(1)])
  ultimately show ?thesis using ok inside pix differ f unfolding g_def [symmetric] Let_def by (intro conjI allI impI) blast+
qed

text \<open>The font linked at \<open>0xffffffff80020000\<close>, the framebuffer in the direct map.\<close>

definition font_machine :: console where
  "font_machine = demo_console\<lparr>font_psf := 0xffffffff80020000,
     mem := (\<lambda>a. if unat (a - 0xffffffff80020000) < 1056 then font_psf_bytes ! unat (a - 0xffffffff80020000) else 0)\<rparr>"

lemma font_machine_font: "font_in_memory font_machine"
proof -
  have "unat (of_nat i :: u64) = i" if "i < 1056" for i using that by (simp only: unat_of_nat) simp
  then show ?thesis by (simp add: font_in_memory_def font_machine_def)
qed

theorem font_psf_correct_witness:
  "let g = geometry 0xffff8000fd000000 1280 800 5120 32 font_machine in fb_ok g \<and> blank_font g \<and> glyph_count g = 128 \<and>
     glyph_pix g 65 2 0 = fg \<and> glyph_pix g 65 2 2 = bg"
proof -
  have A: "font_psf_bytes ! 554 = 0xcc" by code_simp
  have f: "font_psf font_machine = 0xffffffff80020000" by (simp add: font_machine_def)
  have "\<not> unat (font_psf font_machine + of_nat i - 0xffff8000fd000000) < 4096000" if "i < 1056" for i
  proof -
    have "unat (of_nat i :: u64) = i" using that by (simp only: unat_of_nat) simp
    then have "unat (0x7ffe83020000 + of_nat i :: u64) = 0x7ffe83020000 + i" using that by (subst unat_add_exact) simp_all
    moreover have "font_psf font_machine + of_nat i - 0xffff8000fd000000 = 0x7ffe83020000 + of_nat i" by (simp add: f)
    ultimately show ?thesis by simp
  qed
  then show ?thesis using font_psf_correct [OF font_machine_font, of 32 1280 5120 "0xffff8000fd000000" 800] by (simp add: Let_def A)
qed

end
