(* ===== verification/Timer.thy ===== *)
theory Timer
  imports Terminal_Contract
begin

text \<open>
  The timer of \<^verbatim>\<open>drivers/timer.c\<close>: channel 0 of the PIT as a periodic tick, counted by the handler of
  interrupt line 0, with one line a second on the serial port.
\<close>

record timer = console +
  ticks :: u64
  tick_hz :: u32

definition PIT_CH0_DATA :: u16 where "PIT_CH0_DATA = 0x40"
definition PIT_CMD :: u16 where "PIT_CMD = 0x43"
definition PIT_BASE_HZ :: u32 where "PIT_BASE_HZ = 1193182"
definition PIT_CMD_CH0_RATEGEN :: u8 where "PIT_CMD_CH0_RATEGEN = 0x36"

subsection \<open>Operations\<close>

definition timer_irq :: "'a timer_scheme \<Rightarrow> 'a timer_scheme option" where
  "timer_irq s =
     (let s = s\<lparr>ticks := ticks s + 1\<rparr>
      in if tick_hz s \<noteq> 0 \<and> ticks s mod ucast (tick_hz s) = 0
         then run_all [serial_write ''[timer] tick '', put_dec (ticks s div ucast (tick_hz s)), serial_write (''s'' @ nl)] s
         else Some s)"

text \<open>A zero frequency is a division by zero, exception 0, with the state it finds.\<close>

definition timer_init :: "u32 \<Rightarrow> 'a timer_scheme \<Rightarrow> (halt \<times> 'a timer_scheme) + 'a timer_scheme" where
  "timer_init frequency s =
     (let s = s\<lparr>tick_hz := frequency\<rparr>
      in if frequency = 0 then Inl (CpuException 0, s)
         else
           let divisor = (ucast (PIT_BASE_HZ div frequency) :: u16);
               s = outb PIT_CMD PIT_CMD_CH0_RATEGEN s;
               s = outb PIT_CH0_DATA (ucast (divisor AND 0xFF)) s;
               s = outb PIT_CH0_DATA (ucast (drop_bit 8 divisor AND 0xFF)) s
           in Inr (irq_install_handler 0 (Some Timer_irq) s))"

definition timer_ticks :: "'a timer_scheme \<Rightarrow> u64" where "timer_ticks s = ticks s"

subsection \<open>The divisor\<close>

lemma byte_parts: "unat (ucast (v AND 0xFF :: u16) :: u8) + 256 * unat (ucast (drop_bit 8 v AND 0xFF :: u16) :: u8) = unat v"
proof -
  have m: "(0xFF :: u16) = mask 8" by (simp add: mask_eq_exp_minus_1)
  have "unat (ucast (w AND 0xFF :: u16) :: u8) = unat w mod 256" for w :: u16
    unfolding m by (simp add: unsigned_ucast_eq take_bit_nat_def take_bit_eq_mask [symmetric] unsigned_take_bit_eq)
  moreover have "unat (drop_bit 8 v) = unat v div 256" by (simp add: drop_bit_eq_div unat_div)
  ultimately show ?thesis using unat_lt2p [of v] by simp
qed

text \<open>C33 (bounds): \<open>timer_init\<close> programs channel 0 as a square wave and installs the handler of line 0. The
  divisor written, low byte first, is the quotient of the clock by the frequency cut to 16 bits; it
  is the whole quotient exactly for frequencies from 19 Hz on, and non-zero up to the clock itself. Frequency 0 is a divide
  error in a state that differs from the one before only in the frequency stored: no port was touched, no handler installed.\<close>

theorem timer_init_correct:
  shows "case timer_init f s of
      Inl (e, t) \<Rightarrow> f = 0 \<and> e = CpuException 0 \<and> t = s\<lparr>tick_hz := 0\<rparr>
    | Inr s' \<Rightarrow> f \<noteq> 0 \<and> (\<exists>lo hi. s' = s\<lparr>tick_hz := f, io_trace := io_trace s @ [Outb 0x43 0x36, Outb 0x40 lo, Outb 0x40 hi],
          handlers := (handlers s)[0 := Some Timer_irq]\<rparr> \<and>
        unat lo + 256 * unat hi = 1193182 div unat f mod 65536 \<and>
        (unat lo + 256 * unat hi = 1193182 div unat f \<longleftrightarrow> 19 \<le> f) \<and> (19 \<le> f \<and> f \<le> 1193182 \<longrightarrow> 0 < unat lo + 256 * unat hi))"
proof (cases "f = 0")
  case False
  let ?d = "ucast (PIT_BASE_HZ div f) :: u16" and ?q = "1193182 div unat f"
  have q: "unat ?d = ?q mod 65536" by (simp add: PIT_BASE_HZ_def unsigned_ucast_eq take_bit_nat_def unat_div)
  have pos: "0 < unat f" using False by (simp add: unat_gt_0)
  have "?q < 65536 \<longleftrightarrow> 19 \<le> unat f"
  proof
    assume "?q < 65536"
    then have "1193182 < 65536 * unat f" using pos by (simp add: div_less_iff_less_mult)
    then show "19 \<le> unat f" by simp
  qed (use pos in \<open>simp add: div_less_iff_less_mult\<close>)
  moreover have "?q mod 65536 = ?q \<longleftrightarrow> ?q < 65536" by (metis mod_less mod_less_divisor zero_less_numeral)
  ultimately have small: "?q mod 65536 = ?q \<longleftrightarrow> 19 \<le> f" by (simp add: word_le_nat_alt)
  have "0 < ?q" if "f \<le> 1193182" using that pos by (simp add: word_le_nat_alt div_greater_zero_iff)
  then show ?thesis
    using False byte_parts [of ?d] small unfolding q
    by (auto simp: timer_init_def Let_def outb_def irq_install_handler_def PIT_CMD_def PIT_CH0_DATA_def PIT_CMD_CH0_RATEGEN_def intro!: exI)
qed (simp add: timer_init_def)

definition cold_timer :: timer where
  "cold_timer = console.extend (demo_console\<lparr>device := demo_uart\<rparr>) (timer.fields 0 0)"

theorem timer_init_correct_witness:
  "\<exists>s' lo hi. timer_init 100 cold_timer = Inr s' \<and> tick_hz s' = 100 \<and> io_trace s' = io_trace cold_timer @ [Outb 0x43 0x36, Outb 0x40 lo, Outb 0x40 hi] \<and>
     unat lo + 256 * unat hi = 11931 \<and> timer_init 0 cold_timer = Inl (CpuException 0, cold_timer\<lparr>tick_hz := 0\<rparr>)"
proof -
  have "timer_init 0 cold_timer = Inl (CpuException 0, cold_timer\<lparr>tick_hz := 0\<rparr>)"
    using timer_init_correct [of 0 cold_timer] by (auto split: sum.splits)
  moreover obtain s' where s': "timer_init 100 cold_timer = Inr s'" by (simp add: timer_init_def Let_def)
  then obtain lo hi where "s' = cold_timer\<lparr>tick_hz := 100, io_trace := io_trace cold_timer @ [Outb 0x43 0x36, Outb 0x40 lo, Outb 0x40 hi],
          handlers := (handlers cold_timer)[0 := Some Timer_irq]\<rparr>" "unat lo + 256 * unat hi = 1193182 div 100 mod 65536"
    using timer_init_correct [of 100 cold_timer] by auto
  ultimately show ?thesis using s' by auto
qed

subsection \<open>The heartbeat\<close>

text \<open>\<open>n\<close> interrupts on line 0; the line printed after \<open>k\<close> seconds.\<close>

fun timer_run :: "nat \<Rightarrow> 'a timer_scheme \<Rightarrow> 'a timer_scheme option" where
  "timer_run 0 s = Some s"
| "timer_run (Suc n) s = Option.bind (timer_run n s) timer_irq"

definition beat :: "nat \<Rightarrow> string" where
  "beat k = ''[timer] tick '' @ dec_text (of_nat k) @ ''s'' @ [CHR 0x0D, CHR 0x0A]"

lemma sends_ticks: "sends x s t \<Longrightarrow> sends x (s\<lparr>ticks := k\<rparr>) (t\<lparr>ticks := k\<rparr>)"
  unfolding sends_def by (elim exE conjE) (intro exI conjI timer.equality, simp_all)

lemma prints_beat:
  "prints (run_all [serial_write ''[timer] tick '', put_dec v, serial_write (''s'' @ nl)])
    (''[timer] tick '' @ dec_text v @ ''s'' @ [CHR 0x0D, CHR 0x0A])"
proof -
  have "prints (run_all [serial_write ''[timer] tick '', put_dec v, serial_write (''s'' @ nl)])
      (crlf ''[timer] tick '' @ dec_text v @ crlf (''s'' @ nl) @ [])"
    by (intro prints_intros)
  moreover have "crlf ''[timer] tick '' = ''[timer] tick ''" "crlf (''s'' @ nl) = ''s'' @ [CHR 0x0D, CHR 0x0A]"
    by (simp add: crlf_id, simp only: crlf_append crlf_nl, simp add: crlf_id)
  ultimately show ?thesis by (simp only: append_Nil2)
qed

text \<open>One interrupt: the count goes up, and on a full second its line goes out.\<close>

lemma timer_irq_step:
  assumes "uart_live (device s)" and "ticks s = of_nat n" and "Suc n < 2 ^ 64" and "tick_hz s \<noteq> 0"
  shows "\<exists>s'. timer_irq s = Some s' \<and>
    sends (if Suc n mod unat (tick_hz s) = 0 then beat (Suc n div unat (tick_hz s)) else []) (s\<lparr>ticks := of_nat (Suc n)\<rparr>) s'"
proof -
  let ?s = "s\<lparr>ticks := of_nat (Suc n)\<rparr>" and ?hz = "unat (tick_hz s)"
  have s: "s\<lparr>ticks := ticks s + 1\<rparr> = ?s" using assms(2) by (simp add: add.commute)
  have u: "unat (of_nat (Suc n) :: u64) = Suc n" using assms(3) by (intro unat_of_nat64)
  have h: "unat (ucast (tick_hz s) :: u64) = ?hz" using unat_lt2p [of "tick_hz s"] by (simp add: unsigned_ucast_eq take_bit_nat_def)
  have m: "of_nat (Suc n) mod ucast (tick_hz s) = (0 :: u64) \<longleftrightarrow> Suc n mod ?hz = 0"
    unfolding word_unat_eq_iff unat_mod u h by simp
  have d: "of_nat (Suc n) div ucast (tick_hz s) = (of_nat (Suc n div ?hz) :: u64)"
    unfolding word_arith_nat_div u h ..
  have "uart_live (device ?s)" using assms(1) by simp
  note out = printsD [OF prints_beat this, of "of_nat (Suc n div ?hz)", folded beat_def]
  show ?thesis
  proof (cases "Suc n mod ?hz = 0")
    case True
    then have "timer_irq s = run_all [serial_write ''[timer] tick '', put_dec (of_nat (Suc n div ?hz)), serial_write (''s'' @ nl)] ?s"
      unfolding timer_irq_def s Let_def using assms(4) m d by (simp del: of_nat_Suc run_all.simps)
    then show ?thesis using out True by simp
  next
    case False
    then have "timer_irq s = Some ?s" unfolding timer_irq_def s Let_def using m by (simp del: of_nat_Suc)
    then show ?thesis using False by simp
  qed
qed

text \<open>C34 (liveness): the heartbeat. Starting from zero, \<open>n\<close> timer interrupts all return, the count is \<open>n\<close>, and
  exactly one line per full second has gone out, numbered from 1 in order, whatever the frequency; nothing
  else of the machine changes.\<close>

theorem timer_heartbeat:
  assumes "uart_live (device s)" and "ticks s = 0" and "tick_hz s \<noteq> 0" and "n < 2 ^ 64"
  shows "\<exists>s'. timer_run n s = Some s' \<and> timer_ticks s' = of_nat n \<and>
    sends (concat (map beat [1..<Suc (n div unat (tick_hz s))])) (s\<lparr>ticks := of_nat n\<rparr>) s'"
  using assms(4)
proof (induction n)
  case 0
  have "s = s\<lparr>ticks := 0\<rparr>" using assms(2) by simp
  then show ?case using assms(2) by (simp add: timer_ticks_def)
next
  case (Suc n)
  let ?hz = "unat (tick_hz s)" and ?k = "of_nat (Suc n) :: u64"
  obtain t where t: "timer_run n s = Some t" "ticks t = of_nat n" "sends (concat (map beat [1..<Suc (n div ?hz)])) (s\<lparr>ticks := of_nat n\<rparr>) t"
    using Suc by (auto simp: timer_ticks_def)
  have f: "tick_hz t = tick_hz s" "device t = device s" using t(3) by (auto simp: sends_def)
  obtain s' where s': "timer_irq t = Some s'" "sends (if Suc n mod ?hz = 0 then beat (Suc n div ?hz) else []) (t\<lparr>ticks := ?k\<rparr>) s'"
    using timer_irq_step [of t n, unfolded f, OF assms(1) t(2) Suc.prems assms(3)] by blast
  have "sends (concat (map beat [1..<Suc (n div ?hz)]) @ (if Suc n mod ?hz = 0 then beat (Suc n div ?hz) else [])) (s\<lparr>ticks := ?k\<rparr>) s'"
    using sends_append [OF sends_ticks [OF t(3), of ?k] s'(2)] by simp
  moreover have "concat (map beat [1..<Suc (n div ?hz)]) @ (if Suc n mod ?hz = 0 then beat (Suc n div ?hz) else []) =
      concat (map beat [1..<Suc (Suc n div ?hz)])"
    by (simp add: div_Suc)
  moreover have "ticks s' = ?k" using s'(2) by (auto simp: sends_def)
  ultimately show ?case using t(1) s'(1) by (simp add: timer_ticks_def)
qed

theorem timer_heartbeat_witness:
  "\<exists>s'. timer_run 250 (cold_timer\<lparr>tick_hz := 100\<rparr>) = Some s' \<and> timer_ticks s' = 250 \<and>
     sends (beat 1 @ beat 2) (cold_timer\<lparr>tick_hz := 100, ticks := 250\<rparr>) s'"
proof -
  have "uart_live (device (cold_timer\<lparr>tick_hz := 100\<rparr>))" using demo_uart_live by (simp add: cold_timer_def console.defs timer.defs)
  moreover have "ticks (cold_timer\<lparr>tick_hz := 100\<rparr>) = 0" by (simp add: cold_timer_def console.defs timer.defs)
  moreover have "[1..<Suc (250 div 100)] = [1, 2]" by (simp add: upt_rec)
  ultimately show ?thesis using timer_heartbeat [of "cold_timer\<lparr>tick_hz := 100\<rparr>" 250] by simp
qed

end
