(* ===== verification/Keyboard.thy ===== *)
theory Keyboard
  imports Timer
begin

text \<open>
  The keyboard of \<^verbatim>\<open>drivers/keyboard.c\<close>: the handler of interrupt line 1 reads a scancode, ignores
  releases, and echoes the character of a press to the console and the serial line.
\<close>

definition PS2_DATA :: u16 where "PS2_DATA = 0x60"

definition scancode_ascii :: string where
  "scancode_ascii =
     [CHR 0x00, CHR 0x00] @ ''1234567890-='' @ [CHR 0x08] @
     [CHR 0x09] @ ''qwertyuiop[]'' @ [CHR 0x0A, CHR 0x00] @
     ''asdfghjkl;'' @ [CHR 0x27, CHR 0x60, CHR 0x00, CHR 0x5C] @
     ''zxcvbnm,./'' @ [CHR 0x00] @ ''*'' @ [CHR 0x00] @ '' '' @ [CHR 0x00] @ replicate 69 (CHR 0x00)"

subsection \<open>Operations\<close>

definition keyboard_irq :: "'a console_scheme \<Rightarrow> 'a console_scheme option" where
  "keyboard_irq s =
     (let (scancode, s) = inb PS2_DATA s
      in if scancode AND 0x80 \<noteq> 0 then Some s
         else
           let c = scancode_ascii ! unat scancode
           in if c \<noteq> CHR 0x00
              then let s = console_putc c s
                   in Option.bind (if c = CHR 0x0A then serial_putc (CHR 0x0D) s else Some s) (serial_putc c)
              else Some s)"

definition keyboard_init :: "'a arch_scheme \<Rightarrow> 'a arch_scheme" where
  "keyboard_init s = irq_install_handler 1 (Some Keyboard_irq) s"

subsection \<open>The echo\<close>

text \<open>The character of a press, if it has one.\<close>

definition key_char :: "u8 \<Rightarrow> char option" where
  "key_char sc = (if bit sc 7 \<or> scancode_ascii ! unat sc = CHR 0x00 then None else Some (scancode_ascii ! unat sc))"

lemma scancode_length: "length scancode_ascii = 128"
  by (simp add: scancode_ascii_def)

lemma press_bit: "sc AND 0x80 \<noteq> 0 \<longleftrightarrow> bit (sc :: u8) 7"
proof -
  have "(0x80 :: u8) = push_bit 7 1" by simp
  then show ?thesis by (simp only: and_exp_eq_0_iff_not_bit push_bit_of_1 not_not)
qed

lemma press_index: "\<not> bit (sc :: u8) 7 \<Longrightarrow> unat sc < 128"
proof -
  assume "\<not> bit sc 7"
  then have "\<not> bit (unat sc) 7" by (simp add: bit_unsigned_iff)
  then have "even (unat sc div 2 ^ 7)" unfolding bit_iff_odd by simp
  moreover have "unat sc div 2 ^ 7 < 2" using unat_lt2p [of sc] by simp
  ultimately have "unat sc div 128 \<noteq> 1" "unat sc div 128 < 2" by auto
  then show ?thesis by linarith
qed

text \<open>The screen does not depend on the bus.\<close>

lemma displays_io [simp]: "displays (s\<lparr>io_trace := tr\<rparr>) T = displays s T" "displays (s\<lparr>device := d\<rparr>) T = displays s T"
proof -
  have "fb_ok (s\<lparr>io_trace := tr\<rparr>) = fb_ok s" "pixel (s\<lparr>io_trace := tr\<rparr>) = pixel s" "glyph_pix (s\<lparr>io_trace := tr\<rparr>) = glyph_pix s"
    "fb_ok (s\<lparr>device := d\<rparr>) = fb_ok s" "pixel (s\<lparr>device := d\<rparr>) = pixel s" "glyph_pix (s\<lparr>device := d\<rparr>) = glyph_pix s"
    by (auto simp: fb_ok_def fb_bytes_def glyph_addr_def pixel_def pixel_addr_def glyph_pix_def glyph_bit_def glyph_code_def fun_eq_iff)
  moreover from this(3,6) have "cell_pix (s\<lparr>io_trace := tr\<rparr>) = cell_pix s" "blank_font (s\<lparr>io_trace := tr\<rparr>) = blank_font s"
    "cell_pix (s\<lparr>device := d\<rparr>) = cell_pix s" "blank_font (s\<lparr>device := d\<rparr>) = blank_font s"
    by (auto simp: cell_pix_def blank_font_def fun_eq_iff)
  ultimately show "displays (s\<lparr>io_trace := tr\<rparr>) T = displays s T" "displays (s\<lparr>device := d\<rparr>) T = displays s T"
    by (simp_all add: displays_def cursor_at_def)
qed

lemma displays_sends: "sends x s t \<Longrightarrow> displays t T = displays s T"
  by (auto simp: sends_def)

lemma keyboard_irq_step:
  assumes "uart_live (device s)" and "displays s T"
  shows "let sc = device s (io_trace s) 0x60; t = s\<lparr>io_trace := io_trace s @ [Inb 0x60 sc]\<rparr>
    in case key_char sc of
         None \<Rightarrow> keyboard_irq s = Some t
       | Some c \<Rightarrow> \<exists>s'. keyboard_irq s = Some s' \<and> sends (crlf [c]) (console_putc c t) s' \<and> displays s' (term_putc c T)"
proof -
  define sc where "sc = device s (io_trace s) 0x60"
  define t where "t = s\<lparr>io_trace := io_trace s @ [Inb 0x60 sc]\<rparr>"
  have rd: "inb PS2_DATA s = (sc, t)" by (simp add: inb_def PS2_DATA_def sc_def t_def Let_def)
  show ?thesis
  proof (cases "key_char sc")
    case None
    then have "keyboard_irq s = Some t" by (auto simp: keyboard_irq_def rd press_bit key_char_def Let_def split: if_splits)
    then show ?thesis using None unfolding sc_def [symmetric] t_def [symmetric] Let_def by simp
  next
    case (Some c)
    let ?u = "console_putc c t"
    have D: "displays ?u (term_putc c T)" and tch: "touches t ?u" using console_putc_step [of t T c] assms(2) by (auto simp: t_def)
    have dev: "uart_live (device ?u)" using tch assms(1) by (auto simp: touches_def t_def)
    have "prints (run_all ((if c = CHR 0x0A then [serial_putc (CHR 0x0D)] else []) @ [serial_putc c])) (crlf [c])"
      by (auto intro!: prints_cong [OF prints_cons] prints_intros)
    from printsD [OF this dev] obtain s' where s': "run_all ((if c = CHR 0x0A then [serial_putc (CHR 0x0D)] else []) @ [serial_putc c]) ?u = Some s'"
      "sends (crlf [c]) ?u s'" by blast
    have "keyboard_irq s = run_all ((if c = CHR 0x0A then [serial_putc (CHR 0x0D)] else []) @ [serial_putc c]) ?u"
      using Some by (auto simp: keyboard_irq_def rd press_bit key_char_def Let_def run_all_append split: if_splits bind_splits)
    then show ?thesis
      using Some s' D displays_sends [OF s'(2)] unfolding sc_def [symmetric] t_def [symmetric] Let_def by auto
  qed
qed

text \<open>C35 (functional): a keyboard interrupt reads the data port once. A release, or a key without a character, has no
  other effect; a press puts its character on the screen and on the serial line, a line feed
  there preceded by a carriage return, and the handler returns.\<close>

theorem keyboard_irq_correct:
  assumes "uart_live (device s)" and "displays s T"
  shows "let sc = device s (io_trace s) 0x60; t = s\<lparr>io_trace := io_trace s @ [Inb 0x60 sc]\<rparr>
    in case key_char sc of
         None \<Rightarrow> keyboard_irq s = Some t
       | Some c \<Rightarrow> \<exists>s'. keyboard_irq s = Some s' \<and> sends (crlf [c]) (console_putc c t) s' \<and> displays s' (term_putc c T)"
  by (rule keyboard_irq_step [OF assms])

text \<open>A UART beside a keyboard whose A key was pressed.\<close>

definition demo_keys :: "io_event list \<Rightarrow> u16 \<Rightarrow> u8" where
  "demo_keys tr p = (if p = 0x60 then 0x1E else demo_uart tr p)"

lemma demo_keys_live: "uart_live demo_keys"
  unfolding uart_live_def
proof
  fix tr
  show "\<exists>k. demo_keys (lsr_polls demo_keys k tr) LSR AND 0x20 \<noteq> 0"
  proof (cases "even (length tr)")
    case True
    then show ?thesis by (intro exI [of _ 1]) (simp add: demo_keys_def demo_uart_def LSR_def COM1_def)
  next
    case False
    then show ?thesis by (intro exI [of _ 0]) (simp add: demo_keys_def demo_uart_def LSR_def COM1_def)
  qed
qed

theorem keyboard_irq_correct_witness:
  "\<exists>s'. keyboard_irq (demo_screen\<lparr>device := demo_keys\<rparr>) = Some s' \<and> displays s' (term_putc (CHR ''a'') (blank_terminal 2 2))"
proof -
  let ?s = "demo_screen\<lparr>device := demo_keys\<rparr>"
  have "uart_live (device ?s)" "displays ?s (blank_terminal 2 2)" using demo_keys_live demo_displays by simp_all
  moreover have "key_char 0x1E = Some (CHR ''a'')" by (simp add: key_char_def scancode_ascii_def)
  moreover have "device ?s (io_trace ?s) 0x60 = 0x1E" by (simp add: demo_keys_def)
  ultimately show ?thesis using keyboard_irq_correct [of ?s "blank_terminal 2 2"] by (auto simp: Let_def)
qed

subsection \<open>The scancodes of a piece of bus history\<close>

text \<open>What was read from the data port, what went out on the serial port, and that every scancode is the device's answer.\<close>

fun scancodes :: "io_event list \<Rightarrow> u8 list" where
  "scancodes [] = []"
| "scancodes (Inb p v # es) = (if p = PS2_DATA then v # scancodes es else scancodes es)"
| "scancodes (Outb p v # es) = scancodes es"

fun transmitted :: "io_event list \<Rightarrow> u8 list" where
  "transmitted [] = []"
| "transmitted (Outb p v # es) = (if p = COM1 then v # transmitted es else transmitted es)"
| "transmitted (Inb p v # es) = transmitted es"

fun answered :: "(io_event list \<Rightarrow> u16 \<Rightarrow> u8) \<Rightarrow> io_event list \<Rightarrow> io_event list \<Rightarrow> bool" where
  "answered d tr [] = True"
| "answered d tr (Inb p v # es) = ((p = PS2_DATA \<longrightarrow> v = d tr p) \<and> answered d (tr @ [Inb p v]) es)"
| "answered d tr (Outb p v # es) = answered d (tr @ [Outb p v]) es"

definition keys_text :: "u8 list \<Rightarrow> string" where
  "keys_text scs = concat (map (\<lambda>sc. case key_char sc of None \<Rightarrow> [] | Some c \<Rightarrow> [c]) scs)"

lemma keys_text_simps [simp]:
  "keys_text [] = []" "keys_text (x @ y) = keys_text x @ keys_text y" "keys_text (sc # y) = (case key_char sc of None \<Rightarrow> [] | Some c \<Rightarrow> [c]) @ keys_text y"
  by (simp_all add: keys_text_def)

lemma scancodes_append [simp]: "scancodes (xs @ ys) = scancodes xs @ scancodes ys"
  by (induction xs rule: scancodes.induct) simp_all

lemma transmitted_append [simp]: "transmitted (xs @ ys) = transmitted xs @ transmitted ys"
  by (induction xs rule: transmitted.induct) simp_all

lemma answered_append [simp]: "answered d tr (xs @ ys) \<longleftrightarrow> answered d tr xs \<and> answered d (tr @ xs) ys"
  by (induction d tr xs rule: answered.induct) simp_all

lemma answered_silent: "scancodes es = [] \<Longrightarrow> answered d tr es"
  by (induction d tr es rule: answered.induct) (auto split: if_splits)

lemma burst_events: "burst c es \<Longrightarrow> scancodes es = [] \<and> transmitted es = [of_char c]"
proof -
  have "list_all busy_poll ps \<Longrightarrow> scancodes ps = [] \<and> transmitted ps = []" for ps
    by (induction ps) (auto simp: busy_poll_def LSR_def COM1_def PS2_DATA_def)
  then show "burst c es \<Longrightarrow> ?thesis" by (auto simp: burst_def LSR_def COM1_def PS2_DATA_def)
qed

lemma bursts_events: "list_all2 burst cs bs \<Longrightarrow> scancodes (concat bs) = [] \<and> transmitted (concat bs) = map of_char cs"
  by (induction rule: list_all2_induct) (simp_all add: burst_events)

lemma sends_events:
  assumes "sends cs s t"
  shows "\<exists>es. io_trace t = io_trace s @ es \<and> scancodes es = [] \<and> transmitted es = map of_char cs"
  using assms bursts_events by (fastforce simp: sends_def)

lemma term_write_append: "term_write (x @ y) T = term_write y (term_write x T)"
  by (simp add: term_write_def)

text \<open>Any number of keyboard interrupts: a scancode each, and the text they stand for.\<close>

fun key_run :: "nat \<Rightarrow> 'a console_scheme \<Rightarrow> 'a console_scheme option" where
  "key_run 0 s = Some s"
| "key_run (Suc n) s = Option.bind (key_run n s) keyboard_irq"

definition echoes :: "'a console_scheme \<Rightarrow> 'a console_scheme \<Rightarrow> bool" where
  "echoes s t \<longleftrightarrow> t = s\<lparr>mem := mem t, io_trace := io_trace t, cur_col := cur_col t, cur_row := cur_row t\<rparr> \<and> (\<forall>a. a \<notin> fb_bytes s \<longrightarrow> mem t a = mem s a)"

lemma echoesI: "t = s\<lparr>mem := m, io_trace := tr, cur_col := c, cur_row := r\<rparr> \<Longrightarrow> (\<And>a. a \<notin> fb_bytes s \<Longrightarrow> m a = mem s a) \<Longrightarrow> echoes s t"
  by (simp add: echoes_def)

lemma echoes_trans:
  assumes "echoes s t" and "echoes t u"
  shows "echoes s u"
proof -
  obtain m tr c r where t: "t = s\<lparr>mem := m, io_trace := tr, cur_col := c, cur_row := r\<rparr>" "\<And>a. a \<notin> fb_bytes s \<Longrightarrow> m a = mem s a"
    using assms(1) that unfolding echoes_def by blast
  obtain m' tr' c' r' where u: "u = t\<lparr>mem := m', io_trace := tr', cur_col := c', cur_row := r'\<rparr>" "\<And>a. a \<notin> fb_bytes t \<Longrightarrow> m' a = mem t a"
    using assms(2) that unfolding echoes_def by blast
  show ?thesis by (rule echoesI [where m = m' and tr = tr' and c = c' and r = r']) (use t u in \<open>simp_all add: fb_bytes_def\<close>)
qed

lemma keyboard_irq_reads:
  assumes "uart_live (device s)" and "displays s T"
  shows "\<exists>t es. keyboard_irq s = Some t \<and> echoes s t \<and> displays t (term_write (keys_text (scancodes es)) T) \<and> io_trace t = io_trace s @ es \<and>
    length (scancodes es) = 1 \<and> answered (device s) (io_trace s) es \<and> transmitted es = map of_char (crlf (keys_text (scancodes es)))"
proof -
  define sc where "sc = device s (io_trace s) 0x60"
  define t0 where "t0 = s\<lparr>io_trace := io_trace s @ [Inb 0x60 sc]\<rparr>"
  note K = keyboard_irq_step [OF assms, folded sc_def, unfolded Let_def, folded t0_def]
  have D0: "displays t0 T" using assms(2) by (simp add: t0_def)
  have one: "scancodes (Inb 0x60 sc # es) = sc # scancodes es" "transmitted (Inb 0x60 sc # es) = transmitted es"
    "scancodes es = [] \<Longrightarrow> answered (device s) (io_trace s) (Inb 0x60 sc # es)" for es
    using answered_silent by (simp_all add: PS2_DATA_def sc_def)
  show ?thesis
  proof (cases "key_char sc")
    case None
    have "echoes s t0" by (rule echoesI [where c = "cur_col s" and r = "cur_row s"]) (simp_all add: t0_def)
    then show ?thesis using K None D0 one [of "[]"] by (intro exI [of _ t0] exI [of _ "[Inb 0x60 sc]"]) (simp add: t0_def term_write_def)
  next
    case (Some c)
    then obtain t where t: "keyboard_irq s = Some t" "sends (crlf [c]) (console_putc c t0) t" "displays t (term_putc c T)" using K by auto
    have tch: "touches t0 (console_putc c t0)" using console_putc_step [OF D0] by blast
    then obtain m cc r where q: "console_putc c t0 = t0\<lparr>mem := m, cur_col := cc, cur_row := r\<rparr>" "\<And>a. a \<notin> fb_bytes t0 \<Longrightarrow> m a = mem t0 a"
      by (auto simp: touches_def)
    have p: "console_putc c t0 = s\<lparr>mem := m, io_trace := io_trace t0, cur_col := cc, cur_row := r\<rparr>"
      unfolding q(1) by (rule console.equality) (simp_all add: t0_def)
    have off: "\<And>a. a \<notin> fb_bytes s \<Longrightarrow> m a = mem s a" using q(2) by (simp add: t0_def fb_bytes_def)
    obtain es where es: "io_trace t = io_trace (console_putc c t0) @ es" "scancodes es = []" "transmitted es = map of_char (crlf [c])"
      using sends_events [OF t(2)] by blast
    have "t = s\<lparr>mem := m, io_trace := io_trace t, cur_col := cc, cur_row := r\<rparr>" using t(2) by (auto simp: sends_def p)
    then have "echoes s t" by (rule echoesI) (rule off)
    moreover have "io_trace t = io_trace s @ Inb 0x60 sc # es" unfolding es(1) p by (simp add: t0_def)
    ultimately show ?thesis using t(1,3) es(2,3) one [of es] Some
      by (intro exI [of _ t] exI [of _ "Inb 0x60 sc # es"]) (simp add: term_write_def)
  qed
qed

lemma key_run_reads:
  assumes "uart_live (device s)" and "displays s T"
  shows "\<exists>t es. key_run n s = Some t \<and> echoes s t \<and> displays t (term_write (keys_text (scancodes es)) T) \<and> io_trace t = io_trace s @ es \<and>
    length (scancodes es) = n \<and> answered (device s) (io_trace s) es \<and> transmitted es = map of_char (crlf (keys_text (scancodes es)))"
proof (induction n)
  case 0
  show ?case using assms(2) by (intro exI [of _ s] exI [of _ "[]"]) (simp add: echoes_def term_write_def)
next
  case (Suc n)
  then obtain t es where t: "key_run n s = Some t" "echoes s t" "displays t (term_write (keys_text (scancodes es)) T)" "io_trace t = io_trace s @ es"
    "length (scancodes es) = n" "answered (device s) (io_trace s) es" "transmitted es = map of_char (crlf (keys_text (scancodes es)))" by blast
  have "t = s\<lparr>mem := mem t, io_trace := io_trace t, cur_col := cur_col t, cur_row := cur_row t\<rparr>" using t(2) by (simp add: echoes_def)
  then have dev: "device t = device s" by (rule ssubst) simp
  then obtain u fs where u: "keyboard_irq t = Some u" "echoes t u" "displays u (term_write (keys_text (scancodes fs)) (term_write (keys_text (scancodes es)) T))"
    "io_trace u = io_trace t @ fs" "length (scancodes fs) = 1" "answered (device s) (io_trace t) fs" "transmitted fs = map of_char (crlf (keys_text (scancodes fs)))"
    using keyboard_irq_reads [of t, OF _ t(3)] assms(1) by metis
  then show ?case using t echoes_trans [OF t(2) u(2)]
    by (intro exI [of _ u] exI [of _ "es @ fs"]) (simp add: term_write_append crlf_append)
qed

subsection \<open>Typing\<close>

text \<open>
  The PC keyboard, set 1: the keys of a row have consecutive codes from the row's first. A key sends its
  code when it is pressed, and the code with the top bit set when it is released.
\<close>

definition keyboard_rows :: "(nat \<times> string) list" where
  "keyboard_rows =
     [(0x02, ''1234567890-=''), (0x0E, [CHR 0x08, CHR 0x09]), (0x10, ''qwertyuiop[]''), (0x1C, [CHR 0x0A]),
      (0x1E, ''asdfghjkl;'' @ [CHR 0x27, CHR 0x60]), (0x2B, [CHR 0x5C]), (0x2C, ''zxcvbnm,./''), (0x37, ''*''), (0x39, '' '')]"

definition make_codes :: "(char \<times> u8) list" where
  "make_codes = concat (map (\<lambda>(k, cs). zip cs (map of_nat [k..<k + length cs])) keyboard_rows)"

definition typable :: "char \<Rightarrow> bool" where "typable c \<longleftrightarrow> c \<in> fst ` set make_codes"

definition keystroke :: "char \<Rightarrow> u8 list" where
  "keystroke c = (case map_of make_codes c of None \<Rightarrow> [] | Some k \<Rightarrow> [k, k OR 0x80])"

definition typing :: "string \<Rightarrow> u8 list" where "typing cs = concat (map keystroke cs)"

text \<open>A device that answers the reads of the data port with these scancodes, whatever else happens on the bus.\<close>

definition supplies :: "(io_event list \<Rightarrow> u16 \<Rightarrow> u8) \<Rightarrow> io_event list \<Rightarrow> u8 list \<Rightarrow> bool" where
  "supplies d tr scs \<longleftrightarrow> (\<forall>es. length (scancodes es) < length scs \<longrightarrow> d (tr @ es) PS2_DATA = scs ! length (scancodes es))"

lemma answered_supplies:
  assumes "answered d tr es" and "supplies d tr scs" and "length (scancodes es) \<le> length scs"
  shows "scancodes es = take (length (scancodes es)) scs"
  using assms(1,3)
proof (induction es rule: rev_induct)
  case (snoc e es)
  then have IH: "scancodes es = take (length (scancodes es)) scs" by simp
  show ?case
  proof (cases "scancodes [e] = []")
    case False
    then obtain v where e: "e = Inb PS2_DATA v" by (cases e) (auto split: if_splits)
    have "v = scs ! length (scancodes es)" using snoc.prems assms(2) by (auto simp: e supplies_def)
    then show ?thesis using IH snoc.prems(2) by (simp add: e take_Suc_conv_app_nth)
  qed (use IH in simp)
qed simp

lemma make_codes_keys: "list_all (\<lambda>(c, k). key_char k = Some c \<and> key_char (k OR 0x80) = None) make_codes"
  by code_simp

lemma keystroke_text:
  assumes "typable c"
  shows "length (keystroke c) = 2" and "keys_text (keystroke c) = [c]"
proof -
  obtain k where k: "map_of make_codes c = Some k" using assms by (metis typable_def map_of_eq_None_iff not_None_eq)
  then have "key_char k = Some c" "key_char (k OR 0x80) = None" using make_codes_keys map_of_SomeD [OF k] by (auto simp: list_all_iff)
  then show "length (keystroke c) = 2" "keys_text (keystroke c) = [c]" by (simp_all add: keystroke_def k)
qed

lemma typing_text: "list_all typable cs \<Longrightarrow> length (typing cs) = 2 * length cs \<and> keys_text (typing cs) = cs"
  by (induction cs) (simp_all add: typing_def keystroke_text)

text \<open>C36 (roundtrip): typing a text. Whatever characters of a PC keyboard are typed, when the device hands over the codes of
  their keys, pressed and released one after the other, the keyboard interrupts, one for each code, all return; they read exactly these codes,
  write exactly that text on the screen, and send exactly that text, with carriage returns before line feeds, on the serial
  port; nothing else of the machine changes.\<close>

theorem keyboard_types:
  assumes "uart_live (device s)" and "displays s T" and "list_all typable cs" and "supplies (device s) (io_trace s) (typing cs)"
  shows "\<exists>t es. key_run (2 * length cs) s = Some t \<and> io_trace t = io_trace s @ es \<and> scancodes es = typing cs \<and>
    displays t (term_write cs T) \<and> transmitted es = map of_char (crlf cs) \<and>
    t = s\<lparr>mem := mem t, io_trace := io_trace t, cur_col := cur_col t, cur_row := cur_row t\<rparr> \<and> (\<forall>a. a \<notin> fb_bytes s \<longrightarrow> mem t a = mem s a)"
proof -
  note n = typing_text [OF assms(3)]
  obtain t es where t: "key_run (2 * length cs) s = Some t" "echoes s t" "displays t (term_write (keys_text (scancodes es)) T)" "io_trace t = io_trace s @ es"
    "length (scancodes es) = 2 * length cs" "answered (device s) (io_trace s) es" "transmitted es = map of_char (crlf (keys_text (scancodes es)))"
    using key_run_reads [OF assms(1,2)] by blast
  have "scancodes es = typing cs" using answered_supplies [OF t(6) assms(4)] t(5) n by simp
  then show ?thesis using t n unfolding echoes_def by (intro exI [of _ t] exI [of _ es]) simp
qed

text \<open>Beside the UART, a keyboard on which \<^verbatim>\<open>ls\<close> and enter are typed.\<close>

definition demo_typist :: "io_event list \<Rightarrow> u16 \<Rightarrow> u8" where
  "demo_typist tr p = (if p = 0x60 then typing (''ls'' @ nl) ! length (scancodes tr) else demo_uart tr p)"

lemma demo_typist_live: "uart_live demo_typist"
  unfolding uart_live_def
proof
  fix tr
  show "\<exists>k. demo_typist (lsr_polls demo_typist k tr) LSR AND 0x20 \<noteq> 0"
  proof (cases "even (length tr)")
    case True
    then show ?thesis by (intro exI [of _ 1]) (simp add: demo_typist_def demo_uart_def LSR_def COM1_def)
  next
    case False
    then show ?thesis by (intro exI [of _ 0]) (simp add: demo_typist_def demo_uart_def LSR_def COM1_def)
  qed
qed

theorem keyboard_types_witness:
  "\<exists>t. key_run 6 (demo_screen\<lparr>device := demo_typist\<rparr>) = Some t \<and> displays t (term_write (''ls'' @ nl) (blank_terminal 2 2)) \<and>
     scancodes (io_trace t) = [0x26, 0xA6, 0x1F, 0x9F, 0x1C, 0x9C] \<and> transmitted (io_trace t) = [0x6C, 0x73, 0x0D, 0x0A]"
proof -
  let ?s = "demo_screen\<lparr>device := demo_typist\<rparr>"
  obtain m c r where D: "demo_screen = demo_geometry\<lparr>mem := m, cur_col := c, cur_row := r\<rparr>" using demo_touches unfolding touches_def by blast
  have "io_trace ?s = io_trace demo_geometry" unfolding D by simp
  also have "\<dots> = io_trace demo_console" by (simp add: geometry_def Let_def)
  finally have "io_trace ?s = io_trace demo_console" .
  then have tr: "io_trace ?s = []" by (simp add: demo_console_def arch.defs cold_arch_def)
  have "uart_live (device ?s)" "displays ?s (blank_terminal 2 2)" using demo_typist_live demo_displays by simp_all
  moreover have "list_all typable (''ls'' @ nl)" by (simp add: typable_def) code_simp
  moreover have "supplies (device ?s) (io_trace ?s) (typing (''ls'' @ nl))" unfolding tr by (simp add: supplies_def demo_typist_def PS2_DATA_def)
  moreover have "typing (''ls'' @ nl) = [0x26, 0xA6, 0x1F, 0x9F, 0x1C, 0x9C]" by code_simp
  moreover have "map of_char (crlf (''ls'' @ nl)) = ([0x6C, 0x73, 0x0D, 0x0A] :: u8 list)" by code_simp
  moreover have "2 * length (''ls'' @ nl) = 6" by (simp add: nl_def)
  ultimately show ?thesis using keyboard_types [of ?s "blank_terminal 2 2" "''ls'' @ nl"] unfolding tr by auto
qed

end
