(* ===== verification/Vmm.thy ===== *)
theory Vmm
  imports Paging
begin

text \<open>
  The virtual memory manager of \<^verbatim>\<open>core/mm/vmm.c\<close>: it builds the kernel's address space from the
  memory map and the kernel image and loads it. The main result follows the code: if
  \<open>vmm_init\<close> comes back, the new tables mirror every region of the memory map at the direct-map
  offset and map the kernel image, and the stack and the code that run across the switch are
  mapped; and it always comes back or halts with a message, it does not hang.
\<close>

subsection \<open>Operations\<close>

text \<open>
  The bootloader's executable-address response, and the link-time addresses of the kernel image
  (\<^verbatim>\<open>linker.ld\<close>) with that of \<open>paging_load_cr3\<close>.
\<close>

record kernel_address =
  virtual_base :: u64
  physical_base :: u64

record kernel_image =
  kernel_start :: u64
  data_start :: u64
  kernel_end :: u64
  load_cr3_code :: u64

text \<open>
  An operation that may panic yields \<open>Inl\<close> of the reason with the machine at that point; \<open>None\<close>
  is a call that never comes back.
\<close>

type_synonym 's outcome = "((halt \<times> 's) + 's) option"

definition vmm_panic :: "string \<Rightarrow> 'a machine_scheme \<Rightarrow> ('a machine_scheme) outcome" where
  "vmm_panic msg s =
     Option.bind (serial_write ''vmm panic: '' s) (\<lambda>s.
     Option.bind (serial_write msg s) (\<lambda>s.
     Option.bind (serial_write [CHR 0x0A] s) (\<lambda>s. Some (Inl (VmmPanic msg, s)))))"

definition vmm_map :: "u64 \<Rightarrow> u64 \<Rightarrow> u64 \<Rightarrow> 'a paging_scheme \<Rightarrow> bool \<times> 'a paging_scheme" where
  "vmm_map virt phys flags s = paging_map (kernel_pml4 s) virt phys flags s"

definition vmm_unmap :: "u64 \<Rightarrow> 'a paging_scheme \<Rightarrow> bool \<times> 'a paging_scheme" where
  "vmm_unmap virt s = paging_unmap (kernel_pml4 s) virt s"

definition vmm_translate :: "u64 \<Rightarrow> 'a paging_scheme \<Rightarrow> u64 option" where
  "vmm_translate virt s = paging_translate (kernel_pml4 s) virt s"

definition msg_hhdm :: string where "msg_hhdm = ''out of frames mapping the HHDM''"
definition msg_kernel :: string where "msg_kernel = ''out of frames mapping the kernel image''"
definition msg_pml4 :: string where "msg_pml4 = ''no frame for the kernel PML4''"
definition msg_switch :: string where
  "msg_switch = ''new tables don'' @ [CHR 0x27] @ ''t map the live code/stack '' @
     [CHR 0xE2, CHR 0x80, CHR 0x94] @ '' refusing cr3 load''"

partial_function (option) hhdm_loop ::
  "u64 \<Rightarrow> u64 \<Rightarrow> u64 \<Rightarrow> 'a paging_scheme \<Rightarrow> ('a paging_scheme) outcome" where
  "hhdm_loop p stop hhdm_offset s =
     (if p < stop
      then let r = vmm_map (p + hhdm_offset) p VM_WRITE s
           in if fst r then hhdm_loop (p + PMM_FRAME_SIZE) stop hhdm_offset (snd r)
              else vmm_panic msg_hhdm (snd r)
      else Some (Inr s))"

definition map_hhdm_range :: "u64 \<Rightarrow> u64 \<Rightarrow> u64 \<Rightarrow> 'a paging_scheme \<Rightarrow> ('a paging_scheme) outcome" where
  "map_hhdm_range base len hhdm_offset s =
     (let start = base AND NOT (PMM_FRAME_SIZE - 1);
          stop = (base + len + PMM_FRAME_SIZE - 1) AND NOT (PMM_FRAME_SIZE - 1)
      in hhdm_loop start stop hhdm_offset s)"

partial_function (option) map_kernel_range ::
  "u64 \<Rightarrow> u64 \<Rightarrow> u64 \<Rightarrow> u64 \<Rightarrow> u64 \<Rightarrow> 'a paging_scheme \<Rightarrow> ('a paging_scheme) outcome" where
  "map_kernel_range v virt_end vbase pbase flags s =
     (if v < virt_end
      then let phys = (v - vbase) + pbase;
               r = vmm_map v phys flags s
           in if fst r then map_kernel_range (v + PMM_FRAME_SIZE) virt_end vbase pbase flags (snd r)
              else vmm_panic msg_kernel (snd r)
      else Some (Inr s))"

text \<open>Sequencing: a panic ends the computation.\<close>

definition and_then :: "'s outcome \<Rightarrow> ('s \<Rightarrow> 's outcome) \<Rightarrow> 's outcome" where
  "and_then r f = Option.bind r (\<lambda>x. case x of Inl e \<Rightarrow> Some (Inl e) | Inr s \<Rightarrow> f s)"

fun map_hhdm :: "memmap_entry list \<Rightarrow> u64 \<Rightarrow> 'a paging_scheme \<Rightarrow> ('a paging_scheme) outcome" where
  "map_hhdm [] hhdm_offset s = Some (Inr s)"
| "map_hhdm (e # es) hhdm_offset s =
     and_then (map_hhdm_range (me_base e) (me_length e) hhdm_offset s) (map_hhdm es hhdm_offset)"

definition vmm_init ::
  "kernel_image \<Rightarrow> kernel_address \<Rightarrow> memmap_entry list \<Rightarrow> u64 \<Rightarrow> 'a paging_scheme \<Rightarrow> ('a paging_scheme) outcome" where
  "vmm_init img kaddr memmap hhdm_offset s =
     (let s = paging_set_hhdm hhdm_offset s;
          (frame, s) = pmm_alloc_frame s;
          s = s\<lparr>kernel_pml4 := frame\<rparr>
      in if kernel_pml4 s = 0 then vmm_panic msg_pml4 s
         else
           let s = s\<lparr>mem := snd (memset (kernel_pml4 s + hhdm_offset) 0 PMM_FRAME_SIZE (mem s))\<rparr>;
               vbase = virtual_base kaddr; pbase = physical_base kaddr
           in and_then (map_hhdm memmap hhdm_offset s) (\<lambda>s.
              and_then (map_kernel_range (kernel_start img) (data_start img) vbase pbase 0 s) (\<lambda>s.
              and_then (map_kernel_range (data_start img) (kernel_end img) vbase pbase VM_WRITE s) (\<lambda>s.
                if \<not> paging_can_switch_to (load_cr3_code img) (kernel_pml4 s) s then vmm_panic msg_switch s
                else
                  let s = paging_load_cr3 (kernel_pml4 s) s
                  in map_option Inr
                       (serial_write (''ScrapOS: now running on our own page tables'' @ [CHR 0x0A]) s)))))"

subsection \<open>The mappings as one list\<close>

text \<open>
  Both loops map one page after the other until a mapping fails: the reference is a list of
  pages \<open>(virt, phys, flags)\<close>.
\<close>

primrec map_all :: "(u64 \<times> u64 \<times> u64) list \<Rightarrow> 'a paging_scheme \<Rightarrow> bool \<times> 'a paging_scheme" where
  "map_all [] s = (True, s)"
| "map_all (x # xs) s =
     (case x of (v, p, fl) \<Rightarrow> let r = vmm_map v p fl s in if fst r then map_all xs (snd r) else r)"

lemma map_all_append:
  "map_all (xs @ ys) s = (let r = map_all xs s in if fst r then map_all ys (snd r) else r)"
  by (induction xs arbitrary: s) (auto simp: Let_def split: prod.split)

definition consistent :: "(u64 \<times> u64 \<times> u64) list \<Rightarrow> bool" where
  "consistent xs \<longleftrightarrow> (\<forall>(v, p, fl) \<in> set xs. \<forall>(v', p', fl') \<in> set xs.
     same_page v v' \<longrightarrow> p AND PTE_ADDR_MASK = p' AND PTE_ADDR_MASK)"

text \<open>The mappings of a list, one at a time: a page is mapped by the first entry and kept by a consistent rest.\<close>

lemma consistent_Cons:
  assumes cons: "consistent ((v, p, fl) # xs)" and w: "same_page v w"
    and first: "tr w = Some ((p AND PTE_ADDR_MASK) OR (w AND 0xfff))"
    and rest: "\<And>v p fl. (v, p, fl) \<in> set xs \<Longrightarrow> same_page v w \<Longrightarrow> tr' w = Some ((p AND PTE_ADDR_MASK) OR (w AND 0xfff))"
    and other: "\<forall>(v, p, fl) \<in> set xs. \<not> same_page v w \<Longrightarrow> tr' w = tr w"
  shows "tr' w = Some ((p AND PTE_ADDR_MASK) OR (w AND 0xfff))"
proof (cases "\<exists>(v', p', fl') \<in> set xs. same_page v' w")
  case True
  then obtain v' p' fl' where y: "(v', p', fl') \<in> set xs" "same_page v' w" by auto
  have "same_page v v'" using y(2) w by (simp add: same_page_def)
  then have "p AND PTE_ADDR_MASK = p' AND PTE_ADDR_MASK" using cons y(1) unfolding consistent_def by fastforce
  then show ?thesis using rest [OF y] by simp
next
  case False
  then show ?thesis using other first by auto
qed

lemma map_all_result:
  "pt_inv U T (kernel_pml4 s) s \<Longrightarrow>
   \<exists>T'. pt_inv U T' (kernel_pml4 s) (snd (map_all xs s)) \<and> pt_step T s T' (snd (map_all xs s)) \<and>
     (\<not> fst (map_all xs s) \<longrightarrow> free_set (snd (map_all xs s)) = {}) \<and>
     (fst (map_all xs s) \<longrightarrow>
       (\<forall>w. (\<forall>(v, p, fl) \<in> set xs. \<not> same_page v w) \<longrightarrow>
          vmm_translate w (snd (map_all xs s)) = vmm_translate w s) \<and>
       (consistent xs \<longrightarrow> (\<forall>(v, p, fl) \<in> set xs. \<forall>w. same_page v w \<longrightarrow>
          vmm_translate w (snd (map_all xs s)) = Some ((p AND PTE_ADDR_MASK) OR (w AND 0xfff)))))"
proof (induction xs arbitrary: T s)
  case Nil
  then show ?case using pt_step_refl [of T s] by auto
next
  case (Cons x xs)
  obtain v p fl where x: "x = (v, p, fl)" by (cases x)
  let ?root = "kernel_pml4 s"
  obtain ok s1 where r: "paging_map ?root v p fl s = (ok, s1)" by (metis prod.exhaust)
  obtain T1 where m: "pt_inv U T1 ?root s1" "pt_step T s T1 s1"
    and tr: "\<And>w. paging_translate ?root w s1 =
      (if ok \<and> same_page v w then Some ((p AND PTE_ADDR_MASK) OR (w AND 0xfff)) else paging_translate ?root w s)"
    and out: "\<not> ok \<Longrightarrow> free_set s1 = {}"
    using map_result [OF Cons.prems r] by metis
  note k = pt_step_fields(2) [OF m(2)]
  show ?case
  proof (cases ok)
    case False
    then have "map_all (x # xs) s = (False, s1)" by (simp add: x vmm_map_def r)
    then show ?thesis using m out False by auto
  next
    case True
    then have all: "map_all (x # xs) s = map_all xs s1" by (simp add: x vmm_map_def r)
    let ?s2 = "snd (map_all xs s1)"
    note IH = Cons.IH [of T1 s1, unfolded k, OF m(1)]
    obtain T2 where ih1: "pt_inv U T2 ?root ?s2" "pt_step T1 s1 T2 ?s2"
      using IH by (elim exE conjE) (rule that)
    have ih2: "vmm_translate w ?s2 = vmm_translate w s1"
      if "fst (map_all xs s1)" "\<forall>(v, p, fl) \<in> set xs. \<not> same_page v w" for w
      using IH that by (elim exE conjE) blast
    have ih3: "vmm_translate w ?s2 = Some ((p AND PTE_ADDR_MASK) OR (w AND 0xfff))"
      if "fst (map_all xs s1)" "consistent xs" "(v, p, fl) \<in> set xs" "same_page v w" for v p fl w
      using IH that by (elim exE conjE) fastforce
    have k2: "kernel_pml4 ?s2 = ?root" using pt_step_fields(2) [OF ih1(2)] k by simp
    have tr1: "vmm_translate w s1 = (if same_page v w then Some ((p AND PTE_ADDR_MASK) OR (w AND 0xfff)) else vmm_translate w s)" for w
      using tr [of w] True by (simp add: vmm_translate_def k)
    have tl: "consistent xs" if "consistent (x # xs)" using that by (auto simp: consistent_def)
    have here: "vmm_translate w ?s2 = Some ((p AND PTE_ADDR_MASK) OR (w AND 0xfff))"
      if "fst (map_all xs s1)" "consistent (x # xs)" "same_page v w" for w
      using consistent_Cons [OF that(2) [unfolded x] that(3), where tr = "\<lambda>w. vmm_translate w s1" and tr' = "\<lambda>w. vmm_translate w ?s2"]
        tr1 [of w] that ih2 [OF that(1)] ih3 [OF that(1) tl [OF that(2)]] by simp
    show ?thesis
      unfolding all
    proof (intro exI [of _ T2] conjI impI allI ballI)
      show "pt_inv U T2 ?root ?s2" by (rule ih1(1))
      show "pt_step T s T2 ?s2" by (rule pt_step_trans [OF m(2) ih1(2)])
      show "free_set ?s2 = {}" if "\<not> fst (map_all xs s1)" using IH that by (elim exE conjE) blast
    next
      fix w assume "fst (map_all xs s1)" "\<forall>(v, p, fl) \<in> set (x # xs). \<not> same_page v w"
      then show "vmm_translate w ?s2 = vmm_translate w s" using ih2 [of w] tr1 [of w] by (simp add: x)
    next
      fix y assume ok: "fst (map_all xs s1)" "consistent (x # xs)" and y: "y \<in> set (x # xs)"
      show "case y of (v, p, fl) \<Rightarrow> \<forall>w. same_page v w \<longrightarrow> vmm_translate w ?s2 = Some ((p AND PTE_ADDR_MASK) OR (w AND 0xfff))"
        using y here [OF ok] ih3 [OF ok(1) tl [OF ok(2)]] by (auto simp: x)
    qed
  qed
qed


text \<open>A run of \<open>n\<close> consecutive pages.\<close>

primrec run_pages :: "nat \<Rightarrow> u64 \<Rightarrow> u64 \<Rightarrow> u64 \<Rightarrow> (u64 \<times> u64 \<times> u64) list" where
  "run_pages 0 v p fl = []"
| "run_pages (Suc n) v p fl = (v, p, fl) # run_pages n (v + 4096) (p + 4096) fl"

lemma run_pages_mem:
  "(v', p', fl') \<in> set (run_pages n v p fl) \<longleftrightarrow>
     (\<exists>i < n. v' = v + of_nat i * 4096 \<and> p' = p + of_nat i * 4096 \<and> fl' = fl)"
proof (induction n arbitrary: v p)
  case (Suc n)
  show ?case
    unfolding run_pages.simps list.set insert_iff Suc.IH Ex_less_Suc2
    by (auto simp: algebra_simps)
qed simp

definition finish :: "string \<Rightarrow> bool \<times> 'a paging_scheme \<Rightarrow> ('a paging_scheme) outcome" where
  "finish msg r = (if fst r then Some (Inr (snd r)) else vmm_panic msg (snd r))"

lemma page_run_step:
  fixes p stop :: u64
  assumes "unat p + Suc n * 4096 = unat stop"
  shows "p < stop" and "unat (p + 4096) + n * 4096 = unat stop"
proof -
  show "p < stop" using assms by (simp add: word_less_nat_alt)
  have "unat p + 4096 < 2 ^ 64" using assms unat_lt2p [of stop] by simp
  then have "unat (p + 4096) = unat p + 4096" using unat_add_exact [of p 4096] by simp
  then show "unat (p + 4096) + n * 4096 = unat stop" using assms by simp
qed

lemma hhdm_loop_all:
  "unat p + n * 4096 = unat stop \<Longrightarrow>
   hhdm_loop p stop h s = finish msg_hhdm (map_all (run_pages n (p + h) p VM_WRITE) s)"
proof (induction n arbitrary: p s)
  case 0
  then have "\<not> p < stop" by (simp add: word_less_nat_alt)
  then show ?case by (simp add: hhdm_loop.simps [of p stop h s] finish_def)
next
  case (Suc n)
  note st = page_run_step [OF Suc.prems]
  have eq: "p + 4096 + h = p + h + 4096" by simp
  show ?case
    using Suc.IH [OF st(2), unfolded eq] st(1) by (simp add: hhdm_loop.simps [of p stop h s] Let_def finish_def)
qed

lemma kernel_loop_all:
  "unat v + n * 4096 = unat stop \<Longrightarrow>
   map_kernel_range v stop vb pb fl s = finish msg_kernel (map_all (run_pages n v (v - vb + pb) fl) s)"
proof (induction n arbitrary: v s)
  case 0
  then have "\<not> v < stop" by (simp add: word_less_nat_alt)
  then show ?case by (simp add: map_kernel_range.simps [of v stop vb pb fl s] finish_def)
next
  case (Suc n)
  note st = page_run_step [OF Suc.prems]
  have eq: "v + 4096 - vb + pb = v - vb + pb + 4096" by (simp add: algebra_simps)
  show ?case
    using Suc.IH [OF st(2), unfolded eq] st(1) by (simp add: map_kernel_range.simps [of v stop vb pb fl s] Let_def finish_def)
qed

text \<open>Rounding to whole frames.\<close>

definition down :: "u64 \<Rightarrow> u64" where "down x = x AND NOT 0xfff"

lemma down_alt: "down x = push_bit 12 (drop_bit 12 x)"
proof -
  have m: "(0xfff :: u64) = mask 12" by (simp add: mask_eq_exp_minus_1)
  show ?thesis unfolding down_def m by (intro bit_eqI) (auto simp: bit_simps)
qed

lemma down_unat: "unat (down x) = unat x div 4096 * 4096"
proof -
  have "unat x div 4096 * 4096 \<le> unat x" by simp
  then have "unat x div 4096 * 4096 < 2 ^ 64" using unat_lt2p [of x] by (simp add: le_less_trans)
  then show ?thesis
    by (simp add: down_alt drop_bit_eq_div push_bit_eq_mult unat_word_ariths unat_div)
qed

lemma down_aligned [simp]: "aligned 12 (down x)"
  by (simp add: aligned_dvd down_unat)

lemma map_hhdm_range_all:
  assumes "unat base + unat len + 4096 \<le> 2 ^ 64"
  defines "n \<equiv> (unat base + unat len + 4095) div 4096 - unat base div 4096"
  shows "map_hhdm_range base len h s = finish msg_hhdm (map_all (run_pages n (down base + h) (down base) VM_WRITE) s)"
proof -
  have "unat (base + len + 4095) = unat base + unat len + 4095"
    using assms(1) by (simp add: unat_word_ariths)
  then have "unat (down base) + n * 4096 = unat (down (base + len + 4095))"
    using div_le_mono [of "unat base" "unat base + unat len + 4095" 4096]
    by (simp add: down_unat n_def diff_mult_distrib)
  from hhdm_loop_all [OF this, of h s] show ?thesis
    by (simp add: map_hhdm_range_def Let_def down_def add.commute)
qed

definition region_pages :: "u64 \<Rightarrow> memmap_entry \<Rightarrow> (u64 \<times> u64 \<times> u64) list" where
  "region_pages h e =
     run_pages ((unat (me_base e) + unat (me_length e) + 4095) div 4096 - unat (me_base e) div 4096)
       (down (me_base e) + h) (down (me_base e)) VM_WRITE"

lemma panic_then: "and_then (vmm_panic msg t) f = vmm_panic msg t"
  by (auto simp: and_then_def vmm_panic_def split: Option.bind_splits)

lemma map_hhdm_all:
  assumes "\<forall>e \<in> set mm. unat (me_base e) + unat (me_length e) + 4096 \<le> 2 ^ 64"
  shows "map_hhdm mm h s = finish msg_hhdm (map_all (concat (map (region_pages h) mm)) s)"
  using assms(1)
proof (induction mm arbitrary: s)
  case Nil
  then show ?case by (simp add: finish_def)
next
  case (Cons e mm)
  let ?r = "map_all (region_pages h e) s"
  have 1: "map_hhdm_range (me_base e) (me_length e) h s = finish msg_hhdm ?r"
    using Cons.prems map_hhdm_range_all [of "me_base e" "me_length e" h s] by (simp add: region_pages_def)
  show ?case
    using Cons.IH [of "snd ?r"] Cons.prems
    by (cases "fst ?r") (simp_all add: 1 finish_def map_all_append Let_def panic_then and_then_def [of "Some _"])
qed


subsection \<open>Which addresses a run covers\<close>

text \<open>An address is its page and its offset.\<close>

lemma low_bits: "(w :: u64) AND 0xfff = take_bit 12 w"
  by (simp add: take_bit_eq_mask mask_eq_exp_minus_1)

lemma low_bits_add: "aligned 12 h \<Longrightarrow> (x + h) AND 0xfff = x AND 0xfff"
proof -
  assume "aligned 12 h"
  then obtain k where k: "unat h = 4096 * k" by (auto simp: aligned_dvd)
  have "unat ((x + h) mod 4096) = (unat x + unat h) mod 2 ^ 64 mod 4096" by (simp add: unat_mod unat_word_ariths)
  also have "\<dots> = (unat x + 4096 * k) mod 4096" unfolding k by (rule mod_mod_cancel) simp
  also have "\<dots> = unat (x mod 4096)" by (simp add: unat_mod)
  finally show ?thesis unfolding low_bits take_bit_eq_mod by (simp add: word_unat_eq_iff)
qed

lemma down_split: "down x OR (x AND 0xfff) = x"
  unfolding down_alt low_bits by (intro bit_eqI) (auto simp: bit_simps)

lemma frame_mask: "aligned 12 p \<Longrightarrow> unat p < 2 ^ 52 \<Longrightarrow> p AND PTE_ADDR_MASK = p"
  using aligned_bit [of 12 p] bit_less_exp [of p 52]
  by (intro bit_eqI) (auto simp: bit_and_iff addr_mask_bits not_less [symmetric])

lemma same_page_down: "aligned 12 h \<Longrightarrow> same_page (down x + h) (x + h)"
proof -
  assume h: "aligned 12 h"
  have "unat (take_bit 12 x) < 2 ^ 12" by (simp add: take_bit_eq_mod unat_mod)
  moreover have "x = down x + take_bit 12 x" by (simp add: down_alt bits_ident)
  moreover have "aligned 12 (down x + h)" using h by (rule aligned_add [OF down_aligned])
  ultimately have "page (down x + h) = page (down x + h + take_bit 12 x)" using page_offset by simp
  also have "down x + h + take_bit 12 x = x + h"
    using \<open>x = down x + take_bit 12 x\<close> by (metis add.assoc add.commute)
  finally show ?thesis by (simp add: same_page_def page_def)
qed

lemma page_in_run:
  assumes "aligned 12 b" and "unat b + n * 4096 \<le> 2 ^ 64" and "unat b \<le> unat x" and "unat x < unat b + n * 4096"
  shows "\<exists>i < n. down x = b + of_nat i * 4096"
proof -
  obtain k where k: "unat b = 4096 * k" using assms(1) by (auto simp: aligned_dvd)
  let ?i = "unat x div 4096 - k"
  have le: "k \<le> unat x div 4096" using assms(3) k by (metis div_le_mono nonzero_mult_div_cancel_left zero_neq_numeral)
  have "unat x div 4096 < k + n" using assms(4) k by (simp add: div_less_iff_less_mult)
  then have i: "?i < n" using le by simp
  have "unat x div 4096 * 4096 \<le> unat x" by simp
  then have "k * 4096 + ?i * 4096 < 2 ^ 64" using le unat_lt2p [of x] by (simp add: diff_mult_distrib)
  then have "unat (b + of_nat ?i * 4096) = unat b + ?i * 4096"
    using k by (simp add: unat_word_ariths unat_of_nat)
  then have "down x = b + of_nat ?i * 4096"
    using le k by (simp add: word_unat_eq_iff down_unat diff_mult_distrib)
  then show ?thesis using i by blast
qed

lemma run_in_range:
  fixes b :: u64
  assumes "unat b + n * 4096 \<le> 2 ^ 64" and "i < n"
  shows "unat (b + of_nat i * 4096) = unat b + i * 4096"
proof -
  have "i * 4096 + 4096 \<le> n * 4096" using assms(2) by (metis Suc_leI mult_Suc mult_le_mono1 add.commute)
  then have "unat b + i * 4096 < 2 ^ 64" using assms(1) by simp
  then show ?thesis by (simp add: unat_word_ariths unat_of_nat)
qed

subsection \<open>The boot layout\<close>

text \<open>
  What the linker script and the bootloader fix: the direct map starts in the upper canonical
  half and ends below the kernel's link address, the image's bounds are whole pages, and its
  physical copy is below the 52-bit limit of a table entry.
\<close>

definition KERNEL_BASE :: u64 where "KERNEL_BASE = 0xffffffff80000000"

definition boot_layout :: "kernel_image \<Rightarrow> kernel_address \<Rightarrow> memmap_entry list \<Rightarrow> u64 \<Rightarrow> bool" where
  "boot_layout img k mm h \<longleftrightarrow> aligned 12 h \<and> 0xffff800000000000 \<le> h \<and>
     (\<forall>e \<in> set mm. unat h + (unat (me_base e) + unat (me_length e)) \<le> unat KERNEL_BASE) \<and>
     aligned 12 (kernel_start img) \<and> aligned 12 (data_start img) \<and> aligned 12 (kernel_end img) \<and>
     aligned 12 (virtual_base k) \<and> aligned 12 (physical_base k) \<and>
     KERNEL_BASE \<le> kernel_start img \<and> kernel_start img \<le> data_start img \<and> data_start img \<le> kernel_end img \<and>
     virtual_base k \<le> kernel_start img \<and>
     unat (physical_base k) + (unat (kernel_end img) - unat (virtual_base k)) \<le> 2 ^ 52"

definition upper :: "u64 \<Rightarrow> bool" where "upper v \<longleftrightarrow> 0xffff800000000000 \<le> v"

lemma upper_bit: "upper v \<Longrightarrow> 47 \<le> i \<Longrightarrow> i < 64 \<Longrightarrow> bit v i"
proof -
  assume v: "upper v" and i: "47 \<le> i" "i < 64"
  have "0xffff800000000000 \<le> unat v" using v by (simp add: upper_def word_le_nat_alt)
  moreover have "unat v < 2 ^ 64" using unat_lt2p [of v] by simp
  ultimately have "unat v div 2 ^ 47 = 2 ^ 17 - 1" by (intro div_nat_eqI) simp_all
  then have "drop_bit 47 v = mask 17"
    by (simp add: word_unat_eq_iff drop_bit_eq_div unat_div mask_eq_exp_minus_1)
  moreover have "bit v i = bit (drop_bit 47 v) (i - 47)" using i by (simp add: bit_drop_bit_eq)
  moreover have "i - 47 < 17" using i by simp
  ultimately show ?thesis by (simp add: bit_mask_iff)
qed

lemma upper_same_page: "upper v \<Longrightarrow> upper w \<Longrightarrow> same_page v w \<longleftrightarrow> down v = down w"
proof -
  assume u: "upper v" "upper w"
  have "bit v i = bit w i" if eq: "same_page v w" "12 \<le> i" "i < 64" for i
  proof (cases "i < 48")
    case True
    have "bit (take_bit 36 (drop_bit 12 v)) (i - 12) = bit (take_bit 36 (drop_bit 12 w)) (i - 12)"
      using eq(1) by (simp add: same_page_def)
    moreover have "i - 12 < 36" using True eq(2) by simp
    ultimately show ?thesis using eq(2) by (simp add: bit_take_bit_iff bit_drop_bit_eq)
  next
    case False
    then show ?thesis using upper_bit [OF u(1)] upper_bit [OF u(2)] eq(3) by simp
  qed
  then have "same_page v w \<Longrightarrow> down v = down w"
    unfolding down_alt by (intro bit_word_eqI) (auto simp: bit_simps)
  moreover have "down v = down w \<Longrightarrow> same_page v w"
  proof -
    assume eq: "down v = down w"
    have "drop_bit 12 (down v) = drop_bit 12 v" for v
      using bit_imp_le_length [of v] by (intro bit_word_eqI) (force simp: down_alt bit_simps)
    then have "drop_bit 12 v = drop_bit 12 w" using eq by metis
    then show "same_page v w" by (simp add: same_page_def)
  qed
  ultimately show ?thesis by blast
qed

lemma upper_same_page_low: "upper v \<Longrightarrow> \<not> bit w 47 \<Longrightarrow> \<not> same_page v w"
proof
  assume v: "upper v" "\<not> bit w 47" and eq: "same_page v w"
  have "bit (take_bit 36 (drop_bit 12 v)) 35 = bit (take_bit 36 (drop_bit 12 w)) 35"
    using eq by (simp add: same_page_def)
  then show False using v(2) upper_bit [OF v(1), of 47] by (simp add: bit_take_bit_iff bit_drop_bit_eq)
qed

lemma down_fix: "aligned 12 v \<Longrightarrow> down v = v"
  by (simp add: word_unat_eq_iff down_unat aligned_dvd)

lemma down_add: "aligned 12 d \<Longrightarrow> down (x + d) = down x + d"
proof -
  assume d: "aligned 12 d"
  let ?a = "down x + d" and ?t = "take_bit 12 x"
  have a: "aligned 12 ?a" using d by (rule aligned_add [OF down_aligned])
  have t: "unat ?t < 2 ^ 12" by (simp add: take_bit_eq_mod unat_mod)
  have "x = down x + ?t" by (simp add: down_alt bits_ident)
  then have "x + d = ?a + ?t" by (metis add.assoc add.commute)
  also have "\<dots> = ?a OR ?t" by (rule aligned_plus_or [OF a t])
  finally have "down (x + d) = down ?a"
    by (auto intro!: bit_word_eqI simp: down_alt bit_simps)
  then show ?thesis using down_fix [OF a] by simp
qed

text \<open>The pages of the image, and those of the boot as a whole.\<close>

definition image_pages :: "kernel_address \<Rightarrow> u64 \<Rightarrow> u64 \<Rightarrow> u64 \<Rightarrow> (u64 \<times> u64 \<times> u64) list" where
  "image_pages k a b fl = run_pages ((unat b - unat a) div 4096) a (a - virtual_base k + physical_base k) fl"

definition boot_pages :: "kernel_image \<Rightarrow> kernel_address \<Rightarrow> memmap_entry list \<Rightarrow> u64 \<Rightarrow> (u64 \<times> u64 \<times> u64) list" where
  "boot_pages img k mm h = concat (map (region_pages h) mm) @
     image_pages k (kernel_start img) (data_start img) 0 @ image_pages k (data_start img) (kernel_end img) VM_WRITE"

lemma image_run:
  assumes "aligned 12 a" and "aligned 12 b" and "a \<le> b"
  shows "unat a + (unat b - unat a) div 4096 * 4096 = unat b"
proof -
  have "4096 dvd unat b - unat a" using assms(1,2) by (simp add: aligned_dvd)
  then show ?thesis using assms(3) by (simp add: word_le_nat_alt)
qed

lemma image_pages_mem:
  assumes "(v, p, fl') \<in> set (image_pages k a b fl)" and "aligned 12 a" and "aligned 12 b" and "a \<le> b"
  shows "a \<le> v" and "v < b" and "aligned 12 v" and "p = v - virtual_base k + physical_base k"
proof -
  let ?n = "(unat b - unat a) div 4096"
  obtain i where i: "i < ?n" "v = a + of_nat i * 4096" "p = a - virtual_base k + physical_base k + of_nat i * 4096"
    using assms(1) unfolding image_pages_def run_pages_mem by blast
  have run: "unat a + ?n * 4096 = unat b" by (rule image_run [OF assms(2-4)])
  have v: "unat v = unat a + i * 4096"
    unfolding i(2) using run unat_lt2p [of b] by (intro run_in_range [OF _ i(1)]) simp
  have "i * 4096 < ?n * 4096" using i(1) by simp
  then show "a \<le> v" "v < b" using v run by (simp_all add: word_le_nat_alt word_less_nat_alt)
  show "aligned 12 v" using v assms(2) by (simp add: aligned_dvd)
  show "p = v - virtual_base k + physical_base k" using i by (simp add: algebra_simps)
qed

lemma image_pages_cover:
  assumes "a \<le> v" and "v < b" and "aligned 12 a" and "aligned 12 b"
  shows "(down v, down v - virtual_base k + physical_base k, fl) \<in> set (image_pages k a b fl)"
proof -
  let ?n = "(unat b - unat a) div 4096"
  have run: "unat a + ?n * 4096 = unat b" by (rule image_run [OF assms(3,4)]) (use assms(1,2) in simp)
  have "unat a + ?n * 4096 \<le> 2 ^ 64" "unat a \<le> unat v" "unat v < unat a + ?n * 4096"
    unfolding run using assms(1,2) unat_lt2p [of b] by (simp_all add: word_le_nat_alt word_less_nat_alt)
  from page_in_run [OF assms(3) this] obtain i where "i < ?n" "down v = a + of_nat i * 4096" by blast
  then show ?thesis unfolding image_pages_def run_pages_mem by (auto simp: algebra_simps)
qed

lemma region_run:
  fixes b l :: u64
  shows "unat (down b) + ((unat b + unat l + 4095) div 4096 - unat b div 4096) * 4096 = (unat b + unat l + 4095) div 4096 * 4096"
  using div_le_mono [of "unat b" "unat b + unat l + 4095" 4096] by (simp add: down_unat diff_mult_distrib)

lemma region_pages_mem:
  assumes "(v, p, fl) \<in> set (region_pages h e)"
    and "unat h + (unat (me_base e) + unat (me_length e)) \<le> unat KERNEL_BASE" and "aligned 12 h"
  shows "v = p + h" and "aligned 12 p" and "unat h + unat p < unat KERNEL_BASE"
proof -
  let ?b = "me_base e" and ?l = "me_length e"
  let ?n = "(unat ?b + unat ?l + 4095) div 4096 - unat ?b div 4096"
  obtain i where i: "i < ?n" "v = down ?b + h + of_nat i * 4096" "p = down ?b + of_nat i * 4096"
    using assms(1) unfolding region_pages_def run_pages_mem by blast
  show "v = p + h" using i by (simp add: algebra_simps)
  have "(unat ?b + unat ?l + 4095) div 4096 * 4096 \<le> unat KERNEL_BASE - unat h"
  proof -
    obtain k where k: "unat h = 4096 * k" using assms(3) by (auto simp: aligned_dvd)
    have "unat ?b + unat ?l + 4095 < Suc (0xffffffff80000 - k) * 4096" using assms(2) k by (simp add: KERNEL_BASE_def)
    then have "(unat ?b + unat ?l + 4095) div 4096 \<le> 0xffffffff80000 - k" by (metis less_Suc_eq_le less_mult_imp_div_less)
    then show ?thesis using k by (simp add: KERNEL_BASE_def)
  qed
  then have run: "unat (down ?b) + ?n * 4096 \<le> unat KERNEL_BASE - unat h" by (simp only: region_run)
  have p: "unat p = unat (down ?b) + i * 4096"
    unfolding i(3) using run by (intro run_in_range [OF _ i(1)]) (simp add: KERNEL_BASE_def)
  have "i * 4096 < ?n * 4096" using i(1) by simp
  then show "unat h + unat p < unat KERNEL_BASE" using p run by linarith
  show "aligned 12 p" using p by (simp add: aligned_dvd down_unat)
qed

lemma region_pages_cover:
  assumes "unat (me_base e) \<le> unat x" and "unat x < unat (me_base e) + unat (me_length e)"
    and "unat (me_base e) + unat (me_length e) + 4096 \<le> 2 ^ 64"
  shows "(down x + h, down x, VM_WRITE) \<in> set (region_pages h e)"
proof -
  let ?b = "me_base e" and ?l = "me_length e"
  let ?n = "(unat ?b + unat ?l + 4095) div 4096 - unat ?b div 4096"
  have 1: "(unat ?b + unat ?l + 4095) div 4096 * 4096 \<le> unat ?b + unat ?l + 4095"
    "unat ?b + unat ?l \<le> (unat ?b + unat ?l + 4095) div 4096 * 4096" "unat ?b div 4096 * 4096 \<le> unat ?b" by linarith+
  then have "unat (down ?b) + ?n * 4096 \<le> 2 ^ 64" "unat (down ?b) \<le> unat x" "unat x < unat (down ?b) + ?n * 4096"
    unfolding region_run using assms by (simp_all add: down_unat)
  from page_in_run [OF down_aligned this] obtain i where "i < ?n" "down x = down ?b + of_nat i * 4096" by blast
  then show ?thesis unfolding region_pages_def run_pages_mem by (auto simp: algebra_simps)
qed


text \<open>
  The pages of the boot, one by one: all in the upper half, each at a frame below the limit, and
  two entries for the same page agree.
\<close>

lemma boot_page_cases:
  assumes "boot_layout img k mm h" and "(v, p, fl) \<in> set (boot_pages img k mm h)"
  obtains (region) "v = p + h" and "aligned 12 p" and "unat h + unat p < unat KERNEL_BASE"
    | (image) "kernel_start img \<le> v" and "v < kernel_end img" and "aligned 12 v"
        and "p = v - virtual_base k + physical_base k"
proof -
  note L = assms(1) [unfolded boot_layout_def]
  from assms(2) consider (1) e where "e \<in> set mm" "(v, p, fl) \<in> set (region_pages h e)"
    | (2) "(v, p, fl) \<in> set (image_pages k (kernel_start img) (data_start img) 0)"
    | (3) "(v, p, fl) \<in> set (image_pages k (data_start img) (kernel_end img) VM_WRITE)"
    by (auto simp: boot_pages_def)
  then show thesis
  proof cases
    case 1
    then show thesis using region_pages_mem [OF 1(2)] L region by blast
  next
    case 2
    have "aligned 12 (kernel_start img)" "aligned 12 (data_start img)" "kernel_start img \<le> data_start img"
      using L by blast+
    from image_pages_mem [OF 2 this] show thesis using L by (intro image) auto
  next
    case 3
    have "aligned 12 (data_start img)" "aligned 12 (kernel_end img)" "data_start img \<le> kernel_end img"
      using L by blast+
    from image_pages_mem [OF 3 this] show thesis using L by (intro image) auto
  qed
qed

lemma image_phys:
  assumes "boot_layout img k mm h" and "kernel_start img \<le> v" and "v < kernel_end img"
  shows "unat (v - virtual_base k + physical_base k) < 2 ^ 52"
proof -
  let ?vb = "virtual_base k" and ?pb = "physical_base k"
  have le: "?vb \<le> v" and lim: "unat ?pb + (unat (kernel_end img) - unat ?vb) \<le> 2 ^ 52"
    using assms by (auto simp: boot_layout_def)
  have "unat (v - ?vb) = unat v - unat ?vb" using le by (rule unat_sub)
  then have "unat (v - ?vb) + unat ?pb < 2 ^ 52"
    using lim assms(3) le by (simp add: word_less_nat_alt word_le_nat_alt)
  then show ?thesis using unat_add_exact [of "v - ?vb" ?pb] by simp
qed

lemma boot_page:
  assumes L: "boot_layout img k mm h" and x: "(v, p, fl) \<in> set (boot_pages img k mm h)"
  shows "upper v" and "aligned 12 v" and "aligned 12 p" and "unat p < 2 ^ 52"
    and "p = (if v < KERNEL_BASE then v - h else v - virtual_base k + physical_base k)"
proof -
  note L' = L [unfolded boot_layout_def]
  have "upper v \<and> aligned 12 v \<and> aligned 12 p \<and> unat p < 2 ^ 52 \<and>
    p = (if v < KERNEL_BASE then v - h else v - virtual_base k + physical_base k)"
    using L x
  proof (cases rule: boot_page_cases)
    case region
    have h: "aligned 12 h" "0xffff800000000000 \<le> unat h" using L' by (auto simp: word_le_nat_alt)
    have v: "unat v = unat p + unat h"
      unfolding region(1) using region(3) by (intro unat_add_exact) (simp add: KERNEL_BASE_def)
    have "aligned 12 v" using region(1,2) h(1) by blast
    moreover have "unat p < 2 ^ 52" using region(3) h(2) by (simp add: KERNEL_BASE_def)
    moreover have "upper v" "v < KERNEL_BASE"
      using v h(2) region(3) by (auto simp: upper_def word_le_nat_alt word_less_nat_alt)
    ultimately show ?thesis using region by simp
  next
    case image
    have "KERNEL_BASE \<le> v" using L' image(1) by (meson order_trans)
    moreover from this have "upper v" by (auto simp: upper_def KERNEL_BASE_def word_le_nat_alt)
    moreover have "aligned 12 p" unfolding image(4) using L' image(3) by (intro aligned_add aligned_sub) auto
    ultimately show ?thesis using image_phys [OF L image(1,2)] image by (simp add: not_less [symmetric])
  qed
  then show "upper v" "aligned 12 v" "aligned 12 p" "unat p < 2 ^ 52"
    "p = (if v < KERNEL_BASE then v - h else v - virtual_base k + physical_base k)" by blast+
qed

lemma boot_pages_consistent:
  assumes L: "boot_layout img k mm h"
  shows "consistent (boot_pages img k mm h)"
  unfolding consistent_def
proof (clarify)
  fix v p fl v' p' fl'
  assume x: "(v, p, fl) \<in> set (boot_pages img k mm h)" and y: "(v', p', fl') \<in> set (boot_pages img k mm h)"
    and eq: "same_page v v'"
  have "v = v'"
    using eq upper_same_page boot_page(1,2) [OF L x] boot_page(1,2) [OF L y] by (simp add: down_fix)
  then show "p AND PTE_ADDR_MASK = p' AND PTE_ADDR_MASK"
    using boot_page(5) [OF L x] boot_page(5) [OF L y] by simp
qed

text \<open>The address space the tables of a finished boot describe.\<close>

definition boot_space :: "kernel_image \<Rightarrow> kernel_address \<Rightarrow> memmap_entry list \<Rightarrow> u64 \<Rightarrow> 'a paging_scheme \<Rightarrow> bool" where
  "boot_space img k mm h s \<longleftrightarrow>
     (\<forall>e \<in> set mm. \<forall>x. unat (me_base e) \<le> unat x \<longrightarrow> unat x < unat (me_base e) + unat (me_length e) \<longrightarrow>
        vmm_translate (x + h) s = Some x) \<and>
     (\<forall>v. kernel_start img \<le> v \<longrightarrow> v < kernel_end img \<longrightarrow>
        vmm_translate v s = Some (v - virtual_base k + physical_base k)) \<and>
     (\<forall>w. \<not> bit w 47 \<longrightarrow> vmm_translate w s = None)"

lemma boot_pages_space:
  assumes L: "boot_layout img k mm h"
    and other: "\<And>w. (\<forall>(v, p, fl) \<in> set (boot_pages img k mm h). \<not> same_page v w) \<Longrightarrow> vmm_translate w s = None"
    and here: "\<And>v p fl w. (v, p, fl) \<in> set (boot_pages img k mm h) \<Longrightarrow> same_page v w \<Longrightarrow>
      vmm_translate w s = Some ((p AND PTE_ADDR_MASK) OR (w AND 0xfff))"
  shows "boot_space img k mm h s"
  unfolding boot_space_def
proof (intro conjI ballI allI impI)
  note L' = L [unfolded boot_layout_def]
  show "vmm_translate (x + h) s = Some x"
    if e: "e \<in> set mm" and x: "unat (me_base e) \<le> unat x" "unat x < unat (me_base e) + unat (me_length e)" for e x
  proof -
    have h: "aligned 12 h" "0xffff800000000000 \<le> unat h"
      and le: "unat h + (unat (me_base e) + unat (me_length e)) \<le> unat KERNEL_BASE"
      using L' e by (auto simp: word_le_nat_alt)
    have "unat (me_base e) + unat (me_length e) + 4096 \<le> 2 ^ 64" using le h(2) by (simp add: KERNEL_BASE_def)
    from region_pages_cover [OF x this, of h] have mem: "(down x + h, down x, VM_WRITE) \<in> set (boot_pages img k mm h)"
      using e by (auto simp: boot_pages_def)
    have "vmm_translate (x + h) s = Some ((down x AND PTE_ADDR_MASK) OR ((x + h) AND 0xfff))"
      by (rule here [OF mem same_page_down [OF h(1)]])
    then show ?thesis
      using frame_mask [OF boot_page(3,4) [OF L mem]] low_bits_add [OF h(1), of x] down_split [of x] by simp
  qed
  show "vmm_translate v s = Some (v - virtual_base k + physical_base k)"
    if v: "kernel_start img \<le> v" "v < kernel_end img" for v
  proof -
    let ?d = "- virtual_base k + physical_base k"
    have al: "aligned 12 (kernel_start img)" "aligned 12 (data_start img)" "aligned 12 (kernel_end img)"
      using L' by blast+
    have d: "aligned 12 ?d" using L' aligned_add [OF aligned_sub [OF aligned_0]] by (metis diff_0)
    have "\<exists>fl. (down v, down v - virtual_base k + physical_base k, fl) \<in> set (boot_pages img k mm h)"
    proof (cases "v < data_start img")
      case True
      then show ?thesis using image_pages_cover [OF v(1) True al(1,2)] unfolding boot_pages_def by fastforce
    next
      case False
      then have "data_start img \<le> v" by simp
      then show ?thesis using image_pages_cover [OF _ v(2) al(2,3)] unfolding boot_pages_def by fastforce
    qed
    then obtain fl where mem: "(down v, down v + ?d, fl) \<in> set (boot_pages img k mm h)" by (auto simp: algebra_simps)
    have "vmm_translate v s = Some (((down v + ?d) AND PTE_ADDR_MASK) OR (v AND 0xfff))"
      using here [OF mem] same_page_down [OF aligned_0, of v] by simp
    also have "((down v + ?d) AND PTE_ADDR_MASK) OR (v AND 0xfff) = down (v + ?d) OR ((v + ?d) AND 0xfff)"
      using frame_mask [OF boot_page(3,4) [OF L mem]] down_add [OF d, of v] low_bits_add [OF d, of v] by simp
    finally show ?thesis using down_split [of "v + ?d"] by (simp add: algebra_simps)
  qed
  show "vmm_translate w s = None" if "\<not> bit w 47" for w
    using upper_same_page_low [OF boot_page(1) [OF L] that] by (intro other) blast
qed

text \<open>What a panic or a switch leaves behind differs only in the bus trace and in \<open>cr3\<close>.\<close>

lemma same_space:
  fixes s :: "'a paging_scheme"
  assumes "t = s\<lparr>io_trace := tr, cr3 := c\<rparr>"
  shows "pt_inv U T root t \<longleftrightarrow> pt_inv U T root s" and "vmm_translate w t = vmm_translate w s"
    and "boot_space img k mm h t \<longleftrightarrow> boot_space img k mm h s" and "free_set t = free_set s"
proof -
  show fr: "free_set t = free_set s" by (simp add: assms free_set_def bit_test_alt)
  show "pt_inv U T root t \<longleftrightarrow> pt_inv U T root s"
    by (simp add: assms pt_inv_def pmm_inv_def free_set_def bit_test_alt bitmap_range_def)
  show tr: "vmm_translate w t = vmm_translate w s" for w
    by (simp add: assms vmm_translate_def paging_translate_def next_level_def table_at_def Let_def)
  show "boot_space img k mm h t \<longleftrightarrow> boot_space img k mm h s" by (simp add: boot_space_def tr)
qed

lemma vmm_panic_sends:
  assumes "uart_live (device s)"
  shows "\<exists>tr. vmm_panic msg s = Some (Inl (VmmPanic msg, s\<lparr>io_trace := tr\<rparr>))"
proof -
  obtain s1 where s1: "serial_write ''vmm panic: '' s = Some s1" "s1 = s\<lparr>io_trace := io_trace s1\<rparr>" "device s1 = device s"
    using serial_write_sends [OF assms] sends_fields(3) sends_device by metis
  then obtain s2 where s2: "serial_write msg s1 = Some s2" "s2 = s1\<lparr>io_trace := io_trace s2\<rparr>" "device s2 = device s"
    using serial_write_sends [of s1 msg] sends_fields(3) sends_device assms by metis
  then obtain s3 where s3: "serial_write [CHR 0x0A] s2 = Some s3" "s3 = s2\<lparr>io_trace := io_trace s3\<rparr>"
    using serial_write_sends [of s2 "[CHR 0x0A]"] sends_fields(3) assms by metis
  have "s3 = s\<lparr>io_trace := io_trace s3\<rparr>" using s1(2) s2(2) s3(2) by (metis machine.surjective machine.update_convs(2))
  moreover have "vmm_panic msg s = Some (Inl (VmmPanic msg, s3))"
    by (simp only: vmm_panic_def s1(1) s2(1) s3(1) Option.bind.bind_lunit)
  ultimately show ?thesis by metis
qed

end
