(* ===== verification/Vmm_Init.thy ===== *)
theory Vmm_Init
  imports Vmm
begin

text \<open>
  The contract of \<open>vmm_init\<close>: how many frames the tables of a list of pages take, that the mappings
  succeed when there are as many, and what the address space is afterwards.
\<close>

subsection \<open>The frames the tables take\<close>

text \<open>The indices that lead to the table of level \<open>n\<close>; two pages share it when they agree in them.\<close>

definition path :: "nat \<Rightarrow> u64 \<Rightarrow> u64 list" where
  "path n v = map (\<lambda>i. idx i v) [0..<n]"

definition tables_for :: "u64 list \<Rightarrow> nat" where
  "tables_for vs = (\<Sum>n \<in> {1, 2, 3}. card (path n ` set vs))"

lemma path_eq: "path n v = path n w \<longleftrightarrow> same_path n v w"
  by (auto simp: path_def same_path_def)

lemma tables_for_Nil [simp]: "tables_for [] = 0"
  by (simp add: tables_for_def)

lemma tables_for_mono: "set vs \<subseteq> set ws \<Longrightarrow> tables_for vs \<le> tables_for ws"
  unfolding tables_for_def by (intro sum_mono card_mono image_mono) simp_all

text \<open>At most three tables for each 2 MiB region that has pages.\<close>

lemma tables_for_regions:
  assumes "\<forall>v \<in> set vs. \<exists>w \<in> set ws. drop_bit 21 v = drop_bit 21 w"
  shows "tables_for vs \<le> 3 * length ws"
proof -
  have "card (path n ` set vs) \<le> length ws" if "n \<in> {1, 2, 3}" for n
  proof -
    have "idx i v = idx i w" if "i < n" "drop_bit 21 v = drop_bit 21 w" for i v w
    proof -
      have "idx i u = drop_bit (18 - 9 * i) (drop_bit 21 u) AND 0x1ff" for u
        using \<open>n \<in> {1, 2, 3}\<close> that(1) by (auto simp: idx_def drop_bit_drop_bit less_Suc_eq eval_nat_numeral)
      from this [of v] this [of w] show ?thesis unfolding that(2) by (rule trans [OF _ sym])
    qed
    then have eq: "path n v = path n w" if "drop_bit 21 v = drop_bit 21 w" for v w using that unfolding path_eq same_path_def by blast
    have "path n ` set vs \<subseteq> path n ` set ws"
    proof
      fix x assume "x \<in> path n ` set vs"
      then obtain v w where "x = path n v" "w \<in> set ws" "drop_bit 21 v = drop_bit 21 w" using assms by blast
      then show "x \<in> path n ` set ws" using eq by blast
    qed
    then have "card (path n ` set vs) \<le> card (path n ` set ws)" by (intro card_mono) simp_all
    also have "\<dots> \<le> length ws" by (metis card_image_le card_length finite_set le_trans)
    finally show ?thesis .
  qed
  then have "tables_for vs \<le> (\<Sum>n \<in> {1, 2, 3 :: nat}. length ws)" unfolding tables_for_def by (rule sum_mono)
  then show ?thesis by simp
qed

text \<open>The tables there are, when exactly the pages \<open>vs\<close> have been mapped.\<close>

definition walks :: "u64 list \<Rightarrow> memory \<Rightarrow> u64 \<Rightarrow> u64 \<Rightarrow> bool" where
  "walks vs m h root \<longleftrightarrow> (\<forall>n \<in> {1, 2, 3}. \<forall>w. tbl m h root n w \<noteq> None \<longleftrightarrow> path n w \<in> path n ` set vs)"

lemma card_image_insert: "card (f ` insert x A) = card (f ` A) + of_bool (f x \<notin> f ` A)" if "finite A"
  using that by (auto simp: card_insert_if insert_absorb)

lemma tables_for_snoc:
  assumes "walks vs m h root"
  shows "tables_for (vs @ [v]) = tables_for vs + missing 0 m h root v"
proof -
  have "0 < j \<and> j \<le> 3 \<longleftrightarrow> j \<in> {1, 2, 3}" for j :: nat by auto
  then have "{j. 0 < j \<and> j \<le> 3 \<and> tbl m h root j v = None} = {j \<in> {1, 2, 3}. path j v \<notin> path j ` set vs}"
    using assms unfolding walks_def by (intro Collect_cong) blast
  moreover have "card {j \<in> {1, 2, 3 :: nat}. P j} = (\<Sum>j \<in> {1, 2, 3}. of_bool (P j))" for P
    by (simp add: sum_of_bool_eq Int_def)
  ultimately show ?thesis
    unfolding tables_for_def missing_def by (simp add: card_image_insert sum.distrib [symmetric] del: image_insert)
qed

lemma walks_snoc:
  assumes "walks vs m h root" and "grows m m' h root v" and "tbl m' h root 3 v \<noteq> None"
  shows "walks (vs @ [v]) m' h root"
  unfolding walks_def
proof (intro ballI allI)
  fix n :: nat and w assume n: "n \<in> {1, 2, 3}"
  then have "n \<le> 3" by auto
  then have "tbl m' h root n v \<noteq> None" using assms(3) tbl_None by metis
  then have here: "tbl m' h root n w \<noteq> None" if "same_path n v w" using tbl_same_path [OF that] by simp
  have "tbl m' h root n w \<noteq> None \<longleftrightarrow> tbl m h root n w \<noteq> None \<or> same_path n v w"
    using assms(2) here \<open>n \<le> 3\<close> unfolding grows_def by blast
  then show "tbl m' h root n w \<noteq> None \<longleftrightarrow> path n w \<in> path n ` set (vs @ [v])"
    using assms(1) n path_eq by (auto simp: walks_def path_eq same_path_sym simp del: tbl.simps)
qed

lemma map_all_room:
  assumes "pt_inv U T (kernel_pml4 s) s" and "walks vs (mem s) (paging_hhdm s) (kernel_pml4 s)"
    and "tables_for (vs @ map fst xs) \<le> card (free_set s) + tables_for vs"
  shows "fst (map_all xs s)"
  using assms
proof (induction xs arbitrary: vs T s)
  case (Cons x xs)
  obtain v p fl where x: "x = (v, p, fl)" by (cases x)
  obtain ok s1 where r: "paging_map (kernel_pml4 s) v p fl s = (ok, s1)" by (metis prod.exhaust)
  note g = map_growth [OF Cons.prems(1) r]
  obtain T1 where T1: "pt_inv U T1 (kernel_pml4 s) s1" "pt_step T s T1 s1" using map_result [OF Cons.prems(1) r] by metis
  note f = pt_step_fields [OF T1(2)]
  have "tables_for (vs @ [v]) \<le> tables_for (vs @ map fst (x # xs))" by (rule tables_for_mono) (auto simp: x)
  then have "missing 0 (mem s) (paging_hhdm s) (kernel_pml4 s) v \<le> card (free_set s)"
    using Cons.prems(3) tables_for_snoc [OF Cons.prems(2), of v] by simp
  then have ok using g(3) by auto
  have "fst (map_all xs s1)"
  proof (rule Cons.IH)
    show "pt_inv U T1 (kernel_pml4 s1) s1" using T1(1) f(2) by simp
    show "walks (vs @ [v]) (mem s1) (paging_hhdm s1) (kernel_pml4 s1)"
      using walks_snoc [OF Cons.prems(2) g(1) g(4) [OF \<open>ok\<close>]] f(1,2) by simp
    show "tables_for ((vs @ [v]) @ map fst xs) \<le> card (free_set s1) + tables_for (vs @ [v])"
      using Cons.prems(3) g(2) tables_for_snoc [OF Cons.prems(2), of v] by (simp add: x)
  qed
  then show ?case using \<open>ok\<close> by (simp add: x vmm_map_def r)
qed simp

subsection \<open>The phases\<close>

lemma map_phases:
  assumes L: "boot_layout img k mm h"
  defines "xs \<equiv> boot_pages img k mm h"
  shows "\<exists>msg \<in> {msg_hhdm, msg_kernel}.
    and_then (map_hhdm mm h s) (\<lambda>s.
    and_then (map_kernel_range (kernel_start img) (data_start img) (virtual_base k) (physical_base k) 0 s) (\<lambda>s.
    and_then (map_kernel_range (data_start img) (kernel_end img) (virtual_base k) (physical_base k) VM_WRITE s) f)) =
    (if fst (map_all xs s) then f (snd (map_all xs s)) else vmm_panic msg (snd (map_all xs s)))"
proof -
  note L' = L [unfolded boot_layout_def]
  let ?A = "concat (map (region_pages h) mm)" and ?B = "image_pages k (kernel_start img) (data_start img) 0"
    and ?C = "image_pages k (data_start img) (kernel_end img) VM_WRITE"
  have "\<forall>e \<in> set mm. unat (me_base e) + unat (me_length e) + 4096 \<le> 2 ^ 64"
    using L' by (force simp: KERNEL_BASE_def word_le_nat_alt)
  note A = map_hhdm_all [OF this, of h]
  have B: "map_kernel_range (kernel_start img) (data_start img) (virtual_base k) (physical_base k) 0 t =
      finish msg_kernel (map_all ?B t)" for t
    unfolding image_pages_def by (rule kernel_loop_all, rule image_run) (use L' in blast)+
  have C: "map_kernel_range (data_start img) (kernel_end img) (virtual_base k) (physical_base k) VM_WRITE t =
      finish msg_kernel (map_all ?C t)" for t
    unfolding image_pages_def by (rule kernel_loop_all, rule image_run) (use L' in blast)+
  have fin: "and_then (finish msg r) g = (if fst r then g (snd r) else vmm_panic msg (snd r))"
    for msg and r :: "bool \<times> 'a paging_scheme" and g
    by (cases "fst r") (simp_all add: finish_def panic_then and_then_def [of "Some _"])
  show ?thesis
    unfolding xs_def boot_pages_def A B C fin map_all_append Let_def by auto
qed

text \<open>
  The allocation of the root table, and the state in which the mappings start.
\<close>

lemma pt_inv_root [simp]: "pt_inv U T root (s\<lparr>kernel_pml4 := r\<rparr>) \<longleftrightarrow> pt_inv U T root s" for s :: "'a paging_scheme"
  by (simp add: pt_inv_def pmm_inv_def free_set_def bit_test_alt bitmap_range_def)

text \<open>What \<open>vmm_init\<close> may change: its own variables, the frame allocator's, the bitmap and frames that were free.\<close>

definition vm_frame :: "u64 \<Rightarrow> 'a paging_scheme \<Rightarrow> 'a paging_scheme \<Rightarrow> bool" where
  "vm_frame h s u \<longleftrightarrow> (\<exists>m tr c l k n p. u = s\<lparr>mem := m, io_trace := tr, cr3 := c, tlb_flushes := l, free_frames := k, next_hint := n,
       paging_hhdm := h, kernel_pml4 := p\<rparr>) \<and>
     free_set u \<subseteq> free_set s \<and> bitmap_range u = bitmap_range s \<and> serial_only (io_trace s) (io_trace u) \<and>
     (\<forall>x. x \<notin> bitmap_range s \<longrightarrow> dm_frame h x \<notin> unat ` free_set s \<longrightarrow> mem u x = mem s x)"

lemma vm_frame_step:
  assumes f: "vm_frame h s t" and st: "pt_step T t T' u" and T: "frame_of ` T \<subseteq> unat ` free_set s"
  shows "vm_frame h s u"
proof -
  obtain m tr c l k n q where t: "t = s\<lparr>mem := m, io_trace := tr, cr3 := c, tlb_flushes := l, free_frames := k, next_hint := n,
      paging_hhdm := h, kernel_pml4 := q\<rparr>" using f by (auto simp: vm_frame_def)
  obtain m' k' n' l' where u: "u = t\<lparr>mem := m', free_frames := k', next_hint := n', tlb_flushes := l'\<rparr>" using st by (auto simp: pt_step_def)
  have "u = s\<lparr>mem := m', io_trace := tr, cr3 := c, tlb_flushes := l', free_frames := k', next_hint := n', paging_hhdm := h, kernel_pml4 := q\<rparr>"
    by (simp add: t u)
  moreover have "frame_of ` T' \<subseteq> unat ` free_set s" using st T f by (auto simp: pt_step_def vm_frame_def)
  then have "mem u x = mem s x" if "x \<notin> bitmap_range s" "dm_frame h x \<notin> unat ` free_set s" for x
  proof -
    have "x \<notin> bitmap_range t" "dm_frame (paging_hhdm t) x \<notin> frame_of ` T'"
      using that \<open>frame_of ` T' \<subseteq> unat ` free_set s\<close> f by (auto simp: vm_frame_def)
    then have "mem u x = mem t x" using st by (simp add: pt_step_def)
    then show ?thesis using f that by (simp add: vm_frame_def)
  qed
  moreover have "free_set u \<subseteq> free_set s" "bitmap_range u = bitmap_range s" using f st by (auto simp: vm_frame_def pt_step_def)
  moreover have "serial_only (io_trace s) (io_trace u)" using f pt_step_fields(7) [OF st] by (simp add: vm_frame_def)
  ultimately show ?thesis unfolding vm_frame_def by (intro conjI) (blast, simp_all)
qed

lemma vm_frame_vars:
  assumes "vm_frame h s t" and "u = t\<lparr>io_trace := tr, cr3 := c, kernel_pml4 := p\<rparr>" and "serial_only (io_trace t) tr"
  shows "vm_frame h s u"
proof -
  obtain m tr' c' l k n q where t: "t = s\<lparr>mem := m, io_trace := tr', cr3 := c', tlb_flushes := l, free_frames := k, next_hint := n,
      paging_hhdm := h, kernel_pml4 := q\<rparr>" using assms(1) by (auto simp: vm_frame_def)
  have "u = s\<lparr>mem := m, io_trace := tr, cr3 := c, tlb_flushes := l, free_frames := k, next_hint := n, paging_hhdm := h, kernel_pml4 := p\<rparr>"
    by (simp add: assms(2) t)
  moreover have "free_set u = free_set t" "bitmap_range u = bitmap_range t" "mem u = mem t"
    by (simp_all add: assms(2) bitmap_range_def free_set_def bit_test_alt)
  moreover have "serial_only (io_trace s) (io_trace u)" using assms serial_only_trans by (auto simp: vm_frame_def)
  moreover note assms(1) [unfolded vm_frame_def, THEN conjunct2]
  ultimately show ?thesis unfolding vm_frame_def by (intro conjI) (blast, simp_all)
qed

lemma root_allocated:
  assumes "pmm_inv U s" and "unat (total_frames s) \<le> 2 ^ 40" and "direct_map h (unat (total_frames s))"
    and "\<forall>x \<in> bitmap_range s. dm_frame h x \<notin> unat ` free_set s"
    and "pmm_alloc_frame (paging_set_hhdm h s) = (root, s1)"
  defines "s2 \<equiv> s1\<lparr>kernel_pml4 := root, mem := snd (memset (root + h) 0 PMM_FRAME_SIZE (mem s1))\<rparr>"
  shows "root = 0 \<Longrightarrow> free_set s1 = {} \<and> free_set s = {}" and "cr3 s1 = cr3 s" and "device s1 = device s"
    and "root \<noteq> 0 \<Longrightarrow> pt_inv U {root} root s2 \<and> (\<forall>w. vmm_translate w s2 = None) \<and>
      cr3 s2 = cr3 s \<and> device s2 = device s \<and> kernel_pml4 s2 = root \<and> vm_frame h s s2 \<and> frame_of ` {root} \<subseteq> unat ` free_set s \<and>
      walks [] (mem s2) (paging_hhdm s2) root \<and> card (free_set s) = Suc (card (free_set s2))"
proof -
  let ?s0 = "paging_set_hhdm h s"
  have s0: "free_set ?s0 = free_set s" "bitmap_range ?s0 = bitmap_range s" "total_frames ?s0 = total_frames s"
      "paging_hhdm ?s0 = h" "pmm_inv U ?s0"
    using assms(1) by (auto simp: paging_set_hhdm_def free_set_def bit_test_alt bitmap_range_def pmm_inv_def)
  obtain m1 k1 n1 where s1: "s1 = ?s0\<lparr>mem := m1, free_frames := k1, next_hint := n1\<rparr>"
    using alloc_shape [of ?s0] assms(5) by auto
  show cd: "cr3 s1 = cr3 s" "device s1 = device s" by (simp_all add: s1 paging_set_hhdm_def)
  show "free_set s1 = {} \<and> free_set s = {}" if "root = 0"
    using pmm.alloc_zero_iff [OF s0(5)] pmm.alloc_none [OF s0(5)] that assms(5) s0(1) by auto
  assume ne: "root \<noteq> 0"
  let ?t = "s1\<lparr>mem := snd (memset (root + h) 0 PMM_FRAME_SIZE (mem s1))\<rparr>"
  have fs: "pt_inv U {root} root ?t" "\<And>w. translation (mem ?t) h root w = None" "pt_step {} ?s0 {root} ?t"
    "\<And>n w. 0 < n \<Longrightarrow> tbl (mem ?t) h root n w = None" "card (free_set s) = Suc (card (free_set ?t))"
    using fresh_space [of U ?s0 root s1] assms(2-5) s0 ne by simp_all
  have "frame_of ` {root} = unat ` (free_set s - free_set ?t)" using fs(3) s0(1) by (simp add: pt_step_def)
  then have root: "frame_of ` {root} \<subseteq> unat ` free_set s" by blast
  have "?s0 = s\<lparr>mem := mem s, io_trace := io_trace s, cr3 := cr3 s, tlb_flushes := tlb_flushes s, free_frames := free_frames s,
      next_hint := next_hint s, paging_hhdm := h, kernel_pml4 := kernel_pml4 s\<rparr>" by (simp add: paging_set_hhdm_def)
  moreover have "mem ?s0 = mem s" "io_trace ?s0 = io_trace s" by (simp_all add: paging_set_hhdm_def)
  ultimately have "vm_frame h s ?s0" unfolding vm_frame_def using s0(1,2) by (intro conjI) (blast, simp_all)
  then have "vm_frame h s ?t" using fs(3) by (rule vm_frame_step) simp
  have s2: "s2 = ?t\<lparr>kernel_pml4 := root\<rparr>" by (simp add: s2_def)
  have inv: "pt_inv U {root} root s2" unfolding s2 by (simp only: pt_inv_root fs(1))
  have "paging_hhdm s2 = h" "mem s2 = mem ?t" "kernel_pml4 s2 = root" by (simp_all add: s2 s1 paging_set_hhdm_def)
  then have "vmm_translate w s2 = None" for w
    using fs(2) [of w] unfolding vmm_translate_def by (simp only: translate_translation [OF inv])
  moreover have "walks [] (mem s2) (paging_hhdm s2) root"
    unfolding walks_def \<open>paging_hhdm s2 = h\<close> \<open>mem s2 = mem ?t\<close> using fs(4) by (auto simp del: tbl.simps)
  moreover have "free_set s2 = free_set ?t" by (simp add: s2 free_set_def bit_test_alt)
  moreover have "vm_frame h s s2"
    using \<open>vm_frame h s ?t\<close> by (rule vm_frame_vars [where tr = "io_trace ?t" and c = "cr3 ?t" and p = root]) (simp_all add: s2)
  ultimately show "pt_inv U {root} root s2 \<and> (\<forall>w. vmm_translate w s2 = None) \<and>
      cr3 s2 = cr3 s \<and> device s2 = device s \<and> kernel_pml4 s2 = root \<and> vm_frame h s s2 \<and> frame_of ` {root} \<subseteq> unat ` free_set s \<and>
      walks [] (mem s2) (paging_hhdm s2) root \<and> card (free_set s) = Suc (card (free_set s2))"
    using inv cd root fs(5) by (simp add: s2_def)
qed


text \<open>The last steps of \<open>vmm_init\<close>: the check and the switch.\<close>

definition switch_phase :: "u64 \<Rightarrow> 'a paging_scheme \<Rightarrow> ('a paging_scheme) outcome" where
  "switch_phase c s = (if \<not> paging_can_switch_to c (kernel_pml4 s) s then vmm_panic msg_switch s
      else map_option Inr (serial_write (''ScrapOS: now running on our own page tables'' @ [CHR 0x0A])
             (paging_load_cr3 (kernel_pml4 s) s)))"

lemma vmm_init_unfold:
  assumes "pmm_alloc_frame (paging_set_hhdm h s) = (root, s1)"
  defines "s2 \<equiv> s1\<lparr>kernel_pml4 := root, mem := snd (memset (root + h) 0 PMM_FRAME_SIZE (mem s1))\<rparr>"
  shows "vmm_init img k mm h s =
    (if root = 0 then vmm_panic msg_pml4 (s1\<lparr>kernel_pml4 := root\<rparr>)
     else and_then (map_hhdm mm h s2) (\<lambda>s.
       and_then (map_kernel_range (kernel_start img) (data_start img) (virtual_base k) (physical_base k) 0 s) (\<lambda>s.
       and_then (map_kernel_range (data_start img) (kernel_end img) (virtual_base k) (physical_base k) VM_WRITE s) (switch_phase (load_cr3_code img)))))"
  unfolding vmm_init_def Let_def assms(1) prod.case switch_phase_def s2_def by simp

text \<open>The addresses the new address space maps in any case.\<close>

definition boot_mapped :: "kernel_image \<Rightarrow> memmap_entry list \<Rightarrow> u64 \<Rightarrow> u64 \<Rightarrow> bool" where
  "boot_mapped img mm h v \<longleftrightarrow> (\<exists>e \<in> set mm. unat (me_base e) \<le> unat (v - h) \<and> unat (v - h) < unat (me_base e) + unat (me_length e)) \<or>
     kernel_start img \<le> v \<and> v < kernel_end img"

lemma boot_mapped_translates: "boot_space img k mm h s \<Longrightarrow> boot_mapped img mm h v \<Longrightarrow> vmm_translate v s \<noteq> None"
proof -
  assume s: "boot_space img k mm h s" and v: "boot_mapped img mm h v"
  have "vmm_translate (v - h + h) s \<noteq> None"
    if "e \<in> set mm" "unat (me_base e) \<le> unat (v - h)" "unat (v - h) < unat (me_base e) + unat (me_length e)" for e
    using s that unfolding boot_space_def by blast
  moreover have "vmm_translate v s \<noteq> None" if "kernel_start img \<le> v" "v < kernel_end img" using s that by (simp add: boot_space_def)
  ultimately show ?thesis using v unfolding boot_mapped_def by auto
qed

lemma final_phase:
  assumes "uart_live (device t)" and "pt_inv U T (kernel_pml4 t) t" and "boot_space img k mm h t" and "vm_frame h s t"
  shows "case switch_phase c t of None \<Rightarrow> False
    | Some (Inl (e, u)) \<Rightarrow> e = VmmPanic msg_switch \<and> cr3 u = cr3 t \<and> \<not> (boot_mapped img mm h (rsp t) \<and> boot_mapped img mm h c)
    | Some (Inr u) \<Rightarrow> cr3 u = kernel_pml4 u \<and> (\<exists>T. pt_inv U T (kernel_pml4 u) u) \<and> boot_space img k mm h u \<and>
        vmm_translate (rsp u) u \<noteq> None \<and> vmm_translate c u \<noteq> None \<and> vm_frame h s u"
proof (cases "paging_can_switch_to c (kernel_pml4 t) t")
  case False
  obtain tr where p: "vmm_panic msg_switch t = Some (Inl (VmmPanic msg_switch, t\<lparr>io_trace := tr\<rparr>))"
    using vmm_panic_sends [OF assms(1)] by blast
  have "\<not> (boot_mapped img mm h (rsp t) \<and> boot_mapped img mm h c)"
    using False boot_mapped_translates [OF assms(3)] unfolding paging_can_switch_to_def vmm_translate_def by blast
  then show ?thesis using False p by (simp add: switch_phase_def)
next
  case True
  let ?u = "paging_load_cr3 (kernel_pml4 t) t"
  let ?msg = "''ScrapOS: now running on our own page tables'' @ [CHR 0x0A]"
  have "uart_live (device ?u)" using assms(1) by (simp add: paging_load_cr3_def)
  then obtain u where u: "serial_write ?msg ?u = Some u" "u = ?u\<lparr>io_trace := io_trace u\<rparr>" "serial_only (io_trace ?u) (io_trace u)"
    using serial_write_sends [of ?u ?msg] sends_fields(3) sends_serial_only by metis
  have comm: "t\<lparr>cr3 := c, io_trace := x\<rparr> = t\<lparr>io_trace := x, cr3 := c\<rparr>" for c x by simp
  have ut: "u = t\<lparr>io_trace := io_trace u, cr3 := kernel_pml4 t\<rparr>" using u(2) unfolding paging_load_cr3_def comm .
  have fin: "switch_phase c t = Some (Inr u)" unfolding switch_phase_def using True by (simp only: u(1) not_True_eq_False if_False option.map)
  have f: "kernel_pml4 u = kernel_pml4 t" "cr3 u = kernel_pml4 t" "rsp u = rsp t" by (subst ut, simp)+
  have "u = t\<lparr>io_trace := io_trace u, cr3 := kernel_pml4 t, kernel_pml4 := kernel_pml4 t\<rparr>" by (subst ut) simp
  moreover have "serial_only (io_trace t) (io_trace u)" using u(3) by (simp add: paging_load_cr3_def)
  ultimately have fr: "vm_frame h s u" by (rule vm_frame_vars [OF assms(4)])
  show ?thesis
    unfolding fin option.case sum.case f same_space [OF ut]
    using True assms(2,3) fr by (auto simp: paging_can_switch_to_def vmm_translate_def)
qed

lemma vmm_init_result:
  assumes "uart_live (device s)" and "pmm_inv U s" and "unat (total_frames s) \<le> 2 ^ 40"
    and "direct_map h (unat (total_frames s))"
    and "\<forall>x \<in> bitmap_range s. dm_frame h x \<notin> unat ` free_set s"
    and "boot_layout img k mm h"
  shows "case vmm_init img k mm h s of None \<Rightarrow> False
    | Some (Inl (e, u)) \<Rightarrow> cr3 u = cr3 s \<and>
        (e \<in> VmmPanic ` {msg_pml4, msg_hhdm, msg_kernel} \<and> free_set u = {} \<and>
           card (free_set s) \<le> tables_for (map fst (boot_pages img k mm h)) \<or>
         e = VmmPanic msg_switch \<and> \<not> (boot_mapped img mm h (rsp s) \<and> boot_mapped img mm h (load_cr3_code img)))
    | Some (Inr u) \<Rightarrow> cr3 u = kernel_pml4 u \<and> (\<exists>T. pt_inv U T (kernel_pml4 u) u) \<and> boot_space img k mm h u \<and>
        vmm_translate (rsp u) u \<noteq> None \<and> vmm_translate (load_cr3_code img) u \<noteq> None \<and> vm_frame h s u"
    (is "?post (vmm_init img k mm h s)")
proof -
  obtain root s1 where r: "pmm_alloc_frame (paging_set_hhdm h s) = (root, s1)" by (metis prod.exhaust)
  note root = root_allocated [OF assms(2-5) r]
  have panic: "?post (vmm_panic msg t)"
    if t: "uart_live (device t)" "cr3 t = cr3 s" "free_set t = {}" "msg \<in> {msg_pml4, msg_hhdm, msg_kernel}"
      "card (free_set s) \<le> tables_for (map fst (boot_pages img k mm h))" for msg t
  proof -
    obtain tr where p: "vmm_panic msg t = Some (Inl (VmmPanic msg, t\<lparr>io_trace := tr\<rparr>))"
      using vmm_panic_sends [OF t(1)] by blast
    have "t\<lparr>io_trace := tr\<rparr> = t\<lparr>io_trace := tr, cr3 := cr3 t\<rparr>" by simp
    from same_space(4) [OF this] show ?thesis using t by (simp add: p)
  qed
  show ?thesis
  proof (cases "root = 0")
    case True
    have "free_set (s1\<lparr>kernel_pml4 := root\<rparr>) = {}" using root(1) [OF True] by (simp add: free_set_def bit_test_alt)
    then show ?thesis
      unfolding vmm_init_unfold [OF r] if_P [OF True] by (intro panic) (use root(1) [OF True] root(2,3) assms(1) in simp_all)
  next
    case False
    define s2 where "s2 = s1\<lparr>kernel_pml4 := root, mem := snd (memset (root + h) 0 PMM_FRAME_SIZE (mem s1))\<rparr>"
    let ?xs = "boot_pages img k mm h"
    let ?t = "snd (map_all ?xs s2)"
    have s2: "pt_inv U {root} (kernel_pml4 s2) s2" "\<And>w. vmm_translate w s2 = None" "cr3 s2 = cr3 s" "device s2 = device s"
      "vm_frame h s s2" "frame_of ` {root} \<subseteq> unat ` free_set s" "walks [] (mem s2) (paging_hhdm s2) (kernel_pml4 s2)" "card (free_set s) = Suc (card (free_set s2))"
      using root(4) [OF False] by (auto simp: s2_def)
    obtain T where T: "pt_inv U T (kernel_pml4 s2) ?t" "pt_step {root} s2 T ?t"
      and full: "\<not> fst (map_all ?xs s2) \<Longrightarrow> free_set ?t = {}"
      and other: "\<And>w. fst (map_all ?xs s2) \<Longrightarrow> \<forall>(v, p, fl) \<in> set ?xs. \<not> same_page v w \<Longrightarrow> vmm_translate w ?t = None"
      and here: "\<And>v p fl w. fst (map_all ?xs s2) \<Longrightarrow> (v, p, fl) \<in> set ?xs \<Longrightarrow> same_page v w \<Longrightarrow>
        vmm_translate w ?t = Some ((p AND PTE_ADDR_MASK) OR (w AND 0xfff))"
      using map_all_result [OF s2(1), of ?xs] boot_pages_consistent [OF assms(6)] s2(2) by (elim exE conjE) fastforce
    note fields = pt_step_fields [OF T(2)]
    have live: "uart_live (device ?t)" using assms(1) s2(4) fields by simp
    obtain msg where msg: "msg \<in> {msg_hhdm, msg_kernel}" and eq: "vmm_init img k mm h s =
      (if fst (map_all ?xs s2)
       then switch_phase (load_cr3_code img) ?t
       else vmm_panic msg ?t)"
      unfolding vmm_init_unfold [OF r] if_not_P [OF False] s2_def [symmetric]
      using map_phases [OF assms(6)] by blast
    show ?thesis
    proof (cases "fst (map_all ?xs s2)")
      case False
      then have "\<not> tables_for (map fst ?xs) \<le> card (free_set s2)" using map_all_room [OF s2(1,7), of ?xs] by auto
      then have "card (free_set s) \<le> tables_for (map fst ?xs)" using s2(8) by simp
      then show ?thesis unfolding eq if_not_P [OF False] using panic [OF live _ full [OF False], of msg] msg fields s2(3) by simp
    next
      case True
      have rsp: "rsp ?t = rsp s" using vm_frame_step [OF s2(5) T(2) s2(6)] by (auto simp: vm_frame_def)
      have "boot_space img k mm h ?t" by (rule boot_pages_space [OF assms(6) other [OF True] here [OF True]])
      from final_phase [OF live _ this vm_frame_step [OF s2(5) T(2) s2(6)], of U T "load_cr3_code img"] T(1) fields(2,5) s2(3) rsp
      show ?thesis unfolding eq if_P [OF True] by (auto split: option.splits sum.splits prod.splits)
    qed
  qed
qed

text \<open>C3 (functional): building the kernel's address space. \<open>vmm_init\<close> always returns or stops with a
  message. If it returns, the processor runs on the new tables, they form a
  proper tree of allocated frames, they map every byte of every region of the memory map at the
  direct-map offset and the whole image at its physical copy, nothing in the lower half is mapped,
  and the live stack and the code across the switch are mapped. It stops only
  when the free frames are no more than the tables below the root, which are counted exactly, or when the
  stack or the code is in neither a region nor the image, and then \<open>cr3\<close> has not changed.\<close>

theorem vmm_init_correct:
  assumes "uart_live (device s)" and "pmm_inv U s" and "unat (total_frames s) \<le> 2 ^ 40"
    and "direct_map h (unat (total_frames s))"
    and "\<forall>x \<in> bitmap_range s. dm_frame h x \<notin> unat ` free_set s"
    and "boot_layout img k mm h"
  shows "case vmm_init img k mm h s of None \<Rightarrow> False
    | Some (Inl (e, u)) \<Rightarrow> cr3 u = cr3 s \<and>
        (e \<in> VmmPanic ` {msg_pml4, msg_hhdm, msg_kernel} \<and> free_set u = {} \<and>
           card (free_set s) \<le> tables_for (map fst (boot_pages img k mm h)) \<or>
         e = VmmPanic msg_switch \<and> \<not> (boot_mapped img mm h (rsp s) \<and> boot_mapped img mm h (load_cr3_code img)))
    | Some (Inr u) \<Rightarrow> cr3 u = kernel_pml4 u \<and> (\<exists>T. pt_inv U T (kernel_pml4 u) u) \<and> boot_space img k mm h u \<and>
        vmm_translate (rsp u) u \<noteq> None \<and> vmm_translate (load_cr3_code img) u \<noteq> None"
  using vmm_init_result [OF assms] by (auto split: option.splits sum.splits prod.splits)

definition demo_image :: kernel_image where
  "demo_image = \<lparr>kernel_start = 0xffffffff80000000, data_start = 0xffffffff80002000,
     kernel_end = 0xffffffff80003000, load_cr3_code = 0xffffffff80000400\<rparr>"

definition demo_kaddr :: kernel_address where
  "demo_kaddr = \<lparr>virtual_base = 0xffffffff80000000, physical_base = 0x100000\<rparr>"

lemma demo_layout: "boot_layout demo_image demo_kaddr demo_map demo_hhdm"
  by (simp add: boot_layout_def demo_image_def demo_kaddr_def demo_map_def demo_hhdm_def KERNEL_BASE_def aligned_def
      word_le_nat_alt)

lemma run_pages_numeral: "run_pages (numeral n) v p fl = (v, p, fl) # run_pages (pred_numeral n) (v + 4096) (p + 4096) fl"
  by (simp add: numeral_eq_Suc)

lemma demo_tables: "tables_for (map fst (boot_pages demo_image demo_kaddr demo_map demo_hhdm)) \<le> 6"
proof -
  have "tables_for (map fst (boot_pages demo_image demo_kaddr demo_map demo_hhdm)) \<le> 3 * length [0xffff800000000000, 0xffffffff80000000 :: u64]"
    by (rule tables_for_regions)
      (simp add: boot_pages_def region_pages_def image_pages_def demo_map_def demo_hhdm_def demo_image_def demo_kaddr_def down_def run_pages_numeral)
  then show ?thesis by simp
qed

lemma space0_room: "6 < card (free_set space0)"
proof -
  have "{2, 3, 4, 5, 6, 7, 10} \<subseteq> free_set space0" by (simp add: space0_free word_less_nat_alt word_le_nat_alt)
  then have "card {2, 3, 4, 5, 6, 7, 10 :: u64} \<le> card (free_set space0)" by (rule card_mono [OF finite])
  then show ?thesis by simp
qed

theorem vmm_init_correct_witness:
  "\<exists>u. vmm_init demo_image demo_kaddr demo_map demo_hhdm space0 = Some (Inr u) \<and> cr3 u = kernel_pml4 u \<and>
     boot_space demo_image demo_kaddr demo_map demo_hhdm u"
proof -
  have "device space0 = demo_uart" by (simp add: space0_def paging_set_hhdm_def)
  then have live: "uart_live (device space0)" using demo_uart_live by simp
  have "boot_mapped demo_image demo_map demo_hhdm (rsp space0)" "boot_mapped demo_image demo_map demo_hhdm (load_cr3_code demo_image)"
    by (simp_all add: boot_mapped_def space0_def paging_set_hhdm_def demo_hhdm_def demo_map_def demo_image_def)
  then show ?thesis
    using vmm_init_correct [OF live space0_ok [unfolded space0_fields(5)] demo_layout] demo_tables space0_room
    by (auto split: option.splits sum.splits prod.splits)
qed

end
