(* ===== verification/Boot.thy ===== *)
theory Boot
  imports Vmm_Init Slab_Contract
begin

text \<open>
  The memory managers brought up one after the other. Each one's contract is put after the
  other's: the frame allocator takes the memory map over, the page tables and then the buddy
  allocator take frames from it, and the heap sits on the buddy allocator. Nothing outside the
  usable frames is written on the way, which is what the console and the tables of the CPU rely on.
\<close>

subsection \<open>What \<open>pmm_init\<close> leaves alone\<close>

text \<open>Everything outside the frame allocator's variables and memory.\<close>

definition pmm_keeps :: "'a pmm_scheme \<Rightarrow> 'a pmm_scheme \<Rightarrow> bool" where
  "pmm_keeps s t \<longleftrightarrow> io_trace t = io_trace s \<and> device t = device s \<and> cr2 t = cr2 s \<and> cr3 t = cr3 s \<and> rsp t = rsp s \<and>
     tlb_flushes t = tlb_flushes s \<and> pmm.more t = pmm.more s"

lemma pmm_keeps_refl [simp]: "pmm_keeps s s"
  by (simp add: pmm_keeps_def)

lemma pmm_keeps_trans: "pmm_keeps s t \<Longrightarrow> pmm_keeps t u \<Longrightarrow> pmm_keeps s u"
  by (simp add: pmm_keeps_def)

lemma clear_run_frame:
  "pmm_keeps s (clear_run start f count s) \<and>
   (\<forall>x. (\<forall>i. i - start < count \<longrightarrow> x \<noteq> bitmap s + i div 8) \<longrightarrow> mem (clear_run start f count s) x = mem s x)"
proof (induction start f count s rule: clear_run.induct)
  case (1 start f count s)
  show ?case
  proof (cases "f < count")
    case True
    let ?t = "(bit_clear (start + f) s)\<lparr>usable_frames := usable_frames (bit_clear (start + f) s) + 1\<rparr>"
    have t: "pmm_keeps s ?t" "bitmap ?t = bitmap s" by (simp_all add: bit_clear_def Let_def pmm_keeps_def)
    have step: "clear_run start f count s = clear_run start (f + 1) count ?t" using True by (subst clear_run.simps) (simp add: Let_def)
    note IH = "1.IH" [OF True refl]
    have "mem (clear_run start f count s) x = mem s x" if "\<forall>i. i - start < count \<longrightarrow> x \<noteq> bitmap s + i div 8" for x
    proof -
      have "mem ?t x = mem s x" using that [rule_format, of "start + f"] True bit_clear_mem [of x s "start + f"] by simp
      then show ?thesis unfolding step using IH that t(2) by simp
    qed
    then show ?thesis using pmm_keeps_trans [OF t(1)] IH step by simp
  next
    case False
    then show ?thesis by (subst (1 2) clear_run.simps) simp
  qed
qed

lemma reserve_run_frame:
  "pmm_keeps s (reserve_run first f count s) \<and>
   (\<forall>x. (\<forall>i. i - first < count \<longrightarrow> x \<noteq> bitmap s + i div 8) \<longrightarrow> mem (reserve_run first f count s) x = mem s x)"
proof (induction first f count s rule: reserve_run.induct)
  case (1 first f count s)
  show ?case
  proof (cases "f < count")
    case True
    let ?t = "(bit_set (first + f) s)\<lparr>free_frames := free_frames (bit_set (first + f) s) - 1\<rparr>"
    have t: "pmm_keeps s ?t" "bitmap ?t = bitmap s" by (simp_all add: bit_set_def Let_def pmm_keeps_def)
    have step: "reserve_run first f count s = reserve_run first (f + 1) count ?t" using True by (subst reserve_run.simps) (simp add: Let_def)
    note IH = "1.IH" [OF True refl]
    have "mem (reserve_run first f count s) x = mem s x" if "\<forall>i. i - first < count \<longrightarrow> x \<noteq> bitmap s + i div 8" for x
    proof -
      have "mem ?t x = mem s x" using that [rule_format, of "first + f"] True bit_set_mem [of x s "first + f"] by simp
      then show ?thesis unfolding step using IH that t(2) by simp
    qed
    then show ?thesis using pmm_keeps_trans [OF t(1)] IH step by simp
  next
    case False
    then show ?thesis by (subst (1 2) reserve_run.simps) simp
  qed
qed

lemma clear_usable_frame:
  "pmm_keeps s (clear_usable mm s) \<and>
   (\<forall>x. (\<forall>i \<in> usable_set mm. x \<noteq> bitmap s + i div 8) \<longrightarrow> mem (clear_usable mm s) x = mem s x)"
proof (induction mm s rule: clear_usable.induct)
  case (2 e es s)
  show ?case
  proof (cases "usable e")
    case True
    let ?t = "clear_run (me_base e div 4096) 0 (me_length e div 4096) s"
    note R = clear_run_frame [of s "me_base e div 4096" 0 "me_length e div 4096"]
    have ty: "me_type e = LIMINE_MEMMAP_USABLE" using True by (simp add: usable_def)
    have step: "clear_usable (e # es) s = clear_usable es ?t" using ty by simp
    note IH = "2.IH"(2) [OF iffD2 [OF not_not ty], simplified]
    have "mem (clear_usable (e # es) s) x = mem s x" if x: "\<forall>i \<in> usable_set (e # es). x \<noteq> bitmap s + i div 8" for x
    proof -
      have sub: "entry_frames e \<subseteq> usable_set (e # es)" "usable_set es \<subseteq> usable_set (e # es)" using True by (auto simp: usable_set_def)
      have "x \<noteq> bitmap s + i div 8" if "i - me_base e div 4096 < me_length e div 4096" for i
        using x sub(1) that unfolding entry_frames_def by blast
      then have "mem ?t x = mem s x" using R by blast
      moreover have "bitmap ?t = bitmap s" using clear_run_fields by blast
      moreover have "\<forall>i \<in> usable_set es. x \<noteq> bitmap s + i div 8" using x sub(2) by blast
      ultimately show ?thesis unfolding step using IH by simp
    qed
    then show ?thesis using pmm_keeps_trans [of s ?t] R IH step by simp
  next
    case False
    then have "usable_set (e # es) = usable_set es" by (auto simp: usable_set_def)
    then show ?thesis using "2.IH"(1) False by (simp add: usable_def)
  qed
qed (simp add: usable_set_def)

lemma pmm_init_frame:
  assumes mm: "limine_memmap mm" and init: "pmm_init mm hhdm s = Inr s'"
  shows "pmm_keeps s s'" and "dm_frame hhdm x \<notin> unat ` usable_set mm \<Longrightarrow> mem s' x = mem s x"
proof -
  let ?T = "init_total mm" and ?B = "init_bytes mm"
  let ?P = "bitmap_region mm ?B" and ?C = "(?B + 4096 - 1) div 4096"
  have P: "?P \<noteq> 0" using init by (auto simp: pmm_init_def Let_def init_bytes_def init_total_def)
  define s3 where "s3 = s\<lparr>total_frames := ?T, bitmap_bytes := ?B, bitmap := ?P + hhdm,
     mem := snd (memset (?P + hhdm) 0xFF ?B (mem s)), usable_frames := 0\<rparr>"
  define s5 where "s5 = (clear_usable mm s3)\<lparr>free_frames := usable_frames (clear_usable mm s3)\<rparr>"
  have s': "s' = (reserve_run (?P div 4096) 0 ?C s5)\<lparr>next_hint := 0\<rparr>"
    using init P by (simp add: pmm_init_def Let_def init_bytes_def init_total_def s3_def s5_def)
  note C = clear_usable_frame [of s3 mm] and R = reserve_run_frame [of s5 "?P div 4096" 0 ?C] and i = pmm_init_spec [OF mm init]
  have "pmm_keeps s s3" "pmm_keeps (clear_usable mm s3) s5" "pmm_keeps (reserve_run (?P div 4096) 0 ?C s5) s'"
    by (simp_all add: pmm_keeps_def s3_def s5_def s')
  from pmm_keeps_trans [OF pmm_keeps_trans [OF this(1) conjunct1 [OF C]] this(2)] pmm_keeps_trans [OF conjunct1 [OF R] this(3)]
  show "pmm_keeps s s'" by (rule pmm_keeps_trans)
  assume x: "dm_frame hhdm x \<notin> unat ` usable_set mm"
  have b: "bitmap s5 = bitmap s'" "bitmap s3 = bitmap s'" using clear_usable_fields [of mm s3] i(3) by (simp_all add: s5_def s3_def)
  have "bitmap_frames (bitmap s' - hhdm) (bitmap_bytes s') \<subseteq> usable_set mm" using bitmap_frames_usable [OF mm P] i(3,4) by simp
  then have off: "x \<notin> bitmap_range s'" using pmm_init_bitmap_frame [OF mm init, of x] x by blast
  have ne: "x \<noteq> bitmap s' + j div 8" if "j \<in> usable_set mm" for j
  proof -
    have "j < total_frames s'" using usable_set_bound [OF mm] that i(5) by (metis greaterThanLessThan_iff subsetD)
    then show ?thesis using off bitmap_byte_in_range [OF i(1), of j] by metis
  qed
  moreover have "j \<in> usable_set mm" if "j - ?P div 4096 < ?C" for j
    using bitmap_frames_usable [OF mm P] that unfolding bitmap_frames_def by blast
  ultimately have "mem (reserve_run (?P div 4096) 0 ?C s5) x = mem s5 x" using R unfolding b by metis
  then have "mem s' x = mem s5 x" by (simp add: s')
  also have "mem s5 x = mem (clear_usable mm s3) x" by (simp add: s5_def)
  also have "\<dots> = mem s3 x" using C ne unfolding b by metis
  also have "\<dots> = mem s x" using off i(3,4) by (simp add: s3_def memset_byte bitmap_range_def)
  finally show "mem s' x = mem s x" .
qed

subsection \<open>What \<open>buddy_init\<close> leaves alone\<close>

definition buddy_keeps :: "'a buddy_scheme \<Rightarrow> 'a buddy_scheme \<Rightarrow> bool" where
  "buddy_keeps s t \<longleftrightarrow> io_trace t = io_trace s \<and> device t = device s \<and> cr2 t = cr2 s \<and> cr3 t = cr3 s \<and> rsp t = rsp s \<and>
     tlb_flushes t = tlb_flushes s \<and> bitmap t = bitmap s \<and> bitmap_bytes t = bitmap_bytes s \<and> total_frames t = total_frames s \<and>
     paging_hhdm t = paging_hhdm s \<and> kernel_pml4 t = kernel_pml4 s \<and> buddy.more t = buddy.more s"

lemma buddy_keeps_refl [simp]: "buddy_keeps s s"
  by (simp add: buddy_keeps_def)

lemma buddy_keeps_trans: "buddy_keeps s t \<Longrightarrow> buddy_keeps t u \<Longrightarrow> buddy_keeps s u"
  by (simp add: buddy_keeps_def)

lemma list_push_keeps: "buddy_keeps s (list_push ord p s)"
  by (simp add: buddy_keeps_def list_push_def set_next_def set_prev_def Let_def)

lemma claim_frame_keeps: "buddy_keeps s (snd (pmm_claim_frame p s))"
  by (simp add: buddy_keeps_def pmm_claim_frame_def bit_set_def Let_def)

lemma seed_run_keeps: "seed_run f stop s = Some s' \<Longrightarrow> buddy_keeps s s'"
proof (rule seed_run.raw_induct [of "\<lambda>f stop s s'. buddy_keeps s s'"])
  fix g f stop s s'
  assume IH: "\<And>f stop s s'. g f stop s = Some s' \<Longrightarrow> buddy_keeps s s'"
    and eq: "(if f < stop then let order = seed_order BUDDY_MAX_ORDER f stop
        in g (f + push_bit order 1) stop (list_push order (f * PMM_FRAME_SIZE) s) else Some s) = Some s'"
  show "buddy_keeps s s'"
  proof (cases "f < stop")
    case True
    let ?o = "seed_order BUDDY_MAX_ORDER f stop"
    have "g (f + push_bit ?o 1) stop (list_push ?o (f * PMM_FRAME_SIZE) s) = Some s'" using eq True by (simp add: Let_def)
    from IH [OF this] show ?thesis by (rule buddy_keeps_trans [OF list_push_keeps])
  next
    case False
    then show ?thesis using eq by simp
  qed
qed

lemma claim_extend_keeps: "buddy_keeps s (snd (snd (claim_extend f stop c budget s)))"
proof (induction f stop c budget s rule: claim_extend.induct)
  case (1 f stop c budget s)
  obtain ok t where t: "pmm_claim_frame (f * PMM_FRAME_SIZE) s = (ok, t)" by fastforce
  have k: "buddy_keeps s t" using claim_frame_keeps [of s "f * PMM_FRAME_SIZE"] t by simp
  show ?case
    using "1.IH" [OF _ t [symmetric] refl] k buddy_keeps_trans [OF k]
    by (subst claim_extend.simps) (auto simp: t [unfolded PMM_FRAME_SIZE_def])
qed

lemma claim_region_keeps: "claim_region f stop c budget s = Some (c', s') \<Longrightarrow> buddy_keeps s s'"
proof (induction f stop c budget s arbitrary: c' s' rule: claim_region.induct)
  case (1 f stop c budget s)
  obtain ok t where t: "pmm_claim_frame (f * PMM_FRAME_SIZE) s = (ok, t)" by fastforce
  have k: "buddy_keeps s t" using claim_frame_keeps [of s "f * PMM_FRAME_SIZE"] t by simp
  note def = claim_region.simps [of f stop c budget s, unfolded t prod.case Let_def]
  show ?case
  proof (cases "f < stop \<and> c < budget")
    case False
    then show ?thesis using "1.prems" by (auto simp: def)
  next
    case go: True
    show ?thesis
    proof (cases ok)
      case False
      then have "claim_region (f + 1) stop c budget t = Some (c', s')" using "1.prems" go by (simp add: def)
      from "1.IH"(1) [OF go t [symmetric] refl _ this] False show ?thesis using buddy_keeps_trans [OF k] by blast
    next
      case True
      define r where "r = claim_extend (f + 1) stop (c + 1) budget t"
      have kr: "buddy_keeps t (snd (snd r))" unfolding r_def by (rule claim_extend_keeps)
      obtain s3 where s3: "seed_run f (fst r) (snd (snd r)) = Some s3" "claim_region (fst r) stop (fst (snd r)) budget s3 = Some (c', s')"
        using "1.prems" go True by (auto simp: def r_def split: option.splits)
      have "buddy_keeps s3 s'" using "1.IH"(2) [OF go t [symmetric] refl _ r_def s3] True by simp
      then show ?thesis using buddy_keeps_trans [OF buddy_keeps_trans [OF buddy_keeps_trans [OF k kr] seed_run_keeps [OF s3(1)]]] by simp
    qed
  qed
qed

lemma claim_regions_keeps: "claim_regions mm c budget s = Some s' \<Longrightarrow> buddy_keeps s s'"
proof (induction mm c budget s rule: claim_regions.induct)
  case (2 e es c budget s)
  then show ?case
    using claim_region_keeps buddy_keeps_trans by (auto simp: Let_def split: if_splits option.splits prod.splits) blast
qed simp

lemma buddy_init_keeps:
  assumes "buddy_init mm h n s = Some s'"
  shows "buddy_keeps s s'"
proof -
  let ?s = "s\<lparr>buddy_hhdm := h, free_list := replicate (BUDDY_MAX_ORDER + 1) 0, free_count := replicate (BUDDY_MAX_ORDER + 1) 0\<rparr>"
  have "buddy_keeps s ?s" by (simp add: buddy_keeps_def)
  moreover have "buddy_keeps ?s s'" using assms claim_regions_keeps unfolding buddy_init_def Let_def by blast
  ultimately show ?thesis by (rule buddy_keeps_trans)
qed

subsection \<open>The managers together\<close>

lemma pt_inv_frame:
  assumes inv: "pt_inv U T root s" and pmm: "pmm_inv U t"
    and same: "total_frames t = total_frames s" "paging_hhdm t = paging_hhdm s" "bitmap_range t = bitmap_range s" "free_set t \<subseteq> free_set s"
    and mem: "\<And>x. dm_frame (paging_hhdm s) x \<in> frame_of ` T \<Longrightarrow> mem t x = mem s x"
  shows "pt_inv U T root t" and "paging_translate root v t = paging_translate root v s"
proof -
  note i = pt_invD [OF inv]
  have eq: "mem t x = mem s x" if "a \<in> T" "page x = page (a + paging_hhdm s)" for a x
  proof (rule mem)
    have "dm_frame (paging_hhdm s) x = frame_of a"
      using dm_frame_page [OF treeD(2) [OF i(4) that(1)] i(8) that(2)] by (simp add: frame_of_def)
    then show "dm_frame (paging_hhdm s) x \<in> frame_of ` T" using that(1) by simp
  qed
  have "tree (mem t) (paging_hhdm s) root T" by (rule tree_cong [OF i(4) eq])
  moreover have "frame_of ` T \<subseteq> unat ` (U - free_set t)" using i(5) same(4) by blast
  moreover have "\<forall>x \<in> bitmap_range s. dm_frame (paging_hhdm s) x \<notin> unat ` free_set t \<union> frame_of ` T" using i(6,7) same(4) by blast
  ultimately show t: "pt_inv U T root t" using i(2,3) pmm by (simp add: pt_inv_def same)
  have "tbl (mem t) (paging_hhdm s) root 4 v = tbl (mem s) (paging_hhdm s) root 4 v" by (rule tbl_cong [OF i(4) eq]) simp_all
  then show "paging_translate root v t = paging_translate root v s"
    unfolding translate_translation [OF inv] translate_translation [OF t] same(2) translation_def by simp
qed

lemma boot_space_cong: "(\<And>w. vmm_translate w t = vmm_translate w s) \<Longrightarrow> boot_space img k mm h t = boot_space img k mm h s"
  by (simp add: boot_space_def)

text \<open>
  The state the memory managers are in when the kernel runs: the CPU is on the kernel's own page
  tables; the frames the frame allocator still holds, those of the page tables and those of the heap
  are usable memory and pairwise disjoint; the heap is sound and empty.
\<close>

definition memory_up :: "kernel_image \<Rightarrow> kernel_address \<Rightarrow> memmap_entry list \<Rightarrow> u64 \<Rightarrow> 'a slab_scheme \<Rightarrow> bool" where
  "memory_up img k mm h s \<longleftrightarrow> cr3 s = kernel_pml4 s \<and> boot_space img k mm h s \<and> paging_hhdm s = h \<and> slab_hhdm s = h \<and>
     (\<forall>x \<in> bitmap_range s. dm_frame h x \<in> unat ` usable_set mm) \<and>
     (\<exists>T F. pt_inv (usable_set mm) T (kernel_pml4 s) s \<and> heap_inv (unat (total_frames s)) F {} s \<and>
        F \<subseteq> unat ` (usable_set mm - free_set s) \<and> F \<inter> frame_of ` T = {})"

text \<open>The variables the managers' state is made of, besides memory.\<close>

definition mm_same :: "'a slab_scheme \<Rightarrow> 'a slab_scheme \<Rightarrow> bool" where
  "mm_same s t \<longleftrightarrow> cr3 t = cr3 s \<and> bitmap t = bitmap s \<and> bitmap_bytes t = bitmap_bytes s \<and> total_frames t = total_frames s \<and>
     usable_frames t = usable_frames s \<and> free_frames t = free_frames s \<and> next_hint t = next_hint s \<and>
     paging_hhdm t = paging_hhdm s \<and> kernel_pml4 t = kernel_pml4 s \<and> free_list t = free_list s \<and> free_count t = free_count s \<and>
     buddy_hhdm t = buddy_hhdm s \<and> caches t = caches s \<and> slab_hhdm t = slab_hhdm s \<and> caches_addr t = caches_addr s"

lemma pmm_inv_same:
  assumes inv: "pmm_inv U s" and same: "bitmap t = bitmap s" "bitmap_bytes t = bitmap_bytes s" "total_frames t = total_frames s"
      "usable_frames t = usable_frames s" "free_frames t = free_frames s" "next_hint t = next_hint s"
    and mem: "\<And>x. x \<in> bitmap_range s \<Longrightarrow> mem t x = mem s x"
  shows "pmm_inv U t" and "free_set t = free_set s" and "bitmap_range t = bitmap_range s"
proof -
  have "bit_test i t = bit_test i s" if "i < total_frames s" for i
    using mem [OF bitmap_byte_in_range [OF inv that]] by (simp add: bit_test_alt same)
  then show f: "free_set t = free_set s" by (auto simp: free_set_def same)
  then show "pmm_inv U t" using inv by (simp add: pmm_inv_def same)
  show "bitmap_range t = bitmap_range s" by (simp add: bitmap_range_def same)
qed

text \<open>Writing outside the usable frames, as the console does, leaves it up.\<close>

lemma memory_up_frame:
  assumes up: "memory_up img k mm h s" and same: "mm_same s t"
    and mem: "\<And>x. dm_frame h x \<in> unat ` usable_set mm \<Longrightarrow> mem t x = mem s x"
  shows "memory_up img k mm h t"
proof -
  obtain T F where T: "pt_inv (usable_set mm) T (kernel_pml4 s) s" and F: "heap_inv (unat (total_frames s)) F {} s"
    "F \<subseteq> unat ` (usable_set mm - free_set s)" "F \<inter> frame_of ` T = {}" and h: "paging_hhdm s = h" "slab_hhdm s = h"
    and c: "cr3 s = kernel_pml4 s" "boot_space img k mm h s" and bm: "\<And>x. x \<in> bitmap_range s \<Longrightarrow> dm_frame h x \<in> unat ` usable_set mm"
    using up by (auto simp: memory_up_def)
  note i = pt_invD [OF T]
  have P: "pmm_inv (usable_set mm) t" "free_set t = free_set s" "bitmap_range t = bitmap_range s"
    using pmm_inv_same [OF i(1), of t] same mem bm by (simp_all add: mm_same_def)
  have TU: "mem t x = mem s x" if "dm_frame (paging_hhdm s) x \<in> frame_of ` T" for x using that i(5) h mem by blast
  have "free_set t \<subseteq> free_set s" "total_frames t = total_frames s" "paging_hhdm t = paging_hhdm s" using P(2) same by (simp_all add: mm_same_def)
  note pt = pt_inv_frame [OF T P(1) this(2,3) P(3) this(1) TU]
  have "vmm_translate w t = vmm_translate w s" for w using pt(2) same by (simp add: vmm_translate_def mm_same_def)
  then have "boot_space img k mm h t" using boot_space_cong c(2) by blast
  moreover have "heap_inv (unat (total_frames s)) F {} t"
    using same F(2) h mem by (intro heap_inv_frame [OF F(1)]) (auto simp: mm_same_def)
  ultimately show ?thesis unfolding memory_up_def using pt(1) F(2,3) c h P(2,3) bm same by (auto simp: mm_same_def)
qed

text \<open>The frame allocator's bitmap stays in usable frames until the page tables are up.\<close>

lemma pmm_up:
  assumes mm: "limine_memmap mm" and init: "pmm_init mm h s = Inr s'"
  shows "pmm_inv (usable_set mm) s'" and "total_frames s' = init_total mm"
    and "x \<in> bitmap_range s' \<Longrightarrow> dm_frame h x \<notin> unat ` free_set s' \<and> dm_frame h x \<in> unat ` usable_set mm"
proof -
  note i = pmm_init_spec [OF mm init]
  have "bitmap_region mm (init_bytes mm) \<noteq> 0" using init by (auto simp: pmm_init_def Let_def init_bytes_def init_total_def)
  then have "bitmap_frames (bitmap s' - h) (bitmap_bytes s') \<subseteq> usable_set mm" using bitmap_frames_usable [OF mm] i(3,4) by simp
  then show "x \<in> bitmap_range s' \<Longrightarrow> dm_frame h x \<notin> unat ` free_set s' \<and> dm_frame h x \<in> unat ` usable_set mm"
    using pmm_init_bitmap_frame [OF mm init] pmm_init_bitmap_off [OF mm init] by blast
qed (fact pmm_init_spec(1) [OF mm init], fact pmm_init_spec(5) [OF mm init])

text \<open>From the page tables to the heap. The prints in between only add to the bus history.\<close>

lemma heap_up:
  assumes mm: "limine_memmap mm" and T: "pt_inv (usable_set mm) T (kernel_pml4 s) s" and h: "paging_hhdm s = h"
    and c: "cr3 s = kernel_pml4 s" "boot_space img k mm h s"
    and bm: "\<And>x. x \<in> bitmap_range s \<Longrightarrow> dm_frame h x \<in> unat ` usable_set mm"
  shows "\<exists>t. buddy_init mm h n s = Some t \<and> buddy_keeps s t \<and> bitmap_range t = bitmap_range s \<and>
    (\<forall>x. dm_frame h x \<notin> unat ` usable_set mm \<longrightarrow> mem t x = mem s x) \<and> (\<forall>tr. memory_up img k mm h (slab_init h (t\<lparr>io_trace := tr\<rparr>)))"
proof -
  let ?U = "usable_set mm" and ?N = "unat (total_frames s)"
  note i = pt_invD [OF T, unfolded h]
  have off: "\<forall>x \<in> bitmap_range s. dm_frame h x \<notin> unat ` free_set s" using i(6) by blast
  obtain t B where t: "buddy_init mm h n s = Some t" "mm_inv ?N ?U B t" "frames_of B = unat ` (free_set s - free_set t)"
    "free_set t \<subseteq> free_set s" "card (free_set t) = min (card (free_set s)) (unat n)"
    "\<And>x. x \<notin> bitmap_range s \<Longrightarrow> dm_frame h x \<notin> unat ` free_set s \<Longrightarrow> mem t x = mem s x" "buddy_hhdm t = h"
    by (rule buddy_init_spec [OF mm i(1) i(3) order_refl off, of n]) (rule that, simp_all)
  note keeps = buddy_init_keeps [OF t(1)] and m = mm_invD [OF t(2)]
  have k: "total_frames t = total_frames s" "paging_hhdm t = paging_hhdm s" "kernel_pml4 t = kernel_pml4 s" "cr3 t = cr3 s" "bitmap_range t = bitmap_range s"
    using keeps by (simp_all add: buddy_keeps_def bitmap_range_def)
  have TU: "mem t x = mem s x" if "dm_frame (paging_hhdm s) x \<in> frame_of ` T" for x
    using that i(5,7) h by (intro t(6)) (fastforce simp: word_unat_eq_iff [symmetric])+
  note pt = pt_inv_frame [OF T m(1) k(1,2,5) t(4) TU]
  have fU: "free_set s \<subseteq> ?U" using i(1) by (simp add: pmm_inv_def)
  then have out: "mem t x = mem s x" if "dm_frame h x \<notin> unat ` ?U" for x using that bm [of x] by (intro t(6)) blast+
  have "vmm_translate w t = vmm_translate w s" for w using pt(2) k(3) by (simp add: vmm_translate_def)
  then have bs: "boot_space img k mm h t" using boot_space_cong c(2) by blast
  have F: "frames_of B \<subseteq> unat ` (?U - free_set t)" "frames_of B \<inter> frame_of ` T = {}"
    using t(3) fU i(5) by (auto simp: word_unat_eq_iff [symmetric])
  have "memory_up img k mm h (slab_init h (t\<lparr>io_trace := tr\<rparr>))" for tr
  proof -
    let ?w = "slab_init h (t\<lparr>io_trace := tr\<rparr>)"
    have "buddy_inv ?N B (t\<lparr>io_trace := tr\<rparr>)" by (rule buddy_inv_frame [OF m(2)]) simp_all
    from heap_slab_init [OF this] have heap: "heap_inv ?N (frames_of B) {} ?w" using t(7) by simp
    have w: "cr3 ?w = cr3 t" "kernel_pml4 ?w = kernel_pml4 t" "paging_hhdm ?w = paging_hhdm t" "slab_hhdm ?w = h" "total_frames ?w = total_frames t"
      "mem ?w = mem t" by (simp_all add: slab_init_def)
    have P: "pmm_inv ?U ?w" "free_set ?w = free_set t" "bitmap_range ?w = bitmap_range t"
      using pmm_inv_same [OF m(1), of ?w] by (simp_all add: slab_init_def)
    have "pt_inv ?U T (kernel_pml4 ?w) ?w" and "paging_translate (kernel_pml4 ?w) v ?w = paging_translate (kernel_pml4 t) v t" for v
      using pt_inv_frame [OF pt(1) P(1)] P w k by simp_all
    moreover from this(2) have "boot_space img k mm h ?w" using boot_space_cong [of ?w t] bs by (simp add: vmm_translate_def)
    ultimately show ?thesis unfolding memory_up_def using heap F P(2,3) w c(1) h k bm by auto
  qed
  then show ?thesis using t(1) keeps k(5) out by blast
qed

end
