(* ===== verification/Kernel.thy ===== *)
theory Kernel
  imports Keyboard Boot
begin

text \<open>
  The entry point of \<^verbatim>\<open>kernel.c\<close>: the order in which the parts are brought up, what is printed on the
  way, and the error halts. The responses of the boot loader are the argument \<open>boot_info\<close>; \<open>None\<close>
  stands for a null response.
\<close>

record limine_framebuffer =
  lfb_address :: u64
  lfb_width :: u64
  lfb_height :: u64
  lfb_pitch :: u64
  lfb_bpp :: u16

record boot_info =
  limine_base_revision :: u64
  framebuffer_response :: "limine_framebuffer list option"
  memmap_response :: "memmap_entry list option"
  hhdm_response :: "u64 option"
  executable_address_response :: "kernel_address option"
  kernel_symbols :: kernel_image

subsection \<open>Operations\<close>

text \<open>\<^verbatim>\<open>cli\<close>, then \<^verbatim>\<open>hlt\<close> for ever.\<close>

definition hcf :: "string \<Rightarrow> 'a arch_scheme \<Rightarrow> ('a arch_scheme) outcome" where
  "hcf why s = Some (Inl (KernelHalt why, s\<lparr>if_flag := False\<rparr>))"

definition kprint :: "string \<Rightarrow> 'a console_scheme \<Rightarrow> 'a console_scheme option" where
  "kprint cs s = Option.bind (serial_write cs s) (\<lambda>s. Some (console_write cs s))"

definition print_buddy_stats :: "string \<Rightarrow> 'a buddy_scheme \<Rightarrow> 'a buddy_scheme option" where
  "print_buddy_stats label s =
     (let (counts, total) = buddy_get_stats s
      in run_all ([serial_write label, serial_write nl] @
           concat (map (\<lambda>ord. [serial_write ''    order '', put_dec (of_nat ord), serial_write '' ('',
                              put_dec (ucast (push_bit ord (4096 :: u32) div 1024)), serial_write '' KiB): '',
                              put_dec (counts ! ord), serial_write ('' free'' @ nl)]) [0..<BUDDY_MAX_ORDER + 1]) @
           [serial_write ''    total free: '', put_dec (total div (1024 * 1024)), serial_write ('' MiB'' @ nl)]) s)"

definition print_slab_stats :: "string \<Rightarrow> 'a slab_scheme \<Rightarrow> 'a slab_scheme option" where
  "print_slab_stats label s =
     (let st = slab_get_stats s
      in run_all ([serial_write label, serial_write nl] @
           concat (map (\<lambda>i. [serial_write ''    class '', put_dec (st_obj_size (st ! i)), serial_write ''B: slabs '',
                            put_dec (st_slab_count (st ! i)), serial_write '', slots '', put_dec (st_total_slots (st ! i)),
                            serial_write '' ('', put_dec (st_free_slots (st ! i)), serial_write '' free), in use '',
                            put_dec (st_bytes_in_use (st ! i)), serial_write ('' B'' @ nl)]) [0..<SLAB_NUM_CLASSES])) s)"

text \<open>An error line and the halt.\<close>

definition die :: "string \<Rightarrow> 'a arch_scheme \<Rightarrow> ('a arch_scheme) outcome" where
  "die why s = Option.bind (serial_write (why @ nl) s) (hcf why)"

definition print_pmm_summary :: "'a pmm_scheme \<Rightarrow> 'a pmm_scheme option" where
  "print_pmm_summary s =
     (let (total, used, free) = pmm_get_stats s
      in run_all [serial_write (''ScrapOS: pmm up '' @ [CHR 0xE2, CHR 0x80, CHR 0x94] @ '' usable ''),
                  put_dec (total * PMM_FRAME_SIZE div (1024 * 1024)), serial_write '' MiB ('', put_dec total,
                  serial_write '' frames), free '', put_dec free, serial_write ('' frames'' @ nl)] s)"

text \<open>The last part of \<open>kmain\<close>: the heap, then interrupts; \<open>Inr\<close> is the state in which it idles.\<close>

definition kmain_live :: "memmap_entry list \<Rightarrow> u64 \<Rightarrow> 'a timer_scheme \<Rightarrow> ('a timer_scheme) outcome" where
  "kmain_live memmap offset s =
     Option.bind (buddy_init memmap offset BUDDY_PMM_RESERVE_FRAMES s) (\<lambda>s.
     Option.bind (serial_write (''ScrapOS: buddy up'' @ nl) s) (\<lambda>s.
     Option.bind (print_buddy_stats ''ScrapOS: buddy free lists:'' s) (\<lambda>s.
     let s = slab_init offset s
     in Option.bind (serial_write (''ScrapOS: slab up'' @ nl) s) (\<lambda>s.
        Option.bind (print_slab_stats ''ScrapOS: slab caches (empty):'' s) (\<lambda>s.
        let s = arch_enable_irqs s
        in map_option Inr (kprint (''ScrapOS: interrupts enabled - idling, type to echo'' @ nl) s))))))"

definition kmain_memory :: "boot_info \<Rightarrow> 'a timer_scheme \<Rightarrow> ('a timer_scheme) outcome" where
  "kmain_memory b s =
     (case memmap_response b of None \<Rightarrow> die ''error: no memory map provided'' s
      | Some memmap \<Rightarrow>
     (case hhdm_response b of None \<Rightarrow> die ''error: no HHDM offset provided'' s
      | Some offset \<Rightarrow>
     (case pmm_init memmap offset s of Inl e \<Rightarrow> Some (Inl (e, s))
      | Inr s \<Rightarrow>
        Option.bind (print_pmm_summary s) (\<lambda>s.
        case executable_address_response b of None \<Rightarrow> die ''error: no kernel-address info provided'' s
        | Some kaddr \<Rightarrow> and_then (vmm_init (kernel_symbols b) kaddr memmap offset s) (kmain_live memmap offset)))))"

definition kmain :: "boot_info \<Rightarrow> 'a timer_scheme \<Rightarrow> ('a timer_scheme) outcome" where
  "kmain b s =
     (let s = serial_init s
      in Option.bind (serial_write (''ScrapOS booted'' @ nl) s) (\<lambda>s.
         if limine_base_revision b \<noteq> 0 then die ''error: Limine base revision unsupported'' s
         else case framebuffer_response b of
             None \<Rightarrow> die ''error: no framebuffer provided'' s
           | Some [] \<Rightarrow> die ''error: no framebuffer provided'' s
           | Some (fb # _) \<Rightarrow>
             Option.bind (console_init (lfb_address fb) (ucast (lfb_width fb)) (ucast (lfb_height fb)) (ucast (lfb_pitch fb)) (lfb_bpp fb) s) (\<lambda>s.
             let s = console_write (''ScrapOS'' @ nl) s;
                 s = console_write (''framebuffer text console up - type and it echoes here'' @ nl @ nl) s
             in Option.bind (serial_write (''ScrapOS: framebuffer console up'' @ nl) s) (\<lambda>s.
             let s = arch_init s
             in Option.bind (kprint (''ScrapOS: arch initialised (GDT, IDT, PIC, IRQs)'' @ nl) s) (\<lambda>s.
             case timer_init 100 s of Inl e \<Rightarrow> Some (Inl e)
             | Inr s \<Rightarrow>
             let s = keyboard_init s
             in Option.bind (kprint (''ScrapOS: timer + keyboard handlers installed'' @ nl) s) (kmain_memory b))))))"

text \<open>The handlers \<^verbatim>\<open>irq.c\<close> calls through its table.\<close>

definition run_handler :: "irq_handler_t \<Rightarrow> 'a timer_scheme \<Rightarrow> 'a timer_scheme option" where
  "run_handler g s = (case g of Timer_irq \<Rightarrow> timer_irq s | Keyboard_irq \<Rightarrow> keyboard_irq s)"

subsection \<open>The layers of the machine's state\<close>

text \<open>An operation of a lower layer leaves the fields of the layers above alone.\<close>

definition console_same :: "'a console_scheme \<Rightarrow> 'a console_scheme \<Rightarrow> bool" where
  "console_same s t \<longleftrightarrow> fb_base t = fb_base s \<and> fb_width t = fb_width s \<and> fb_height t = fb_height s \<and> fb_pitch t = fb_pitch s \<and>
     fb_bytes_pp t = fb_bytes_pp s \<and> glyph_data t = glyph_data s \<and> glyph_count t = glyph_count s \<and> glyph_w t = glyph_w s \<and>
     glyph_h t = glyph_h s \<and> glyph_bytes t = glyph_bytes s \<and> gw_bytes t = gw_bytes s \<and> cols t = cols s \<and> rows t = rows s \<and>
     cur_col t = cur_col s \<and> cur_row t = cur_row s \<and> ready t = ready s \<and> font_psf t = font_psf s"

lemma arch_more_fields: "arch.more t = arch.more s \<Longrightarrow> console_same s t" for s t :: "'a console_scheme"
  by (cases s; cases t) (simp add: console_same_def)

lemma console_more_fields: "arch.more t = arch.more s \<Longrightarrow> ticks t = ticks s \<and> tick_hz t = tick_hz s" for s t :: "'a timer_scheme"
  by (cases s; cases t) simp

lemma slab_more_fields: "slab.more t = slab.more s \<Longrightarrow> handlers t = handlers s \<and> if_flag t = if_flag s \<and> arch.more t = arch.more s" for s t :: "'a arch_scheme"
  by (cases s; cases t) simp

lemma buddy_more_fields: "buddy.more t = buddy.more s \<Longrightarrow> slab.more t = slab.more s \<and> caches_addr t = caches_addr s" for s t :: "'a slab_scheme"
  by (cases s; cases t) simp

lemma pmm_more_fields: "pmm.more t = pmm.more s \<Longrightarrow> buddy.more t = buddy.more s" for s t :: "'a buddy_scheme"
  by (cases s; cases t) simp

subsection \<open>The screen and the rest of the machine\<close>

definition screen_bytes :: "'a console_scheme \<Rightarrow> u64 set" where
  "screen_bytes s = fb_bytes s \<union> {a. \<exists>ch r cx. unat r < unat (glyph_h s) \<and> unat cx < unat (glyph_w s) \<and> a = glyph_addr s (glyph_code s ch) r cx}"

lemma console_same_derived:
  assumes "console_same s t"
  shows "fb_bytes t = fb_bytes s" "glyph_addr t = glyph_addr s" "glyph_code t = glyph_code s" "pixel_addr t = pixel_addr s"
    "fb_ok t = fb_ok s" "screen_bytes t = screen_bytes s"
proof -
  show d: "fb_bytes t = fb_bytes s" "glyph_addr t = glyph_addr s" "glyph_code t = glyph_code s" "pixel_addr t = pixel_addr s"
    using assms by (auto simp: console_same_def fb_bytes_def glyph_addr_def glyph_code_def pixel_addr_def fun_eq_iff)
  show "fb_ok t = fb_ok s" using assms unfolding fb_ok_def d by (simp add: console_same_def)
  show "screen_bytes t = screen_bytes s" using assms unfolding screen_bytes_def d by (simp add: console_same_def)
qed

lemma glyph_pix_frame:
  assumes "console_same s t" and "\<And>a. a \<in> screen_bytes s \<Longrightarrow> mem t a = mem s a" and "i < unat (glyph_h s)" and "j < unat (glyph_w s)"
  shows "glyph_pix t ch i j = glyph_pix s ch i j"
proof -
  let ?a = "glyph_addr s (glyph_code s ch) (of_nat i) (of_nat j)"
  have "unat (of_nat i :: u32) < unat (glyph_h s)" "unat (of_nat j :: u32) < unat (glyph_w s)"
    using assms(3,4) unat_small32 [OF assms(3)] unat_small32 [OF assms(4)] by simp_all
  then have "?a \<in> screen_bytes s" unfolding screen_bytes_def by blast
  then have "mem t ?a = mem s ?a" by (rule assms(2))
  then show ?thesis
    using assms(1) console_same_derived(3) [OF assms(1)] by (simp add: glyph_pix_def glyph_bit_def glyph_addr_def Let_def console_same_def)
qed

lemma blank_font_frame:
  assumes "console_same s t" and "\<And>a. a \<in> screen_bytes s \<Longrightarrow> mem t a = mem s a"
  shows "blank_font t = blank_font s"
  using glyph_pix_frame [OF assms] assms(1) by (auto simp: blank_font_def console_same_def)

text \<open>The terminal stays on the screen when its memory is left alone.\<close>

lemma displays_frame:
  assumes D: "displays s T" and same: "console_same s t" and mem: "\<And>a. a \<in> screen_bytes s \<Longrightarrow> mem t a = mem s a"
  shows "displays t T"
proof -
  have ok: "fb_ok s" using D by (simp add: displays_def)
  have pix: "pixel t x y = pixel s x y" if "x < unat (fb_width s)" "y < unat (fb_height s)" for x y
    unfolding pixel_def console_same_derived(4) [OF same] load32_def
  proof (rule load_le_cong)
    fix i :: nat assume "i < 4"
    then have "unat (of_nat i :: u64) < 4" by (simp add: unat_of_nat64)
    then have "pixel_addr s x y + of_nat i \<in> fb_bytes s" using pixel_bytes [OF ok that, of "pixel_addr s x y + of_nat i"] by simp
    then show "mem t (pixel_addr s x y + of_nat i) = mem s (pixel_addr s x y + of_nat i)" by (intro mem) (simp add: screen_bytes_def)
  qed
  have cell: "cell_pix t v i j = cell_pix s v i j" if "i < unat (glyph_h s)" "j < unat (glyph_w s)" for v i j
    using glyph_pix_frame [OF same mem that] same by (simp add: cell_pix_def console_same_def)
  have f: "glyph_h t = glyph_h s" "glyph_w t = glyph_w s" "cols t = cols s" "rows t = rows s" "cur_col t = cur_col s" "cur_row t = cur_row s" "ready t = ready s"
    using same by (simp_all add: console_same_def)
  show ?thesis
    using D cell_inside [OF ok] blank_font_frame [OF same mem] console_same_derived(5) [OF same]
    by (simp add: displays_def cursor_at_def f pix cell)
qed

lemma displays_ok: "displays s T \<Longrightarrow> fb_ok s"
  by (simp add: displays_def)

lemma screen_kept_frame:
  assumes "console_same s t" and "\<And>a. a \<in> screen_bytes s \<Longrightarrow> mem t a = mem s a"
  shows "screen_kept s t"
proof -
  have "mem t (glyph_addr s (glyph_code s ch) r cx) = mem s (glyph_addr s (glyph_code s ch) r cx)"
    if "unat r < unat (glyph_h s)" "unat cx < unat (glyph_w s)" for ch r cx
    by (rule assms(2)) (use that in \<open>auto simp: screen_bytes_def\<close>)
  then show ?thesis using assms(1) by (simp add: screen_kept_def console_same_def)
qed

text \<open>Output: characters sent, pixels drawn, the cursor moved, and nothing else.\<close>

definition emits :: "'a console_scheme \<Rightarrow> 'a console_scheme \<Rightarrow> bool" where
  "emits s t \<longleftrightarrow> (\<exists>m tr c r. t = s\<lparr>mem := m, io_trace := tr, cur_col := c, cur_row := r\<rparr> \<and> serial_only (io_trace s) tr \<and>
     (\<forall>a. a \<notin> fb_bytes s \<longrightarrow> m a = mem s a))"

lemma emits_touches: "touches s t \<Longrightarrow> emits s t"
proof -
  assume "touches s t"
  then obtain m c r where t: "t = s\<lparr>mem := m, cur_col := c, cur_row := r\<rparr>" "\<forall>a. a \<notin> fb_bytes s \<longrightarrow> m a = mem s a"
    by (auto simp: touches_def)
  then have "t = s\<lparr>mem := m, io_trace := io_trace s, cur_col := c, cur_row := r\<rparr>" by simp
  then show ?thesis unfolding emits_def using t(2) serial_only_refl by blast
qed

lemma emits_sends: "sends x s t \<Longrightarrow> emits s t"
proof -
  assume s: "sends x s t"
  then have "t = s\<lparr>mem := mem s, io_trace := io_trace t, cur_col := cur_col s, cur_row := cur_row s\<rparr>" by (auto simp: sends_def)
  then show ?thesis unfolding emits_def using sends_serial_only [OF s] by blast
qed

lemma emits_trans:
  assumes "emits s t" and "emits t u"
  shows "emits s u"
proof -
  obtain m tr c r where t: "t = s\<lparr>mem := m, io_trace := tr, cur_col := c, cur_row := r\<rparr>" "serial_only (io_trace s) tr"
    "\<And>a. a \<notin> fb_bytes s \<Longrightarrow> m a = mem s a" using assms(1) by (auto simp: emits_def)
  obtain m' tr' c' r' where u: "u = t\<lparr>mem := m', io_trace := tr', cur_col := c', cur_row := r'\<rparr>" "serial_only (io_trace t) tr'"
    "\<And>a. a \<notin> fb_bytes t \<Longrightarrow> m' a = mem t a" using assms(2) by (auto simp: emits_def)
  have "u = s\<lparr>mem := m', io_trace := tr', cur_col := c', cur_row := r'\<rparr>" by (simp add: t u)
  moreover have "serial_only (io_trace s) tr'" using serial_only_trans [OF t(2)] u(2) by (simp add: t(1))
  moreover have "m' a = mem s a" if "a \<notin> fb_bytes s" for a
    using that t(3) u(3) [of a] by (simp add: t(1) fb_bytes_def)
  ultimately show ?thesis unfolding emits_def by blast
qed

lemma kprint_step:
  assumes "displays s T" and "uart_live (device s)"
  shows "\<exists>t. kprint cs s = Some t \<and> displays t (term_write cs T) \<and> emits s t"
proof -
  obtain u where u: "serial_write cs s = Some u" "sends (crlf cs) s u" using printsD [OF prints_write assms(2)] by blast
  have "displays u T" using displays_sends [OF u(2)] assms(1) by simp
  note w = console_write_step [OF this, of cs]
  show ?thesis using u w emits_trans [OF emits_sends [OF u(2)] emits_touches] by (auto simp: kprint_def)
qed

lemma prints_step:
  assumes "prints f x" and "displays s T" and "uart_live (device s)"
  shows "\<exists>t. f s = Some t \<and> displays t T \<and> emits s t"
  using printsD [OF assms(1,3)] displays_sends assms(2) emits_sends by blast

text \<open>What output keeps.\<close>

lemma emits_keeps:
  assumes "emits s t"
  shows "device t = device s" "rsp t = rsp s" "handlers t = handlers s" "if_flag t = if_flag s" "mm_same s t" "fb_bytes t = fb_bytes s"
    "screen_bytes t = screen_bytes s" "pic_view (io_trace t) = pic_view (io_trace s)" "a \<notin> fb_bytes s \<Longrightarrow> mem t a = mem s a"
proof -
  obtain m tr c r where t: "t = s\<lparr>mem := m, io_trace := tr, cur_col := c, cur_row := r\<rparr>" "serial_only (io_trace s) tr"
    "\<And>a. a \<notin> fb_bytes s \<Longrightarrow> m a = mem s a" using assms by (auto simp: emits_def)
  show "device t = device s" "rsp t = rsp s" "handlers t = handlers s" "if_flag t = if_flag s" "mm_same s t" "a \<notin> fb_bytes s \<Longrightarrow> mem t a = mem s a"
    using t(3) by (simp_all add: t(1) mm_same_def)
  show fb: "fb_bytes t = fb_bytes s" by (simp add: t(1) fb_bytes_def)
  have "glyph_addr t = glyph_addr s" "glyph_code t = glyph_code s" "glyph_h t = glyph_h s" "glyph_w t = glyph_w s"
    by (auto simp: t(1) glyph_addr_def glyph_code_def fun_eq_iff)
  then show "screen_bytes t = screen_bytes s" unfolding screen_bytes_def fb by simp
  show "pic_view (io_trace t) = pic_view (io_trace s)" using serial_only_pic [OF t(2)] by (simp add: t(1))
qed

lemma emits_timer: "emits s t \<Longrightarrow> ticks t = ticks s \<and> tick_hz t = tick_hz s" for s t :: "'a timer_scheme"
  by (auto simp: emits_def)

lemma emits_screen: "fb_ok s \<Longrightarrow> emits s t \<Longrightarrow> screen_kept s t"
  using fb_okD(10) [of s] by (auto simp: emits_def screen_kept_def)

text \<open>The statistics are sequences of prints.\<close>

lemma prints_all:
  assumes "\<And>f. f \<in> set fs \<Longrightarrow> \<exists>x. prints f x"
  shows "\<exists>y. prints (run_all fs) y"
  using assms
proof (induction fs)
  case (Cons f fs)
  then obtain x y where "prints f x" "prints (run_all fs) y" by fastforce
  then show ?case using prints_cons by blast
qed (use prints_nil in blast)

end
