(* ===== verification/Kernel_Boot.thy ===== *)
theory Kernel_Boot
  imports Kernel
begin

text \<open>
  The contract of \<open>kmain\<close>: with the boot loader's responses in place it reaches its idle loop with
  everything up at once, or halts for one of the reasons the parts document; with a response missing
  it says which one and halts.
\<close>

lemma fb_in_screen: "x \<in> fb_bytes s \<Longrightarrow> x \<in> screen_bytes s"
  by (simp add: screen_bytes_def)

lemma serial_step:
  assumes "displays s T" and "uart_live (device s)"
  shows "\<exists>t. serial_write cs s = Some t \<and> displays t T \<and> emits s t"
  by (rule prints_step [OF prints_write assms])

lemma print_buddy_stats_step:
  assumes "displays s T" and "uart_live (device s)"
  shows "\<exists>t. print_buddy_stats label s = Some t \<and> displays t T \<and> emits s t"
proof -
  obtain counts total where st: "buddy_get_stats s = (counts, total)" by fastforce
  have "\<exists>y. prints (run_all ([serial_write label, serial_write nl] @
           concat (map (\<lambda>ord. [serial_write ''    order '', put_dec (of_nat ord), serial_write '' ('',
                              put_dec (ucast (push_bit ord (4096 :: u32) div 1024)), serial_write '' KiB): '',
                              put_dec (counts ! ord), serial_write ('' free'' @ nl)]) [0..<BUDDY_MAX_ORDER + 1]) @
           [serial_write ''    total free: '', put_dec (total div (1024 * 1024)), serial_write ('' MiB'' @ nl)]) :: 'a console_scheme \<Rightarrow> _) y"
    by (rule prints_all) (auto intro: prints_write prints_dec)
  then show ?thesis using prints_step [OF _ assms] unfolding print_buddy_stats_def st Let_def prod.case by blast
qed

lemma print_slab_stats_step:
  assumes "displays s T" and "uart_live (device s)"
  shows "\<exists>t. print_slab_stats label s = Some t \<and> displays t T \<and> emits s t"
proof -
  define st where "st = slab_get_stats s"
  have "\<exists>y. prints (run_all ([serial_write label, serial_write nl] @
           concat (map (\<lambda>i. [serial_write ''    class '', put_dec (st_obj_size (st ! i)), serial_write ''B: slabs '',
                            put_dec (st_slab_count (st ! i)), serial_write '', slots '', put_dec (st_total_slots (st ! i)),
                            serial_write '' ('', put_dec (st_free_slots (st ! i)), serial_write '' free), in use '',
                            put_dec (st_bytes_in_use (st ! i)), serial_write ('' B'' @ nl)]) [0..<SLAB_NUM_CLASSES])) :: 'a console_scheme \<Rightarrow> _) y"
    by (rule prints_all) (auto intro: prints_write prints_dec)
  then show ?thesis using prints_step [OF _ assms] unfolding print_slab_stats_def st_def Let_def by blast
qed

lemma print_pmm_summary_sends:
  assumes "uart_live (device s)"
  shows "\<exists>t x. print_pmm_summary s = Some t \<and> sends x s t"
proof -
  obtain total used free where st: "pmm_get_stats s = (total, used, free)" by (metis prod_cases3)
  have "\<exists>y. prints (run_all [serial_write (''ScrapOS: pmm up '' @ [CHR 0xE2, CHR 0x80, CHR 0x94] @ '' usable ''),
                  put_dec (total * PMM_FRAME_SIZE div (1024 * 1024)), serial_write '' MiB ('', put_dec total,
                  serial_write '' frames), free '', put_dec free, serial_write ('' frames'' @ nl)] :: 'a pmm_scheme \<Rightarrow> _) y"
    by (rule prints_all) (auto intro: prints_write prints_dec simp del: append.simps)
  then show ?thesis using printsD [OF _ assms] unfolding print_pmm_summary_def st Let_def prod.case by blast
qed

subsection \<open>The last stage\<close>

text \<open>What a memory manager may do to the machine under a running console.\<close>

lemma memory_step:
  assumes D: "displays s T" and scr: "\<And>a. a \<in> screen_bytes s \<Longrightarrow> dm_frame h a \<notin> unat ` U"
    and more: "slab.more t = slab.more s" and mem: "\<And>x. dm_frame h x \<notin> unat ` U \<Longrightarrow> mem t x = mem s x"
  shows "displays t T" and "screen_bytes t = screen_bytes s" and "handlers t = handlers s" and "if_flag t = if_flag s" and "screen_kept s t"
proof -
  note f = slab_more_fields [OF more]
  have same: "console_same s t" using arch_more_fields f by blast
  show "displays t T" by (rule displays_frame [OF D same]) (use scr mem in blast)
  show "screen_bytes t = screen_bytes s" by (rule console_same_derived(6) [OF same])
  show "screen_kept s t" by (rule screen_kept_frame [OF same]) (use scr mem in blast)
  show "handlers t = handlers s" "if_flag t = if_flag s" using f by auto
qed

definition live_msg :: string where "live_msg = ''ScrapOS: interrupts enabled - idling, type to echo'' @ nl"

lemma kmain_live_step:
  fixes s :: "'a timer_scheme"
  assumes mm: "limine_memmap mm" and T: "pt_inv (usable_set mm) T (kernel_pml4 s) s" and h: "paging_hhdm s = h"
    and c: "cr3 s = kernel_pml4 s" "boot_space img k mm h s"
    and bm: "\<And>x. x \<in> bitmap_range s \<Longrightarrow> dm_frame h x \<in> unat ` usable_set mm"
    and D: "displays s T0" and scr: "\<And>a. a \<in> screen_bytes s \<Longrightarrow> dm_frame h a \<notin> unat ` usable_set mm"
    and dev: "uart_live (device s)" "pic_device (device s)" and idle: "phase (fst (pic_view (io_trace s))) = Idle" "phase (snd (pic_view (io_trace s))) = Idle"
  shows "\<exists>u. kmain_live mm h s = Some (Inr u) \<and> memory_up img k mm h u \<and> displays u (term_write live_msg T0) \<and> if_flag u \<and>
    device u = device s \<and> screen_bytes u = screen_bytes s \<and> screen_kept s u \<and> handlers u = handlers s \<and> ticks u = ticks s \<and> tick_hz u = tick_hz s \<and>
    imr (fst (pic_view (io_trace u))) = imr (fst (pic_view (io_trace s))) AND 0xFC \<and> imr (snd (pic_view (io_trace u))) = imr (snd (pic_view (io_trace s)))"
proof -
  obtain t where t: "buddy_init mm h BUDDY_PMM_RESERVE_FRAMES s = Some t" "buddy_keeps s t" "bitmap_range t = bitmap_range s"
    "\<And>x. dm_frame h x \<notin> unat ` usable_set mm \<Longrightarrow> mem t x = mem s x" "\<And>tr. memory_up img k mm h (slab_init h (t\<lparr>io_trace := tr\<rparr>))"
    using heap_up [OF mm T h c bm, of BUDDY_PMM_RESERVE_FRAMES] by blast
  have more: "slab.more t = slab.more s" using t(2) buddy_more_fields by (auto simp: buddy_keeps_def)
  note ms = memory_step [OF D scr more t(4)]
  have dt: "device t = device s" "io_trace t = io_trace s" using t(2) by (simp_all add: buddy_keeps_def)
  have tt: "ticks t = ticks s" "tick_hz t = tick_hz s" using console_more_fields slab_more_fields [OF more] by blast+
  obtain t1 where t1: "serial_write (''ScrapOS: buddy up'' @ nl) t = Some t1" "displays t1 T0" "emits t t1"
    using serial_step [OF ms(1)] dev(1) dt(1) by metis
  obtain t2 where t2: "print_buddy_stats ''ScrapOS: buddy free lists:'' t1 = Some t2" "displays t2 T0" "emits t1 t2"
    using print_buddy_stats_step [OF t1(2)] emits_keeps(1) [OF t1(3)] dev(1) dt by metis
  define w where "w = slab_init h t2"
  have e2: "emits t t2" using emits_trans [OF t1(3) t2(3)] .
  have w: "displays w T0" "device w = device s" "screen_bytes w = screen_bytes s" "mm_same (slab_init h t) w" "mem w = mem t2" "io_trace w = io_trace t2"
    "handlers w = handlers s" "ticks w = ticks s" "tick_hz w = tick_hz s" "fb_bytes w = fb_bytes t"
    using displays_frame [OF t2(2), of w] emits_keeps [OF e2] emits_timer [OF e2] ms dt tt console_same_derived(1,6) [of t2 w]
    by (simp_all add: w_def slab_init_def console_same_def mm_same_def)
  obtain w1 where w1: "serial_write (''ScrapOS: slab up'' @ nl) w = Some w1" "displays w1 T0" "emits w w1"
    using serial_step [OF w(1)] dev(1) w(2) by metis
  obtain w2 where w2: "print_slab_stats ''ScrapOS: slab caches (empty):'' w1 = Some w2" "displays w2 T0" "emits w1 w2"
    using print_slab_stats_step [OF w1(2)] emits_keeps(1) [OF w1(3)] dev(1) w(2) by metis
  note e = emits_trans [OF w1(3) w2(3)]
  have "screen_kept t2 w" by (rule screen_kept_frame) (simp_all add: w_def slab_init_def console_same_def)
  then have kept: "screen_kept s w2"
    using screen_kept_trans ms(5) emits_screen [OF displays_ok [OF ms(1)] e2] emits_screen [OF displays_ok [OF w(1)] e] by metis
  note ke = emits_keeps [OF e] and k2 = emits_keeps [OF e2]
  have pv: "pic_view (io_trace w2) = pic_view (io_trace s)" using ke(8) k2(8) dt(2) w(6) by simp
  obtain es where es: "arch_enable_irqs w2 = w2\<lparr>io_trace := io_trace w2 @ es, if_flag := True\<rparr>"
    "imr (fst (pic_view (io_trace w2 @ es))) = imr (fst (pic_view (io_trace w2))) AND 0xFC"
    "imr (snd (pic_view (io_trace w2 @ es))) = imr (snd (pic_view (io_trace w2)))"
    using arch_enable_spec [of w2] dev(2) idle pv ke(1) w(2) by (auto simp: Let_def case_prod_beta)
  define w3 where "w3 = arch_enable_irqs w2"
  have w3: "displays w3 T0" "device w3 = device s" "handlers w3 = handlers s" "if_flag w3" "mm_same w2 w3" "mem w3 = mem w2" "io_trace w3 = io_trace w2 @ es"
    "ticks w3 = ticks s" "tick_hz w3 = tick_hz s" "fb_bytes w3 = fb_bytes w2"
    "screen_bytes w3 = screen_bytes s"
    using displays_frame [OF w2(2), of w3] ke(1,3,7) w emits_timer [OF e] console_same_derived(1,6) [of w2 w3]
    by (simp_all add: w3_def es(1) console_same_def mm_same_def)
  obtain u where u: "kprint live_msg w3 = Some u" "displays u (term_write live_msg T0)" "emits w3 u"
    using kprint_step [OF w3(1)] dev(1) w3(2) by metis
  note ku = emits_keeps [OF u(3)]
  have "screen_kept w2 w3" by (rule screen_kept_frame) (simp_all add: w3_def es(1) console_same_def)
  then have kept: "screen_kept s u" using screen_kept_trans kept emits_screen [OF displays_ok [OF w3(1)] u(3)] by metis
  have "memory_up img k mm h (slab_init h (t\<lparr>io_trace := io_trace t\<rparr>))" by (rule t(5))
  then have "memory_up img k mm h (slab_init h t)" by simp
  then have "memory_up img k mm h u"
  proof (rule memory_up_frame)
    show "mm_same (slab_init h t) u" using w(4) ke(5) w3(5) ku(5) by (simp add: mm_same_def)
    show "mem u x = mem (slab_init h t) x" if "dm_frame h x \<in> unat ` usable_set mm" for x
    proof -
      have "x \<notin> screen_bytes s" using scr that by blast
      then have "x \<notin> fb_bytes s" by (simp add: screen_bytes_def)
      moreover have "fb_bytes t = fb_bytes s" using ms(2) slab_more_fields [OF more] arch_more_fields [of t s] console_same_derived(1) [of s t] by blast
      ultimately show ?thesis using ku(9) [of x] ke(9) [of x] k2(9) [of x] w w3(6,10) ke(6) by (simp add: slab_init_def)
    qed
  qed
  moreover have "kmain_live mm h s = Some (Inr u)"
    unfolding kmain_live_def t(1) Option.bind.simps t1(1) t2(1) Let_def w_def [symmetric] w1(1) w2(1) w3_def [symmetric] live_msg_def [symmetric] u(1) by simp
  ultimately show ?thesis using u(2) ku w3 emits_timer [OF u(3)] es(2,3) pv kept by simp
qed

text \<open>The state the idle loop is entered in, seen from the state \<open>s\<close> in which the drivers were ready.\<close>

definition gone_live :: "kernel_image \<Rightarrow> kernel_address \<Rightarrow> memmap_entry list \<Rightarrow> u64 \<Rightarrow> terminal \<Rightarrow> 'a timer_scheme \<Rightarrow> 'a timer_scheme \<Rightarrow> bool" where
  "gone_live img k mm h T0 s u \<longleftrightarrow> memory_up img k mm h u \<and> displays u (term_write live_msg T0) \<and> if_flag u \<and>
    device u = device s \<and> screen_bytes u = screen_bytes s \<and> screen_kept s u \<and> handlers u = handlers s \<and> ticks u = ticks s \<and> tick_hz u = tick_hz s \<and>
    imr (fst (pic_view (io_trace u))) = imr (fst (pic_view (io_trace s))) AND 0xFC \<and> imr (snd (pic_view (io_trace u))) = imr (snd (pic_view (io_trace s)))"

text \<open>Why the memory managers may stop the machine.\<close>

definition memory_halt :: "kernel_image \<Rightarrow> kernel_address \<Rightarrow> memmap_entry list \<Rightarrow> u64 \<Rightarrow> u64 \<Rightarrow> halt \<Rightarrow> bool" where
  "memory_halt img k mm h sp e \<longleftrightarrow> e = NoBitmapRegion \<and> (\<forall>x \<in> set mm. usable x \<longrightarrow> me_length x < init_bytes mm) \<or>
     e \<in> VmmPanic ` {msg_pml4, msg_hhdm, msg_kernel} \<and>
       card (usable_set mm - bitmap_frames (bitmap_region mm (init_bytes mm)) (init_bytes mm)) \<le> tables_for (map fst (boot_pages img k mm h)) \<or>
     e = VmmPanic msg_switch \<and> \<not> (boot_mapped img mm h sp \<and> boot_mapped img mm h (load_cr3_code img))"

lemma kmain_memory_step:
  fixes s :: "'a timer_scheme"
  assumes resp: "memmap_response b = Some mm" "hhdm_response b = Some h" "executable_address_response b = Some k"
    and mm: "limine_memmap mm" and lim: "unat (init_total mm) \<le> 2 ^ 40" and dm: "direct_map h (unat (init_total mm))"
    and layout: "boot_layout (kernel_symbols b) k mm h"
    and D: "displays s T0" and scr: "\<And>a. a \<in> screen_bytes s \<Longrightarrow> dm_frame h a \<notin> unat ` usable_set mm"
    and dev: "uart_live (device s)" "pic_device (device s)" and idle: "phase (fst (pic_view (io_trace s))) = Idle" "phase (snd (pic_view (io_trace s))) = Idle"
  shows "case kmain_memory b s of None \<Rightarrow> False | Some (Inl (e, u)) \<Rightarrow> memory_halt (kernel_symbols b) k mm h (rsp s) e
    | Some (Inr u) \<Rightarrow> gone_live (kernel_symbols b) k mm h T0 s u"
proof (cases "pmm_init mm h s")
  case (Inl e)
  then have z: "e = NoBitmapRegion" "bitmap_region mm (init_bytes mm) = 0"
    by (auto simp: pmm_init_def Let_def init_bytes_def init_total_def split: if_splits)
  then have "memory_halt (kernel_symbols b) k mm h (rsp s) e" unfolding memory_halt_def using bitmap_region_zero [OF mm] by blast
  then show ?thesis using Inl resp by (simp add: kmain_memory_def)
next
  case (Inr s1)
  note P = pmm_up [OF mm Inr] and keeps = pmm_init_frame [OF mm Inr]
  have more: "slab.more s1 = slab.more s" using keeps(1) pmm_more_fields buddy_more_fields by (auto simp: pmm_keeps_def)
  note m1 = memory_step [OF D scr more keeps(2)]
  have d1: "device s1 = device s" "io_trace s1 = io_trace s" using keeps(1) by (simp_all add: pmm_keeps_def)
  have tt1: "ticks s1 = ticks s" "tick_hz s1 = tick_hz s" using console_more_fields slab_more_fields [OF more] by blast+
  obtain s2 where s2: "print_pmm_summary s1 = Some s2" "displays s2 T0" "emits s1 s2"
    using print_pmm_summary_sends [of s1] dev(1) d1 m1(1) displays_sends emits_sends by metis
  note k2 = emits_keeps [OF s2(3)]
  have off: "x \<notin> fb_bytes s1" if "dm_frame h x \<in> unat ` usable_set mm" for x using that scr m1(2) fb_in_screen by blast
  have i2: "pmm_inv (usable_set mm) s2" "free_set s2 = free_set s1" "bitmap_range s2 = bitmap_range s1"
    using pmm_inv_same [OF P(1), of s2] k2(5,9) off P(3) by (simp_all add: mm_same_def)
  have t2: "total_frames s2 = init_total mm" using k2(5) P(2) by (simp add: mm_same_def)
  have v: "uart_live (device s2)" "unat (total_frames s2) \<le> 2 ^ 40" "direct_map h (unat (total_frames s2))"
    "\<forall>x \<in> bitmap_range s2. dm_frame h x \<notin> unat ` free_set s2"
    using dev(1) k2(1) d1 lim dm t2 P(3) i2 by simp_all
  have eq: "kmain_memory b s = and_then (vmm_init (kernel_symbols b) k mm h s2) (kmain_live mm h)"
    using Inr s2(1) resp by (simp add: kmain_memory_def)
  note V = vmm_init_result [OF v(1) i2(1) v(2-4) layout]
  have fs: "free_set s1 = usable_set mm - bitmap_frames (bitmap_region mm (init_bytes mm)) (init_bytes mm)" and sp: "rsp s2 = rsp s"
    using pmm_init_spec(2-4) [OF mm Inr] keeps(1) k2(2) by (simp_all add: pmm_keeps_def)
  consider (halt) e u where "vmm_init (kernel_symbols b) k mm h s2 = Some (Inl (e, u))" "memory_halt (kernel_symbols b) k mm h (rsp s) e"
    | (up) u T where "vmm_init (kernel_symbols b) k mm h s2 = Some (Inr u)" "cr3 u = kernel_pml4 u" "pt_inv (usable_set mm) T (kernel_pml4 u) u"
      "boot_space (kernel_symbols b) k mm h u" "vm_frame h s2 u"
    using V unfolding memory_halt_def i2(2) fs sp by (auto split: option.splits sum.splits)
  then show ?thesis
  proof cases
    case halt
    then show ?thesis using halt by (simp add: eq and_then_def)
  next
    case up
    obtain m tr c l kk n p where u: "u = s2\<lparr>mem := m, io_trace := tr, cr3 := c, tlb_flushes := l, free_frames := kk, next_hint := n,
        paging_hhdm := h, kernel_pml4 := p\<rparr>" using up(5) by (auto simp: vm_frame_def)
    have fU: "free_set s2 \<subseteq> usable_set mm" using i2(1) by (simp add: pmm_inv_def)
    have "mem u x = mem s2 x" if "dm_frame h x \<notin> unat ` usable_set mm" for x
      using up(5) that fU i2(3) P(3) [of x] unfolding vm_frame_def by blast
    moreover have "slab.more u = slab.more s2" by (simp add: u)
    ultimately have m2: "displays u T0" "screen_bytes u = screen_bytes s2" "handlers u = handlers s2" "if_flag u = if_flag s2" "screen_kept s2 u"
      using memory_step [OF s2(2), of h "usable_set mm" u] scr m1(2) k2(7) by auto
    have pv: "pic_view (io_trace u) = pic_view (io_trace s)"
      using up(5) serial_only_pic k2(8) d1(2) unfolding vm_frame_def by metis
    have f: "paging_hhdm u = h" "device u = device s" "ticks u = ticks s" "tick_hz u = tick_hz s" "handlers u = handlers s"
      using k2(1,3) d1 tt1 emits_timer [OF s2(3)] m1(3) by (simp_all add: u)
    have bm: "dm_frame h x \<in> unat ` usable_set mm" if "x \<in> bitmap_range u" for x using that up(5) i2(3) P(3) by (auto simp: vm_frame_def)
    have scr': "dm_frame h a \<notin> unat ` usable_set mm" if "a \<in> screen_bytes u" for a using that m2(2) k2(7) m1(2) scr by auto
    have "screen_bytes u = screen_bytes s" using m2(2) k2(7) m1(2) by simp
    moreover have kept: "screen_kept s u" using screen_kept_trans m1(5) emits_screen [OF displays_ok [OF m1(1)] s2(3)] m2(5) by metis
    ultimately obtain w where "kmain_live mm h u = Some (Inr w)" "gone_live (kernel_symbols b) k mm h T0 s w"
      using kmain_live_step [OF mm up(3) f(1) up(2,4) bm m2(1) scr'] dev idle pv f screen_kept_trans [OF kept] by (auto simp: gone_live_def)
    then show ?thesis using up(1) by (simp add: eq and_then_def)
  qed
qed

subsection \<open>The first stage\<close>

definition fb_geometry :: "limine_framebuffer \<Rightarrow> 'a console_scheme \<Rightarrow> 'a console_scheme" where
  "fb_geometry fb s = geometry (lfb_address fb) (ucast (lfb_width fb)) (ucast (lfb_height fb)) (ucast (lfb_pitch fb)) (lfb_bpp fb) s"

definition banner :: string where "banner = ''ScrapOS'' @ nl @ ''framebuffer text console up - type and it echoes here'' @ nl @ nl"
definition arch_msg :: string where "arch_msg = ''ScrapOS: arch initialised (GDT, IDT, PIC, IRQs)'' @ nl"
definition drivers_msg :: string where "drivers_msg = ''ScrapOS: timer + keyboard handlers installed'' @ nl"

lemma console_write_append: "console_write (x @ y) s = console_write y (console_write x s)"
  by (induction x arbitrary: s) simp_all

lemma console_up:
  fixes s :: "'a timer_scheme"
  assumes dev: "uart_live (device s)" and font: "good_font s" and fb: "fb_ok (fb_geometry fb s)" "blank_font (fb_geometry fb s)"
  defines "g \<equiv> fb_geometry fb s"
  shows "\<exists>u. console_init (lfb_address fb) (ucast (lfb_width fb)) (ucast (lfb_height fb)) (ucast (lfb_pitch fb)) (lfb_bpp fb) s = Some u \<and>
    displays (console_write banner u) (term_write banner (blank_terminal (unat (cols g)) (unat (rows g)))) \<and> emits g (console_write banner u)"
proof -
  obtain u where u: "console_init (lfb_address fb) (ucast (lfb_width fb)) (ucast (lfb_height fb)) (ucast (lfb_pitch fb)) (lfb_bpp fb) s = Some u"
    "displays u (blank_terminal (unat (cols g)) (unat (rows g)))" "touches g u"
    using console_init_displays [OF font fb [unfolded fb_geometry_def]] unfolding g_def fb_geometry_def by blast
  note w = console_write_step [OF u(2), of banner]
  then show ?thesis using u(1) emits_touches [OF touches_trans [OF u(3) conjunct2 [OF w]]] by blast
qed

lemma timer_init_shape:
  "f \<noteq> 0 \<Longrightarrow> \<exists>lo hi. timer_init f s = Inr (s\<lparr>tick_hz := f, io_trace := io_trace s @ [Outb 0x43 0x36, Outb 0x40 lo, Outb 0x40 hi],
     handlers := (handlers s)[0 := Some Timer_irq]\<rparr>)"
  by (intro exI) (simp add: timer_init_def Let_def outb_def irq_install_handler_def PIT_CMD_def PIT_CH0_DATA_def PIT_CMD_CH0_RATEGEN_def)

text \<open>The CPU tables and the drivers under a running console, whose memory is off the stack.\<close>

lemma drivers_up:
  fixes s :: "'a timer_scheme"
  assumes D: "displays s T" and dev: "uart_live (device s)" and cold: "handlers s = replicate 16 None"
    and stack: "\<And>a. a \<in> screen_bytes s \<Longrightarrow> 16 \<le> unat (a - (rsp s - 16))"
  shows "\<exists>t t' u. kprint arch_msg (arch_init s) = Some t \<and> timer_init 100 t = Inr t' \<and> kprint drivers_msg (keyboard_init t') = Some u \<and>
    displays u (term_write drivers_msg (term_write arch_msg T)) \<and> device u = device s \<and> rsp u = rsp s \<and> screen_bytes u = screen_bytes s \<and> screen_kept s u \<and>
    handlers u = Some Timer_irq # Some Keyboard_irq # replicate 14 None \<and> tick_hz u = 100 \<and> ticks u = ticks s \<and> if_flag u = if_flag s \<and>
    (let (c1, c2) = pic_view (io_trace u) in phase c1 = Idle \<and> phase c2 = Idle \<and> imr c1 = 0xFF \<and> imr c2 = 0xFF)"
proof -
  let ?a = "arch_init s"
  note ka = arch_init_keeps [of s]
  have same: "console_same s ?a" using arch_more_fields ka(6) by blast
  have Da: "displays ?a T" and kept_a: "screen_kept s ?a"
    by (rule displays_frame [OF D same] screen_kept_frame [OF same], use stack gdt_load_mem ka(7) in metis)+
  obtain t where t: "kprint arch_msg ?a = Some t" "displays t (term_write arch_msg T)" "emits ?a t"
    using kprint_step [OF Da] dev ka(2) by metis
  note kt = emits_keeps [OF t(3)]
  obtain c1 c2 where "pic_view (io_trace s) = (c1, c2)" by fastforce
  then have pv: "pic_view (io_trace t) = (c1\<lparr>phase := Idle, icw1 := 0x11, vector_base := 0x20, cascade := 4, icw4 := 1, imr := 0xFF\<rparr>,
      c2\<lparr>phase := Idle, icw1 := 0x11, vector_base := 0x28, cascade := 2, icw4 := 1, imr := 0xFF\<rparr>)"
    unfolding kt(8) ka(1) pic_view_append by (simp only: remap_view)
  obtain lo hi where "timer_init 100 t = Inr (t\<lparr>tick_hz := 100, io_trace := io_trace t @ [Outb 0x43 0x36, Outb 0x40 lo, Outb 0x40 hi],
      handlers := (handlers t)[0 := Some Timer_irq]\<rparr>)" using timer_init_shape [of 100 t] by auto
  then obtain t' es where t': "timer_init 100 t = Inr t'" "t' = t\<lparr>tick_hz := 100, io_trace := io_trace t @ es, handlers := (handlers t)[0 := Some Timer_irq]\<rparr>"
    and "es = [Outb 0x43 0x36, Outb 0x40 lo, Outb 0x40 hi]" by simp
  then have es: "pic_view (io_trace t @ es) = pic_view (io_trace t)" using pv by (simp add: pic_view_append)
  define kb where "kb = keyboard_init t'"
  have kb: "kb = t\<lparr>tick_hz := 100, io_trace := io_trace t @ es, handlers := (handlers t)[0 := Some Timer_irq, 1 := Some Keyboard_irq]\<rparr>"
    by (simp add: kb_def t'(2) keyboard_init_def irq_install_handler_def)
  have samek: "console_same t kb" by (simp add: kb console_same_def)
  have Dk: "displays kb (term_write arch_msg T)" and kept_k: "screen_kept t kb"
    by (rule displays_frame [OF t(2) samek] screen_kept_frame [OF samek], simp add: kb)+
  have "device kb = device s" using kt(1) ka(2) by (simp add: kb)
  then obtain u where u: "kprint drivers_msg kb = Some u" "displays u (term_write drivers_msg (term_write arch_msg T))" "emits kb u"
    using kprint_step [OF Dk] dev by metis
  have kept: "screen_kept s u"
    using screen_kept_trans kept_a kept_k emits_screen [OF displays_ok [OF Da] t(3)] emits_screen [OF displays_ok [OF Dk] u(3)] by metis
  note ku = emits_keeps [OF u(3)]
  have "handlers u = (replicate 16 None)[0 := Some Timer_irq, 1 := Some Keyboard_irq]" using ku(3) kt(3) ka(4) cold by (simp add: kb)
  moreover have "(replicate 16 None)[0 := Some Timer_irq, 1 := Some Keyboard_irq] = Some Timer_irq # Some Keyboard_irq # replicate 14 None"
    by (simp add: eval_nat_numeral)
  moreover have "screen_bytes u = screen_bytes s"
    using ku(7) kt(7) console_same_derived(6) [OF same] console_same_derived(6) [OF samek] by simp
  moreover have "pic_view (io_trace u) = pic_view (io_trace t)" using ku(8) es by (simp add: kb)
  moreover have "ticks u = ticks s" "tick_hz u = 100" "if_flag u = if_flag s" "device u = device s" "rsp u = rsp s"
    using emits_timer [OF u(3)] emits_timer [OF t(3)] console_more_fields [OF ka(6)] ku(1,2,4) kt(1,2,4) ka(2,3,5) by (simp_all add: kb)
  ultimately show ?thesis using t(1) t'(1) u(1,2) pv kb_def kept by (auto simp: Let_def)
qed

text \<open>The text on the screen when the drivers are ready.\<close>

definition boot_text :: string where "boot_text = banner @ arch_msg @ drivers_msg"

lemma kmain_first_stage:
  fixes s :: "'a timer_scheme"
  assumes dev: "uart_live (device s)" and cold: "handlers s = replicate 16 None"
    and resp: "limine_base_revision b = 0" "framebuffer_response b = Some (fb # fbs)"
    and font: "good_font s" and fb: "fb_ok (fb_geometry fb s)" "blank_font (fb_geometry fb s)"
    and stack: "\<And>a. a \<in> screen_bytes (fb_geometry fb s) \<Longrightarrow> 16 \<le> unat (a - (rsp s - 16))"
  shows "\<exists>u. kmain b s = kmain_memory b u \<and>
    displays u (term_write boot_text (blank_terminal (unat (cols (fb_geometry fb s))) (unat (rows (fb_geometry fb s))))) \<and>
    device u = device s \<and> rsp u = rsp s \<and> screen_bytes u = screen_bytes (fb_geometry fb s) \<and> screen_kept (fb_geometry fb s) u \<and>
    handlers u = Some Timer_irq # Some Keyboard_irq # replicate 14 None \<and> tick_hz u = 100 \<and> ticks u = ticks s \<and> if_flag u = if_flag s \<and>
    (let (c1, c2) = pic_view (io_trace u) in phase c1 = Idle \<and> phase c2 = Idle \<and> imr c1 = 0xFF \<and> imr c2 = 0xFF)"
proof -
  let ?g = "fb_geometry fb s" and ?T = "blank_terminal (unat (cols (fb_geometry fb s))) (unat (rows (fb_geometry fb s)))"
  have "device (serial_init s) = device s" by (simp add: serial_init_def Let_def outb_def)
  then obtain s2 where s2: "serial_write (''ScrapOS booted'' @ nl) (serial_init s) = Some s2" "sends (crlf (''ScrapOS booted'' @ nl)) (serial_init s) s2"
    using printsD [OF prints_write] dev by metis
  obtain tr where s2': "s2 = s\<lparr>io_trace := tr\<rparr>" using s2(2) by (auto simp: sends_def serial_init_def Let_def outb_def)
  have g2: "fb_geometry fb s2 = ?g\<lparr>io_trace := tr\<rparr>" by (simp add: s2' fb_geometry_def geometry_def Let_def)
  have same: "console_same ?g (?g\<lparr>io_trace := tr\<rparr>)" by (simp add: console_same_def)
  have ok2: "good_font s2" "fb_ok (fb_geometry fb s2)" "blank_font (fb_geometry fb s2)" "screen_bytes (fb_geometry fb s2) = screen_bytes ?g"
    "device s2 = device s" "cols (fb_geometry fb s2) = cols ?g" "rows (fb_geometry fb s2) = rows ?g"
    using font fb console_same_derived(5,6) [OF same] blank_font_frame [OF same] by (simp_all add: s2' good_font_def g2 [unfolded s2'])
  obtain u where u: "console_init (lfb_address fb) (ucast (lfb_width fb)) (ucast (lfb_height fb)) (ucast (lfb_pitch fb)) (lfb_bpp fb) s2 = Some u"
    "displays (console_write banner u) (term_write banner ?T)" "emits (fb_geometry fb s2) (console_write banner u)"
    using console_up [OF _ ok2(1-3)] dev ok2(5-7) by auto
  have dg: "device (fb_geometry fb s2) = device s" "rsp (fb_geometry fb s2) = rsp s" "handlers (fb_geometry fb s2) = handlers s" "if_flag (fb_geometry fb s2) = if_flag s"
    "ticks (fb_geometry fb s2) = ticks s"
    by (simp_all add: s2' fb_geometry_def geometry_def Let_def)
  obtain s5 where s5: "serial_write (''ScrapOS: framebuffer console up'' @ nl) (console_write banner u) = Some s5" "displays s5 (term_write banner ?T)"
    "emits (console_write banner u) s5"
    using serial_step [OF u(2)] emits_keeps(1) [OF u(3)] dg(1) dev by metis
  note e5 = emits_trans [OF u(3) s5(3)]
  note k5 = emits_keeps [OF e5]
  have dev5: "uart_live (device s5)" "handlers s5 = replicate 16 None" using k5(1,3) dg dev cold by simp_all
  have stack5: "16 \<le> unat (a - (rsp s5 - 16))" if "a \<in> screen_bytes s5" for a using that stack k5(2,7) ok2(4) dg(2) by simp
  obtain t t' v where v: "kprint arch_msg (arch_init s5) = Some t" "timer_init 100 t = Inr t'" "kprint drivers_msg (keyboard_init t') = Some v"
    "displays v (term_write drivers_msg (term_write arch_msg (term_write banner ?T)))" "device v = device s5" "rsp v = rsp s5" "screen_bytes v = screen_bytes s5" "screen_kept s5 v"
    "handlers v = Some Timer_irq # Some Keyboard_irq # replicate 14 None" "tick_hz v = 100" "ticks v = ticks s5" "if_flag v = if_flag s5"
    "let (c1, c2) = pic_view (io_trace v) in phase c1 = Idle \<and> phase c2 = Idle \<and> imr c1 = 0xFF \<and> imr c2 = 0xFF"
    using drivers_up [OF s5(2) dev5 stack5] by blast
  have "screen_kept ?g (fb_geometry fb s2)" by (rule screen_kept_frame) (simp_all add: g2 console_same_def)
  then have kept: "screen_kept ?g v" using screen_kept_trans emits_screen [OF ok2(2) e5] v(8) by metis
  have ban: "console_write (''framebuffer text console up - type and it echoes here'' @ nl @ nl) (console_write (''ScrapOS'' @ nl) x) = console_write banner x" for x :: "'a timer_scheme"
    unfolding banner_def console_write_append ..
  have "kmain b s = kmain_memory b v"
    unfolding kmain_def Let_def s2(1) Option.bind.simps resp u(1) option.case list.case ban s5(1) v(1) [unfolded arch_msg_def] v(2) sum.case v(3) [unfolded drivers_msg_def]
    by simp
  then show ?thesis
    using v(4-13) k5(1-4,7) dg ok2(4) emits_timer [OF e5] kept by (intro exI [of _ v]) (simp add: boot_text_def term_write_append)
qed

subsection \<open>Missing responses\<close>

text \<open>The first response the kernel misses, in the order it looks for them.\<close>

definition first_missing :: "boot_info \<Rightarrow> string option" where
  "first_missing b =
     (if limine_base_revision b \<noteq> 0 then Some ''error: Limine base revision unsupported''
      else if framebuffer_response b = None \<or> framebuffer_response b = Some [] then Some ''error: no framebuffer provided''
      else if memmap_response b = None then Some ''error: no memory map provided''
      else if hhdm_response b = None then Some ''error: no HHDM offset provided''
      else if executable_address_response b = None then Some ''error: no kernel-address info provided''
      else None)"

lemma die_step:
  assumes "uart_live (device s)"
  shows "\<exists>t. die why s = Some (Inl (KernelHalt why, t\<lparr>if_flag := False\<rparr>)) \<and> sends (crlf (why @ nl)) s t"
  using printsD [OF prints_write assms, of "why @ nl"] by (auto simp: die_def hcf_def)

text \<open>After the first stage: which response the memory stage misses, and what it then does.\<close>

lemma kmain_memory_missing:
  fixes s :: "'a timer_scheme"
  assumes dev: "uart_live (device s)"
    and miss: "limine_base_revision b = 0" "framebuffer_response b = Some (fb # fbs)" "first_missing b = Some why"
    and mm: "\<And>mm. memmap_response b = Some mm \<Longrightarrow> limine_memmap mm \<and> (\<exists>e \<in> set mm. usable e \<and> init_bytes mm \<le> me_length e)"
  shows "\<exists>t u. kmain_memory b s = Some (Inl (KernelHalt why, u\<lparr>if_flag := False\<rparr>)) \<and> sends (crlf (why @ nl)) t u"
proof -
  have rest: "(if memmap_response b = None then Some ''error: no memory map provided''
      else if hhdm_response b = None then Some ''error: no HHDM offset provided''
      else if executable_address_response b = None then Some ''error: no kernel-address info provided''
      else None) = Some why" using miss by (simp add: first_missing_def)
  have "\<exists>t. uart_live (device t) \<and> kmain_memory b s = die why t"
  proof (cases "memmap_response b = None \<or> hhdm_response b = None")
    case True
    then have "kmain_memory b s = die why s" using rest by (auto simp: kmain_memory_def split: option.splits)
    then show ?thesis using dev by blast
  next
    case False
    then obtain mm h where m: "memmap_response b = Some mm" "hhdm_response b = Some h" by auto
    have e: "executable_address_response b = None" "why = ''error: no kernel-address info provided''"
      using rest m by (simp_all split: if_splits)
    have ok: "limine_memmap mm" "bitmap_region mm (init_bytes mm) \<noteq> 0" using assms(5) [OF m(1)] bitmap_region_zero [of mm "init_bytes mm"] by auto
    then obtain s1 where s1: "pmm_init mm h s = Inr s1" by (auto simp: pmm_init_def Let_def init_bytes_def init_total_def)
    then have d: "uart_live (device s1)" using pmm_init_frame(1) [OF ok(1) s1] dev by (simp add: pmm_keeps_def)
    then obtain s2 x where s2: "print_pmm_summary s1 = Some s2" "sends x s1 s2" using print_pmm_summary_sends by blast
    have "uart_live (device s2)" using d s2(2) by (auto simp: sends_def)
    moreover have "kmain_memory b s = die why s2" using m e s1 s2(1) by (simp add: kmain_memory_def)
    ultimately show ?thesis by blast
  qed
  then show ?thesis using die_step by metis
qed

end
