(* ===== verification/Kernel_Idle.thy ===== *)
theory Kernel_Idle
  imports Kernel_Boot
begin

text \<open>
  The idle loop at the end of \<open>kmain\<close> and the interrupts that wake it. Each step is one interrupt
  taken through its gate: the CPU clears the interrupt flag and, with the stub, puts a frame on the
  stack; \<open>irq_dispatch\<close> runs; \<^verbatim>\<open>iretq\<close> sets the flag again and the processor halts until the next.
\<close>

subsection \<open>Steps\<close>

text \<open>A line that reaches the processor: open at its controller and, for the slave's, at the cascade.\<close>

definition unmasked :: "nat \<Rightarrow> 'a machine_scheme \<Rightarrow> bool" where
  "unmasked n s = (let (c1, c2) = pic_view (io_trace s)
     in if n < 8 then \<not> bit (imr c1) n else \<not> bit (imr c1) 2 \<and> \<not> bit (imr c2) (n - 8))"

text \<open>
  \<open>S\<close> is the memory of the stack; below the frame \<open>f\<close> and in it, its content after the entry is
  arbitrary except for the vector.
\<close>

inductive idle_step :: "u64 set \<Rightarrow> nat \<Rightarrow> 'a timer_scheme \<Rightarrow> 'a timer_scheme \<Rightarrow> bool" for S where
  irq: "if_flag s \<Longrightarrow> n < IRQ_COUNT \<Longrightarrow> unmasked n s \<Longrightarrow> (\<And>a. a \<notin> S \<Longrightarrow> m a = mem s a) \<Longrightarrow> f_vector m f = of_nat (IRQ_VECTOR_BASE + n) \<Longrightarrow>
    irq_dispatch run_handler f (s\<lparr>mem := m, if_flag := False\<rparr>) = Some t \<Longrightarrow> idle_step S n s (t\<lparr>if_flag := True\<rparr>)"

inductive idle_run :: "u64 set \<Rightarrow> nat list \<Rightarrow> 'a timer_scheme \<Rightarrow> 'a timer_scheme \<Rightarrow> bool" for S where
  start: "idle_run S [] s s"
| wake: "idle_run S ns s t \<Longrightarrow> idle_step S n t u \<Longrightarrow> idle_run S (ns @ [n]) s u"

subsection \<open>Output reads no scancode\<close>

lemma serial_only_scancodes: "serial_only tr tr' \<Longrightarrow> \<exists>es. tr' = tr @ es \<and> scancodes es = []"
  using bursts_events by (fastforce simp: serial_only_def)

lemma emits_scancodes: "emits s t \<Longrightarrow> \<exists>es. io_trace t = io_trace s @ es \<and> scancodes es = []"
  using serial_only_scancodes by (auto simp: emits_def)

text \<open>
  Between \<open>s\<close> and \<open>t\<close> the bus saw \<open>es\<close>, and in it exactly \<open>n\<close> scancodes were read, each as the device answered.
\<close>

definition reads_keys :: "'a machine_scheme \<Rightarrow> 'a machine_scheme \<Rightarrow> nat \<Rightarrow> io_event list \<Rightarrow> bool" where
  "reads_keys s t n es \<longleftrightarrow> io_trace t = io_trace s @ es \<and> answered (device s) (io_trace s) es \<and> length (scancodes es) = n \<and> device t = device s"

lemma reads_keys_trans: "reads_keys s t n es \<Longrightarrow> reads_keys t u k fs \<Longrightarrow> reads_keys s u (n + k) (es @ fs)"
  by (simp add: reads_keys_def)

subsection \<open>The handlers\<close>

text \<open>
  What an interrupt may do to the machine: it counts, draws, and talks to the serial line, the keyboard
  and the interrupt controllers.
\<close>

definition handled :: "'a timer_scheme \<Rightarrow> 'a timer_scheme \<Rightarrow> bool" where
  "handled s t \<longleftrightarrow> (\<exists>m tr c r k. t = s\<lparr>mem := m, io_trace := tr, cur_col := c, cur_row := r, ticks := k\<rparr> \<and> (\<forall>a. a \<notin> fb_bytes s \<longrightarrow> m a = mem s a))"

lemma handled_emits: "emits (s\<lparr>io_trace := tr, ticks := k\<rparr>) t \<Longrightarrow> handled s t"
  unfolding emits_def handled_def by (elim exE conjE) (intro exI conjI, rule timer.equality, auto simp: fb_bytes_def)

lemma handled_screen: "fb_ok s \<Longrightarrow> handled s t \<Longrightarrow> screen_kept s t"
  using fb_okD(10) [of s] by (auto simp: handled_def screen_kept_def)

text \<open>The picture the two handlers leave, and the scancodes they read: none, and one.\<close>

lemma timer_irq_typed:
  assumes "uart_live (device s)" and "displays s T"
  shows "\<exists>t es. timer_irq s = Some t \<and> handled s t \<and> displays t T \<and> ticks t = ticks s + 1 \<and> io_trace t = io_trace s @ es \<and> scancodes es = [] \<and>
    pic_view (io_trace t) = pic_view (io_trace s)"
proof -
  let ?s = "s\<lparr>ticks := ticks s + 1\<rparr>"
  have D: "displays ?s T" by (rule displays_frame [OF assms(2)]) (simp_all add: console_same_def)
  have dev: "uart_live (device ?s)" using assms(1) by simp
  obtain t where t: "timer_irq s = Some t" "displays t T" "emits ?s t"
  proof (cases "tick_hz ?s \<noteq> 0 \<and> ticks ?s mod ucast (tick_hz ?s) = 0")
    case True
    then have "timer_irq s = run_all [serial_write ''[timer] tick '', put_dec (ticks ?s div ucast (tick_hz ?s)), serial_write (''s'' @ nl)] ?s"
      unfolding timer_irq_def Let_def by (rule if_P)
    then show ?thesis using prints_step [OF prints_beat D dev] that by metis
  next
    case False
    then have "timer_irq s = Some ?s" unfolding timer_irq_def Let_def by (rule if_not_P)
    then show ?thesis using that D emits_sends [of "[]" ?s ?s] by simp
  qed
  have "handled s t" using handled_emits [where s = s and tr = "io_trace s"] t(3) by simp
  then show ?thesis using t emits_scancodes [OF t(3)] emits_keeps(8) [OF t(3)] emits_timer [OF t(3)] by auto
qed

lemma keyboard_irq_typed:
  assumes "uart_live (device s)" and "displays s T"
  shows "\<exists>t es. keyboard_irq s = Some t \<and> handled s t \<and> displays t (term_write (keys_text (scancodes es)) T) \<and> ticks t = ticks s \<and> io_trace t = io_trace s @ es \<and>
    length (scancodes es) = 1 \<and> answered (device s) (io_trace s) es \<and> pic_view (io_trace t) = pic_view (io_trace s)"
proof -
  define sc where "sc = device s (io_trace s) 0x60"
  define t0 where "t0 = s\<lparr>io_trace := io_trace s @ [Inb 0x60 sc]\<rparr>"
  note K = keyboard_irq_step [OF assms, folded sc_def, unfolded Let_def, folded t0_def]
  have D0: "displays t0 T" using assms(2) by (simp add: t0_def)
  have pv: "pic_view (io_trace t0) = pic_view (io_trace s)" by (simp add: t0_def pic_view_append)
  show ?thesis
  proof (cases "key_char sc")
    case None
    then have "keyboard_irq s = Some t0" using K by simp
    moreover have "handled s t0" using handled_emits [where s = s and k = "ticks s" and t = t0] emits_sends [of "[]" t0 t0] by (simp add: t0_def)
    ultimately show ?thesis using D0 pv None by (intro exI [of _ t0] exI [of _ "[Inb 0x60 sc]"]) (simp add: t0_def term_write_def sc_def PS2_DATA_def)
  next
    case (Some c)
    then obtain t where t: "keyboard_irq s = Some t" "sends (crlf [c]) (console_putc c t0) t" "displays t (term_putc c T)" using K by auto
    have e: "emits t0 t" using emits_trans [OF emits_touches emits_sends [OF t(2)]] console_putc_step [OF D0] by blast
    then have "handled s t" using handled_emits [where s = s and k = "ticks s" and t = t] by (simp add: t0_def)
    moreover obtain es where "io_trace t = io_trace t0 @ es" "scancodes es = []" using emits_scancodes [OF e] by blast
    ultimately show ?thesis using t pv emits_keeps(8) [OF e] emits_timer [OF e] Some
      by (intro exI [of _ t] exI [of _ "Inb 0x60 sc # es"]) (simp add: t0_def term_write_def sc_def PS2_DATA_def answered_silent)
  qed
qed

subsection \<open>The loop\<close>

text \<open>What holds between interrupts, with the terminal \<open>T\<close> on the screen.\<close>

definition idling :: "u64 set \<Rightarrow> terminal \<Rightarrow> 'a timer_scheme \<Rightarrow> bool" where
  "idling S T s \<longleftrightarrow> displays s T \<and> uart_live (device s) \<and> if_flag s \<and> handlers s = Some Timer_irq # Some Keyboard_irq # replicate 14 None \<and>
     imr (fst (pic_view (io_trace s))) = 0xFC \<and> imr (snd (pic_view (io_trace s))) = 0xFF \<and> S \<inter> screen_bytes s = {}"

lemma unmasked_lines:
  assumes "imr (fst (pic_view (io_trace s))) = 0xFC" and "n < 16" and "unmasked n s"
  shows "n = 0 \<or> n = 1"
proof -
  have "bit (0xFC :: u8) 2" "bit (0xFC :: u8) 3" "bit (0xFC :: u8) 4" "bit (0xFC :: u8) 5" "bit (0xFC :: u8) 6" "bit (0xFC :: u8) 7"
    by (simp_all add: bit_numeral_rec)
  moreover have "n < 8 \<and> \<not> bit (0xFC :: u8) n" using assms calculation(1) by (auto simp: unmasked_def Let_def case_prod_beta split: if_splits)
  ultimately show ?thesis by (auto simp: less_Suc_eq eval_nat_numeral)
qed

lemma idle_entry:
  assumes I: "idling S T s" and n: "n = 0 \<or> n = 1" and m: "\<And>a. a \<notin> S \<Longrightarrow> m a = mem s a" and f: "f_vector m f = of_nat (IRQ_VECTOR_BASE + n)"
  shows "\<exists>t es. irq_dispatch run_handler f (s\<lparr>mem := m, if_flag := False\<rparr>) = Some t \<and> reads_keys s t (of_bool (n = 1)) es \<and>
    idling S (term_write (keys_text (scancodes es)) T) (t\<lparr>if_flag := True\<rparr>) \<and> screen_kept s t \<and>
    ticks t = ticks s + of_bool (n = 0) \<and> mm_same s t \<and> fb_bytes t = fb_bytes s \<and>
    (\<forall>a. a \<notin> S \<union> fb_bytes s \<longrightarrow> mem t a = mem s a) \<and> eois (fst (pic_view (io_trace t))) = Suc (eois (fst (pic_view (io_trace s))))"
proof -
  let ?s = "s\<lparr>mem := m, if_flag := False\<rparr>"
  note i = I [unfolded idling_def]
  have same: "console_same s ?s" by (simp add: console_same_def)
  have off: "mem ?s a = mem s a" if "a \<in> screen_bytes s" for a using i m that by auto
  have D: "displays ?s T" by (rule displays_frame [OF _ same off]) (use i in auto)
  have dev: "uart_live (device ?s)" using i by simp
  obtain g t es where t: "handlers ?s ! n = Some g" "run_handler g ?s = Some t" "handled ?s t" "displays t (term_write (keys_text (scancodes es)) T)"
    "ticks t = ticks s + of_bool (n = 0)" "io_trace t = io_trace s @ es" "pic_view (io_trace t) = pic_view (io_trace s)"
    "length (scancodes es) = of_bool (n = 1)" "answered (device s) (io_trace s) es"
  proof (cases "n = 0")
    case True
    obtain t es where "timer_irq ?s = Some t" "handled ?s t" "displays t T" "ticks t = ticks ?s + 1" "io_trace t = io_trace ?s @ es" "scancodes es = []"
      "pic_view (io_trace t) = pic_view (io_trace ?s)" using timer_irq_typed [OF dev D] by blast
    then show ?thesis using True i by (intro that [of Timer_irq t es]) (simp_all add: run_handler_def term_write_def answered_silent)
  next
    case False
    obtain t es where "keyboard_irq ?s = Some t" "handled ?s t" "displays t (term_write (keys_text (scancodes es)) T)" "ticks t = ticks ?s"
      "io_trace t = io_trace ?s @ es" "pic_view (io_trace t) = pic_view (io_trace ?s)" "length (scancodes es) = 1" "answered (device ?s) (io_trace ?s) es"
      using keyboard_irq_typed [OF dev D] by blast
    then show ?thesis using False n i by (intro that [of Keyboard_irq t es]) (simp_all add: run_handler_def)
  qed
  have run: "irq_dispatch run_handler f ?s = Some (pic_send_eoi (of_nat n) t)"
    by (rule irq_dispatch_run) (use f n t(1,2) in auto)
  obtain c1 c2 where v: "pic_view (io_trace t) = (c1, c2)" by fastforce
  obtain fs where e: "pic_send_eoi (of_nat n) t = t\<lparr>io_trace := io_trace t @ fs\<rparr>" "scancodes fs = []" "pic_view (io_trace t @ fs) = (c1\<lparr>eois := Suc (eois c1)\<rparr>, c2)"
    using eoi_sent [of n t, OF _ v] n by auto
  obtain m' tr c r k where h: "t = ?s\<lparr>mem := m', io_trace := tr, cur_col := c, cur_row := r, ticks := k\<rparr>" "\<And>a. a \<notin> fb_bytes s \<Longrightarrow> m' a = m a"
    using t(3) by (auto simp: handled_def fb_bytes_def)
  let ?u = "t\<lparr>io_trace := io_trace t @ fs\<rparr>"
  have scr: "screen_bytes (?u\<lparr>if_flag := True\<rparr>) = screen_bytes s"
    by (simp add: h(1) screen_bytes_def fb_bytes_def glyph_addr_def glyph_code_def)
  have "screen_kept t ?u" by (rule screen_kept_frame) (simp_all add: console_same_def)
  then have kept: "screen_kept s ?u"
    using screen_kept_trans screen_kept_frame [OF same off] handled_screen [OF displays_ok [OF D] t(3)] by metis
  have "displays (?u\<lparr>if_flag := True\<rparr>) (term_write (keys_text (scancodes es)) T)"
    by (rule displays_frame [OF t(4)]) (simp_all add: console_same_def)
  moreover have "pic_view (io_trace s) = (c1, c2)" using v t(7) by simp
  ultimately have "idling S (term_write (keys_text (scancodes (es @ fs))) T) (?u\<lparr>if_flag := True\<rparr>)"
    using i scr e(2,3) by (simp add: idling_def h(1))
  moreover have "reads_keys s ?u (of_bool (n = 1)) (es @ fs)" using t(6,8,9) e(2) by (simp add: reads_keys_def h(1) answered_silent)
  moreover have "mem ?u a = mem s a" if "a \<notin> S \<union> fb_bytes s" for a using that h m by simp
  moreover have "mm_same s ?u" "fb_bytes ?u = fb_bytes s" by (simp_all add: h(1) mm_same_def fb_bytes_def)
  ultimately show ?thesis using run e(1,3) t(5-7) v kept by (intro exI [of _ ?u] exI [of _ "es @ fs"]) simp
qed

text \<open>One interrupt, and any number of them.\<close>

lemma idle_step_keeps:
  assumes I: "idling S T s" and step: "idle_step S n s u"
  shows "(n = 0 \<or> n = 1) \<and> (\<exists>es. reads_keys s u (of_bool (n = 1)) es \<and> idling S (term_write (keys_text (scancodes es)) T) u) \<and> screen_kept s u \<and>
    ticks u = ticks s + of_bool (n = 0) \<and> mm_same s u \<and> fb_bytes u = fb_bytes s \<and> (\<forall>a. a \<notin> S \<union> fb_bytes s \<longrightarrow> mem u a = mem s a)"
  using step
proof cases
  case (irq m f t)
  have n: "n = 0 \<or> n = 1" using unmasked_lines [of s n] I irq by (simp add: idling_def)
  from idle_entry [OF I n irq(5,6)] irq(7) obtain es where e: "reads_keys s t (of_bool (n = 1)) es" "idling S (term_write (keys_text (scancodes es)) T) u"
    "screen_kept s t" "ticks t = ticks s + of_bool (n = 0)" "mm_same s t" "fb_bytes t = fb_bytes s" "\<forall>a. a \<notin> S \<union> fb_bytes s \<longrightarrow> mem t a = mem s a"
    by (auto simp: irq(1))
  have "screen_kept t u" by (rule screen_kept_frame) (simp_all add: irq(1) console_same_def)
  moreover have "reads_keys s u (of_bool (n = 1)) es" using e(1) by (simp add: irq(1) reads_keys_def)
  moreover have "fb_bytes u = fb_bytes s" using e(6) by (simp add: irq(1) fb_bytes_def)
  ultimately show ?thesis using n e screen_kept_trans [OF e(3)] by (auto simp: irq(1) mm_same_def)
qed

lemma idle_run_keeps:
  assumes "idle_run S ns s t" and "idling S T s"
  shows "set ns \<subseteq> {0, 1} \<and> (\<exists>es. reads_keys s t (count_list ns 1) es \<and> idling S (term_write (keys_text (scancodes es)) T) t) \<and> screen_kept s t \<and>
    ticks t = ticks s + of_nat (count_list ns 0) \<and> mm_same s t \<and> fb_bytes t = fb_bytes s \<and> (\<forall>a. a \<notin> S \<union> fb_bytes s \<longrightarrow> mem t a = mem s a)"
  using assms
proof (induction rule: idle_run.induct)
  case (start s)
  then show ?case by (auto simp: mm_same_def term_write_def reads_keys_def intro: exI [of _ "[]"])
next
  case (wake ns s t n u)
  from wake.IH [OF wake.prems] obtain es where t: "set ns \<subseteq> {0, 1}" "reads_keys s t (count_list ns 1) es" "idling S (term_write (keys_text (scancodes es)) T) t"
    "screen_kept s t" "ticks t = ticks s + of_nat (count_list ns 0)" "mm_same s t" "fb_bytes t = fb_bytes s" "\<And>a. a \<notin> S \<union> fb_bytes s \<Longrightarrow> mem t a = mem s a" by blast
  from idle_step_keeps [OF t(3) wake.hyps(2)] obtain fs where u: "n = 0 \<or> n = 1" "reads_keys t u (of_bool (n = 1)) fs"
    "idling S (term_write (keys_text (scancodes fs)) (term_write (keys_text (scancodes es)) T)) u" "screen_kept t u" "ticks u = ticks t + of_bool (n = 0)"
    "mm_same t u" "fb_bytes u = fb_bytes t" "\<And>a. a \<notin> S \<union> fb_bytes t \<Longrightarrow> mem u a = mem t a" by blast
  have "idling S (term_write (keys_text (scancodes (es @ fs))) T) u" using u(3) by (simp add: term_write_append)
  moreover have "reads_keys s u (count_list (ns @ [n]) 1) (es @ fs)" using reads_keys_trans [OF t(2) u(2)] by (auto simp: of_bool_def)
  moreover have "mm_same s u" using t(6) u(6) by (simp add: mm_same_def)
  moreover have "ticks u = ticks s + of_nat (count_list (ns @ [n]) 0)" using t(5) u(1,5) by (auto simp: of_bool_def)
  moreover have "set (ns @ [n]) \<subseteq> {0, 1}" "fb_bytes u = fb_bytes s" "\<forall>a. a \<notin> S \<union> fb_bytes s \<longrightarrow> mem u a = mem s a" using t u by auto
  ultimately show ?case using screen_kept_trans [OF t(4) u(4)] by blast
qed

text \<open>The loop never ends: any sequence of interrupts on the two lines can be served.\<close>

lemma idle_frame:
  assumes "\<And>a. unat (a - (f + 120)) < 8 \<Longrightarrow> a \<in> S"
  shows "f_vector (store64 m (f + 120) v) f = v" and "a \<notin> S \<Longrightarrow> store64 m (f + 120) v a = m a"
proof -
  show "f_vector (store64 m (f + 120) v) f = v" by (simp add: f_vector_def)
  assume "a \<notin> S"
  then have "8 \<le> unat (a - (f + 120))" using assms [of a] by (meson not_le)
  then show "store64 m (f + 120) v a = m a" by (simp add: store64_def store_le_other)
qed

lemma unmasked_open:
  assumes "imr (fst (pic_view (io_trace s))) = 0xFC" and "n = 0 \<or> n = 1"
  shows "unmasked n s"
  using assms by (auto simp: unmasked_def Let_def case_prod_beta bit_numeral_rec)

lemma idle_forever:
  assumes "idling S T s" and "\<And>a. unat (a - (f + 120)) < 8 \<Longrightarrow> a \<in> S" and "set ns \<subseteq> {0, 1}"
  shows "\<exists>t. idle_run S ns s t"
  using assms(3)
proof (induction ns rule: rev_induct)
  case (snoc n ns)
  then obtain t where t: "idle_run S ns s t" by auto
  obtain T' where I: "idling S T' t" using idle_run_keeps [OF t assms(1)] by blast
  let ?m = "store64 (mem t) (f + 120) (of_nat (IRQ_VECTOR_BASE + n))"
  have n: "n = 0 \<or> n = 1" using snoc.prems by simp
  note fr = idle_frame [OF assms(2)]
  obtain u where "irq_dispatch run_handler f (t\<lparr>mem := ?m, if_flag := False\<rparr>) = Some u"
    using idle_entry [OF I n fr(2) fr(1)] by blast
  then have "idle_step S n t (u\<lparr>if_flag := True\<rparr>)"
    using I n unmasked_open [of t n] by (intro idle_step.irq [OF _ _ _ fr(2) fr(1)]) (auto simp: idling_def)
  then show ?case using idle_run.wake [OF t] by blast
qed (use idle_run.start in blast)

end
