(* ===== verification/Kernel_Contract.thy ===== *)
theory Kernel_Contract
  imports Kernel_Idle
begin

text \<open>
  The properties of the whole kernel: \<open>kmain\<close> brings every part up, or stops for a reason that is
  stated; from then on every interrupt is served and keeps what was brought up.
\<close>

subsection \<open>What the boot loader provides\<close>

text \<open>
  A framebuffer that can be drawn on with the linked font, neither of them in the stack slot that the
  reload of the code segment uses.
\<close>

definition screen_given :: "limine_framebuffer \<Rightarrow> 'a console_scheme \<Rightarrow> bool" where
  "screen_given fb s \<longleftrightarrow> good_font s \<and> fb_ok (fb_geometry fb s) \<and> blank_font (fb_geometry fb s) \<and>
     (\<forall>a \<in> screen_bytes (fb_geometry fb s). 16 \<le> unat (a - (rsp s - 16)))"

text \<open>The machine at the entry of \<open>kmain\<close>: devices that answer and no handler installed.\<close>

definition machine_given :: "'a arch_scheme \<Rightarrow> bool" where
  "machine_given s \<longleftrightarrow> uart_live (device s) \<and> pic_device (device s) \<and> handlers s = replicate 16 None"

text \<open>
  The memory the boot loader describes, and that the screen and the stack, \<open>scr\<close>, are no usable part of it but lie where the
  kernel's own tables map them: in a region of the map, through the direct map, or in the image.
\<close>

definition memory_given :: "kernel_image \<Rightarrow> kernel_address \<Rightarrow> memmap_entry list \<Rightarrow> u64 \<Rightarrow> u64 set \<Rightarrow> bool" where
  "memory_given img k mm h scr \<longleftrightarrow> limine_memmap mm \<and> unat (init_total mm) \<le> 2 ^ 40 \<and> direct_map h (unat (init_total mm)) \<and>
     boot_layout img k mm h \<and> (\<forall>a \<in> scr. dm_frame h a \<notin> unat ` usable_set mm \<and> boot_mapped img mm h a)"

definition all_given :: "boot_info \<Rightarrow> limine_framebuffer \<Rightarrow> memmap_entry list \<Rightarrow> u64 \<Rightarrow> kernel_address \<Rightarrow> bool" where
  "all_given b fb mm h k \<longleftrightarrow> limine_base_revision b = 0 \<and> (\<exists>fbs. framebuffer_response b = Some (fb # fbs)) \<and> memmap_response b = Some mm \<and>
     hhdm_response b = Some h \<and> executable_address_response b = Some k"

subsection \<open>The boot as a whole\<close>

abbreviation start_terminal :: "limine_framebuffer \<Rightarrow> 'a console_scheme \<Rightarrow> terminal" where
  "start_terminal fb s \<equiv> blank_terminal (unat (cols (fb_geometry fb s))) (unat (rows (fb_geometry fb s)))"



lemma screen_kept_bytes: "screen_kept s t \<Longrightarrow> screen_bytes t = screen_bytes s"
  unfolding screen_bytes_def by (simp only: screen_kept_fields) (simp add: screen_kept_def)


lemma kmain_result:
  fixes s :: "'a timer_scheme"
  assumes b: "all_given b fb mm h k" and m: "machine_given s" and scr: "screen_given fb s"
    and mem: "memory_given (kernel_symbols b) k mm h (screen_bytes (fb_geometry fb s))"
  shows "case kmain b s of None \<Rightarrow> False | Some (Inl (e, u)) \<Rightarrow> memory_halt (kernel_symbols b) k mm h (rsp s) e
    | Some (Inr u) \<Rightarrow> memory_up (kernel_symbols b) k mm h u \<and> displays u (term_write (boot_text @ live_msg) (start_terminal fb s)) \<and>
        if_flag u \<and> handlers u = Some Timer_irq # Some Keyboard_irq # replicate 14 None \<and> ticks u = ticks s \<and> tick_hz u = 100 \<and>
        imr (fst (pic_view (io_trace u))) = 0xFC \<and> imr (snd (pic_view (io_trace u))) = 0xFF \<and> device u = device s \<and>
        screen_kept (fb_geometry fb s) u"
proof -
  obtain fbs where resp: "limine_base_revision b = 0" "framebuffer_response b = Some (fb # fbs)" "memmap_response b = Some mm"
    "hhdm_response b = Some h" "executable_address_response b = Some k" using b by (auto simp: all_given_def)
  note m' = m [unfolded machine_given_def] and scr' = scr [unfolded screen_given_def] and mem' = mem [unfolded memory_given_def]
  obtain v where v: "kmain b s = kmain_memory b v" "displays v (term_write boot_text (start_terminal fb s))" "device v = device s" "rsp v = rsp s"
    "screen_bytes v = screen_bytes (fb_geometry fb s)" "screen_kept (fb_geometry fb s) v" "handlers v = Some Timer_irq # Some Keyboard_irq # replicate 14 None" "tick_hz v = 100" "ticks v = ticks s"
    "phase (fst (pic_view (io_trace v))) = Idle" "phase (snd (pic_view (io_trace v))) = Idle"
    "imr (fst (pic_view (io_trace v))) = 0xFF" "imr (snd (pic_view (io_trace v))) = 0xFF"
    using kmain_first_stage [of s b fb fbs] m' scr' resp by (auto simp: Let_def case_prod_beta)
  have "case kmain_memory b v of None \<Rightarrow> False | Some (Inl (e, u)) \<Rightarrow> memory_halt (kernel_symbols b) k mm h (rsp v) e
    | Some (Inr u) \<Rightarrow> gone_live (kernel_symbols b) k mm h (term_write boot_text (start_terminal fb s)) v u"
    by (rule kmain_memory_step [OF resp(3-5) _ _ _ _ v(2)]) (use mem' m' v in auto)
  then show ?thesis
    unfolding v(1,4) using v screen_kept_trans [OF v(6)] by (auto simp: gone_live_def term_write_append split: option.splits sum.splits prod.splits)
qed

subsection \<open>A machine that boots\<close>

text \<open>
  A UART, two interrupt controllers and a keyboard whose A key is held; the small font linked into the image; a framebuffer
  for two by two characters in the map's second region, its rows 80 bytes apart.
\<close>

definition demo_board :: "io_event list \<Rightarrow> u16 \<Rightarrow> u8" where
  "demo_board tr p = (if p = PIC1_DATA then imr (fst (pic_view tr)) else if p = PIC2_DATA then imr (snd (pic_view tr)) else demo_keys tr p)"

definition demo_rom :: memory where "demo_rom = (\<lambda>a. demo_font (a + 0x8000F000))"

definition demo_boot :: timer where
  "demo_boot = console.extend (demo_console\<lparr>mem := demo_rom, font_psf := 0xffffffff80001000, device := demo_board, rsp := 0xffffffff80002800\<rparr>)
     (timer.fields 0 0)"

definition demo_fb :: limine_framebuffer where
  "demo_fb = \<lparr>lfb_address = 0xffff800000008000, lfb_width = 16, lfb_height = 4, lfb_pitch = 80, lfb_bpp = 32\<rparr>"

definition demo_info :: boot_info where
  "demo_info = \<lparr>limine_base_revision = 0, framebuffer_response = Some [demo_fb], memmap_response = Some demo_map,
     hhdm_response = Some demo_hhdm, executable_address_response = Some demo_kaddr, kernel_symbols = demo_image\<rparr>"

lemma demo_board_live: "uart_live demo_board"
  unfolding uart_live_def
proof
  fix tr
  show "\<exists>k. demo_board (lsr_polls demo_board k tr) LSR AND 0x20 \<noteq> 0"
  proof (cases "even (length tr)")
    case True
    then show ?thesis by (intro exI [of _ 1]) (simp add: demo_board_def demo_keys_def demo_uart_def LSR_def COM1_def pic_ports)
  next
    case False
    then show ?thesis by (intro exI [of _ 0]) (simp add: demo_board_def demo_keys_def demo_uart_def LSR_def COM1_def pic_ports)
  qed
qed

lemma demo_rom_header:
  "psf_magic demo_rom 0xffffffff80001000 = PSF2_MAGIC" "psf_headersize demo_rom 0xffffffff80001000 = 32" "psf_length demo_rom 0xffffffff80001000 = 66"
  "psf_charsize demo_rom 0xffffffff80001000 = 2" "psf_height demo_rom 0xffffffff80001000 = 2" "psf_width demo_rom 0xffffffff80001000 = 8"
  by (simp_all add: psf_magic_def psf_headersize_def psf_length_def psf_charsize_def psf_height_def psf_width_def PSF2_MAGIC_def
      demo_rom_def demo_font_def load32_word)

abbreviation demo_view :: timer where "demo_view \<equiv> fb_geometry demo_fb demo_boot"

lemma demo_view_fields [simp]:
  "fb_base demo_view = 0xffff800000008000" "fb_width demo_view = 16" "fb_height demo_view = 4" "fb_pitch demo_view = 80"
  "fb_bytes_pp demo_view = 4" "glyph_data demo_view = 0xffffffff80001020" "glyph_count demo_view = 66" "glyph_w demo_view = 8"
  "glyph_h demo_view = 2" "glyph_bytes demo_view = 2" "gw_bytes demo_view = 1" "cols demo_view = 2" "rows demo_view = 2"
  "mem demo_view = demo_rom" "mem demo_boot = demo_rom" "font_psf demo_boot = 0xffffffff80001000" "rsp demo_boot = 0xffffffff80002800" "device demo_boot = demo_board"
  "handlers demo_boot = replicate 16 None" "ticks demo_boot = 0"
  by (simp_all add: fb_geometry_def geometry_def demo_boot_def demo_console_def demo_fb_def Let_def arch.defs console.defs timer.defs demo_rom_header
      cold_arch_def)

text \<open>The framebuffer, and the 256 bytes at the font's glyphs.\<close>

lemma demo_glyphs:
  assumes "unat r < 2" and "unat cx < 8"
  shows "\<exists>d < 256. glyph_addr demo_view (glyph_code demo_view ch) r cx = 0xffffffff80001020 + of_nat d"
proof -
  let ?c = "glyph_code demo_view ch"
  have "unat (ucast ch :: u32) = unat ch" using unat_lt2p [of ch] by (simp add: unsigned_ucast_eq take_bit_nat_def)
  then have c: "unat ?c < 66" by (simp add: glyph_code_def word_le_nat_alt)
  have "unat (of_nat (2 * unat ?c) :: u32) = 2 * unat ?c" using c by (simp only: unat_of_nat) simp
  then have "(ucast (of_nat (2 * unat ?c) :: u32) :: u64) = of_nat (2 * unat ?c)" by (metis of_nat_unat)
  moreover have "ucast ?c * 2 = (of_nat (2 * unat ?c) :: u32)" by (simp add: mult.commute)
  ultimately have "(ucast (ucast ?c * 2 :: u32) :: u64) = of_nat (2 * unat ?c)" by (simp only:)
  moreover have "drop_bit 3 cx = 0" using assms(2) by (simp add: drop_bit_eq_div unat_div word_unat_eq_iff)
  moreover have "(ucast r :: u64) = of_nat (unat r)" by simp
  ultimately have "glyph_addr demo_view ?c r cx = 0xffffffff80001020 + of_nat (2 * unat ?c + unat r)" by (simp add: glyph_addr_def)
  then show ?thesis using c assms(1) by (intro exI [of _ "2 * unat ?c + unat r"]) simp
qed

lemma demo_screen_bytes:
  assumes "a \<in> screen_bytes demo_view"
  shows "0xffff800000008000 \<le> unat a \<and> unat a < 0xffff800000008000 + 320 \<or> 0xffffffff80001020 \<le> unat a \<and> unat a < 0xffffffff80001020 + 256"
proof -
  have near: "unat b \<le> unat (b + d) \<and> unat (b + d) < unat b + n" if "unat d < n" "unat b + n \<le> 2 ^ 64" for b d :: u64 and n
    using that by (simp add: unat_word_ariths)
  have at: "unat (a - 0xffff800000008000) < 320 \<or> (\<exists>ch r cx. unat r < 2 \<and> unat cx < 8 \<and> a = glyph_addr demo_view (glyph_code demo_view ch) r cx)"
    using assms by (simp add: screen_bytes_def fb_bytes_def)
  consider (fb) "unat (a - 0xffff800000008000) < 320" | (glyph) d where "d < 256" "a = 0xffffffff80001020 + of_nat d"
    using at demo_glyphs by blast
  then show ?thesis
  proof cases
    case fb
    then show ?thesis using near [of "a - 0xffff800000008000" 320 "0xffff800000008000"] by simp
  next
    case glyph
    have "unat (of_nat d :: u64) < 256" using glyph(1) by (simp add: unat_of_nat64)
    then show ?thesis using near [of "of_nat d" 256 "0xffffffff80001020"] by (simp add: glyph(2))
  qed
qed

lemma demo_view_ok: "fb_ok demo_view" and demo_view_blank: "blank_font demo_view"
proof -
  have "glyph_addr demo_view (glyph_code demo_view ch) r cx \<notin> fb_bytes demo_view" if rc: "unat r < 2" "unat cx < 8" for ch r cx
  proof -
    obtain d where d: "d < 256" "glyph_addr demo_view (glyph_code demo_view ch) r cx = 0xffffffff80001020 + of_nat d" using demo_glyphs [OF rc] by blast
    have "unat (of_nat d :: u64) = d" using d(1) by (simp add: unat_of_nat64)
    then have "unat (0x7fff7fff9020 + of_nat d :: u64) = 0x7fff7fff9020 + d" using d(1) by (simp add: unat_word_ariths)
    moreover have "0xffffffff80001020 + of_nat d - 0xffff800000008000 = (0x7fff7fff9020 + of_nat d :: u64)" by simp
    ultimately show ?thesis unfolding d(2) by (simp add: fb_bytes_def)
  qed
  then show "fb_ok demo_view" by (simp add: fb_ok_def)
  have "glyph_pix demo_view 0 i j = bg" if "i < 2" "j < 8" for i j
  proof -
    have "drop_bit 3 (of_nat j :: u32) = 0" by (rule word_unat_eq_iff [THEN iffD2]) (use that(2) in \<open>simp add: drop_bit_eq_div unat_div unat_of_nat\<close>)
    moreover have "demo_rom (0xffffffff80001020 + ucast (of_nat i :: u32)) = 0" using that(1) by (auto simp: demo_rom_def demo_font_def less_2_cases_iff)
    ultimately show ?thesis by (simp add: glyph_pix_def glyph_bit_def glyph_code_def Let_def)
  qed
  then show "blank_font demo_view" by (simp add: blank_font_def)
qed

text \<open>Bytes of the second region, seen through the direct map, and of the image: mapped, and not usable memory.\<close>

lemma demo_region:
  assumes "0xffff800000008000 \<le> unat a \<and> unat a < 0xffff80000000A000 \<or> 0xffffffff80000000 \<le> unat a \<and> unat a < 0xffffffff80003000"
  shows "dm_frame demo_hhdm a \<notin> unat ` usable_set demo_map" and "boot_mapped demo_image demo_map demo_hhdm a"
proof -
  have u: "unat (a - demo_hhdm) = unat a - 0xffff800000000000" using assms by (auto simp: demo_hhdm_def unat_sub_if' word_le_nat_alt)
  then have "dm_frame demo_hhdm a \<in> {8, 9} \<or> 14 \<le> dm_frame demo_hhdm a" using assms by (auto simp: dm_frame_def)
  then show "dm_frame demo_hhdm a \<notin> unat ` usable_set demo_map" by (auto simp: demo_usable word_less_nat_alt word_le_nat_alt)
  show "boot_mapped demo_image demo_map demo_hhdm a"
    using assms u by (auto simp: boot_mapped_def demo_map_def demo_image_def word_le_nat_alt word_less_nat_alt)
qed


lemma demo_given:
  "all_given demo_info demo_fb demo_map demo_hhdm demo_kaddr" "machine_given demo_boot" "screen_given demo_fb demo_boot"
  "memory_given (kernel_symbols demo_info) demo_kaddr demo_map demo_hhdm (screen_bytes demo_view)"
proof -
  show "all_given demo_info demo_fb demo_map demo_hhdm demo_kaddr" by (simp add: all_given_def demo_info_def)
  show "machine_given demo_boot" by (simp add: machine_given_def demo_board_live pic_device_def) (simp add: demo_board_def pic_ports)
  have "16 \<le> unat (a - (rsp demo_boot - 16))" if "a \<in> screen_bytes demo_view" for a
    using demo_screen_bytes [OF that] by (auto simp: unat_sub_if' word_less_nat_alt word_le_nat_alt)
  then show "screen_given demo_fb demo_boot"
    using demo_view_ok demo_view_blank by (simp add: screen_given_def good_font_def demo_rom_header)
  show "memory_given (kernel_symbols demo_info) demo_kaddr demo_map demo_hhdm (screen_bytes demo_view)"
    using demo_map_ok demo_layout demo_direct_map demo_region demo_screen_bytes by (fastforce simp: memory_given_def demo_info_def demo_sizes)
qed

lemma demo_no_halt: "\<not> memory_halt demo_image demo_kaddr demo_map demo_hhdm (rsp demo_boot) e"
proof -
  have "{2, 3, 4, 5, 6, 7, 10} \<subseteq> usable_set demo_map - bitmap_frames 0x1000 2"
    by (simp add: demo_usable bitmap_frames_def word_less_nat_alt word_le_nat_alt)
  then have "card {2, 3, 4, 5, 6, 7, 10 :: u64} \<le> card (usable_set demo_map - bitmap_frames 0x1000 2)" by (rule card_mono [OF finite])
  then have "6 < card (usable_set demo_map - bitmap_frames 0x1000 2)" by simp
  moreover have "boot_mapped demo_image demo_map demo_hhdm 0xffffffff80002800" "boot_mapped demo_image demo_map demo_hhdm (load_cr3_code demo_image)"
    by (simp_all add: boot_mapped_def demo_image_def)
  ultimately show ?thesis using demo_tables by (auto simp: memory_halt_def demo_sizes) (simp add: demo_map_def usable_def)
qed



subsection \<open>The running kernel\<close>


text \<open>The last page of the image as the stack.\<close>

definition demo_stack :: "u64 set" where "demo_stack = {a. unat (a - 0xffffffff80002000) < 4096}"

lemma demo_stack_high: "a \<in> demo_stack \<Longrightarrow> 0xffffffff80002000 \<le> unat a"
proof -
  define d where "d = a - 0xffffffff80002000"
  then have a: "a = 0xffffffff80002000 + d" by simp
  have "unat (0xffffffff80002000 + d) = 0xffffffff80002000 + unat d" if "unat d < 4096" using that by (simp add: unat_word_ariths)
  then show "a \<in> demo_stack \<Longrightarrow> 0xffffffff80002000 \<le> unat a" by (simp add: demo_stack_def d_def [symmetric]) (simp add: a)
qed


lemma demo_stack_off: "demo_stack \<inter> screen_bytes demo_view = {}"
  using demo_stack_high demo_screen_bytes by fastforce


lemma demo_running: "\<exists>u. kmain demo_info demo_boot = Some (Inr u) \<and> idling demo_stack (term_write (boot_text @ live_msg) (blank_terminal 2 2)) u"
proof -
  obtain u where u: "kmain demo_info demo_boot = Some (Inr u)"
    using kmain_result [OF demo_given] demo_no_halt by (auto simp: demo_info_def split: option.splits sum.splits prod.splits)
  note B = kmain_result [OF demo_given, unfolded u option.case sum.case]
  then have "screen_bytes u = screen_bytes demo_view" using screen_kept_bytes by blast
  then have "idling demo_stack (term_write (boot_text @ live_msg) (blank_terminal 2 2)) u"
    using B demo_given(2) demo_stack_off by (simp add: idling_def machine_given_def)
  then show ?thesis using u by blast
qed

lemma demo_frame: "unat (a - (0xffffffff80002700 + 120)) < 8 \<Longrightarrow> a \<in> demo_stack"
proof -
  define d where "d = a - (0xffffffff80002700 + 120)"
  then have a: "a = 0xffffffff80002778 + d" by simp
  then have "unat (a - 0xffffffff80002000) < 4096" if "unat d < 8" using that by (simp add: unat_word_ariths)
  then show "unat (a - (0xffffffff80002700 + 120)) < 8 \<Longrightarrow> a \<in> demo_stack" by (simp add: demo_stack_def d_def)
qed



text \<open>C14 (liveness): no interrupt hangs the kernel. In every state of the idle loop an interrupt on an open line, with any frame
  that carries its vector, is dispatched, its handler returns, the interrupt is acknowledged, and the loop is back with interrupts enabled.\<close>

theorem idle_serves:
  fixes s :: "'a timer_scheme"
  assumes "idling S T s" and "n < 16" and "unmasked n s" and "\<forall>a. a \<notin> S \<longrightarrow> m a = mem s a" and "f_vector m f = of_nat (32 + n)"
  shows "\<exists>u. irq_dispatch run_handler f (s\<lparr>mem := m, if_flag := False\<rparr>) = Some u \<and> idle_step S n s (u\<lparr>if_flag := True\<rparr>) \<and>
    (\<exists>T'. idling S T' (u\<lparr>if_flag := True\<rparr>)) \<and> eois (fst (pic_view (io_trace u))) = Suc (eois (fst (pic_view (io_trace s))))"
proof -
  have n: "n = 0 \<or> n = 1" using unmasked_lines [of s n] assms(1-3) by (simp add: idling_def)
  have m: "\<And>a. a \<notin> S \<Longrightarrow> m a = mem s a" and f: "f_vector m f = of_nat (IRQ_VECTOR_BASE + n)" using assms(4,5) by simp_all
  obtain u es where u: "irq_dispatch run_handler f (s\<lparr>mem := m, if_flag := False\<rparr>) = Some u" "idling S (term_write (keys_text (scancodes es)) T) (u\<lparr>if_flag := True\<rparr>)"
    "eois (fst (pic_view (io_trace u))) = Suc (eois (fst (pic_view (io_trace s))))"
    using idle_entry [OF assms(1) n m f] by blast
  moreover have "idle_step S n s (u\<lparr>if_flag := True\<rparr>)"
    using idle_step.irq [OF _ _ assms(3) m f u(1)] assms(1,2) by (simp add: idling_def)
  ultimately show ?thesis by blast
qed

theorem idle_serves_witness:
  "\<exists>s u. kmain demo_info demo_boot = Some (Inr s) \<and>
     irq_dispatch run_handler 0xffffffff80002700 (s\<lparr>mem := store64 (mem s) (0xffffffff80002700 + 120) 33, if_flag := False\<rparr>) = Some u \<and>
     idle_step demo_stack 1 s (u\<lparr>if_flag := True\<rparr>)"
proof -
  obtain s where s: "kmain demo_info demo_boot = Some (Inr s)" "idling demo_stack (term_write (boot_text @ live_msg) (blank_terminal 2 2)) s"
    using demo_running by blast
  have "unmasked 1 s" using s(2) unmasked_open [of s 1] by (simp add: idling_def)
  note fr = idle_frame [where f = "0xffffffff80002700" and S = demo_stack, OF demo_frame]
  let ?m = "store64 (mem s) (0xffffffff80002700 + 120) 33"
  have "\<forall>a. a \<notin> demo_stack \<longrightarrow> ?m a = mem s a" using fr(2) by blast
  moreover have "f_vector ?m 0xffffffff80002700 = of_nat (32 + 1)" by (simp add: f_vector_def)
  moreover have "(1 :: nat) < 16" by simp
  ultimately obtain u where "irq_dispatch run_handler 0xffffffff80002700 (s\<lparr>mem := ?m, if_flag := False\<rparr>) = Some u" "idle_step demo_stack 1 s (u\<lparr>if_flag := True\<rparr>)"
    using idle_serves [OF s(2) _ \<open>unmasked 1 s\<close>] by blast
  then show ?thesis using s(1) by blast
qed

text \<open>C15 (error): a missing response. When the boot loader does not support the protocol revision or leaves out a response,
  \<open>kmain\<close> names the first one missing, in the order it needs them, as the last line on the serial port, masks interrupts and halts;
  it does not go on with the parts that depend on it.\<close>

theorem kmain_missing:
  fixes s :: "'a timer_scheme"
  assumes "first_missing b = Some why" and "machine_given s"
    and "\<forall>fb fbs. framebuffer_response b = Some (fb # fbs) \<longrightarrow> screen_given fb s"
    and "\<forall>mm. memmap_response b = Some mm \<longrightarrow> limine_memmap mm \<and> (\<exists>e \<in> set mm. usable e \<and> init_bytes mm \<le> me_length e)"
  shows "\<exists>t u. kmain b s = Some (Inl (KernelHalt why, u\<lparr>if_flag := False\<rparr>)) \<and> sends (crlf (why @ nl)) t u"
proof (cases "limine_base_revision b = 0 \<and> framebuffer_response b \<noteq> None \<and> framebuffer_response b \<noteq> Some []")
  case True
  then obtain fb fbs where fb: "limine_base_revision b = 0" "framebuffer_response b = Some (fb # fbs)" by (metis list.exhaust option.exhaust)
  then obtain v where "kmain b s = kmain_memory b v" "device v = device s"
    using kmain_first_stage [of s b fb fbs] assms(2,3) by (auto simp: machine_given_def screen_given_def)
  then show ?thesis using kmain_memory_missing [OF _ fb assms(1), of v] assms(2,4) by (auto simp: machine_given_def)
next
  case False
  have "device (serial_init s) = device s" by (simp add: serial_init_def Let_def outb_def)
  then obtain s2 where s2: "serial_write (''ScrapOS booted'' @ nl) (serial_init s) = Some s2" "sends (crlf (''ScrapOS booted'' @ nl)) (serial_init s) s2"
    using printsD [OF prints_write] assms(2) unfolding machine_given_def by metis
  then have dev: "uart_live (device s2)" using assms(2) \<open>device (serial_init s) = device s\<close> by (auto simp: sends_def machine_given_def)
  have "kmain b s = die why s2"
    unfolding kmain_def Let_def s2(1) Option.bind.simps using False assms(1) by (auto simp: first_missing_def split: if_splits option.splits)
  then show ?thesis using die_step [OF dev] by metis
qed

theorem kmain_missing_witness:
  "\<exists>t u. kmain (demo_info\<lparr>hhdm_response := None\<rparr>) demo_boot = Some (Inl (KernelHalt ''error: no HHDM offset provided'', u\<lparr>if_flag := False\<rparr>)) \<and>
     sends (crlf (''error: no HHDM offset provided'' @ nl)) t u"
proof (rule kmain_missing)
  show "first_missing (demo_info\<lparr>hhdm_response := None\<rparr>) = Some ''error: no HHDM offset provided''" by (simp add: first_missing_def demo_info_def)
  show "\<forall>fb fbs. framebuffer_response (demo_info\<lparr>hhdm_response := None\<rparr>) = Some (fb # fbs) \<longrightarrow> screen_given fb demo_boot"
    using demo_given(3) by (simp add: demo_info_def)
  show "\<forall>mm. memmap_response (demo_info\<lparr>hhdm_response := None\<rparr>) = Some mm \<longrightarrow> limine_memmap mm \<and> (\<exists>e \<in> set mm. usable e \<and> init_bytes mm \<le> me_length e)"
    using demo_map_ok demo_sizes by (simp add: demo_info_def) (simp add: demo_map_def usable_def)
qed (rule demo_given(2))

end
