(* ===== verification/Spec2Isabelle.thy ===== *)
theory Spec2Isabelle
  imports Cstring Sched_Contract Isr Font Kernel_Contract
begin

text \<open>
  A model of the ScrapOS kernel (\<^verbatim>\<open>src/kernel\<close>) and the theorems that make it correct, from single bytes
  of memory up to the booted machine that answers interrupts.

  \<^bold>\<open>The program.\<close> \<^verbatim>\<open>kernel.c\<close> is entered by the Limine boot loader with a memory map, a framebuffer and the place of
  its own image. It brings up the serial port, the framebuffer console, the x86_64 tables and interrupt
  controllers (\<^verbatim>\<open>arch/x86_64\<close>), the timer and keyboard (\<^verbatim>\<open>drivers\<close>), then the memory managers (\<^verbatim>\<open>core/mm\<close>), each on top of the one
  before: a bitmap of physical frames, page tables built from its frames, a buddy allocator
  that takes over most of them, and a slab heap on the buddy's pages. It then idles and serves interrupts. A cooperative scheduler
  (\<^verbatim>\<open>core/sched\<close>) keeps its tasks on the heap; the entry point does not start it yet.

  \<^bold>\<open>State.\<close> One record, extended per layer: \<open>machine\<close> (byte memory, port history, device, control registers,
  stack pointer), then \<open>pmm\<close>, \<open>paging\<close>, \<open>buddy\<close>, \<open>slab\<close>, and on the heap \<open>sched\<close>, or \<open>arch\<close>, \<open>console\<close>, \<open>timer\<close>. The static
  variables of a file are the fields its record adds; structures the code keeps in memory (free-list nodes, slab headers, page tables,
  tasks, stacks, pixels) are bytes of \<open>mem\<close> at their C offsets. A function of a lower layer applies unchanged to the state of a higher one. Integers have their C widths.
  A function that may loop for ever is a \<^verbatim>\<open>partial_function\<close> in the option type; one that stops the machine returns
  the reason, a value of \<open>halt\<close>.

  \<^bold>\<open>Theories.\<close>
  \<^item> \<open>Prelude\<close>, \<open>Machine\<close>: words, lists, byte memory, port input and output (\<^verbatim>\<open>io.h\<close>), the direct map.
  \<^item> \<open>Cstring\<close>: \<^verbatim>\<open>lib/string.c\<close>. Each loop equals its simultaneous effect on memory; \<open>memmove\<close> in every overlap.
  \<^item> \<open>Serial\<close>, \<open>Print\<close>: \<^verbatim>\<open>lib/serial.c\<close> and the number printers. What goes out on the wire, that polling ends if the
    transmitter drains, that printed numbers read back. \<open>Print\<close> composes printers.
  \<^item> \<open>Pmm\<close>: \<^verbatim>\<open>pmm.c\<close>. The invariant ties bitmap, counters and hint to the set of free frames; the locale \<open>frame_allocator\<close>
    is what clients rely on.
  \<^item> \<open>Paging\<close>, \<open>Vmm\<close>, \<open>Vmm_Init\<close>: \<^verbatim>\<open>paging.c\<close>, \<^verbatim>\<open>vmm.c\<close>. Tables form a tree of frames; map, unmap and translate act on the
    translation as a function; the address space after \<open>vmm_init\<close> is described completely, and so is the number of frames it takes.
  \<^item> \<open>Buddy\<close>, \<open>Buddy_Blocks\<close>, \<open>Buddy_Init\<close>, \<open>Buddy_Owner\<close>: \<^verbatim>\<open>buddy.c\<close>. The linked lists hold exactly the free blocks, which are aligned, disjoint
    and never two free buddies after a free; \<open>block_allocator\<close> is the interface for the heap.
  \<^item> \<open>Slab\<close>, \<open>Slab_Page\<close>, \<open>Slab_Heap\<close>, \<open>Slab_Alloc\<close>, \<open>Slab_Contract\<close>: \<^verbatim>\<open>slab.c\<close>. A view of the slabs and large
    blocks in memory; live objects are disjoint, aligned, large enough and untouched by other calls; \<open>no_room\<close> says exactly when a request
    fails; \<open>object_heap\<close> is the interface for clients.
  \<^item> \<open>Sched\<close>, \<open>Sched_Tasks\<close>, \<open>Sched_Contract\<close>: \<^verbatim>\<open>sched.c\<close>, \<^verbatim>\<open>task.h\<close>, \<^verbatim>\<open>context.asm\<close>. The ring of tasks with their saved contexts refines
    an abstract round-robin queue, pushes and pops of the switch included.
  \<^item> \<open>Arch\<close>, \<open>Isr\<close>: \<^verbatim>\<open>gdt.c\<close>, \<^verbatim>\<open>idt.c\<close>, \<^verbatim>\<open>pic.c\<close>, \<^verbatim>\<open>irq.c\<close>, \<^verbatim>\<open>arch.c\<close>, \<^verbatim>\<open>isr.c\<close>. The tables and registers after the bring-up, what the interrupt controllers
    make of the port writes (the interpreter \<open>pic_view\<close>), dispatch and acknowledgement, and the text of the crash report.
  \<^item> \<open>Console\<close>, \<open>Console_Draw\<close>, \<open>Terminal\<close>, \<open>Terminal_Contract\<close>, \<open>Font\<close>: \<^verbatim>\<open>console.c\<close>, \<^verbatim>\<open>font_psf.h\<close>. The pixels of
    the framebuffer refine an abstract terminal, a grid of characters with a cursor; the locale \<open>raster\<close> carries the drawing loops. \<open>on_screen\<close>
    is the picture by the framebuffer's own address, size and pitch and the font file's own bytes, and \<open>screen_kept\<close> carries it through everything else.
  \<^item> \<open>Timer\<close>, \<open>Keyboard\<close>: \<^verbatim>\<open>timer.c\<close>, \<^verbatim>\<open>keyboard.c\<close>. Programming of the timer, its heartbeat, the echo of keys; a text typed on
    a PC keyboard, by the codes its keys send, appears on the screen and goes out on the serial port.
  \<^item> \<open>Boot\<close>, \<open>Kernel\<close>, \<open>Kernel_Boot\<close>, \<open>Kernel_Idle\<close>, \<open>Kernel_Contract\<close>: \<^verbatim>\<open>kernel.c\<close>. \<open>kmain\<close> as a whole: that it ends in
    the idle loop with everything up at once or stops for a reason the theorem names, what it says when the boot loader left
    something out, and the idle loop as a step relation with its invariant under any sequence of interrupts.

  \<^bold>\<open>Parameters and hypotheses.\<close> The device behind the ports is a function of the bus history: \<open>uart_live\<close> says that the transmitter
  drains, \<open>pic_device\<close> that the mask registers read back, \<open>supplies\<close> which scancodes the keyboard hands over. The boot loader's responses are \<open>boot_info\<close>;
  \<open>limine_memmap\<close>, \<open>direct_map\<close> and \<open>boot_layout\<close> state what its protocol promises of the memory map, the direct map
  and the placement of the image. Link-time addresses are fields or arguments.

  \<^bold>\<open>Bounds and fuel.\<close> No fuel is used. \<open>list_walk\<close>, \<open>ring_tail\<close>, \<open>find_slab\<close>, \<open>serial_spin\<close>, \<open>order_search\<close> and the mapping loops may diverge in C and are partial here;
  the theorems prove that they return under the invariants. Frame numbers are bounded by 2^40, the
  reach of a page-table entry.

  \<^bold>\<open>Not modelled.\<close> The entry stubs of \<^verbatim>\<open>isr_stubs.asm\<close>: the frame they build is an argument of \<open>isr_handler\<close> and \<open>irq_dispatch\<close>, and a step of the
  idle loop allows any content of the stack besides the vector. The stack of C calls inside a handler is not part of \<open>mem\<close>. Interrupts are taken only in the idle
  loop, where the code enables them. The memory a load or store reaches is that of the direct map and the image; the model does not re-translate each access through the
  tables it proves correct. The theorems about the boot and the running kernel therefore ask that the framebuffer, the font and the stack lie where the new
  tables map them, and show that these tables do map every byte of them. The interrupt flag belongs to the layer of the CPU tables: the \<^verbatim>\<open>cli\<close> in the halt loop of
  \<open>vmm_panic\<close>, one layer below, is the end of the run and not a change of the flag. \<^verbatim>\<open>task_trampoline\<close> is an address whose iterations are calls of \<open>sched_yield\<close>. Build files, the linker script, the boot configuration and the
  font generator are not programs of the kernel.
\<close>

end
